(* ===== verification/Prelude.thy ===== *)
theory Prelude
  imports Main "HOL-Library.Char_ord" "HOL-Library.List_Lexorder"
begin

text \<open>
  Shared vocabulary of the development: the character classes and string primitives of the
  C and C++ standard library that the sources call, the ordered containers
  (\<open>std::map\<close>, \<open>std::set\<close>) as ordered association lists, the result type of operations
  that may throw, and the lemmas on them that the component theories use.

  Characters are bytes. The character classes are those of the C locale, which agree with
  every UTF-8 locale on single bytes: a byte above 127 is neither a space, nor alphanumeric,
  nor printable, and has no case.
\<close>

named_theorems char_simps \<open>definitions of the character classes\<close>
named_theorems node_simps \<open>defining equations of the configuration node operations\<close>
named_theorems kmap_simps \<open>lookup rules of the ordered map\<close>

section \<open>Characters\<close>

definition isspace :: "char \<Rightarrow> bool" where
  [char_simps]: "isspace c \<longleftrightarrow>
     c \<in> set [CHR 0x20, CHR 0x09, CHR 0x0A, CHR 0x0B, CHR 0x0C, CHR 0x0D]"

definition ccode :: "char \<Rightarrow> nat" where
  [char_simps]: "ccode c = of_char c"

definition isupper :: "char \<Rightarrow> bool" where
  [char_simps]: "isupper c \<longleftrightarrow> 65 \<le> ccode c \<and> ccode c \<le> 90"

definition islower :: "char \<Rightarrow> bool" where
  [char_simps]: "islower c \<longleftrightarrow> 97 \<le> ccode c \<and> ccode c \<le> 122"

definition isdigit :: "char \<Rightarrow> bool" where
  [char_simps]: "isdigit c \<longleftrightarrow> 48 \<le> ccode c \<and> ccode c \<le> 57"

definition isalnum :: "char \<Rightarrow> bool" where
  [char_simps]: "isalnum c \<longleftrightarrow> isupper c \<or> islower c \<or> isdigit c"

definition isprint :: "char \<Rightarrow> bool" where
  [char_simps]: "isprint c \<longleftrightarrow> 32 \<le> ccode c \<and> ccode c \<le> 126"

definition tolower :: "char \<Rightarrow> char" where
  [char_simps]: "tolower c = (if isupper c then char_of (ccode c + 32) else c)"

definition toupper :: "char \<Rightarrow> char" where
  [char_simps]: "toupper c = (if islower c then char_of (ccode c - 32) else c)"

text \<open>A plain \<open>char\<close> is signed on the platforms the program is built for.\<close>

definition schar :: "char \<Rightarrow> int" where
  [char_simps]: "schar c = (if ccode c < 128 then int (ccode c) else int (ccode c) - 256)"

lemma ccode_less [simp]: "ccode c < 256"
  by (simp add: ccode_def)

lemma ccode_div16_less [simp]: "ccode c div 16 < 16"
  by (rule less_mult_imp_div_less) simp

lemma ccode_eq_iff [simp]: "ccode c = ccode d \<longleftrightarrow> c = d"
  by (simp add: ccode_def)

lemma ccode_char_of [simp]: "n < 256 \<Longrightarrow> ccode (char_of n) = n"
  by (simp add: ccode_def)

lemma ccode_tolower: "ccode (tolower c) = (if isupper c then ccode c + 32 else ccode c)"
  by (simp add: tolower_def isupper_def)

lemma ccode_toupper: "ccode (toupper c) = (if islower c then ccode c - 32 else ccode c)"
  by (auto simp: toupper_def islower_def)

lemma char_eqI_ccode: "ccode c = ccode d \<Longrightarrow> c = d"
  by simp

lemma isupper_tolower [simp]: "\<not> isupper (tolower c)"
  by (auto simp: isupper_def ccode_tolower)

lemma tolower_idem [simp]: "tolower (tolower c) = tolower c"
  using isupper_tolower [of c] by (simp add: tolower_def [of "tolower c"])

lemma toupper_tolower [simp]: "toupper (tolower c) = toupper c"
  by (rule char_eqI_ccode) (auto simp: ccode_toupper ccode_tolower islower_def isupper_def)

lemma tolower_toupper [simp]: "tolower (toupper c) = tolower c"
  by (rule char_eqI_ccode) (auto simp: ccode_toupper ccode_tolower islower_def isupper_def)

lemma schar_eq_iff [simp]: "schar c = schar d \<longleftrightarrow> c = d"
proof
  assume h: "schar c = schar d"
  have rep: "(ccode e < 128 \<and> schar e = int (ccode e)) \<or>
      (128 \<le> ccode e \<and> ccode e < 256 \<and> schar e = int (ccode e) - 256)" for e
    by (auto simp: schar_def)
  have "int (ccode c) = int (ccode d)"
    using h rep [of c] rep [of d] by (elim disjE conjE) linarith+
  then have "ccode c = ccode d" by linarith
  then show "c = d" by simp
qed simp

text \<open>Evaluation of the character functions on binary numbers.\<close>

lemma of_char_int: "(of_char c :: int) = int (ccode c)"
  by (cases c) (simp add: ccode_def)

lemma isupper_code [code]: "isupper c \<longleftrightarrow> (65::int) \<le> of_char c \<and> (of_char c :: int) \<le> 90"
  by (auto simp: isupper_def of_char_int)

lemma islower_code [code]: "islower c \<longleftrightarrow> (97::int) \<le> of_char c \<and> (of_char c :: int) \<le> 122"
  by (auto simp: islower_def of_char_int)

lemma isdigit_code [code]: "isdigit c \<longleftrightarrow> (48::int) \<le> of_char c \<and> (of_char c :: int) \<le> 57"
  by (auto simp: isdigit_def of_char_int)

lemma isprint_code [code]: "isprint c \<longleftrightarrow> (32::int) \<le> of_char c \<and> (of_char c :: int) \<le> 126"
  by (auto simp: isprint_def of_char_int)

lemma schar_code [code]: "schar c = (if (of_char c :: int) < 128 then of_char c else of_char c - 256)"
  by (auto simp: schar_def of_char_int)

lemma char_of_int: "(char_of (int n) :: char) = char_of n"
  by (simp add: char_of_def bit_of_nat_iff)

lemma toupper_code [code]: "toupper c = (if islower c then char_of (of_char c - (32::int)) else c)"
proof (cases "islower c")
  case True
  then have "of_char c - 32 = int (ccode c - 32)" by (simp add: islower_def of_char_int of_nat_diff)
  then show ?thesis using True by (simp only: toupper_def char_of_int)
qed (simp add: toupper_def)

lemma tolower_code [code]: "tolower c = (if isupper c then char_of (of_char c + (32::int)) else c)"
proof -
  have "of_char c + 32 = int (ccode c + 32)" by (simp add: of_char_int)
  then show ?thesis by (simp only: tolower_def char_of_int)
qed

text \<open>Lower case of the characters in the names that the program compares.\<close>

lemma tolower_literals:
  "tolower CHR ''a'' = CHR ''a''" "tolower CHR ''b'' = CHR ''b''" "tolower CHR ''c'' = CHR ''c''"
  "tolower CHR ''d'' = CHR ''d''" "tolower CHR ''e'' = CHR ''e''" "tolower CHR ''f'' = CHR ''f''"
  "tolower CHR ''g'' = CHR ''g''" "tolower CHR ''h'' = CHR ''h''" "tolower CHR ''i'' = CHR ''i''"
  "tolower CHR ''j'' = CHR ''j''" "tolower CHR ''k'' = CHR ''k''" "tolower CHR ''l'' = CHR ''l''"
  "tolower CHR ''m'' = CHR ''m''" "tolower CHR ''n'' = CHR ''n''" "tolower CHR ''o'' = CHR ''o''"
  "tolower CHR ''p'' = CHR ''p''" "tolower CHR ''q'' = CHR ''q''" "tolower CHR ''r'' = CHR ''r''"
  "tolower CHR ''s'' = CHR ''s''" "tolower CHR ''t'' = CHR ''t''" "tolower CHR ''u'' = CHR ''u''"
  "tolower CHR ''v'' = CHR ''v''" "tolower CHR ''w'' = CHR ''w''" "tolower CHR ''x'' = CHR ''x''"
  "tolower CHR ''y'' = CHR ''y''" "tolower CHR ''z'' = CHR ''z''" "tolower CHR ''A'' = CHR ''a''"
  "tolower CHR ''B'' = CHR ''b''" "tolower CHR ''C'' = CHR ''c''" "tolower CHR ''D'' = CHR ''d''"
  "tolower CHR ''E'' = CHR ''e''" "tolower CHR ''F'' = CHR ''f''" "tolower CHR ''G'' = CHR ''g''"
  "tolower CHR ''H'' = CHR ''h''" "tolower CHR ''I'' = CHR ''i''" "tolower CHR ''J'' = CHR ''j''"
  "tolower CHR ''K'' = CHR ''k''" "tolower CHR ''L'' = CHR ''l''" "tolower CHR ''M'' = CHR ''m''"
  "tolower CHR ''N'' = CHR ''n''" "tolower CHR ''O'' = CHR ''o''" "tolower CHR ''P'' = CHR ''p''"
  "tolower CHR ''Q'' = CHR ''q''" "tolower CHR ''R'' = CHR ''r''" "tolower CHR ''S'' = CHR ''s''"
  "tolower CHR ''T'' = CHR ''t''" "tolower CHR ''U'' = CHR ''u''" "tolower CHR ''V'' = CHR ''v''"
  "tolower CHR ''W'' = CHR ''w''" "tolower CHR ''X'' = CHR ''x''" "tolower CHR ''Y'' = CHR ''y''"
  "tolower CHR ''Z'' = CHR ''z''" "tolower CHR ''0'' = CHR ''0''" "tolower CHR ''1'' = CHR ''1''"
  "tolower CHR ''2'' = CHR ''2''" "tolower CHR ''3'' = CHR ''3''" "tolower CHR ''4'' = CHR ''4''"
  "tolower CHR ''5'' = CHR ''5''" "tolower CHR ''6'' = CHR ''6''" "tolower CHR ''7'' = CHR ''7''"
  "tolower CHR ''8'' = CHR ''8''" "tolower CHR ''9'' = CHR ''9''" "tolower CHR ''-'' = CHR ''-''"
  "tolower CHR ''_'' = CHR ''_''" "tolower CHR '' '' = CHR '' ''" "tolower CHR ''/'' = CHR ''/''"
  "tolower CHR ''.'' = CHR ''.''" "tolower CHR '':'' = CHR '':''" "tolower CHR ''+'' = CHR ''+''"
  "tolower CHR ''='' = CHR ''=''"
  by code_simp+

lemma toupper_eq_iff_tolower: "toupper c = toupper d \<longleftrightarrow> tolower c = tolower d"
  by (metis toupper_tolower tolower_toupper)

section \<open>Strings\<close>

text \<open>\<open>c_str\<close>: what a C function sees of a C++ string, up to the first zero byte.\<close>

definition c_str :: "string \<Rightarrow> string" where
  "c_str s = takeWhile (\<lambda>c. c \<noteq> CHR 0x00) s"

definition to_lower :: "string \<Rightarrow> string" where
  "to_lower s = map tolower s"

definition iequals :: "string \<Rightarrow> string \<Rightarrow> bool" where
  "iequals a b \<longleftrightarrow> map tolower a = map tolower b"

definition strcasecmp_eq :: "string \<Rightarrow> string \<Rightarrow> bool" where
  "strcasecmp_eq a b \<longleftrightarrow> map tolower (c_str a) = map tolower (c_str b)"

definition starts_with :: "string \<Rightarrow> string \<Rightarrow> bool" where
  "starts_with s p \<longleftrightarrow> take (length p) s = p"

definition ends_with :: "string \<Rightarrow> string \<Rightarrow> bool" where
  "ends_with s p \<longleftrightarrow> length p \<le> length s \<and> drop (length s - length p) s = p"

definition rstrip :: "string \<Rightarrow> string" where
  "rstrip s = rev (dropWhile isspace (rev s))"

definition trim :: "string \<Rightarrow> string" where
  "trim s = rstrip (dropWhile isspace s)"

text \<open>
  \<open>find c s\<close> and \<open>rfind c s\<close> return the position of the first and of the last
  occurrence; \<open>None\<close> is \<open>npos\<close>.
\<close>

fun find_char :: "char \<Rightarrow> string \<Rightarrow> nat option" where
  "find_char c [] = None"
| "find_char c (x # xs) = (if x = c then Some 0 else map_option Suc (find_char c xs))"

definition rfind_char :: "char \<Rightarrow> string \<Rightarrow> nat option" where
  "rfind_char c s = map_option (\<lambda>i. length s - 1 - i) (find_char c (rev s))"

definition substr :: "string \<Rightarrow> nat \<Rightarrow> nat \<Rightarrow> string" where
  "substr s pos n = take n (drop pos s)"

fun join :: "string list \<Rightarrow> string \<Rightarrow> string" where
  "join [] sep = []"
| "join [x] sep = x"
| "join (x # y # ys) sep = x @ sep @ join (y # ys) sep"

text \<open>\<open>boost::split\<close> at every character in a class, empty tokens kept.\<close>

fun split_at :: "(char \<Rightarrow> bool) \<Rightarrow> string \<Rightarrow> string list" where
  "split_at P [] = [[]]"
| "split_at P (x # xs) =
     (if P x then [] # split_at P xs
      else (case split_at P xs of [] \<Rightarrow> [[x]] | t # ts \<Rightarrow> (x # t) # ts))"

text \<open>\<open>std::getline\<close> until the end of the stream: an empty last piece is not a line.\<close>

definition getlines :: "string \<Rightarrow> string list" where
  "getlines s = (let ls = split_at (\<lambda>c. c = CHR 0x0A) s
                 in if last ls = [] then butlast ls else ls)"

lemma iequals_refl [simp]: "iequals a a"
  by (simp add: iequals_def)

lemma iequals_sym: "iequals a b \<longleftrightarrow> iequals b a"
  by (auto simp: iequals_def)

lemma iequals_trans: "iequals a b \<Longrightarrow> iequals b c \<Longrightarrow> iequals a c"
  by (simp add: iequals_def)

lemma starts_with_append [simp]: "starts_with (p @ s) p"
  by (simp add: starts_with_def)

lemma starts_with_iff: "starts_with s p \<longleftrightarrow> (\<exists>r. s = p @ r)"
  by (metis append_eq_conv_conj append_take_drop_id starts_with_def)

lemma ends_with_iff: "ends_with s p \<longleftrightarrow> (\<exists>r. s = r @ p)"
proof
  assume h: "ends_with s p"
  then have "s = take (length s - length p) s @ p"
    by (metis append_take_drop_id ends_with_def)
  then show "\<exists>r. s = r @ p" by blast
next
  assume "\<exists>r. s = r @ p"
  then show "ends_with s p" by (auto simp: ends_with_def)
qed

lemma find_char_None: "find_char c s = None \<longleftrightarrow> c \<notin> set s"
  by (induction s) auto

lemma find_char_notin [simp]: "c \<notin> set s \<Longrightarrow> find_char c s = None"
  by (simp add: find_char_None)

lemma find_char_split: "c \<notin> set a \<Longrightarrow> find_char c (a @ c # b) = Some (length a)"
  by (induction a) auto

lemma find_char_SomeD:
  "find_char c s = Some i \<Longrightarrow> i < length s \<and> s ! i = c \<and> c \<notin> set (take i s)"
  by (induction s arbitrary: i) (auto split: if_splits)

lemma find_char_decomp:
  assumes "find_char c s = Some i"
  shows "s = take i s @ c # drop (Suc i) s"
  using find_char_SomeD [OF assms] by (metis id_take_nth_drop)

lemma rfind_char_None: "rfind_char c s = None \<longleftrightarrow> c \<notin> set s"
  by (simp add: rfind_char_def find_char_None)

lemma rfind_char_notin [simp]: "c \<notin> set s \<Longrightarrow> rfind_char c s = None"
  by (simp add: rfind_char_None)

lemma rfind_char_split: "c \<notin> set b \<Longrightarrow> rfind_char c (a @ c # b) = Some (length a)"
  using find_char_split [of c "rev b" "rev a"] by (simp add: rfind_char_def)

lemma rfind_char_SomeD:
  assumes "rfind_char c s = Some i"
  shows "i < length s \<and> s ! i = c \<and> c \<notin> set (drop (Suc i) s)"
proof -
  obtain j where j: "find_char c (rev s) = Some j" "i = length s - 1 - j"
    using assms by (auto simp: rfind_char_def)
  from find_char_SomeD [OF j(1)] have lt: "j < length s" and at: "rev s ! j = c"
    and nin: "c \<notin> set (take j (rev s))" by auto
  have "take j (rev s) = rev (drop (length s - j) s)"
    by (simp add: take_rev)
  moreover have "Suc i = length s - j" using j lt by simp
  ultimately show ?thesis using j lt at nin by (simp add: rev_nth)
qed

lemma rfind_char_decomp:
  assumes "rfind_char c s = Some i"
  shows "s = take i s @ c # drop (Suc i) s"
  using rfind_char_SomeD [OF assms] by (metis id_take_nth_drop)

lemma split_at_nonempty [simp]: "split_at P s \<noteq> []"
  by (induction s) (auto split: list.splits)

lemma split_at_none: "(\<And>c. c \<in> set s \<Longrightarrow> \<not> P c) \<Longrightarrow> split_at P s = [s]"
  by (induction s) auto

lemma split_at_append:
  "(\<And>c. c \<in> set a \<Longrightarrow> \<not> P c) \<Longrightarrow> P d \<Longrightarrow> split_at P (a @ d # s) = a # split_at P s"
  by (induction a) auto

lemma getlines_Nil [simp]: "getlines [] = []"
  by (simp add: getlines_def)

lemma getlines_line:
  assumes "CHR 0x0A \<notin> set l"
  shows "getlines (l @ CHR 0x0A # s) = l # getlines s"
proof -
  have "split_at (\<lambda>c. c = CHR 0x0A) (l @ CHR 0x0A # s) = l # split_at (\<lambda>c. c = CHR 0x0A) s"
    using assms by (intro split_at_append) auto
  then show ?thesis by (simp add: getlines_def Let_def)
qed

lemma getlines_concat:
  "(\<And>l. l \<in> set ls \<Longrightarrow> CHR 0x0A \<notin> set l) \<Longrightarrow>
   getlines (concat (map (\<lambda>l. l @ [CHR 0x0A]) ls)) = ls"
  by (induction ls) (auto simp: getlines_line)

lemma rstrip_last: "s = [] \<or> \<not> isspace (last s) \<Longrightarrow> rstrip s = s"
  by (cases s rule: rev_cases) (auto simp: rstrip_def)

lemma rstrip_idem [simp]: "rstrip (rstrip s) = rstrip s"
  by (simp add: rstrip_def)

lemma dropWhile_hd: "s = [] \<or> \<not> P (hd s) \<Longrightarrow> dropWhile P s = s"
  by (cases s) auto

section \<open>Ordered maps\<close>

text \<open>
  \<open>std::map\<close> with a comparison object is an association list kept in the order of a key
  projection \<open>f\<close>: two keys are equivalent when their projections agree. \<open>kput\<close> is
  assignment through \<open>operator[]\<close> (an equivalent key keeps its old spelling), \<open>kinsert\<close>
  is \<open>insert\<close> (an existing entry wins), \<open>kerase\<close> removes the entry of a key.
\<close>

fun kfind :: "('a \<Rightarrow> 'k) \<Rightarrow> 'a \<Rightarrow> ('a \<times> 'v) list \<Rightarrow> 'v option" where
  "kfind f k [] = None"
| "kfind f k ((a, v) # m) = (if f a = f k then Some v else kfind f k m)"

fun kput :: "('a \<Rightarrow> 'k::linorder) \<Rightarrow> 'a \<Rightarrow> 'v \<Rightarrow> ('a \<times> 'v) list \<Rightarrow> ('a \<times> 'v) list" where
  "kput f k v [] = [(k, v)]"
| "kput f k v ((a, w) # m) =
     (if f k < f a then (k, v) # (a, w) # m
      else if f a = f k then (a, v) # m
      else (a, w) # kput f k v m)"

definition kinsert :: "('a \<Rightarrow> 'k::linorder) \<Rightarrow> 'a \<Rightarrow> 'v \<Rightarrow> ('a \<times> 'v) list \<Rightarrow> ('a \<times> 'v) list" where
  "kinsert f k v m = (case kfind f k m of Some _ \<Rightarrow> m | None \<Rightarrow> kput f k v m)"

definition kerase :: "('a \<Rightarrow> 'k) \<Rightarrow> 'a \<Rightarrow> ('a \<times> 'v) list \<Rightarrow> ('a \<times> 'v) list" where
  "kerase f k m = filter (\<lambda>(a, v). f a \<noteq> f k) m"

definition ksorted :: "('a \<Rightarrow> 'k::linorder) \<Rightarrow> ('a \<times> 'v) list \<Rightarrow> bool" where
  "ksorted f m \<longleftrightarrow> sorted_wrt (<) (map (f \<circ> fst) m)"

lemma ksorted_Nil [simp]: "ksorted f []"
  by (simp add: ksorted_def)

lemma ksorted_Cons: "ksorted f ((a, v) # m) \<longleftrightarrow> (\<forall>x \<in> set m. f a < f (fst x)) \<and> ksorted f m"
  by (auto simp: ksorted_def)

lemma kfind_kput [kmap_simps]:
  "kfind f k' (kput f k v m) = (if f k' = f k then Some v else kfind f k' m)"
  by (induction m) auto

lemma kfind_kerase [kmap_simps]:
  "kfind f k' (kerase f k m) = (if f k' = f k then None else kfind f k' m)"
  by (induction m) (auto simp: kerase_def)

lemma kfind_kinsert [kmap_simps]:
  "kfind f k' (kinsert f k v m) =
     (if f k' = f k then (case kfind f k m of Some w \<Rightarrow> Some w | None \<Rightarrow> Some v)
      else kfind f k' m)"
proof -
  have "kfind f k' m = kfind f k m" if "f k' = f k"
    using that by (induction m) auto
  then show ?thesis by (auto simp: kinsert_def kfind_kput split: option.splits)
qed

lemma kput_fst_subset: "x \<in> set (kput f k v m) \<Longrightarrow> x = (k, v) \<or> (\<exists>y \<in> set m. fst x = fst y)"
  by (induction m) (auto split: if_splits)

lemma ksorted_kput [intro, simp]: "ksorted f m \<Longrightarrow> ksorted f (kput f k v m)"
proof (induction m)
  case Nil
  then show ?case by (simp add: ksorted_def)
next
  case (Cons p m)
  obtain a w where p: "p = (a, w)" by (cases p)
  have srt: "\<forall>x \<in> set m. f a < f (fst x)" "ksorted f m"
    using Cons.prems by (auto simp: p ksorted_Cons)
  have "f a < f (fst x)" if "x \<in> set (kput f k v m)" "\<not> f k < f a" "f a \<noteq> f k" for x
    using kput_fst_subset [OF that(1)] srt(1) that(2,3) by auto
  then show ?case
    using Cons.IH srt by (auto simp: p ksorted_Cons dest: order.strict_trans)
qed

lemma ksorted_kerase [intro, simp]: "ksorted f m \<Longrightarrow> ksorted f (kerase f k m)"
  by (induction m) (auto simp: kerase_def ksorted_Cons)

lemma ksorted_kinsert [intro, simp]: "ksorted f m \<Longrightarrow> ksorted f (kinsert f k v m)"
  by (auto simp: kinsert_def split: option.splits)

lemma ksorted_distinct: "ksorted f m \<Longrightarrow> distinct (map (f \<circ> fst) m)"
  unfolding ksorted_def by (metis strict_sorted_iff)

lemma kfind_memD: "kfind f k m = Some v \<Longrightarrow> \<exists>a. (a, v) \<in> set m \<and> f a = f k"
  by (induction m) (auto split: if_splits)

lemma kfind_None: "kfind f k m = None \<longleftrightarrow> (\<forall>x \<in> set m. f (fst x) \<noteq> f k)"
  by (induction m) (auto split: if_splits)

lemma kfind_memI: "ksorted f m \<Longrightarrow> (a, v) \<in> set m \<Longrightarrow> f a = f k \<Longrightarrow> kfind f k m = Some v"
  by (induction m) (force simp: ksorted_Cons)+

lemma kfind_eq_iff: "ksorted f m \<Longrightarrow> kfind f k m = Some v \<longleftrightarrow> (\<exists>a. (a, v) \<in> set m \<and> f a = f k)"
  by (meson kfind_memD kfind_memI)

lemma kfind_map_of: "inj f \<Longrightarrow> kfind f k m = map_of m k"
  by (induction m) (auto simp: inj_eq)

text \<open>The projection for \<open>std::map<std::string, \<dots>>\<close> is the identity.\<close>

lemma kfind_id: "kfind id k m = map_of m k"
  by (simp add: kfind_map_of)

lemma map_of_kput: "map_of (kput id a v m) k = (if k = a then Some v else map_of m k)"
  using kfind_kput [of id k a v m] by (simp add: kfind_id)

lemma map_of_kerase: "map_of (kerase id a m) k = (if k = a then None else map_of m k)"
  using kfind_kerase [of id k a m] by (simp add: kfind_id)

lemma ksorted_mem_iff: "ksorted id m \<Longrightarrow> (k, v) \<in> set m \<longleftrightarrow> map_of m k = Some v"
  using ksorted_distinct [of id m] by (simp add: map_of_eq_Some_iff)

lemma ksorted_unique:
  assumes "ksorted id xs" "ksorted id ys" "map_of xs = map_of ys"
  shows "xs = ys"
proof (rule map_sorted_distinct_set_unique)
  have d: "distinct (map fst xs)" "distinct (map fst ys)"
    using ksorted_distinct [OF assms(1)] ksorted_distinct [OF assms(2)] by simp_all
  then show "distinct (map fst xs)" "distinct (map fst ys)" by this
  show set: "set xs = set ys"
    using map_of_eq_Some_iff [OF d(1)] map_of_eq_Some_iff [OF d(2)] assms(3) by auto
  show "sorted (map fst xs)" "sorted (map fst ys)"
    using assms(1,2) by (simp_all add: ksorted_def strict_sorted_iff)
  show "inj_on fst (set xs \<union> set ys)"
    using d set by (simp add: distinct_map)
qed

text \<open>
  The projection for the comparison object \<open>Nocase\<close> of util.h, that is
  \<open>boost::ilexicographical_compare\<close>: the upper-cased characters, compared as signed values.
\<close>

definition nocase_key :: "string \<Rightarrow> int list" where
  "nocase_key s = map (schar \<circ> toupper) s"

definition nocase_less :: "string \<Rightarrow> string \<Rightarrow> bool" where
  "nocase_less a b \<longleftrightarrow> nocase_key a < nocase_key b"

lemma nocase_key_eq_iff: "nocase_key a = nocase_key b \<longleftrightarrow> iequals a b"
proof (induction a arbitrary: b)
  case Nil
  then show ?case by (auto simp: nocase_key_def iequals_def)
next
  case (Cons x a)
  then show ?case
    by (cases b) (simp_all add: nocase_key_def iequals_def toupper_eq_iff_tolower)
qed

section \<open>Comparison objects\<close>

text \<open>
  The interface between the containers and algorithms of the standard library
  (\<open>std::map\<close>, \<open>std::set\<close>, \<open>std::sort\<close>, \<open>std::list::sort\<close>) and the comparison
  functions of the program: a strict weak ordering. What the library makes of it is that
  elements neither of which precedes the other form equivalence classes, and that the classes
  are ordered.
\<close>

locale strict_weak_order =
  fixes before :: "'a \<Rightarrow> 'a \<Rightarrow> bool"
  assumes irreflexive: "\<not> before a a"
    and transitive: "before a b \<Longrightarrow> before b c \<Longrightarrow> before a c"
    and incomparable_trans:
      "\<not> before a b \<Longrightarrow> \<not> before b a \<Longrightarrow> \<not> before b c \<Longrightarrow> \<not> before c b \<Longrightarrow>
       \<not> before a c \<and> \<not> before c a"
begin

definition same :: "'a \<Rightarrow> 'a \<Rightarrow> bool" where
  "same a b \<longleftrightarrow> \<not> before a b \<and> \<not> before b a"

lemma asymmetric: "before a b \<Longrightarrow> \<not> before b a"
  using irreflexive transitive by blast

lemma same_equivp: "equivp same"
proof (rule equivpI)
  show "reflp same" by (auto simp: reflp_def same_def irreflexive)
  show "symp same" by (auto simp: symp_def same_def)
  show "transp same" unfolding transp_def same_def using incomparable_trans by blast
qed

lemma before_same: "same a a' \<Longrightarrow> before a b \<Longrightarrow> before a' b"
  unfolding same_def using incomparable_trans asymmetric transitive by blast

end

text \<open>Every comparison of the images under a function into a linear order is one.\<close>

lemma strict_weak_order_key:
  fixes key :: "'a \<Rightarrow> 'k::linorder"
  assumes "\<And>a b. before a b \<longleftrightarrow> key a < key b"
  shows "strict_weak_order before"
  using assms by unfold_locales auto

interpretation nocase: strict_weak_order nocase_less
  by (rule strict_weak_order_key) (rule nocase_less_def)

section \<open>Results of operations\<close>

text \<open>
  The ways an operation leaves a function other than by returning: \<open>Throw\<close> for
  \<open>Exception::throwError\<close>, \<open>SE_THROW\<close> and \<open>std::runtime_error\<close> (with the text),
  \<open>StatusThrow\<close> for \<open>StatusException\<close> with its SyncML status, \<open>NullDeref\<close> for a call
  through an empty shared pointer. An operation on a mutable object returns the exception, if
  any, together with the state it leaves behind.
\<close>

datatype se_error = Throw string | StatusThrow string int | NullDeref

type_synonym 's step = "se_error option \<times> 's"

definition return :: "'s \<Rightarrow> 's step" where
  [simp]: "return s = (None, s)"

definition throw :: "se_error \<Rightarrow> 's \<Rightarrow> 's step" where
  [simp]: "throw e s = (Some e, s)"

definition andThen :: "'s step \<Rightarrow> ('s \<Rightarrow> 's step) \<Rightarrow> 's step" where
  "andThen r f = (case fst r of Some e \<Rightarrow> r | None \<Rightarrow> f (snd r))"

lemma andThen_simps [simp]:
  "andThen (None, s) f = f s"
  "andThen (Some e, s) f = (Some e, s)"
  by (simp_all add: andThen_def)

text \<open>\<open>InitState<std::string>\<close> of util.h: a string and whether it was set explicitly.\<close>

type_synonym init_string = "string \<times> bool"

abbreviation unset :: init_string where
  "unset \<equiv> ([], False)"

abbreviation wasSet :: "init_string \<Rightarrow> bool" where
  "wasSet v \<equiv> snd v"

abbreviation explicit :: "string \<Rightarrow> init_string" where
  "explicit v \<equiv> (v, True)"

end
