(* ===== verification/Path_Util.thy ===== *)
theory Path_Util
  imports Prelude
begin

text \<open>
  Path handling of src/src/syncevo/util.cpp: \<open>normalizePath\<close>, \<open>splitPath\<close>,
  \<open>getBasename\<close>, \<open>getDirname\<close>. Every cache key of the configuration trees is a
  normalized path, so the facts needed later are that normalization is idempotent and what
  its results look like.
\<close>

section \<open>Definitions\<close>

text \<open>The inner loop: after a slash, further slashes and \<open>./\<close> are skipped.\<close>

fun skip_slashes :: "string \<Rightarrow> string" where
  "skip_slashes [] = []"
| "skip_slashes (c # r) =
     (if c = CHR ''/'' \<or> (c = CHR ''.'' \<and> r \<noteq> [] \<and> hd r = CHR ''/'')
      then skip_slashes r else c # r)"

lemma length_skip_slashes: "length (skip_slashes s) \<le> length s"
  by (induction s) auto

function normalize_loop :: "string \<Rightarrow> string" where
  "normalize_loop [] = []"
| "normalize_loop (c # r) =
     c # normalize_loop (if c = CHR ''/'' then skip_slashes r else r)"
  by pat_completeness auto
termination
  by (relation "measure length") (auto simp: length_skip_slashes le_imp_less_Suc)

definition normalizePath :: "string \<Rightarrow> string" where
  "normalizePath path =
     (let res = normalize_loop path
      in if res \<noteq> [] \<and> last res = CHR ''/'' then butlast res else res)"

text \<open>Result: directory and file part.\<close>

definition splitPath :: "string \<Rightarrow> string \<times> string" where
  "splitPath path =
     (let normal = normalizePath path
      in case rfind_char CHR ''/'' normal of
           Some offset \<Rightarrow> (take offset normal, drop (offset + 1) normal)
         | None \<Rightarrow> ([], normal))"

definition getBasename :: "string \<Rightarrow> string" where
  "getBasename path = snd (splitPath path)"

definition getDirname :: "string \<Rightarrow> string" where
  "getDirname path = fst (splitPath path)"

section \<open>Normal forms\<close>

text \<open>A path in which nothing after a slash is skippable.\<close>

fun slashes_normal :: "string \<Rightarrow> bool" where
  "slashes_normal [] = True"
| "slashes_normal (c # r) = ((c = CHR ''/'' \<longrightarrow> skip_slashes r = r) \<and> slashes_normal r)"

definition path_normal :: "string \<Rightarrow> bool" where
  "path_normal p \<longleftrightarrow> slashes_normal p \<and> (p = [] \<or> last p \<noteq> CHR ''/'')"

lemma skip_slashes_idem [simp]: "skip_slashes (skip_slashes s) = skip_slashes s"
  by (induction s) auto

lemma skip_slashes_neq: "skip_slashes r \<noteq> c # r"
  using length_skip_slashes [of r] by auto

lemma skip_slashes_fix: "skip_slashes s = s \<longleftrightarrow>
  s = [] \<or> (hd s \<noteq> CHR ''/'' \<and> \<not> (hd s = CHR ''.'' \<and> tl s \<noteq> [] \<and> hd (tl s) = CHR ''/''))"
proof (cases s)
  case (Cons c r)
  then show ?thesis by (simp add: skip_slashes_neq)
qed simp

lemma normalize_loop_eq_Nil [simp]: "normalize_loop s = [] \<longleftrightarrow> s = []"
  by (cases s) auto

lemma hd_normalize_loop [simp]: "s \<noteq> [] \<Longrightarrow> hd (normalize_loop s) = hd s"
  by (cases s) auto

lemma skip_slashes_normalize_loop:
  assumes "skip_slashes s = s"
  shows "skip_slashes (normalize_loop s) = normalize_loop s"
proof (cases s)
  case (Cons c r)
  with assms show ?thesis
    unfolding skip_slashes_fix by (cases r) simp_all
qed simp

lemma slashes_normal_normalize_loop: "slashes_normal (normalize_loop s)"
  by (induction s rule: normalize_loop.induct) (auto simp: skip_slashes_normalize_loop)

lemma normalize_loop_fix: "slashes_normal s \<Longrightarrow> normalize_loop s = s"
  by (induction s) auto

lemma skip_slashes_butlast: "skip_slashes s = s \<Longrightarrow> skip_slashes (butlast s) = butlast s"
  unfolding skip_slashes_fix by (cases s; cases "tl s") (auto split: if_splits)

lemma slashes_normal_butlast: "slashes_normal s \<Longrightarrow> slashes_normal (butlast s)"
  by (induction s) (auto simp: skip_slashes_butlast)

lemma slashes_normal_last2: "slashes_normal (s @ [CHR ''/'']) \<Longrightarrow> s = [] \<or> last s \<noteq> CHR ''/''"
  by (induction s) (auto simp: skip_slashes_fix split: if_splits)

lemma path_normal_normalizePath: "path_normal (normalizePath p)"
proof -
  let ?r = "normalize_loop p"
  have n: "slashes_normal ?r" by (rule slashes_normal_normalize_loop)
  show ?thesis
  proof (cases "?r \<noteq> [] \<and> last ?r = CHR ''/''")
    case True
    then have "?r = butlast ?r @ [CHR ''/'']" by (metis append_butlast_last_id)
    then have "butlast ?r = [] \<or> last (butlast ?r) \<noteq> CHR ''/''"
      using slashes_normal_last2 n by metis
    then show ?thesis
      using True n by (simp add: normalizePath_def path_normal_def slashes_normal_butlast)
  next
    case False
    then show ?thesis using n by (auto simp: normalizePath_def path_normal_def Let_def)
  qed
qed

lemma normalizePath_fix: "path_normal p \<Longrightarrow> normalizePath p = p"
  by (auto simp: normalizePath_def path_normal_def normalize_loop_fix Let_def)

text \<open>
  \<open>normalizePath\<close> is idempotent, and the paths it leaves unchanged are exactly its
  results: those without a trailing slash in which no slash is followed by another slash or
  by \<open>./\<close>.
\<close>

lemma normalizePath_idempotent:
  "normalizePath (normalizePath p) = normalizePath p \<and> (normalizePath p = p \<longleftrightarrow> path_normal p)"
  using normalizePath_fix path_normal_normalizePath by metis

lemma splitPath_cases:
  "(\<exists>d f. splitPath p = (d, f) \<and> normalizePath p = d @ CHR ''/'' # f \<and> CHR ''/'' \<notin> set f) \<or>
   splitPath p = ([], normalizePath p) \<and> CHR ''/'' \<notin> set (normalizePath p)"
proof (cases "rfind_char CHR ''/'' (normalizePath p)")
  case None
  then show ?thesis by (simp add: splitPath_def rfind_char_None)
next
  case (Some i)
  then show ?thesis
    using rfind_char_decomp [OF Some] rfind_char_SomeD [OF Some]
    by (auto simp: splitPath_def)
qed

text \<open>
  \<open>splitPath\<close> cuts the normalized path at its last slash: the file part never
  contains a slash, and the parts joined again by a slash give back the normalized path (which
  is the file part itself when there is no slash).
\<close>

lemma splitPath_rejoins:
  "CHR ''/'' \<notin> set (getBasename p) \<and>
   (if CHR ''/'' \<in> set (normalizePath p)
    then getDirname p @ CHR ''/'' # getBasename p = normalizePath p
    else getDirname p = [] \<and> getBasename p = normalizePath p)"
  using splitPath_cases [of p] by (auto simp: getBasename_def getDirname_def)

end
