(* ===== verification/Timespec.thy ===== *)
theory Timespec
  imports Prelude
begin

text \<open>
  Sub-second time stamps: class \<open>Timespec\<close> of src/src/syncevo/Timespec.h with the two
  operators of src/src/syncevo/util.cpp. Seconds and nanoseconds are integers; the sums stay
  far inside the 64 bits of \<open>time_t\<close> and \<open>long\<close>.
\<close>

record timespec =
  tv_sec :: int
  tv_nsec :: int

definition nsec_per_sec :: int where
  "nsec_per_sec = 1000000000"

definition Timespec :: "int \<Rightarrow> int \<Rightarrow> timespec" where
  "Timespec sec nsec = \<lparr>tv_sec = sec, tv_nsec = nsec\<rparr>"

definition ts_less :: "timespec \<Rightarrow> timespec \<Rightarrow> bool" where
  "ts_less a b \<longleftrightarrow> tv_sec a < tv_sec b \<or> (tv_sec a = tv_sec b \<and> tv_nsec a < tv_nsec b)"

definition ts_greater :: "timespec \<Rightarrow> timespec \<Rightarrow> bool" where
  "ts_greater a b \<longleftrightarrow> tv_sec a > tv_sec b \<or> (tv_sec a = tv_sec b \<and> tv_nsec a > tv_nsec b)"

definition ts_bool :: "timespec \<Rightarrow> bool" where
  "ts_bool a \<longleftrightarrow> tv_sec a \<noteq> 0 \<or> tv_nsec a \<noteq> 0"

definition ts_plus_seconds :: "timespec \<Rightarrow> int \<Rightarrow> timespec" where
  "ts_plus_seconds a seconds = Timespec (tv_sec a + seconds) (tv_nsec a)"

definition ts_minus_seconds :: "timespec \<Rightarrow> int \<Rightarrow> timespec" where
  "ts_minus_seconds a seconds = Timespec (tv_sec a - seconds) (tv_nsec a)"

definition ts_plus :: "timespec \<Rightarrow> timespec \<Rightarrow> timespec" where
  "ts_plus a other =
     (let res = Timespec (tv_sec a + tv_sec other) (tv_nsec a + tv_nsec other)
      in if tv_nsec res > nsec_per_sec
         then res\<lparr>tv_sec := tv_sec res + 1, tv_nsec := tv_nsec res - nsec_per_sec\<rparr>
         else res)"

definition ts_minus :: "timespec \<Rightarrow> timespec \<Rightarrow> timespec" where
  "ts_minus a other =
     (let res = Timespec (tv_sec a - tv_sec other) 0
      in if tv_nsec other > tv_nsec a
         then res\<lparr>tv_sec := tv_sec res - 1,
                  tv_nsec := tv_nsec a + nsec_per_sec - tv_nsec other\<rparr>
         else res\<lparr>tv_nsec := tv_nsec a - tv_nsec other\<rparr>)"

text \<open>The header's notion of a normalized value, and the time a stamp stands for.\<close>

definition normalized :: "timespec \<Rightarrow> bool" where
  "normalized a \<longleftrightarrow> 0 \<le> tv_nsec a \<and> tv_nsec a < nsec_per_sec"

definition total_nsec :: "timespec \<Rightarrow> int" where
  "total_nsec a = tv_sec a * nsec_per_sec + tv_nsec a"

lemmas ts_defs = Timespec_def nsec_per_sec_def ts_less_def ts_greater_def ts_plus_def
  ts_minus_def ts_plus_seconds_def ts_minus_seconds_def normalized_def total_nsec_def Let_def

text \<open>
  Sums and differences of normalized time stamps stand for the sum and the difference of
  the times, comparison is comparison of the times, and subtracting what was added gives the
  first operand back.
\<close>

lemma timespec_arithmetic:
  assumes "normalized a" and "normalized b"
  shows "total_nsec (ts_plus a b) = total_nsec a + total_nsec b \<and>
    total_nsec (ts_minus a b) = total_nsec a - total_nsec b \<and>
    normalized (ts_minus a b) \<and>
    ts_minus (ts_plus a b) b = a \<and>
    (ts_less a b \<longleftrightarrow> total_nsec a < total_nsec b) \<and>
    (ts_greater a b \<longleftrightarrow> total_nsec a > total_nsec b)"
proof (intro conjI)
  show "ts_minus (ts_plus a b) b = a"
    using assms by (intro timespec.equality) (auto simp: ts_defs)
qed (use assms in \<open>auto simp: ts_defs\<close>)

text \<open>
  Addition keeps values normalized except in one case: when the nanoseconds add up to
  exactly one second, the carry is missed and the result holds the nanosecond count
  1000000000, so that it compares as smaller than the normalized stamp for the same time.
\<close>

lemma timespec_plus_normalized_iff:
  assumes "normalized a" and "normalized b"
  shows "(normalized (ts_plus a b) \<longleftrightarrow> tv_nsec a + tv_nsec b \<noteq> nsec_per_sec) \<and>
         (tv_nsec a + tv_nsec b = nsec_per_sec \<longrightarrow>
            total_nsec (ts_plus a b) = total_nsec (Timespec (tv_sec a + tv_sec b + 1) 0) \<and>
            ts_less (ts_plus a b) (Timespec (tv_sec a + tv_sec b + 1) 0))"
  using assms by (auto simp: ts_defs)

end
