(* ===== verification/String_Escape.thy ===== *)
theory String_Escape
  imports Prelude
begin

text \<open>
  The escaping code of src/src/syncevo/util.cpp: class \<open>StringEscape\<close> with its four modes,
  and the C library number conversions it rests on. Shown here: unescaping inverts escaping in
  every mode, and which characters an escaped string can contain, which is what the .ini layer
  relies on.
\<close>

section \<open>Hexadecimal conversion\<close>

definition hexdigit :: "nat \<Rightarrow> char" where
  "hexdigit n = ''0123456789abcdef'' ! (n mod 16)"

definition hexval :: "char \<Rightarrow> nat option" where
  "hexval c =
     (if isdigit c then Some (ccode c - 48)
      else if 97 \<le> ccode c \<and> ccode c \<le> 102 then Some (ccode c - 87)
      else if 65 \<le> ccode c \<and> ccode c \<le> 70 then Some (ccode c - 55)
      else None)"

definition hexnum :: "string \<Rightarrow> nat" where
  "hexnum ds = foldl (\<lambda>a d. 16 * a + the (hexval d)) 0 ds"

text \<open>
  \<open>strtol(s, NULL, 16)\<close>: leading space, a sign and the prefix \<open>0x\<close> are accepted, the
  longest run of hexadecimal digits counts, and the value saturates at the limits of
  \<open>long\<close>.
\<close>

definition strtol16 :: "string \<Rightarrow> int" where
  "strtol16 str =
     (let s = dropWhile isspace (c_str str);
          neg = (s \<noteq> [] \<and> hd s = CHR ''-'');
          s = (if s \<noteq> [] \<and> (hd s = CHR ''-'' \<or> hd s = CHR ''+'') then tl s else s);
          s = (if (starts_with s ''0x'' \<or> starts_with s ''0X'') \<and> drop 2 s \<noteq> [] \<and>
                  hexval (hd (drop 2 s)) \<noteq> None
               then drop 2 s else s);
          v = int (hexnum (takeWhile (\<lambda>c. hexval c \<noteq> None) s))
      in if neg then max (- (2 ^ 63)) (- v) else min (2 ^ 63 - 1) v)"

definition hexchar :: "char \<Rightarrow> bool" where
  "hexchar c \<longleftrightarrow> c \<in> set ''0123456789abcdef''"

lemma hexchar_hexdigit [simp]: "hexchar (hexdigit n)"
proof -
  have "n mod 16 < length ''0123456789abcdef''" by simp
  then show ?thesis unfolding hexchar_def hexdigit_def by (rule nth_mem)
qed

lemma hexchar_class:
  "hexchar c \<Longrightarrow> \<not> isspace c \<and> isalnum c \<and>
    c \<notin> set [CHR ''='', CHR ''-'', CHR ''+'', CHR ''x'', CHR ''X'', CHR ''/'',
      CHR 0x00, CHR 0x0A, CHR 0x0D]"
  by (auto simp: hexchar_def char_simps)

lemma hexval_hexdigit [simp]: "n < 16 \<Longrightarrow> hexval (hexdigit n) = Some n"
proof -
  assume n: "n < 16"
  have "list_all (\<lambda>n. hexval (hexdigit n) = Some n) [0..<16]" by code_simp
  then show ?thesis using n by (simp add: list_all_iff)
qed

lemmas hexdigit_class = hexchar_class [OF hexchar_hexdigit]

lemma strtol16_digits2:
  assumes "a < 16" and "b < 16"
  shows "strtol16 [hexdigit a, hexdigit b] = int (16 * a + b)"
proof -
  have c: "c_str [hexdigit a, hexdigit b] = [hexdigit a, hexdigit b]"
    using hexdigit_class [of a] hexdigit_class [of b] by (simp add: c_str_def)
  show ?thesis
    using hexdigit_class [of a] hexdigit_class [of b] assms
    by (simp add: strtol16_def c hexnum_def starts_with_def Let_def)
qed

section \<open>Escaping\<close>

datatype esc_mode = SET | INI_VALUE | INI_WORD | STRICT

record string_escape =
  m_escapeChar :: char
  m_mode :: esc_mode
  m_forbidden :: "char list"

text \<open>The default constructor and its arguments.\<close>

definition StringEscape :: "char \<Rightarrow> esc_mode \<Rightarrow> string_escape" where
  "StringEscape escapeChar mode =
     \<lparr>m_escapeChar = escapeChar, m_mode = mode, m_forbidden = []\<rparr>"

text \<open>
  The constructor with an explicit list of characters leaves \<open>m_mode\<close> untouched: it keeps
  what the storage held before, here the first argument. Objects with static storage duration
  are zero-initialized first, so \<open>MapSyncSource::m_escape\<close> starts with the first
  enumerator, \<open>SET\<close>.
\<close>

definition StringEscape_chars :: "esc_mode \<Rightarrow> char \<Rightarrow> string \<Rightarrow> string_escape" where
  "StringEscape_chars storage escapeChar forbidden =
     \<lparr>m_escapeChar = escapeChar, m_mode = storage, m_forbidden = remdups (c_str forbidden)\<rparr>"

text \<open>
  \<open>sprintf(buffer, "%c%02x", escapeChar, (unsigned char)c)\<close> appended as a C string: a zero
  escape character ends it at once.
\<close>

definition esc_seq :: "char \<Rightarrow> char \<Rightarrow> string" where
  "esc_seq e c = c_str [e, hexdigit (ccode c div 16), hexdigit (ccode c)]"

definition esc_keep :: "char \<Rightarrow> esc_mode \<Rightarrow> bool \<Rightarrow> char \<Rightarrow> bool" where
  "esc_keep e mode isLeadingSpace c \<longleftrightarrow>
     c \<noteq> e \<and>
     (if mode = STRICT then isalnum c \<or> c = CHR ''-'' \<or> c = CHR ''_''
      else \<not> (((isLeadingSpace \<or> mode = INI_WORD) \<and> isspace c) \<or>
              c = CHR ''='' \<or> c = CHR 0x0D \<or> c = CHR 0x0A))"

fun esc_loop :: "char \<Rightarrow> esc_mode \<Rightarrow> bool \<Rightarrow> string \<Rightarrow> string" where
  "esc_loop e mode isLeadingSpace [] = []"
| "esc_loop e mode isLeadingSpace (c # str) =
     (if esc_keep e mode isLeadingSpace c
      then c # esc_loop e mode (isLeadingSpace \<and> isspace c) str
      else esc_seq e c @ esc_loop e mode isLeadingSpace str)"

definition trailing_spaces :: "string \<Rightarrow> nat" where
  "trailing_spaces res = length (takeWhile isspace (rev res))"

definition escape :: "string \<Rightarrow> char \<Rightarrow> esc_mode \<Rightarrow> string" where
  "escape str escapeChar mode =
     (let res = esc_loop escapeChar mode True str
      in if mode = INI_VALUE
         then (let numspaces = trailing_spaces res
               in take (length res - numspaces) res @
                  concat (map (esc_seq escapeChar) (drop (length str - numspaces) str)))
         else res)"

definition StringEscape_escape :: "string_escape \<Rightarrow> string \<Rightarrow> string" where
  "StringEscape_escape se str =
     (if m_mode se \<noteq> SET then escape str (m_escapeChar se) (m_mode se)
      else concat (map (\<lambda>c. if c \<noteq> m_escapeChar se \<and> c \<notin> set (m_forbidden se) then [c]
                            else esc_seq (m_escapeChar se) c) str))"

fun unescape :: "string \<Rightarrow> char \<Rightarrow> string" where
  "unescape [] escapeChar = []"
| "unescape (c # str) escapeChar =
     (if c = escapeChar
      then char_of (nat (strtol16 (take 2 str) mod 256)) # unescape (drop 2 str) escapeChar
      else c # unescape str escapeChar)"

definition StringEscape_unescape :: "string_escape \<Rightarrow> string \<Rightarrow> string" where
  "StringEscape_unescape se str = unescape str (m_escapeChar se)"

section \<open>Round trips\<close>

lemma esc_seq_eq:
  "e \<noteq> CHR 0x00 \<Longrightarrow> esc_seq e c = [e, hexdigit (ccode c div 16), hexdigit (ccode c mod 16)]"
proof -
  assume e: "e \<noteq> CHR 0x00"
  show ?thesis
    using e hexdigit_class [of "ccode c div 16"] hexdigit_class [of "ccode c mod 16"]
    by (simp add: esc_seq_def c_str_def hexdigit_def)
qed

lemma unescape_esc_seq [simp]:
  assumes "e \<noteq> CHR 0x00"
  shows "unescape (esc_seq e c @ s) e = c # unescape s e"
proof -
  have d: "ccode c div 16 < 16" by simp
  have "strtol16 [hexdigit (ccode c div 16), hexdigit (ccode c mod 16)] = int (ccode c)"
    using strtol16_digits2 [OF d, of "ccode c mod 16"] by simp
  moreover have "int (ccode c) mod 256 = int (ccode c)"
    using ccode_less [of c] by (simp del: ccode_less)
  moreover have "char_of (ccode c) = c" by (simp add: ccode_def)
  ultimately show ?thesis by (simp add: esc_seq_eq [OF assms])
qed

lemma unescape_concat_esc_seq:
  "e \<noteq> CHR 0x00 \<Longrightarrow> unescape (concat (map (esc_seq e) xs)) e = xs"
  by (induction xs) simp_all

lemma esc_keep_neq: "esc_keep e m l c \<Longrightarrow> c \<noteq> e"
  by (simp add: esc_keep_def)

lemma unescape_esc_loop_append:
  "e \<noteq> CHR 0x00 \<Longrightarrow> unescape (esc_loop e m l str @ s) e = str @ unescape s e"
  by (induction str arbitrary: l) (auto dest: esc_keep_neq)

text \<open>Whether the next character still counts as leading space after the loop read \<open>str\<close>.\<close>

fun esc_lead :: "char \<Rightarrow> esc_mode \<Rightarrow> bool \<Rightarrow> string \<Rightarrow> bool" where
  "esc_lead e m l [] = l"
| "esc_lead e m l (c # s) = esc_lead e m (if esc_keep e m l c then l \<and> isspace c else l) s"

lemma esc_loop_snoc:
  "esc_loop e m l (s @ [c]) =
     esc_loop e m l s @ (if esc_keep e m (esc_lead e m l s) c then [c] else esc_seq e c)"
  by (induction s arbitrary: l) auto

lemma trailing_spaces_esc_seq [simp]: "e \<noteq> CHR 0x00 \<Longrightarrow> trailing_spaces (s @ esc_seq e c) = 0"
  using hexdigit_class [of "ccode c mod 16"] by (simp add: trailing_spaces_def esc_seq_eq)

lemma esc_loop_trailing:
  fixes m l
  assumes e: "e \<noteq> CHR 0x00"
  defines "n \<equiv> \<lambda>s. trailing_spaces (esc_loop e m l s)"
  shows "n s \<le> length s \<and>
    esc_loop e m l s = esc_loop e m l (take (length s - n s) s) @ drop (length s - n s) s"
proof (induction s rule: rev_induct)
  case Nil
  then show ?case by (simp add: n_def trailing_spaces_def)
next
  case (snoc c s)
  show ?case
  proof (cases "esc_keep e m (esc_lead e m l s) c")
    case keep: True
    show ?thesis
    proof (cases "isspace c")
      case True
      then have "n (s @ [c]) = Suc (n s)"
        using keep by (simp add: n_def esc_loop_snoc trailing_spaces_def)
      then show ?thesis using snoc.IH keep by (simp add: esc_loop_snoc)
    next
      case False
      then have "n (s @ [c]) = 0"
        using keep by (simp add: n_def esc_loop_snoc trailing_spaces_def)
      then show ?thesis by simp
    qed
  next
    case False
    then have "n (s @ [c]) = 0" using e by (simp add: n_def esc_loop_snoc)
    then show ?thesis by simp
  qed
qed

lemma trailing_spaces_split:
  assumes r: "r = A @ b" and len: "length b = trailing_spaces r"
  shows "trailing_spaces A = 0 \<and> take (length r - trailing_spaces r) r = A"
proof -
  have "length (takeWhile isspace (rev b @ rev A)) = length b"
    using len r by (simp add: trailing_spaces_def)
  then have "takeWhile isspace (rev b @ rev A) = take (length b) (rev b @ rev A)"
    by (metis takeWhile_eq_take)
  then have rb: "takeWhile isspace (rev b @ rev A) = rev b" by simp
  then have "\<forall>c \<in> set (rev b). isspace c" by (metis set_takeWhileD)
  then have "takeWhile isspace (rev b @ rev A) = rev b @ takeWhile isspace (rev A)"
    by (intro takeWhile_append2) blast
  with rb show ?thesis using r len by (simp add: trailing_spaces_def)
qed

lemma escape_INI_VALUE:
  assumes "e \<noteq> CHR 0x00"
  shows "\<exists>a b. str = a @ b \<and> escape str e INI_VALUE =
      esc_loop e INI_VALUE True a @ concat (map (esc_seq e) b) \<and>
      trailing_spaces (esc_loop e INI_VALUE True a) = 0"
proof -
  let ?r = "esc_loop e INI_VALUE True str"
  let ?n = "trailing_spaces ?r"
  let ?a = "take (length str - ?n) str" and ?b = "drop (length str - ?n) str"
  from esc_loop_trailing [OF assms, of INI_VALUE True str]
  have n: "?n \<le> length str" and r: "?r = esc_loop e INI_VALUE True ?a @ ?b" by auto
  have len: "length ?b = trailing_spaces ?r" using n by simp
  from trailing_spaces_split [OF r len] show ?thesis
    by (intro exI [of _ ?a] exI [of _ ?b]) (simp add: escape_def Let_def)
qed

lemma unescape_escape_static:
  assumes "e \<noteq> CHR 0x00"
  shows "unescape (escape str e mode) e = str"
proof (cases "mode = INI_VALUE")
  case True
  from escape_INI_VALUE [OF assms] obtain a b where "str = a @ b"
    "escape str e INI_VALUE = esc_loop e INI_VALUE True a @ concat (map (esc_seq e) b)"
    by blast
  then show ?thesis
    using assms True by (simp add: unescape_esc_loop_append unescape_concat_esc_seq)
next
  case False
  then show ?thesis
    using unescape_esc_loop_append [OF assms, of mode True str "[]"]
    by (simp add: escape_def Let_def)
qed

lemma unescape_escape_chars:
  assumes "e \<noteq> CHR 0x00"
  shows "StringEscape_unescape (StringEscape_chars SET e forbidden)
      (StringEscape_escape (StringEscape_chars SET e forbidden) str) = str"
  using assms
  by (induction str)
     (auto simp: StringEscape_unescape_def StringEscape_escape_def StringEscape_chars_def)

text \<open>
  C36: unescaping inverts escaping. For every string, every mode (explicit character set
  included) and every escape character other than the zero byte, \<open>unescape\<close> applied to the
  result of \<open>escape\<close> returns the original string.
\<close>

theorem unescape_escape:
  assumes "e \<noteq> CHR 0x00"
  shows "unescape (escape str e mode) e = str \<and>
    StringEscape_unescape (StringEscape_chars SET e forbidden)
      (StringEscape_escape (StringEscape_chars SET e forbidden) str) = str"
  using assms by (simp add: unescape_escape_static unescape_escape_chars)

theorem unescape_escape_witness:
  "unescape (escape '' a=b '' CHR ''!'' INI_VALUE) CHR ''!'' = '' a=b ''"
  using unescape_escape [of "CHR ''!''" "'' a=b ''" INI_VALUE] by simp

section \<open>What an escaped string contains\<close>

lemma set_esc_seq: "e \<noteq> CHR 0x00 \<Longrightarrow> x \<in> set (esc_seq e c) \<Longrightarrow> x = e \<or> hexchar x"
  by (auto simp: esc_seq_eq)

lemma set_esc_loop:
  assumes "e \<noteq> CHR 0x00"
  shows "x \<in> set (esc_loop e m l s) \<Longrightarrow>
    x = e \<or> hexchar x \<or> esc_keep e m True x \<or> esc_keep e m False x"
proof (induction s arbitrary: l)
  case (Cons c s)
  then show ?case
    using set_esc_seq [OF assms] by (cases l) (auto split: if_splits)
qed simp

lemma set_escape:
  assumes "e \<noteq> CHR 0x00" and "x \<in> set (escape str e m)"
  shows "x = e \<or> hexchar x \<or> esc_keep e m True x \<or> esc_keep e m False x"
proof (cases "m = INI_VALUE")
  case True
  from escape_INI_VALUE [OF assms(1)] obtain a b where
    "escape str e m = esc_loop e m True a @ concat (map (esc_seq e) b)"
    unfolding True by blast
  then show ?thesis
    using assms(2) set_esc_loop [OF assms(1), of x m True a] set_esc_seq [OF assms(1), of x]
    by (auto simp del: esc_loop.simps)
next
  case False
  then show ?thesis
    using assms set_esc_loop [OF assms(1)] by (auto simp: escape_def Let_def)
qed

lemma escape_STRICT_chars:
  "x \<in> set (escape str CHR ''!'' STRICT) \<Longrightarrow>
     x = CHR ''!'' \<or> isalnum x \<or> x = CHR ''-'' \<or> x = CHR ''_''"
  using set_escape [of "CHR ''!''" x str STRICT] hexchar_class [of x]
  by (auto simp: esc_keep_def)

lemma isalnum_not_special:
  "isalnum x \<Longrightarrow> \<not> isspace x \<and> x \<notin> set [CHR ''='', CHR ''#'', CHR 0x00, CHR 0x0A, CHR 0x0D]"
  by (auto simp: char_simps)

text \<open>A key usable in an .ini line, and a value that survives the trimming there.\<close>

definition ini_word :: "string \<Rightarrow> bool" where
  "ini_word s \<longleftrightarrow> s \<noteq> [] \<and> hd s \<noteq> CHR ''#'' \<and> (\<forall>c \<in> set s. \<not> isspace c \<and> c \<noteq> CHR 0x00)"

definition ini_trimmed :: "string \<Rightarrow> bool" where
  "ini_trimmed s \<longleftrightarrow> CHR 0x0A \<notin> set s \<and>
     (s \<noteq> [] \<longrightarrow> \<not> isspace (hd s) \<and> \<not> isspace (last s))"

lemma esc_loop_eq_Nil [simp]: "e \<noteq> CHR 0x00 \<Longrightarrow> esc_loop e m l s = [] \<longleftrightarrow> s = []"
  by (cases s) (auto simp: esc_seq_eq)

lemma escape_eq_Nil [simp]:
  assumes "e \<noteq> CHR 0x00"
  shows "escape s e m = [] \<longleftrightarrow> s = []"
proof
  assume "escape s e m = []"
  then have "unescape (escape s e m) e = []" by simp
  then show "s = []" using unescape_escape_static [OF assms, of s m] by simp
qed (simp add: escape_def Let_def trailing_spaces_def)

lemma escape_strict_word: "s \<noteq> [] \<Longrightarrow> ini_word (escape s CHR ''!'' STRICT)"
proof -
  assume s: "s \<noteq> []"
  have "\<not> isspace c \<and> c \<noteq> CHR 0x00 \<and> c \<noteq> CHR ''#''" if "c \<in> set (escape s CHR ''!'' STRICT)" for c
    using escape_STRICT_chars [OF that] isalnum_not_special [of c] by (auto simp: isspace_def)
  then show ?thesis using s by (auto simp: ini_word_def)
qed

lemma escape_strict_trimmed: "ini_trimmed (escape s CHR ''!'' STRICT)"
proof (cases "s = []")
  case False
  have "\<not> isspace c" if "c \<in> set (escape s CHR ''!'' STRICT)" for c
    using escape_STRICT_chars [OF that] isalnum_not_special [of c] by (auto simp: isspace_def)
  then show ?thesis using False by (auto simp: ini_trimmed_def isspace_def)
qed (simp add: ini_trimmed_def escape_def)

lemma esc_loop_hd_not_space:
  "s \<noteq> [] \<Longrightarrow> m \<noteq> STRICT \<Longrightarrow> \<not> isspace (hd (esc_loop CHR ''!'' m True s))"
  by (cases s) (auto simp: esc_keep_def esc_seq_eq isspace_def)

lemma last_not_space: "trailing_spaces s = 0 \<Longrightarrow> s \<noteq> [] \<Longrightarrow> \<not> isspace (last s)"
  by (cases s rule: rev_cases) (auto simp: trailing_spaces_def)

lemma concat_esc_seq_ends:
  "b \<noteq> [] \<Longrightarrow> \<not> isspace (hd (concat (map (esc_seq CHR ''!'') b))) \<and>
     \<not> isspace (last (concat (map (esc_seq CHR ''!'') b))) \<and> concat (map (esc_seq CHR ''!'') b) \<noteq> []"
proof -
  assume b: "b \<noteq> []"
  then obtain c b1 where c: "b = c # b1" by (cases b) auto
  from b obtain d b2 where d: "b = b2 @ [d]" by (cases b rule: rev_cases) auto
  have "hd (concat (map (esc_seq CHR ''!'') b)) = CHR ''!''"
      "concat (map (esc_seq CHR ''!'') b) \<noteq> []"
    by (simp_all add: c esc_seq_eq)
  moreover have "last (concat (map (esc_seq CHR ''!'') b)) = hexdigit (ccode d mod 16)"
    by (simp add: d esc_seq_eq)
  ultimately show ?thesis using hexdigit_class by (simp add: isspace_def)
qed

lemma escape_value_trimmed: "ini_trimmed (escape s CHR ''!'' INI_VALUE)"
proof -
  obtain a b where s: "s = a @ b" and es: "escape s CHR ''!'' INI_VALUE =
      esc_loop CHR ''!'' INI_VALUE True a @ concat (map (esc_seq CHR ''!'') b)"
    and tr: "trailing_spaces (esc_loop CHR ''!'' INI_VALUE True a) = 0"
    using escape_INI_VALUE [of "CHR ''!''" s] by auto
  have "CHR 0x0A \<notin> set (escape s CHR ''!'' INI_VALUE)"
    using set_escape [of "CHR ''!''" "CHR 0x0A" s INI_VALUE] hexchar_class [of "CHR 0x0A"]
    by (auto simp: esc_keep_def)
  moreover have "\<not> isspace (hd (escape s CHR ''!'' INI_VALUE)) \<and>
      \<not> isspace (last (escape s CHR ''!'' INI_VALUE))" if "s \<noteq> []"
    using that s esc_loop_hd_not_space [of a INI_VALUE] last_not_space [OF tr]
      concat_esc_seq_ends [of b]
    unfolding es by (cases "a = []"; cases "b = []") (auto simp: hd_append last_append)
  ultimately show ?thesis by (simp add: ini_trimmed_def)
qed

text \<open>
  Escaped strings are safe in .ini files. With the escape character of the
  configuration nodes, strict escaping of a non-empty string gives a key that is one word and
  does not start a comment, and both strict escaping and value escaping give text without line
  breaks and without space at either end.
\<close>

lemma escape_ini_safe:
  "(s \<noteq> [] \<longrightarrow> ini_word (escape s CHR ''!'' STRICT)) \<and>
   ini_trimmed (escape s CHR ''!'' STRICT) \<and> ini_trimmed (escape s CHR ''!'' INI_VALUE)"
  using escape_strict_word escape_strict_trimmed escape_value_trimmed by blast

end
