(* ===== verification/LCS.thy ===== *)
theory LCS
  imports Prelude "HOL-Library.Sublist"
begin

text \<open>
  Longest common subsequence with gap costs: namespace \<open>LCS\<close> of src/src/syncevo/lcs.h.
  The algorithm is a template over the container and an accessor; here it takes the accessor's
  two functions as arguments, with the two accessors of the header defined beside it. The
  table is a function from index pairs; the loop bodies assign to it, the \<open>+=\<close> on the
  neighbouring cells included. The loop that reads the result back runs forever if it meets a
  \<open>NONE\<close> inside the table, so it is a partial function.

  Shown here: the loop always ends, what it returns is a common subsequence with strictly
  increasing positions in both inputs, and no common subsequence is longer, whatever the
  cost function.
\<close>

section \<open>Definitions\<close>

datatype Choice = NONE | MATCH | LEFT | UP

record 'c Sub =
  choice :: Choice
  sub_length :: nat
  cost :: 'c

record 'e Entry =
  index_a :: nat
  index_b :: nat
  element :: 'e

text \<open>The two accessors: gap cost and element access.\<close>

definition accessor_cost :: "('e \<times> int) list \<Rightarrow> int \<Rightarrow> nat \<Rightarrow> int" where
  "accessor_cost a start end' =
     (if a = [] then 0
      else (if end' \<ge> length a then snd (a ! (length a - 1)) else snd (a ! end')) -
           (if start < 0 then snd (a ! 0) else snd (a ! nat start)))"

definition accessor_sequence_cost :: "'e list \<Rightarrow> int \<Rightarrow> nat \<Rightarrow> int" where
  "accessor_sequence_cost a start end' = 0"

definition add_cost :: "(nat \<times> nat \<Rightarrow> 'c Sub) \<Rightarrow> nat \<times> nat \<Rightarrow> 'c::plus \<Rightarrow> (nat \<times> nat \<Rightarrow> 'c Sub)" where
  "add_cost sub p d = sub(p := (sub p)\<lparr>cost := cost (sub p) + d\<rparr>)"

text \<open>The body of the two nested loops, for the cell \<open>(i, j)\<close>.\<close>

definition lcs_cell ::
  "('x list \<Rightarrow> int \<Rightarrow> nat \<Rightarrow> 'c::{ord,plus,zero}) \<Rightarrow> ('x \<Rightarrow> 'e) \<Rightarrow> 'x list \<Rightarrow> 'x list \<Rightarrow>
   nat \<times> nat \<Rightarrow> (nat \<times> nat \<Rightarrow> 'c Sub) \<Rightarrow> (nat \<times> nat \<Rightarrow> 'c Sub)" where
  "lcs_cell acost entry_at a b = (\<lambda>(i, j) sub.
     if i = 0 \<or> j = 0 then
       sub((i, j) := \<lparr>choice = NONE, sub_length = 0, cost = 0\<rparr>)
     else if entry_at (a ! (i - 1)) = entry_at (b ! (j - 1)) then
       (let len = sub_length (sub (i - 1, j - 1)) + 1;
            c = cost (sub (i - 1, j - 1));
            sub = add_cost sub (i, j - 1) (acost b (int j - 1) j);
            cost_left = cost (sub (i, j - 1));
            sub = add_cost sub (i - 1, j) (acost a (int i - 1) i);
            cost_up = cost (sub (i - 1, j));
            l = sub_length (sub (i, j - 1));
            u = sub_length (sub (i - 1, j));
            (ch, c') =
              (if l > u \<and> len = l \<and> c > cost_left then (LEFT, cost_left)
               else if l < u \<and> len = u \<and> c > cost_up then (UP, cost_up)
               else if l = u \<and> len = u then
                 (if cost_left < cost_up then (LEFT, cost_left) else (UP, cost_up))
               else (MATCH, c))
        in sub((i, j) := \<lparr>choice = ch, sub_length = len, cost = c'\<rparr>))
     else if sub_length (sub (i, j - 1)) > sub_length (sub (i - 1, j)) then
       sub((i, j) := \<lparr>choice = LEFT, sub_length = sub_length (sub (i, j - 1)),
                      cost = cost (sub (i, j - 1)) + acost b (int j - 1) j\<rparr>)
     else if sub_length (sub (i, j - 1)) < sub_length (sub (i - 1, j)) then
       sub((i, j) := \<lparr>choice = UP, sub_length = sub_length (sub (i - 1, j)),
                      cost = cost (sub (i - 1, j)) + acost a (int i - 1) i\<rparr>)
     else
       (let sub = add_cost sub (i, j - 1) (acost b (int j - 1) j);
            cost_left = cost (sub (i, j - 1));
            sub = add_cost sub (i - 1, j) (acost a (int i - 1) i);
            cost_up = cost (sub (i - 1, j))
        in if cost_left < cost_up
           then sub((i, j) := \<lparr>choice = LEFT, sub_length = sub_length (sub (i, j - 1)),
                               cost = cost_left\<rparr>)
           else sub((i, j) := \<lparr>choice = UP, sub_length = sub_length (sub (i - 1, j)),
                               cost = cost_up\<rparr>)))"

text \<open>Row by row, every row from left to right, starting from a zeroed table.\<close>

definition lcs_table ::
  "('x list \<Rightarrow> int \<Rightarrow> nat \<Rightarrow> 'c::{ord,plus,zero}) \<Rightarrow> ('x \<Rightarrow> 'e) \<Rightarrow> 'x list \<Rightarrow> 'x list \<Rightarrow>
   (nat \<times> nat \<Rightarrow> 'c Sub)" where
  "lcs_table acost entry_at a b =
     fold (lcs_cell acost entry_at a b)
       (List.product [0..<Suc (length a)] [0..<Suc (length b)])
       (\<lambda>_. \<lparr>choice = NONE, sub_length = 0, cost = 0\<rparr>)"

text \<open>The loop that walks back from the last cell; a \<open>NONE\<close> leaves \<open>i\<close> and \<open>j\<close> as they are.\<close>

partial_function (option) lcs_trace ::
  "(nat \<times> nat \<Rightarrow> 'c Sub) \<Rightarrow> nat \<Rightarrow> nat \<Rightarrow> (nat \<times> nat) list \<Rightarrow> (nat \<times> nat) list option" where
  "lcs_trace sub i j indices =
     (if i > 0 \<and> j > 0
      then (case choice (sub (i, j)) of
              MATCH \<Rightarrow> lcs_trace sub (i - 1) (j - 1) ((i, j) # indices)
            | LEFT \<Rightarrow> lcs_trace sub i (j - 1) indices
            | UP \<Rightarrow> lcs_trace sub (i - 1) j indices
            | NONE \<Rightarrow> lcs_trace sub i j indices)
      else Some indices)"

definition lcs ::
  "('x list \<Rightarrow> int \<Rightarrow> nat \<Rightarrow> 'c::{ord,plus,zero}) \<Rightarrow> ('x \<Rightarrow> 'e) \<Rightarrow> 'x list \<Rightarrow> 'x list \<Rightarrow>
   'e Entry list option" where
  "lcs acost entry_at a b =
     map_option (map (\<lambda>(i, j). \<lparr>index_a = i, index_b = j, element = entry_at (a ! (i - 1))\<rparr>))
       (lcs_trace (lcs_table acost entry_at a b) (length a) (length b) [])"

section \<open>The specification\<close>

text \<open>The textbook recurrence for the length, on the element sequences.\<close>

fun lcs_len :: "'e list \<Rightarrow> 'e list \<Rightarrow> nat \<Rightarrow> nat \<Rightarrow> nat" where
  "lcs_len xs ys 0 j = 0"
| "lcs_len xs ys (Suc i) 0 = 0"
| "lcs_len xs ys (Suc i) (Suc j) =
     (if xs ! i = ys ! j then lcs_len xs ys i j + 1
      else max (lcs_len xs ys (Suc i) j) (lcs_len xs ys i (Suc j)))"

lemma subseq_appendD: "subseq (p @ q) u \<Longrightarrow> subseq p u"
  using prefix_imp_subseq [of p "p @ q"] by (blast intro: subseq_order.order_trans)

lemma subseq_snoc_cases:
  assumes "subseq zs (us @ [x])"
  shows "subseq zs us \<or> (\<exists>zs'. zs = zs' @ [x] \<and> subseq zs' us)"
proof -
  from subseq_append_iff [THEN iffD1, OF assms] obtain p q where
    zs: "zs = p @ q" and p: "subseq p us" and q: "subseq q [x]" by blast
  from q have "q = [] \<or> q = [x]" by (cases q) (auto simp: subseq_Cons2_iff split: if_splits)
  with zs p show ?thesis by auto
qed

text \<open>No common subsequence of the two prefixes is longer than the recurrence says.\<close>

lemma lcs_len_upper:
  "i \<le> length xs \<Longrightarrow> j \<le> length ys \<Longrightarrow> subseq zs (take i xs) \<Longrightarrow> subseq zs (take j ys) \<Longrightarrow>
   length zs \<le> lcs_len xs ys i j"
proof (induction xs ys i j arbitrary: zs rule: lcs_len.induct)
  case (3 xs ys i j)
  have ti: "take (Suc i) xs = take i xs @ [xs ! i]" and tj: "take (Suc j) ys = take j ys @ [ys ! j]"
    using "3.prems" by (auto intro: take_Suc_conv_app_nth)
  note sx = subseq_snoc_cases [OF "3.prems"(3) [unfolded ti]]
  note sy = subseq_snoc_cases [OF "3.prems"(4) [unfolded tj]]
  show ?case
  proof (cases "xs ! i = ys ! j")
    case True
    obtain zs' where z: "subseq zs' (take i xs)" "subseq zs' (take j ys)" "length zs \<le> Suc (length zs')"
    proof (cases "subseq zs (take i xs) \<and> subseq zs (take j ys)")
      case False
      then obtain zs1 where zs1: "zs = zs1 @ [xs ! i]" using sx sy True by auto
      then have "subseq zs1 (take i xs)" "subseq zs1 (take j ys)"
        using sx sy by (auto dest: subseq_appendD)
      then show ?thesis using that zs1 by auto
    qed auto
    then show ?thesis using "3.IH"(1) [OF True, of zs'] "3.prems"(1,2) True by simp
  next
    case False
    then have "subseq zs (take i xs) \<or> subseq zs (take j ys)" using sx sy by auto
    then show ?thesis
      using "3.IH"(2,3) [OF False, of zs] "3.prems" False by (auto simp: le_max_iff_disj)
  qed
qed auto

section \<open>The table\<close>

text \<open>What a finished cell holds: the optimal length, and a choice that keeps it.\<close>

definition cell_ok :: "'e list \<Rightarrow> 'e list \<Rightarrow> (nat \<times> nat \<Rightarrow> 'c Sub) \<Rightarrow> nat \<times> nat \<Rightarrow> bool" where
  "cell_ok xs ys sub = (\<lambda>(i, j).
     sub_length (sub (i, j)) = lcs_len xs ys i j \<and>
     (i > 0 \<longrightarrow> j > 0 \<longrightarrow>
       (case choice (sub (i, j)) of
          NONE \<Rightarrow> False
        | MATCH \<Rightarrow> xs ! (i - 1) = ys ! (j - 1)
        | LEFT \<Rightarrow> lcs_len xs ys i j = lcs_len xs ys i (j - 1)
        | UP \<Rightarrow> lcs_len xs ys i j = lcs_len xs ys (i - 1) j)))"

lemma add_cost_simps [simp]:
  "sub_length (add_cost sub p d q) = sub_length (sub q)"
  "choice (add_cost sub p d q) = choice (sub q)"
  by (simp_all add: add_cost_def)

lemma cell_ok_cong:
  "sub_length (sub p) = sub_length (sub' p) \<Longrightarrow> choice (sub p) = choice (sub' p) \<Longrightarrow>
   cell_ok xs ys sub p \<longleftrightarrow> cell_ok xs ys sub' p"
  by (cases p) (simp add: cell_ok_def)

lemma lcs_cell_frame:
  assumes "q \<noteq> p"
  shows "sub_length (lcs_cell acost e a b p sub q) = sub_length (sub q) \<and>
         choice (lcs_cell acost e a b p sub q) = choice (sub q)"
  using assms by (auto simp: lcs_cell_def Let_def split: prod.splits)

lemma lcs_len_pos:
  "i > 0 \<Longrightarrow> j > 0 \<Longrightarrow> lcs_len xs ys i j =
     (if xs ! (i - 1) = ys ! (j - 1) then lcs_len xs ys (i - 1) (j - 1) + 1
      else max (lcs_len xs ys i (j - 1)) (lcs_len xs ys (i - 1) j))"
  by (cases i; cases j) auto

lemma lcs_len_zero [simp]: "i = 0 \<or> j = 0 \<Longrightarrow> lcs_len xs ys i j = 0"
  by (cases i; cases j) auto

lemma lcs_cell_ok:
  assumes ij: "i \<le> length a" "j \<le> length b"
    and nb: "i > 0 \<Longrightarrow> j > 0 \<Longrightarrow> cell_ok (map e a) (map e b) sub (i - 1, j - 1) \<and>
      cell_ok (map e a) (map e b) sub (i, j - 1) \<and> cell_ok (map e a) (map e b) sub (i - 1, j)"
  shows "cell_ok (map e a) (map e b) (lcs_cell acost e a b (i, j) sub) (i, j)"
proof (cases "i = 0 \<or> j = 0")
  case True
  then show ?thesis by (auto simp: cell_ok_def lcs_cell_def)
next
  case False
  then obtain i' j' where i: "i = Suc i'" and j: "j = Suc j'" by (metis not0_implies_Suc)
  then have len: "sub_length (sub (i', j')) = lcs_len (map e a) (map e b) i' j'"
      "sub_length (sub (i, j')) = lcs_len (map e a) (map e b) i j'"
      "sub_length (sub (i', j)) = lcs_len (map e a) (map e b) i' j"
    using nb by (auto simp: cell_ok_def)
  have nth: "map e a ! i' = e (a ! i')" "map e b ! j' = e (b ! j')"
    using i j ij by auto
  show ?thesis
    using len nth unfolding i j
    by (cases "e (a ! i') = e (b ! j')") (simp_all add: cell_ok_def lcs_cell_def Let_def)
qed

text \<open>The cells read by a cell come before it in the order of the loops.\<close>

lemma product_split:
  assumes "List.product [0..<m] [0..<n] = ps @ (i, j) # qs"
  shows "i < m \<and> j < n \<and> (\<forall>i' j'. (i' < i \<and> j' < n) \<or> (i' = i \<and> j' < j) \<longrightarrow> (i', j') \<in> set ps)"
  using assms
proof (induction m arbitrary: ps qs)
  case (Suc m)
  have eq: "List.product [0..<Suc m] [0..<n] = List.product [0..<m] [0..<n] @ map (Pair m) [0..<n]"
    by (simp add: product_concat_map)
  show ?case
  proof (cases "length ps < length (List.product [0..<m] [0..<n])")
    case True
    then obtain us where us: "List.product [0..<m] [0..<n] = ps @ us"
        "us @ map (Pair m) [0..<n] = (i, j) # qs"
      using Suc.prems unfolding eq by (auto simp: append_eq_append_conv2)
    then have "us \<noteq> []" using True by auto
    then obtain qs' where "List.product [0..<m] [0..<n] = ps @ (i, j) # qs'"
      using us by (cases us) auto
    then show ?thesis using Suc.IH by fastforce
  next
    case False
    then obtain ps' where ps: "ps = List.product [0..<m] [0..<n] @ ps'"
      and rest: "map (Pair m) [0..<n] = ps' @ (i, j) # qs"
      using Suc.prems unfolding eq append_eq_append_conv_if
      by (metis append_take_drop_id linorder_not_less)
    have k: "length ps' < n" using arg_cong [OF rest, of length] by simp
    have "(i, j) = map (Pair m) [0..<n] ! length ps'" unfolding rest by simp
    then have ij: "i = m" "j = length ps'" using k by auto
    have "(m, j') \<in> set ps'" if "j' < j" for j'
    proof -
      have "map (Pair m) [0..<n] ! j' = ps' ! j'" unfolding rest using that ij by (simp add: nth_append)
      then show ?thesis using that ij k by (metis add_0 diff_zero length_upt nth_map nth_mem nth_upt order_less_trans)
    qed
    then show ?thesis using ij k by (auto simp: ps)
  qed
qed simp

lemma lcs_fold_ok:
  assumes "List.product [0..<Suc (length a)] [0..<Suc (length b)] = ps @ qs"
  shows "\<forall>p \<in> set ps. cell_ok (map e a) (map e b) (fold (lcs_cell acost e a b) ps sub) p"
  using assms
proof (induction ps arbitrary: qs rule: rev_induct)
  case (snoc p ps)
  obtain i j where p: "p = (i, j)" by (cases p)
  let ?s = "fold (lcs_cell acost e a b) ps sub"
  from snoc.prems have sp: "List.product [0..<Suc (length a)] [0..<Suc (length b)] = ps @ (i, j) # qs"
    by (simp add: p)
  have IH: "\<forall>q \<in> set ps. cell_ok (map e a) (map e b) ?s q" using snoc.IH [OF sp] .
  from product_split [OF sp] have ij: "i \<le> length a" "j \<le> length b"
    and before: "\<And>i' j'. (i' < i \<and> j' \<le> length b) \<or> (i' = i \<and> j' < j) \<Longrightarrow> (i', j') \<in> set ps"
    by auto
  have "cell_ok (map e a) (map e b) (lcs_cell acost e a b (i, j) ?s) (i, j)"
    using IH ij by (intro lcs_cell_ok) (auto intro!: bspec [OF IH] before)
  moreover have "cell_ok (map e a) (map e b) (lcs_cell acost e a b (i, j) ?s) q"
    if "q \<in> set ps" "q \<noteq> (i, j)" for q
    using IH that lcs_cell_frame [OF that(2)] cell_ok_cong by metis
  ultimately show ?case by (auto simp: p)
qed simp

lemma lcs_table_ok:
  "i \<le> length a \<Longrightarrow> j \<le> length b \<Longrightarrow>
   cell_ok (map e a) (map e b) (lcs_table acost e a b) (i, j)"
  using lcs_fold_ok [of a b "List.product [0..<Suc (length a)] [0..<Suc (length b)]" "[]" e acost]
  unfolding lcs_table_def by (auto simp del: upt_Suc)

section \<open>Reading the result back\<close>

text \<open>A chain of matching positions below \<open>(m, n)\<close>, strictly increasing in both components.\<close>

definition match_chain :: "'e list \<Rightarrow> 'e list \<Rightarrow> nat \<Rightarrow> nat \<Rightarrow> (nat \<times> nat) list \<Rightarrow> bool" where
  "match_chain xs ys m n ps \<longleftrightarrow>
     sorted_wrt (\<lambda>p q. fst p < fst q \<and> snd p < snd q) ps \<and>
     (\<forall>(i, j) \<in> set ps. 0 < i \<and> i \<le> m \<and> 0 < j \<and> j \<le> n \<and> xs ! (i - 1) = ys ! (j - 1))"

lemma lcs_trace_ok:
  assumes "\<And>i' j'. i' \<le> m \<Longrightarrow> j' \<le> n \<Longrightarrow> cell_ok xs ys sub (i', j')"
  shows "i \<le> m \<Longrightarrow> j \<le> n \<Longrightarrow>
    \<exists>ps. lcs_trace sub i j acc = Some (ps @ acc) \<and> match_chain xs ys i j ps \<and>
         length ps = lcs_len xs ys i j"
proof (induction "i + j" arbitrary: i j acc rule: less_induct)
  case less
  show ?case
  proof (cases "i > 0 \<and> j > 0")
    case False
    then show ?thesis by (auto simp: lcs_trace.simps [of sub i j] match_chain_def)
  next
    case True
    have ok: "cell_ok xs ys sub (i, j)" using assms less.prems by simp
    have le: "i - 1 \<le> m" "j - 1 \<le> n" "i - 1 + (j - 1) < i + j" "i + (j - 1) < i + j" "i - 1 + j < i + j"
      using less.prems True by auto
    show ?thesis
    proof (cases "choice (sub (i, j))")
      case NONE
      with ok True show ?thesis by (simp add: cell_ok_def)
    next
      case MATCH
      with ok True have eq: "xs ! (i - 1) = ys ! (j - 1)" by (simp add: cell_ok_def)
      obtain ps where ps: "lcs_trace sub (i - 1) (j - 1) ((i, j) # acc) = Some (ps @ (i, j) # acc)"
          "match_chain xs ys (i - 1) (j - 1) ps" "length ps = lcs_len xs ys (i - 1) (j - 1)"
        using less.hyps [of "i - 1" "j - 1" "(i, j) # acc"] le by blast
      have "match_chain xs ys i j (ps @ [(i, j)])"
        using ps(2) True eq by (force simp: match_chain_def sorted_wrt_append)
      then show ?thesis
        using ps True MATCH eq
        by (intro exI [of _ "ps @ [(i, j)]"]) (simp add: lcs_trace.simps [of sub i j] lcs_len_pos [of i j])
    next
      case LEFT
      with ok True have eq: "lcs_len xs ys i j = lcs_len xs ys i (j - 1)" by (simp add: cell_ok_def)
      obtain ps where ps: "lcs_trace sub i (j - 1) acc = Some (ps @ acc)"
          "match_chain xs ys i (j - 1) ps" "length ps = lcs_len xs ys i (j - 1)"
        using less.hyps [of i "j - 1" acc] le less.prems by blast
      have "match_chain xs ys i j ps" using ps(2) by (force simp: match_chain_def)
      then show ?thesis using ps True LEFT eq by (auto simp: lcs_trace.simps [of sub i j])
    next
      case UP
      with ok True have eq: "lcs_len xs ys i j = lcs_len xs ys (i - 1) j" by (simp add: cell_ok_def)
      obtain ps where ps: "lcs_trace sub (i - 1) j acc = Some (ps @ acc)"
          "match_chain xs ys (i - 1) j ps" "length ps = lcs_len xs ys (i - 1) j"
        using less.hyps [of "i - 1" j acc] le less.prems by blast
      have "match_chain xs ys i j ps" using ps(2) by (force simp: match_chain_def)
      then show ?thesis using ps True UP eq by (auto simp: lcs_trace.simps [of sub i j])
    qed
  qed
qed

text \<open>
  C35: \<open>lcs\<close> is total and optimal for every cost function. It returns a list of entries whose
  positions are valid (counted from 1) and strictly increasing in both inputs, each entry
  holds the element found at both positions, and no common subsequence of the two inputs is
  longer than the list.
\<close>

theorem lcs_longest:
  "\<exists>out. lcs acost entry_at a b = Some out \<and>
     sorted_wrt (\<lambda>x y. index_a x < index_a y \<and> index_b x < index_b y) out \<and>
     (\<forall>x \<in> set out. 0 < index_a x \<and> index_a x \<le> length a \<and> 0 < index_b x \<and> index_b x \<le> length b \<and>
        element x = entry_at (a ! (index_a x - 1)) \<and> element x = entry_at (b ! (index_b x - 1))) \<and>
     (\<forall>zs. subseq zs (map entry_at a) \<longrightarrow> subseq zs (map entry_at b) \<longrightarrow> length zs \<le> length out)"
proof -
  let ?xs = "map entry_at a" and ?ys = "map entry_at b" and ?t = "lcs_table acost entry_at a b"
  let ?f = "\<lambda>(i, j). \<lparr>index_a = i, index_b = j, element = entry_at (a ! (i - 1))\<rparr>"
  obtain ps where ps: "lcs_trace ?t (length a) (length b) [] = Some ps"
      "match_chain ?xs ?ys (length a) (length b) ps"
      "length ps = lcs_len ?xs ?ys (length a) (length b)"
    using lcs_trace_ok [of "length a" "length b" ?xs ?ys ?t "length a" "length b" "[]"]
    by (auto intro: lcs_table_ok)
  have "length zs \<le> length ps" if "subseq zs ?xs" "subseq zs ?ys" for zs
    using that lcs_len_upper [of "length a" ?xs "length b" ?ys zs] ps(3) by simp
  moreover have "sorted_wrt (\<lambda>x y. index_a x < index_a y \<and> index_b x < index_b y) (map ?f ps)"
    using ps(2) by (auto simp: match_chain_def sorted_wrt_map split_def)
  ultimately show ?thesis
    using ps by (intro exI [of _ "map ?f ps"]) (auto simp: lcs_def match_chain_def)
qed

text \<open>Witness: on \<open>[1, 2, 3]\<close> and \<open>[1, 4, 3]\<close> the common subsequence \<open>[1, 3]\<close> forces
  a result of at least two entries.\<close>

theorem lcs_longest_witness:
  "\<exists>out. lcs accessor_sequence_cost id [1, 2, 3 :: nat] [1, 4, 3] = Some out \<and> 2 \<le> length out"
proof -
  obtain out where out: "lcs accessor_sequence_cost id [1, 2, 3 :: nat] [1, 4, 3] = Some out"
      "\<forall>zs. subseq zs (map id [1, 2, 3 :: nat]) \<longrightarrow> subseq zs (map id [1, 4, 3]) \<longrightarrow> length zs \<le> length out"
    using lcs_longest [of accessor_sequence_cost id "[1, 2, 3 :: nat]" "[1, 4, 3]"] by blast
  moreover have "length [1, 3 :: nat] \<le> length out"
    by (rule out(2) [rule_format]) simp_all
  ultimately show ?thesis by auto
qed

end
