(* ===== verification/Util_Misc.thy ===== *)
theory Util_Misc
  imports String_Escape "HOL-Library.Word"
begin

text \<open>
  The remaining self-contained helpers of src/src/syncevo/util.cpp and util.h: the string
  hash, environment substitution, splitting of joined strings, flag descriptions, the
  three-valued setting, the UUID format, directory lookup and the scoped change of an
  environment variable. The process environment is a map from names to values.
\<close>

unbundle bit_operations_syntax

section \<open>Hash\<close>

text \<open>\<open>unsigned long\<close> has 64 bits; a \<open>char\<close> is sign-extended through \<open>int\<close>.\<close>

definition hash_step :: "64 word \<Rightarrow> char \<Rightarrow> 64 word" where
  "hash_step hashval c = (push_bit 5 hashval + hashval) + word_of_int (schar c)"

fun Hash_cstr :: "64 word \<Rightarrow> string \<Rightarrow> 64 word" where
  "Hash_cstr hashval [] = hashval"
| "Hash_cstr hashval (c # str) =
     (if c = CHR 0x00 then hashval else Hash_cstr (hash_step hashval c) str)"

definition Hash :: "string \<Rightarrow> 64 word" where
  "Hash str = foldl hash_step 5381 str"

lemma Hash_cstr_foldl: "Hash_cstr h s = foldl hash_step h (c_str s)"
  by (induction s arbitrary: h) (auto simp: c_str_def)

lemma hash_step_33: "hash_step h c = 33 * h + word_of_int (schar c)"
proof -
  have "push_bit 5 h = 32 * h" by (simp add: push_bit_eq_mult)
  then show ?thesis by (simp add: hash_step_def)
qed

lemma foldl_hash_step:
  "foldl hash_step h s = 33 ^ length s * h + foldl hash_step 0 s"
proof (induction s arbitrary: h)
  case (Cons c s)
  show ?case
    using Cons.IH [of "33 * h + word_of_int (schar c)"] Cons.IH [of "word_of_int (schar c)"]
    by (simp add: hash_step_33 algebra_simps)
qed simp

text \<open>
  The two overloads of \<open>Hash\<close> agree: hashing a C string is hashing its characters up
  to the terminating zero byte. The hash is Bernstein's: modulo \<open>2 ^ 64\<close> the hash of a
  concatenation is the hash of the first part times 33 to the length of the second part, plus
  the hash contribution of the second part.
\<close>

lemma Hash_overloads_agree:
  "Hash_cstr 5381 s = Hash (c_str s) \<and>
   Hash (s @ t) = 33 ^ length t * Hash s + foldl hash_step 0 t"
  using foldl_hash_step [of "foldl hash_step 5381 s" t]
  by (simp add: Hash_cstr_foldl Hash_def)

section \<open>Environment\<close>

type_synonym env = "string \<Rightarrow> string option"

definition getHome :: "env \<Rightarrow> string" where
  "getHome env = (case env ''HOME'' of Some h \<Rightarrow> h | None \<Rightarrow> ''.'')"

definition subst_var :: "env \<Rightarrow> string \<Rightarrow> string" where
  "subst_var env envname =
     (case env (c_str envname) of
        Some val \<Rightarrow> c_str val
      | None \<Rightarrow>
          if envname = ''XDG_CONFIG_HOME'' then getHome env @ ''/.config''
          else if envname = ''XDG_DATA_HOME'' then getHome env @ ''/.local/share''
          else if envname = ''XDG_CACHE_HOME'' then getHome env @ ''/.cache''
          else [])"

text \<open>
  The loop over the string; the second argument is \<open>None\<close> outside of a variable
  (\<open>envstart == npos\<close>) and otherwise the part of the name read so far.
\<close>

fun subst_loop :: "env \<Rightarrow> string option \<Rightarrow> string \<Rightarrow> string" where
  "subst_loop env _ [] = []"
| "subst_loop env (Some nm) (c # str) =
     (if c = CHR ''}'' then subst_var env nm @ subst_loop env None str
      else subst_loop env (Some (nm @ [c])) str)"
| "subst_loop env None (c # str) =
     (if c = CHR ''$'' \<and> str \<noteq> [] \<and> hd str = CHR ''{''
      then subst_loop env (Some []) (tl str)
      else c # subst_loop env None str)"

definition SubstEnvironment :: "env \<Rightarrow> string \<Rightarrow> string" where
  "SubstEnvironment env str = subst_loop env None str"

lemma subst_loop_plain:
  "CHR ''$'' \<notin> set p \<Longrightarrow> subst_loop env None (p @ s) = p @ subst_loop env None s"
  by (induction p) auto

lemma subst_loop_name:
  "CHR ''}'' \<notin> set n \<Longrightarrow>
   subst_loop env (Some m) (n @ CHR ''}'' # s) = subst_var env (m @ n) @ subst_loop env None s"
  by (induction n arbitrary: m) auto

text \<open>
  \<open>SubstEnvironment\<close> copies text without a dollar sign unchanged and replaces
  \<open>${name}\<close> by the value of the variable, with the XDG base directories falling back to
  their documented defaults below the home directory.
\<close>

lemma SubstEnvironment_replaces:
  assumes "CHR ''$'' \<notin> set p" and "CHR ''}'' \<notin> set n"
  shows "SubstEnvironment env (p @ ''${'' @ n @ ''}'' @ s) =
           p @ subst_var env n @ SubstEnvironment env s \<and>
         SubstEnvironment env p = p"
  using assms subst_loop_plain [of p env "[]"]
  by (simp add: SubstEnvironment_def subst_loop_plain subst_loop_name)

text \<open>
  The calls of the C library: a name that is empty or contains an equal sign is refused
  (\<open>EINVAL\<close>) and leaves the environment as it is, and no variable has such a name.
\<close>

definition valid_name :: "string \<Rightarrow> bool" where
  "valid_name n \<longleftrightarrow> n \<noteq> [] \<and> CHR ''='' \<notin> set n"

definition getenv :: "env \<Rightarrow> string \<Rightarrow> string option" where
  "getenv env n = (if valid_name (c_str n) then env (c_str n) else None)"

definition setenv :: "env \<Rightarrow> string \<Rightarrow> string \<Rightarrow> env" where
  "setenv env n v = (if valid_name (c_str n) then env(c_str n := Some (c_str v)) else env)"

definition unsetenv :: "env \<Rightarrow> string \<Rightarrow> env" where
  "unsetenv env n = (if valid_name (c_str n) then env(c_str n := None) else env)"

text \<open>The constructor saves and overwrites, the destructor restores.\<close>

record scoped_env_change =
  m_var :: string
  m_oldval :: string
  m_oldvalset :: bool

definition ScopedEnvChange :: "env \<Rightarrow> string \<Rightarrow> string \<Rightarrow> env \<times> scoped_env_change" where
  "ScopedEnvChange env var value =
     (setenv env var value,
      (case getenv env var of
         Some v \<Rightarrow> \<lparr>m_var = var, m_oldval = v, m_oldvalset = True\<rparr>
       | None \<Rightarrow> \<lparr>m_var = var, m_oldval = [], m_oldvalset = False\<rparr>))"

definition ScopedEnvChange_destroy :: "env \<Rightarrow> scoped_env_change \<Rightarrow> env" where
  "ScopedEnvChange_destroy env sc =
     (if m_oldvalset sc then setenv env (m_var sc) (m_oldval sc) else unsetenv env (m_var sc))"

lemma c_str_idem [simp]: "c_str (c_str s) = c_str s"
  by (simp add: c_str_def)

text \<open>
  Whatever happens to the environment while a \<open>ScopedEnvChange\<close> lives, its destruction
  gives the variable back the value it had before (or removes it again), and touches no other
  variable. In between the variable has the new value. The values of an environment are C
  strings, that is, without zero bytes.
\<close>

lemma ScopedEnvChange_restores:
  assumes "\<forall>n v. env n = Some v \<longrightarrow> c_str v = v"
    and "valid_name (c_str var)"
  shows "getenv (fst (ScopedEnvChange env var value)) var = Some (c_str value) \<and>
    ScopedEnvChange_destroy env' (snd (ScopedEnvChange env var value)) =
      env'(c_str var := getenv env var)"
  using assms
  by (auto simp: ScopedEnvChange_def ScopedEnvChange_destroy_def getenv_def setenv_def
      unsetenv_def split: option.splits)

section \<open>Joined strings\<close>

text \<open>\<open>find_last_not_of("\\")\<close>: the position of the last character that is no backslash.\<close>

definition last_not_backslash :: "string \<Rightarrow> nat option" where
  "last_not_backslash s =
     (let t = length (takeWhile (\<lambda>c. c = CHR 0x5C) (rev s))
      in if t = length s then None else Some (length s - 1 - t))"

fun drop_backslashes :: "string \<Rightarrow> string" where
  "drop_backslashes [] = []"
| "drop_backslashes (c # s) =
     (if c = CHR 0x5C then (case s of [] \<Rightarrow> [] | d # r \<Rightarrow> d # drop_backslashes r)
      else c # drop_backslashes s)"

text \<open>
  One round of the loop per separator. \<open>cur\<close> is the text between \<open>pos1\<close> and \<open>pos3\<close>,
  \<open>rest\<close> the text from \<open>pos3\<close> on. The test in the code is the parity of the number of
  trailing backslashes, computed in \<open>size_t\<close>; wrap-around keeps the parity.
\<close>

definition delimits :: "string \<Rightarrow> bool" where
  "delimits s1 \<longleftrightarrow>
     (int (length s1) - (case last_not_backslash s1 of None \<Rightarrow> 0 | Some p \<Rightarrow> int p - 1)) mod 2 = 0"

definition joined_token :: "string \<Rightarrow> string" where
  "joined_token s1 = drop_backslashes (trim s1)"

function unescape_joined :: "char \<Rightarrow> string \<Rightarrow> string \<Rightarrow> string list" where
  "unescape_joined sep cur rest =
     (case find_char sep rest of
        None \<Rightarrow> (let s1 = cur @ rest in if delimits s1 then [joined_token s1] else [])
      | Some i \<Rightarrow>
          (let s1 = cur @ take i rest; rest' = drop (Suc i) rest
           in if delimits s1 then joined_token s1 # unescape_joined sep [] rest'
              else unescape_joined sep (s1 @ [sep]) rest'))"
  by pat_completeness auto
termination
  by (relation "measure (\<lambda>(sep, cur, rest). length rest)") (auto dest: find_char_SomeD)

declare unescape_joined.simps [simp del]

definition unescapeJoinedString :: "string \<Rightarrow> char \<Rightarrow> string list" where
  "unescapeJoinedString src sep = unescape_joined sep [] src"

text \<open>The writer's side, as its comment describes it: separators escaped by a backslash.\<close>

definition escape_token :: "char \<Rightarrow> string \<Rightarrow> string" where
  "escape_token sep t =
     concat (map (\<lambda>c. if c = sep \<or> c = CHR 0x5C then [CHR 0x5C, c] else [c]) t)"

lemma delimits_iff: "delimits s \<longleftrightarrow> even (length (takeWhile (\<lambda>c. c = CHR 0x5C) (rev s)))"
proof -
  let ?t = "length (takeWhile (\<lambda>c. c = CHR 0x5C) (rev s))"
  have le: "?t \<le> length s" by (metis length_rev length_takeWhile_le)
  show ?thesis
  proof (cases "?t = length s")
    case True
    then show ?thesis by (simp add: delimits_def last_not_backslash_def) presburger
  next
    case False
    with le have "int (length s) - (int (length s - 1 - ?t) - 1) = int ?t + 2" by simp
    with False show ?thesis
      by (simp add: delimits_def last_not_backslash_def Let_def) presburger
  qed
qed

lemma delimits_Nil [simp]: "delimits []"
  by (simp add: delimits_iff)

lemma delimits_snoc [simp]:
  "delimits (s @ [c]) \<longleftrightarrow> c \<noteq> CHR 0x5C \<or> \<not> delimits s"
  by (simp add: delimits_iff)

lemma drop_backslashes_escape: "drop_backslashes (escape_token sep t) = t"
  by (induction t) (auto simp: escape_token_def)

lemma escape_token_Nil [simp]: "escape_token sep [] = []"
  by (simp add: escape_token_def)

lemma escape_token_Cons:
  "escape_token sep (c # t) = (if c = sep \<or> c = CHR 0x5C then [CHR 0x5C, c] else [c]) @ escape_token sep t"
  by (simp add: escape_token_def)

definition trimmed :: "string \<Rightarrow> bool" where
  "trimmed t \<longleftrightarrow> (t \<noteq> [] \<longrightarrow> \<not> isspace (hd t) \<and> \<not> isspace (last t))"

lemma trim_trimmed: "trimmed t \<Longrightarrow> trim t = t"
  by (auto simp: trimmed_def trim_def dropWhile_hd rstrip_last)

lemma escape_token_snoc:
  "escape_token sep (t @ [c]) = escape_token sep t @ (if c = sep \<or> c = CHR 0x5C then [CHR 0x5C, c] else [c])"
  by (simp add: escape_token_def)

lemma trimmed_escape_token:
  assumes "trimmed t"
  shows "trimmed (escape_token sep t)"
proof (cases "t = []")
  case False
  then obtain c t1 d t2 where c: "t = c # t1" and d: "t = t2 @ [d]"
    by (metis neq_Nil_conv rev_exhaust)
  have "hd (escape_token sep t) \<in> {c, CHR 0x5C}" "escape_token sep t \<noteq> []"
    by (simp_all add: c escape_token_Cons)
  moreover have "last (escape_token sep t) = d"
    unfolding d escape_token_snoc by simp
  moreover have "hd t = c" "last t = d" by (simp add: c) (simp add: d)
  moreover from this have "\<not> isspace c" "\<not> isspace d"
    using assms False by (simp_all add: trimmed_def)
  ultimately show ?thesis by (auto simp: trimmed_def isspace_def)
qed (simp add: trimmed_def)

lemma uj_Nil: "unescape_joined sep cur [] = (if delimits cur then [joined_token cur] else [])"
  by (simp add: unescape_joined.simps)

lemma uj_sep:
  "unescape_joined sep cur (sep # r) =
     (if delimits cur then joined_token cur # unescape_joined sep [] r
      else unescape_joined sep (cur @ [sep]) r)"
  by (subst unescape_joined.simps) simp

lemma uj_other: "x \<noteq> sep \<Longrightarrow> unescape_joined sep cur (x # r) = unescape_joined sep (cur @ [x]) r"
  by (subst (1 2) unescape_joined.simps) (auto simp: Let_def split: option.splits)

lemma uj_escape_token:
  assumes "sep \<noteq> CHR 0x5C"
  shows "delimits cur \<Longrightarrow>
    unescape_joined sep cur (escape_token sep t @ r) = unescape_joined sep (cur @ escape_token sep t) r \<and>
    delimits (cur @ escape_token sep t)"
proof (induction t arbitrary: cur)
  case (Cons c t)
  let ?u = "if c = sep \<or> c = CHR 0x5C then [CHR 0x5C, c] else [c]"
  have "unescape_joined sep cur (?u @ escape_token sep t @ r) =
      unescape_joined sep (cur @ ?u) (escape_token sep t @ r) \<and> delimits (cur @ ?u)"
    using assms Cons.prems delimits_snoc [of cur "CHR 0x5C"]
      delimits_snoc [of "cur @ [CHR 0x5C]" c] delimits_snoc [of cur c]
    by (auto simp: uj_other uj_sep)
  then show ?case using Cons.IH [of "cur @ ?u"] by (simp add: escape_token_Cons)
qed simp

text \<open>
  C36: \<open>unescapeJoinedString\<close> recovers a list of strings that was joined with a separator
  after escaping separators and backslashes by a backslash, for every separator that is
  neither a backslash nor white space, as long as the strings have no space at their ends.
\<close>

lemma unescapeJoinedString_roundtrip:
  assumes "sep \<noteq> CHR 0x5C" and "ts \<noteq> []" and "\<forall>t \<in> set ts. trimmed t"
  shows "unescapeJoinedString (join (map (escape_token sep) ts) [sep]) sep = ts"
proof -
  have tok: "joined_token (escape_token sep t) = t" if "trimmed t" for t
    using that by (simp add: joined_token_def trim_trimmed trimmed_escape_token drop_backslashes_escape)
  have "unescape_joined sep [] (join (map (escape_token sep) ts) [sep]) = ts"
    using assms(2,3)
  proof (induction ts rule: induct_list012)
    case (2 t)
    then show ?case using uj_escape_token [OF assms(1), of "[]" t "[]"] tok by (simp add: uj_Nil)
  next
    case (3 t u ts)
    then show ?case
      using uj_escape_token [OF assms(1), of "[]" t] tok by (simp add: uj_sep)
  qed simp
  then show ?thesis by (simp add: unescapeJoinedString_def)
qed

section \<open>Flags, settings, identifiers\<close>

record Flag =
  m_flag :: "32 word"
  m_description :: string

text \<open>The array ends at the first entry without a flag. The third argument is not used.\<close>

fun flag_descriptions :: "32 word \<Rightarrow> Flag list \<Rightarrow> string list" where
  "flag_descriptions flags [] = []"
| "flag_descriptions flags (d # descr) =
     (if m_flag d = 0 then []
      else (if flags AND m_flag d \<noteq> 0 then [m_description d] else []) @
           flag_descriptions flags descr)"

definition Flags2String :: "32 word \<Rightarrow> Flag list \<Rightarrow> string \<Rightarrow> string" where
  "Flags2String flags descr sep = join (flag_descriptions flags descr) '', ''"

text \<open>
  \<open>Flags2String\<close> lists the descriptions of exactly the flags set in the mask, in the
  order of the table, and joins them with comma and space whatever separator it is given,
  although its documentation names the separator as the joining string.
\<close>

lemma Flags2String_ignores_separator:
  "Flags2String flags descr sep =
     join (map m_description
       (filter (\<lambda>d. flags AND m_flag d \<noteq> 0) (takeWhile (\<lambda>d. m_flag d \<noteq> 0) descr))) '', ''"
  unfolding Flags2String_def by (rule arg_cong2 [where f = join]) (induction descr; simp)+

datatype tri_value = VALUE_TRUE | VALUE_FALSE | VALUE_STRING

definition InitStateTri_getValue :: "string \<Rightarrow> tri_value" where
  "InitStateTri_getValue val =
     (if val = ''1'' \<or> iequals val ''true'' \<or> iequals val ''yes'' then VALUE_TRUE
      else if val = ''0'' \<or> iequals val ''false'' \<or> iequals val ''no'' then VALUE_FALSE
      else VALUE_STRING)"

text \<open>\<open>ReadDir::find\<close> over the sorted entries of a directory.\<close>

fun ReadDir_find :: "string \<Rightarrow> string list \<Rightarrow> string \<Rightarrow> bool \<Rightarrow> string" where
  "ReadDir_find path [] entry caseSensitive = []"
| "ReadDir_find path (e # es) entry caseSensitive =
     (if (if caseSensitive then e = entry else iequals e entry) then path @ ''/'' @ e
      else ReadDir_find path es entry caseSensitive)"

text \<open>\<open>%0<w>x\<close>: hexadecimal digits, at least \<open>w\<close> of them.\<close>

fun hexdigits :: "nat \<Rightarrow> string" where
  "hexdigits n = (if n < 16 then [hexdigit n] else hexdigits (n div 16) @ [hexdigit (n mod 16)])"

declare hexdigits.simps [simp del]

definition printf_hex :: "nat \<Rightarrow> nat \<Rightarrow> string" where
  "printf_hex w n = (let ds = hexdigits n in replicate (w - length ds) CHR ''0'' @ ds)"

text \<open>The UUID printed from the seven pseudo-random numbers, with the masks of the code.\<close>

definition UUID :: "32 word \<Rightarrow> 32 word \<Rightarrow> 32 word \<Rightarrow> 32 word \<Rightarrow> 32 word \<Rightarrow> 32 word \<Rightarrow> 32 word \<Rightarrow> string" where
  "UUID r1 r2 r3 r4 r5 r6 r7 =
     printf_hex 8 (unat (r1 AND 0xFFFFFFFF)) @ ''-'' @
     printf_hex 4 (unat (r2 AND 0xFFFF)) @ ''-'' @
     printf_hex 4 (unat ((r3 AND 0x0FFF) OR 0x4000)) @ ''-'' @
     printf_hex 2 (unat ((r4 AND 0xBF) OR 0x80)) @ printf_hex 2 (unat (r5 AND 0xFF)) @ ''-'' @
     printf_hex 8 (unat (r6 AND 0xFFFFFFFF)) @ printf_hex 4 (unat (r7 AND 0xFFFF))"

lemma hexdigit_mod [simp]: "hexdigit (n mod 16) = hexdigit n"
  by (simp add: hexdigit_def)

lemma printf_hex_Suc:
  assumes "w > 0"
  shows "printf_hex (Suc w) n = printf_hex w (n div 16) @ [hexdigit n]"
proof (cases "n < 16")
  case True
  then have "printf_hex w (n div 16) = replicate w CHR ''0''"
    using assms by (cases w) (simp_all add: printf_hex_def hexdigits.simps [of 0] hexdigit_def replicate_app_Cons_same)
  with True show ?thesis by (simp add: printf_hex_def hexdigits.simps [of n])
next
  case False
  then show ?thesis
    by (simp add: printf_hex_def hexdigits.simps [of n] Let_def)
qed

lemma printf_hex_1: "n < 16 \<Longrightarrow> printf_hex 1 n = [hexdigit n]"
  by (simp add: printf_hex_def hexdigits.simps [of n])

lemma printf_hex_shape:
  "n < 16 ^ Suc w \<Longrightarrow> length (printf_hex (Suc w) n) = Suc w \<and>
     hd (printf_hex (Suc w) n) = hexdigit (n div 16 ^ w)"
proof (induction w arbitrary: n)
  case 0
  then show ?case using printf_hex_1 [of n] by simp
next
  case (Suc w)
  then have "n div 16 < 16 ^ Suc w" by (auto intro: less_mult_imp_div_less)
  from Suc.IH [OF this] show ?case
    by (cases "printf_hex (Suc w) (n div 16)") (auto simp: printf_hex_Suc div_mult2_eq)
qed

lemma unat_less_drop_bit: "drop_bit k (w :: 32 word) = 0 \<Longrightarrow> unat w < 2 ^ k"
proof -
  assume "drop_bit k w = 0"
  then have "unat w div 2 ^ k = 0" by (metis drop_bit_eq_div unat_0 unat_drop_bit_eq)
  then show ?thesis by (simp add: div_eq_0_iff)
qed

lemma unat_div_drop_bit: "unat (w :: 32 word) div 2 ^ k = unat (drop_bit k w)"
  by (metis drop_bit_eq_div unat_drop_bit_eq)

lemma uuid_field_bounds:
  fixes r :: "32 word"
  shows "unat (r AND 0xFFFFFFFF) < 16 ^ Suc 7" "unat (r AND 0xFFFF) < 16 ^ Suc 3"
    "unat ((r AND 0x0FFF) OR 0x4000) < 16 ^ Suc 3" "unat ((r AND 0xBF) OR 0x80) < 16 ^ Suc 1"
    "unat (r AND 0xFF) < 16 ^ Suc 1"
proof -
  have d: "drop_bit 16 (r AND 0xFFFF) = 0" "drop_bit 16 ((r AND 0x0FFF) OR 0x4000) = 0"
    "drop_bit 8 ((r AND 0xBF) OR 0x80) = 0" "drop_bit 8 (r AND 0xFF) = 0"
    by (simp_all add: drop_bit_and drop_bit_or)
  show "unat (r AND 0xFFFFFFFF) < 16 ^ Suc 7"
    using unsigned_less [of "r AND 0xFFFFFFFF", where 'a = nat] by simp
  show "unat (r AND 0xFFFF) < 16 ^ Suc 3" "unat ((r AND 0x0FFF) OR 0x4000) < 16 ^ Suc 3"
    "unat ((r AND 0xBF) OR 0x80) < 16 ^ Suc 1" "unat (r AND 0xFF) < 16 ^ Suc 1"
    using d [THEN unat_less_drop_bit] by simp_all
qed

lemma uuid_version_digit: "unat ((r AND 0x0FFF) OR (0x4000 :: 32 word)) div 16 ^ 3 = 4"
  using unat_div_drop_bit [of "(r AND 0x0FFF) OR 0x4000" 12] by (simp add: drop_bit_and drop_bit_or)

lemma uuid_variant_digit:
  "hexdigit (unat ((r AND 0xBF) OR (0x80 :: 32 word)) div 16 ^ 1) \<in> set ''89ab''"
proof -
  let ?y = "drop_bit 4 r AND (0xB :: 32 word)"
  have "?y = (take_bit 4 (drop_bit 4 r)) AND 0xB"
    by (simp add: take_bit_eq_mask and.assoc mask_eq_exp_minus_1)
  moreover define k where "k = unat (take_bit 4 (drop_bit 4 r))"
  ultimately have y: "?y = of_nat k AND 0xB" by simp
  have "k < 16"
    using take_bit_nat_less_exp [of 4 "unat (drop_bit 4 r)"] by (simp add: k_def unsigned_take_bit_eq)
  then have "k = 0 \<or> k = 1 \<or> k = 2 \<or> k = 3 \<or> k = 4 \<or> k = 5 \<or> k = 6 \<or> k = 7 \<or>
    k = 8 \<or> k = 9 \<or> k = 10 \<or> k = 11 \<or> k = 12 \<or> k = 13 \<or> k = 14 \<or> k = 15"
    by presburger
  then have "?y OR 8 \<in> {8, 9, 10, 11}"
    unfolding y by (elim disjE) simp_all
  moreover have "unat ((r AND 0xBF) OR 0x80) div 2 ^ 4 = unat (?y OR 8)"
    unfolding unat_div_drop_bit by (simp add: drop_bit_and drop_bit_or)
  ultimately show ?thesis by (auto simp: hexdigit_def)
qed

lemma Suc_7_3_1: "Suc 7 = 8" "Suc 3 = 4" "Suc 1 = 2"
  by simp_all

text \<open>
  Every string built by \<open>UUID\<close>, whatever the random numbers, has 36 characters with
  dashes at the usual places, the version digit 4 and one of the variant digits 8, 9, a, b
  of RFC 4122.
\<close>

lemma UUID_version4:
  "let u = UUID r1 r2 r3 r4 r5 r6 r7 in
     length u = 36 \<and> u ! 8 = CHR ''-'' \<and> u ! 13 = CHR ''-'' \<and> u ! 18 = CHR ''-'' \<and>
     u ! 23 = CHR ''-'' \<and> u ! 14 = CHR ''4'' \<and> u ! 19 \<in> set ''89ab''"
proof -
  obtain f1 f2 f3 f4 f5 f6 f7 where f:
    "f1 = printf_hex 8 (unat (r1 AND 0xFFFFFFFF))" "f2 = printf_hex 4 (unat (r2 AND 0xFFFF))"
    "f3 = printf_hex 4 (unat ((r3 AND 0x0FFF) OR 0x4000))"
    "f4 = printf_hex 2 (unat ((r4 AND 0xBF) OR 0x80))" "f5 = printf_hex 2 (unat (r5 AND 0xFF))"
    "f6 = printf_hex 8 (unat (r6 AND 0xFFFFFFFF))" "f7 = printf_hex 4 (unat (r7 AND 0xFFFF))"
    by blast
  have len: "length f1 = 8" "length f2 = 4" "length f3 = 4" "length f4 = 2" "length f5 = 2"
      "length f6 = 8" "length f7 = 4" and
    hd3: "hd f3 = hexdigit (unat ((r3 AND 0x0FFF) OR 0x4000) div 16 ^ 3)" and
    hd4: "hd f4 = hexdigit (unat ((r4 AND 0xBF) OR 0x80) div 16 ^ 1)"
    using printf_hex_shape [OF uuid_field_bounds(1) [of r1]] printf_hex_shape [OF uuid_field_bounds(1) [of r6]]
      printf_hex_shape [OF uuid_field_bounds(2) [of r2]] printf_hex_shape [OF uuid_field_bounds(2) [of r7]]
      printf_hex_shape [OF uuid_field_bounds(3) [of r3]] printf_hex_shape [OF uuid_field_bounds(4) [of r4]]
      printf_hex_shape [OF uuid_field_bounds(5) [of r5]]
    by (simp_all only: f Suc_7_3_1)
  have "f3 ! 0 = CHR ''4''" "f4 ! 0 \<in> set ''89ab''"
    using hd3 hd4 uuid_version_digit [of r3] uuid_variant_digit [of r4] len
    by (simp_all add: hd_conv_nth [symmetric] hexdigit_def flip: length_0_conv)
  then show ?thesis
    using len by (simp add: UUID_def Let_def nth_append flip: f)
qed

end
