(* ===== verification/Decimal.thy ===== *)
theory Decimal
  imports Prelude
begin

text \<open>
  Decimal numbers as text: output of integers to a stream, and extraction of integers from a
  stream (\<open>operator >>\<close>), as the templates of ConfigNode.h use them.
\<close>

section \<open>Printing\<close>

fun dec :: "nat \<Rightarrow> string" where
  "dec n = (if n < 10 then [char_of (48 + n)] else dec (n div 10) @ [char_of (48 + n mod 10)])"

declare dec.simps [simp del]

text \<open>Output of a signed number to a stream.\<close>

definition show_int :: "int \<Rightarrow> string" where
  "show_int i = (if i < 0 then CHR ''-'' # dec (nat (- i)) else dec (nat i))"

section \<open>Parsing\<close>

text \<open>The number that a sequence of digits denotes.\<close>

definition dec_value :: "string \<Rightarrow> nat" where
  "dec_value ds = foldl (\<lambda>a c. a * 10 + (ccode c - 48)) 0 ds"

text \<open>What follows an optional sign.\<close>

definition unsigned_part :: "string \<Rightarrow> string" where
  "unsigned_part s = (if s \<noteq> [] \<and> (hd s = CHR ''-'' \<or> hd s = CHR ''+'') then tl s else s)"

text \<open>
  \<open>operator >>\<close> into a signed integer with the limits \<open>lo\<close> and \<open>hi\<close>: leading space is skipped,
  then a sign and digits are taken; without digits the value is zero, outside of the limits it is
  the limit. The failure bit that is set in both cases is not part of the result.
\<close>

definition stream_int :: "int \<Rightarrow> int \<Rightarrow> string \<Rightarrow> int" where
  "stream_int lo hi s =
     (let s = dropWhile isspace s;
          neg = (s \<noteq> [] \<and> hd s = CHR ''-'');
          v = int (dec_value (takeWhile isdigit (unsigned_part s)))
      in max lo (min hi (if neg then - v else v)))"

text \<open>
  \<open>operator >>\<close> into a \<open>double\<close>, as far as it decides whether the value is zero. Sign, digits,
  decimal point, digits and exponent are taken; the value is zero when this is not a complete
  number, when all digits are zero, or when it rounds to zero, that is up to half of the smallest
  positive value, which is 2 to the power of -1074.
\<close>

definition stream_double_nonzero :: "string \<Rightarrow> bool" where
  "stream_double_nonzero s =
     (let s = unsigned_part (dropWhile isspace s);
          a = takeWhile isdigit s;
          r = dropWhile isdigit s;
          point = (r \<noteq> [] \<and> hd r = CHR ''.'');
          b = (if point then takeWhile isdigit (tl r) else []);
          r = (if point then dropWhile isdigit (tl r) else r);
          hasExponent = (a @ b \<noteq> [] \<and> r \<noteq> [] \<and> hd r \<in> {CHR ''e'', CHR ''E''});
          x = (if hasExponent then takeWhile isdigit (unsigned_part (tl r)) else ''0'');
          x_neg = (hasExponent \<and> tl r \<noteq> [] \<and> hd (tl r) = CHR ''-'');
          m = int (dec_value (a @ b));
          e = (if x_neg then - int (dec_value x) else int (dec_value x)) - int (length b)
      in a @ b \<noteq> [] \<and> x \<noteq> [] \<and> m \<noteq> 0 \<and> (0 \<le> e \<or> 10 ^ nat (- e) < m * 2 ^ 1075))"

section \<open>Lemmas\<close>

lemma dec_nonempty [simp]: "dec n \<noteq> []"
  by (subst dec.simps) simp

lemma ccode_digit: "n < 10 \<Longrightarrow> ccode (char_of (48 + n)) = 48 + n"
  by simp

lemma dec_value_dec [simp]: "dec_value (dec n) = n"
proof (induction n rule: dec.induct)
  case (1 n)
  then show ?case by (subst dec.simps) (simp add: dec_value_def)
qed

lemma dec_digits: "c \<in> set (dec n) \<Longrightarrow> isdigit c"
proof (induction n rule: dec.induct)
  case (1 n)
  show ?case
  proof (cases "n < 10")
    case True
    then show ?thesis using "1.prems" by (subst (asm) dec.simps) (simp add: isdigit_def)
  next
    case False
    then show ?thesis
      using 1 by (subst (asm) dec.simps) (auto simp: isdigit_def)
  qed
qed

lemma dec_inj [simp]: "dec m = dec n \<longleftrightarrow> m = n"
  by (metis dec_value_dec)

lemma show_int_nonempty [simp]: "show_int i \<noteq> []"
  by (simp add: show_int_def)

lemma minus_no_digit: "\<not> isdigit CHR ''-''" "\<not> isdigit CHR ''.''" "\<not> isdigit CHR ''/''" "\<not> isdigit CHR 0x00"
  by (simp_all add: isdigit_code)

lemma show_int_chars: "c \<in> set (show_int i) \<Longrightarrow> isdigit c \<or> c = CHR ''-''"
  using dec_digits by (auto simp: show_int_def split: if_splits)

lemma show_int_inj [simp]: "show_int i = show_int j \<longleftrightarrow> i = j"
proof
  have no: "CHR ''-'' # s \<noteq> dec n" for s n
    using dec_digits [of "CHR ''-''" n] minus_no_digit(1) by (metis list.set_intros(1))
  assume "show_int i = show_int j"
  then show "i = j"
    using no no [symmetric] by (auto simp: show_int_def split: if_splits)
qed simp

lemma show_int_no: "CHR ''.'' \<notin> set (show_int i)" "CHR ''/'' \<notin> set (show_int i)" "CHR 0x00 \<notin> set (show_int i)"
  using show_int_chars minus_no_digit by fastforce+

lemma digit_not_space: "isdigit c \<Longrightarrow> \<not> isspace c \<and> c \<noteq> CHR ''-'' \<and> c \<noteq> CHR ''+''"
  by (auto simp: isspace_def isdigit_code)

lemma show_int_no_space: "c \<in> set (show_int i) \<Longrightarrow> \<not> isspace c"
  using show_int_chars [of c i] digit_not_space by (auto simp: isspace_def)

lemma hd_dec: "isdigit (hd (dec n))"
  using dec_digits [of "hd (dec n)" n] by simp

lemma takeWhile_dec [simp]: "takeWhile isdigit (dec n) = dec n"
  using dec_digits by (auto simp: takeWhile_eq_all_conv)

text \<open>Printed numbers within the limits are read back.\<close>

lemma stream_int_show_int:
  assumes "lo \<le> i" and "i \<le> hi"
  shows "stream_int lo hi (show_int i) = i"
proof -
  have "dropWhile isspace (show_int i) = show_int i"
    using show_int_no_space [of "hd (show_int i)" i] by (intro dropWhile_hd) simp
  then show ?thesis
    using assms hd_dec [of "nat i"] digit_not_space [of "hd (dec (nat i))"]
    by (auto simp: stream_int_def show_int_def Let_def unsigned_part_def)
qed

end
