(* ===== verification/Config_Names.thy ===== *)
theory Config_Names
  imports Decimal "HOL-Library.Product_Lexorder" "HOL-Library.Word"
begin

unbundle bit_operations_syntax

text \<open>
  The names and small languages of the configuration: configuration names
  \<open>peer@context\<close>, property specifiers \<open>source/property@config\<close>, user identities
  \<open>provider:identity\<close>, property comments and durations (src/src/syncevo/SyncConfig.cpp).
  \<open>getConfigs\<close>, which lists the configurations found on disk, is an argument of the
  functions that look a name up.

  Shown here: normal forms of configuration names are stable, property specifiers and user
  identities survive printing and parsing, comments survive splitting into lines, durations
  are sums of their terms modulo \<open>2 ^ 32\<close>, and the list of configurations is sorted by a strict
  weak ordering.
\<close>

section \<open>Configuration levels and sharing\<close>

datatype ConfigLevel = CONFIG_LEVEL_ROOT | CONFIG_LEVEL_CONTEXT | CONFIG_LEVEL_PEER

datatype ConfigLimit = CONFIG_MIN_VERSION | CONFIG_CUR_VERSION

fun ConfigVersions :: "ConfigLevel \<Rightarrow> ConfigLimit \<Rightarrow> int" where
  "ConfigVersions CONFIG_LEVEL_ROOT CONFIG_MIN_VERSION = 0"
| "ConfigVersions CONFIG_LEVEL_ROOT CONFIG_CUR_VERSION = 0"
| "ConfigVersions CONFIG_LEVEL_CONTEXT CONFIG_MIN_VERSION = 1"
| "ConfigVersions CONFIG_LEVEL_CONTEXT CONFIG_CUR_VERSION = 1"
| "ConfigVersions CONFIG_LEVEL_PEER CONFIG_MIN_VERSION = 1"
| "ConfigVersions CONFIG_LEVEL_PEER CONFIG_CUR_VERSION = 1"

fun ConfigLevel2String :: "ConfigLevel \<Rightarrow> string" where
  "ConfigLevel2String CONFIG_LEVEL_ROOT = ''config root''"
| "ConfigLevel2String CONFIG_LEVEL_CONTEXT = ''context config''"
| "ConfigLevel2String CONFIG_LEVEL_PEER = ''peer config''"

datatype Sharing = GLOBAL_SHARING | SOURCE_SET_SHARING | NO_SHARING

fun sharing2str :: "Sharing \<Rightarrow> string" where
  "sharing2str GLOBAL_SHARING = ''global''"
| "sharing2str SOURCE_SET_SHARING = ''shared''"
| "sharing2str NO_SHARING = ''unshared''"

section \<open>Configuration names\<close>

text \<open>\<open>splitConfigString\<close>: the return value, the peer and the context.\<close>

definition splitConfigString :: "string \<Rightarrow> bool \<times> string \<times> string" where
  "splitConfigString config =
     (case rfind_char CHR ''@'' config of
        Some at \<Rightarrow> (True, take at config, drop (at + 1) config)
      | None \<Rightarrow> (False, config, ''default''))"

abbreviation config_peer :: "string \<Rightarrow> string" where
  "config_peer c \<equiv> fst (snd (splitConfigString c))"

abbreviation config_context :: "string \<Rightarrow> string" where
  "config_context c \<equiv> snd (snd (splitConfigString c))"

definition NORMALIZE_LONG_FORMAT :: int where "NORMALIZE_LONG_FORMAT = 0"
definition NORMALIZE_SHORTHAND :: int where "NORMALIZE_SHORTHAND = 1"
definition NORMALIZE_IS_NEW :: int where "NORMALIZE_IS_NEW = 2"

definition config_char :: "char \<Rightarrow> char" where
  "config_char c =
     (if \<not> isprint c \<or> c = CHR ''/'' \<or> c = CHR 0x5C \<or> c = CHR '':'' then CHR ''_'' else c)"

text \<open>The search among the existing configurations for one with the given peer name.\<close>

definition find_config :: "(string \<times> string) list \<Rightarrow> string \<Rightarrow> string" where
  "find_config configs normal =
     (case find (\<lambda>entry. normal = config_peer (fst entry)) configs of
        Some entry \<Rightarrow> fst entry
      | None \<Rightarrow> normal)"

definition normalizeConfigString :: "(string \<times> string) list \<Rightarrow> string \<Rightarrow> int \<Rightarrow> string" where
  "normalizeConfigString getConfigs config flags =
     (let normal = map config_char (to_lower config);
          normal =
            (if ends_with normal ''@default'' then
               (if flags AND NORMALIZE_SHORTHAND \<noteq> 0
                then take (length normal - length ''@default'') normal else normal)
             else if ends_with normal ''@'' then take (length normal - 1) normal
             else
               (let at = rfind_char CHR ''@'' normal;
                    normal = (if at = None \<and> \<not> (flags AND NORMALIZE_IS_NEW \<noteq> 0)
                              then find_config getConfigs normal else normal)
                in if \<not> (flags AND NORMALIZE_SHORTHAND \<noteq> 0) \<and> find_char CHR ''@'' normal = None
                   then normal @ ''@default'' else normal))
      in if normal = [] then ''@default'' else normal)"

definition cmpConfigEntries :: "string \<times> string \<Rightarrow> string \<times> string \<Rightarrow> bool" where
  "cmpConfigEntries a b =
     (let (_, peerA, contextA) = splitConfigString (fst a);
          (_, peerB, contextB) = splitConfigString (fst b)
      in if contextA = contextB
         then (if peerA = peerB then snd a < snd b else peerA < peerB)
         else contextA < contextB)"

interpretation configs: strict_weak_order cmpConfigEntries
proof (rule strict_weak_order_key [where key = "\<lambda>a. (config_context (fst a), config_peer (fst a), snd a)"])
  show "cmpConfigEntries a b \<longleftrightarrow>
      (config_context (fst a), config_peer (fst a), snd a) <
      (config_context (fst b), config_peer (fst b), snd b)" for a b
    by (auto simp: cmpConfigEntries_def less_prod_def split: prod.splits)
qed

lemma splitConfigString_join:
  "splitConfigString c =
     (if CHR ''@'' \<in> set c then (True, config_peer c, config_context c) else (False, c, ''default'')) \<and>
   (CHR ''@'' \<in> set c \<longrightarrow> c = config_peer c @ CHR ''@'' # config_context c \<and>
      CHR ''@'' \<notin> set (config_context c))"
proof (cases "rfind_char CHR ''@'' c")
  case None
  then show ?thesis by (auto simp: splitConfigString_def rfind_char_None)
next
  case (Some i)
  have "CHR ''@'' \<in> set c"
    using rfind_char_None [of "CHR ''@''" c] Some by auto
  then show ?thesis
    using rfind_char_SomeD [OF Some] rfind_char_decomp [OF Some] Some
    by (auto simp: splitConfigString_def)
qed

text \<open>A name in which normalization finds no character to replace.\<close>

definition config_clean :: "string \<Rightarrow> bool" where
  "config_clean c \<longleftrightarrow> list_all (\<lambda>x. config_char x = x \<and> \<not> isupper x) c"

lemma config_char_tolower [simp]:
  "config_char (config_char x) = config_char x"
  "config_char (tolower (config_char (tolower x))) = config_char (tolower x)"
  "\<not> isupper (config_char (tolower x))"
  by (auto simp: config_char_def char_simps)

lemma config_clean_map: "config_clean (map config_char (to_lower c))"
  by (simp add: config_clean_def to_lower_def list_all_iff)

lemma map_config_clean: "config_clean c \<Longrightarrow> map config_char (to_lower c) = c"
  by (induction c) (auto simp: config_clean_def to_lower_def tolower_def)

lemma config_clean_simps [simp]:
  "config_clean []" "config_clean ''@default''"
  "config_clean (a @ b) \<longleftrightarrow> config_clean a \<and> config_clean b"
  by (auto simp: config_clean_def config_char_def char_simps)

lemma config_clean_take: "config_clean c \<Longrightarrow> config_clean (take n c)"
  by (auto simp: config_clean_def list_all_iff dest: in_set_takeD)

lemma find_config_cases:
  "find_config configs n = n \<or> (\<exists>e \<in> set configs. find_config configs n = fst e \<and> config_peer (fst e) = n)"
proof (cases "find (\<lambda>entry. n = config_peer (fst entry)) configs")
  case None
  then show ?thesis by (simp add: find_config_def)
next
  case (Some e)
  then have "e \<in> set configs" "n = config_peer (fst e)" by (auto simp: find_Some_iff)
  then show ?thesis using Some by (auto simp: find_config_def)
qed

lemma config_char_at [simp]: "config_char (tolower x) = CHR ''@'' \<longleftrightarrow> x = CHR ''@''"
proof
  assume h: "config_char (tolower x) = CHR ''@''"
  then have "ccode (tolower x) = 64"
    by (auto simp: config_char_def ccode_def split: if_splits)
  then have "ccode x = 64" by (auto simp: ccode_tolower isupper_def split: if_splits)
  then have "ccode x = ccode (CHR ''@'')" by (simp add: ccode_def)
  then show "x = CHR ''@''" by simp
qed (simp add: config_char_def char_simps)

lemma ends_with_at: "ends_with s ''@'' \<longleftrightarrow> s \<noteq> [] \<and> last s = CHR ''@''"
  by (cases s rule: rev_cases) (auto simp: ends_with_iff)

lemma ends_with_at_normal: "ends_with (map config_char (to_lower c)) ''@'' \<longleftrightarrow> ends_with c ''@''"
  by (auto simp: ends_with_at to_lower_def last_map)

lemma ends_with_default: "ends_with s ''@default'' \<Longrightarrow> CHR ''@'' \<in> set s \<and> \<not> ends_with s ''@''"
  by (auto simp: ends_with_iff ends_with_at)

lemma normalize_long_fixed:
  assumes "config_clean r" "CHR ''@'' \<in> set r" "\<not> ends_with r ''@''" "flags AND NORMALIZE_SHORTHAND = 0"
  shows "normalizeConfigString configs r flags = r"
  using assms
  by (auto simp: normalizeConfigString_def Let_def map_config_clean rfind_char_None find_char_None)

lemma normalize_long_result:
  assumes "\<forall>e \<in> set configs. config_clean (fst e) \<and> \<not> ends_with (fst e) ''@''"
    and "\<not> ends_with config ''@''" and flags: "flags AND NORMALIZE_SHORTHAND = 0"
  defines "r \<equiv> normalizeConfigString configs config flags"
  shows "config_clean r \<and> CHR ''@'' \<in> set r \<and> \<not> ends_with r ''@''"
proof -
  define n where "n = map config_char (to_lower config)"
  define m where "m = (if rfind_char CHR ''@'' n = None \<and> flags AND NORMALIZE_IS_NEW = 0
                       then find_config configs n else n)"
  have n: "config_clean n" "\<not> ends_with n ''@''"
    using assms(2) by (simp_all add: n_def config_clean_map ends_with_at_normal)
  have m: "config_clean m" "\<not> ends_with m ''@''"
    using find_config_cases [of configs n] assms(1) n by (auto simp: m_def)
  have r: "r = (if ends_with n ''@default'' then n
                else if CHR ''@'' \<notin> set m then m @ ''@default'' else m)"
    using flags n ends_with_default [of n]
    by (auto simp: r_def normalizeConfigString_def Let_def n_def [symmetric] m_def find_char_None)
  have "\<not> ends_with (m @ ''@default'') ''@''" by (simp add: ends_with_at)
  then show ?thesis using n m ends_with_default [of n] by (auto simp: r)
qed

text \<open>
  The long normal form of a configuration name is a normal form. For a name that does not
  end in an at sign, and existing configurations whose names are clean, the result names its
  context explicitly, contains no upper case, unprintable, slash, backslash or colon character,
  and normalizing it again, whatever configurations exist then, does not change it.
\<close>

lemma normalizeConfigString_stable:
  assumes "\<forall>e \<in> set configs. config_clean (fst e) \<and> \<not> ends_with (fst e) ''@''"
    and "\<not> ends_with config ''@''" and "flags AND NORMALIZE_SHORTHAND = 0"
  shows "let r = normalizeConfigString configs config flags in
    config_clean r \<and> fst (splitConfigString r) \<and>
    r = config_peer r @ CHR ''@'' # config_context r \<and>
    normalizeConfigString configs' r flags = r"
proof -
  define r where "r = normalizeConfigString configs config flags"
  have r: "config_clean r" "CHR ''@'' \<in> set r" "\<not> ends_with r ''@''"
    using normalize_long_result [OF assms] by (simp_all add: r_def)
  moreover have "fst (splitConfigString r)"
    using splitConfigString_join [of r] r(2) by (metis fst_conv)
  moreover have "r = config_peer r @ CHR ''@'' # config_context r"
    using splitConfigString_join [of r] r(2) by blast
  ultimately show ?thesis
    using normalize_long_fixed [OF r assms(3)] by (simp add: r_def [symmetric] Let_def)
qed

text \<open>
  A name that ends in an at sign escapes this: its long form lacks the context that the
  documentation of \<open>normalizeConfigString\<close> says is added if missing, and normalizing the result
  again changes it.
\<close>

lemma normalizeConfigString_trailing_at:
  assumes "config_clean p" and "p \<noteq> []" and "CHR ''@'' \<notin> set p" and "flags AND NORMALIZE_SHORTHAND = 0"
  shows "normalizeConfigString configs (p @ ''@'') flags = p \<and>
         normalizeConfigString [] p flags = p @ ''@default''"
proof -
  have "config_clean (p @ ''@'')"
    using assms(1) by (simp add: config_clean_def config_char_def char_simps)
  moreover have "\<not> ends_with (p @ ''@'') ''@default''"
    using ends_with_default [of "p @ ''@''"] by (auto simp: ends_with_at)
  moreover have "\<not> ends_with p ''@default''" "\<not> ends_with p ''@''"
    using assms(3) by (auto simp: ends_with_iff)
  ultimately show ?thesis
    using assms
    by (auto simp: normalizeConfigString_def Let_def map_config_clean ends_with_at find_config_def)
qed

section \<open>Property specifiers\<close>

record PropertySpecifier =
  m_source :: string
  m_property :: string
  m_config :: string

definition NO_NORMALIZATION :: int where "NO_NORMALIZATION = 0"
definition NORMALIZE_CONFIG :: int where "NORMALIZE_CONFIG = 2"

text \<open>\<open>find(c, from)\<close>: the position counts from the beginning of the string.\<close>

definition find_from :: "char \<Rightarrow> string \<Rightarrow> nat \<Rightarrow> nat option" where
  "find_from c s from = map_option (\<lambda>i. from + i) (find_char c (drop from s))"

text \<open>The configuration part and the position where it starts.\<close>

definition spec_config :: "(string \<times> string) list \<Rightarrow> int \<Rightarrow> string \<Rightarrow> nat \<Rightarrow> string \<times> nat" where
  "spec_config getConfigs flags spec slash =
     (case find_from CHR ''@'' spec slash of
        Some at \<Rightarrow>
          (let config = (if find_from CHR ''@'' spec (at + 1) \<noteq> None
                         then drop (at + 1) spec else drop at spec)
           in (if flags AND NORMALIZE_CONFIG \<noteq> 0
               then normalizeConfigString getConfigs config NORMALIZE_LONG_FORMAT
               else config, at))
      | None \<Rightarrow> ([], length spec))"

definition StringToPropSpec :: "(string \<times> string) list \<Rightarrow> string \<Rightarrow> int \<Rightarrow> PropertySpecifier" where
  "StringToPropSpec getConfigs spec flags =
     (let (source, slash) =
            (case find_char CHR ''/'' spec of
               Some slash \<Rightarrow> (take slash spec, slash + 1)
             | None \<Rightarrow> ([], 0));
          (config, at) = spec_config getConfigs flags spec slash
      in \<lparr>m_source = source, m_property = substr spec slash (at - slash), m_config = config\<rparr>)"

definition config_suffix :: "string \<Rightarrow> string" where
  "config_suffix c =
     (if c \<noteq> [] then (if c ! 0 \<noteq> CHR ''@'' then ''@'' else []) @ c else [])"

definition PropertySpecifier_toString :: "PropertySpecifier \<Rightarrow> string" where
  "PropertySpecifier_toString p =
     m_source p @ (if m_source p \<noteq> [] then ''/'' else []) @ m_property p @
     config_suffix (m_config p)"

text \<open>
  The specifiers the comments of the class describe: a configuration is absent,
  \<open>@context\<close> or \<open>peer@context\<close>; without a source no other part may contain a slash.
\<close>

definition config_spec :: "string \<Rightarrow> bool" where
  "config_spec c \<longleftrightarrow> c = [] \<or>
     (if hd c = CHR ''@'' then CHR ''@'' \<notin> set (tl c) else CHR ''@'' \<in> set c)"

definition spec_wf :: "PropertySpecifier \<Rightarrow> bool" where
  "spec_wf p \<longleftrightarrow> CHR ''/'' \<notin> set (m_source p) \<and> CHR ''@'' \<notin> set (m_property p) \<and>
     config_spec (m_config p) \<and>
     (m_source p = [] \<longrightarrow> CHR ''/'' \<notin> set (m_property p) \<and> CHR ''/'' \<notin> set (m_config p))"

lemma find_from_split:
  assumes "c \<notin> set a"
  shows "find_from c (p @ a @ c # b) (length p) = Some (length p + length a)"
  using assms by (simp add: find_from_def find_char_split)

lemma spec_config_suffix:
  fixes p :: string
  assumes "config_spec c" and "CHR ''@'' \<notin> set a"
  shows "spec_config configs NO_NORMALIZATION (p @ a @ config_suffix c) (length p) =
    (c, length p + length a)"
proof (cases c)
  case Nil
  then show ?thesis using assms(2) by (simp add: spec_config_def config_suffix_def find_from_def)
next
  case (Cons x xs)
  show ?thesis
  proof (cases "x = CHR ''@''")
    case True
    then have "config_suffix c = CHR ''@'' # xs" and "CHR ''@'' \<notin> set xs"
      using Cons assms(1) by (simp_all add: config_suffix_def config_spec_def)
    then show ?thesis
      using find_from_split [OF assms(2), of p xs] True Cons
      by (simp add: spec_config_def find_from_def NO_NORMALIZATION_def)
  next
    case False
    then have "config_suffix c = CHR ''@'' # c" and "CHR ''@'' \<in> set c"
      using Cons assms(1) by (auto simp: config_suffix_def config_spec_def)
    then show ?thesis
      using find_from_split [OF assms(2), of p c]
      by (simp add: spec_config_def find_from_def find_char_None NO_NORMALIZATION_def)
  qed
qed

text \<open>
  A property specifier survives printing and parsing: for every specifier of the
  documented form, \<open>StringToPropSpec\<close> without normalization returns what \<open>toString\<close> printed.
\<close>

lemma PropertySpecifier_roundtrip:
  assumes "spec_wf p"
  shows "StringToPropSpec configs (PropertySpecifier_toString p) NO_NORMALIZATION = p"
proof -
  let ?p = "m_source p @ (if m_source p \<noteq> [] then ''/'' else [])"
  have str: "PropertySpecifier_toString p = ?p @ m_property p @ config_suffix (m_config p)"
    by (simp add: PropertySpecifier_toString_def)
  have "CHR ''/'' \<notin> set (m_property p @ config_suffix (m_config p))" if "m_source p = []"
    using assms that by (auto simp: spec_wf_def config_suffix_def)
  then have "(case find_char CHR ''/'' (?p @ m_property p @ config_suffix (m_config p)) of
      Some slash \<Rightarrow> (take slash (?p @ m_property p @ config_suffix (m_config p)), slash + 1)
    | None \<Rightarrow> ([], 0)) = (m_source p, length ?p)"
    using assms by (auto simp: spec_wf_def find_char_split)
  moreover have "spec_config configs NO_NORMALIZATION (?p @ m_property p @ config_suffix (m_config p))
      (length ?p) = (m_config p, length ?p + length (m_property p))"
    using assms by (intro spec_config_suffix) (simp_all add: spec_wf_def)
  ultimately show ?thesis
    by (simp only: StringToPropSpec_def str Let_def split_conv) (simp add: substr_def)
qed

section \<open>User identities\<close>

record UserIdentity =
  m_provider :: init_string
  m_identity :: init_string

definition USER_IDENTITY_PLAIN_TEXT :: string where
  "USER_IDENTITY_PLAIN_TEXT = ''user''"

definition UserIdentity :: UserIdentity where
  "UserIdentity = \<lparr>m_provider = (USER_IDENTITY_PLAIN_TEXT, False), m_identity = unset\<rparr>"

text \<open>
  In \<open>off ? idString.substr(0, off) : InitStateString(...)\<close> the operands have the types
  \<open>std::string\<close> and a class derived from it, so the result is a \<open>std::string\<close> and assigning
  it to \<open>m_provider\<close> marks the provider as set in both cases.
\<close>

definition UserIdentity_fromString :: "init_string \<Rightarrow> UserIdentity" where
  "UserIdentity_fromString idString =
     (if wasSet idString
      then (case find_char CHR '':'' (fst idString) of
              Some off \<Rightarrow>
                \<lparr>m_provider = explicit (if off \<noteq> 0 then take off (fst idString)
                                         else USER_IDENTITY_PLAIN_TEXT),
                 m_identity = explicit (drop (off + 1) (fst idString))\<rparr>
            | None \<Rightarrow>
                \<lparr>m_provider = (USER_IDENTITY_PLAIN_TEXT, False), m_identity = idString\<rparr>)
      else UserIdentity)"

definition UserIdentity_toString :: "UserIdentity \<Rightarrow> init_string" where
  "UserIdentity_toString u =
     ((if wasSet (m_provider u) then fst (m_provider u) @ '':'' else []) @ fst (m_identity u),
      wasSet (m_provider u) \<or> wasSet (m_identity u))"

text \<open>
  A user identity read from a configuration survives being written back and read again,
  and the text written is the text read, with the provider \<open>user\<close> spelled out where the text
  started with a bare colon.
\<close>

lemma UserIdentity_roundtrip:
  "UserIdentity_fromString (UserIdentity_toString (UserIdentity_fromString s)) = UserIdentity_fromString s \<and>
   UserIdentity_toString (UserIdentity_fromString s) =
     (if \<not> wasSet s then unset
      else if fst s \<noteq> [] \<and> hd (fst s) = CHR '':'' then explicit (USER_IDENTITY_PLAIN_TEXT @ fst s)
      else s)"
proof (cases "wasSet s")
  case False
  then show ?thesis
    by (simp add: UserIdentity_fromString_def UserIdentity_toString_def UserIdentity_def)
next
  case True
  then obtain t where s: "s = (t, True)" by (cases s) auto
  show ?thesis
  proof (cases "find_char CHR '':'' t")
    case None
    then have "CHR '':'' \<notin> set t" by (simp add: find_char_None)
    then have "\<not> (t \<noteq> [] \<and> hd t = CHR '':'')" by (metis hd_in_set)
    then show ?thesis
      using None by (auto simp: UserIdentity_fromString_def UserIdentity_toString_def s)
  next
    case (Some i)
    obtain a b where t: "t = a @ CHR '':'' # b" and a: "CHR '':'' \<notin> set a"
      using find_char_decomp [OF Some] find_char_SomeD [OF Some] by metis
    show ?thesis
    proof (cases a)
      case Nil
      then show ?thesis
        by (simp add: UserIdentity_fromString_def UserIdentity_toString_def s t
            USER_IDENTITY_PLAIN_TEXT_def)
    next
      case (Cons x xs)
      then show ?thesis
        using find_char_split [OF a, of b] a
        by (auto simp: UserIdentity_fromString_def UserIdentity_toString_def s t)
    qed
  qed
qed

section \<open>Comments\<close>

text \<open>The lines of a comment.\<close>

function splitComment :: "string \<Rightarrow> string list" where
  "splitComment comment =
     (case find_char CHR 0x0A comment of
        None \<Rightarrow> [comment]
      | Some end' \<Rightarrow> take end' comment # splitComment (drop (end' + 1) comment))"
  by auto
termination
  by (relation "measure length") (auto dest: find_char_SomeD)

declare splitComment.simps [simp del]

lemma splitComment_not_Nil [simp]: "splitComment c \<noteq> []"
  by (subst splitComment.simps) (simp split: option.splits)

lemma splitComment_lines: "l \<in> set (splitComment c) \<Longrightarrow> CHR 0x0A \<notin> set l"
proof (induction c rule: splitComment.induct)
  case (1 c)
  then show ?case
    by (subst (asm) splitComment.simps [of c])
      (auto simp: find_char_None dest: find_char_SomeD split: option.splits)
qed

lemma join_splitComment: "join (splitComment c) [CHR 0x0A] = c"
proof (induction c rule: splitComment.induct)
  case (1 c)
  show ?case
  proof (cases "find_char CHR 0x0A c")
    case None
    then show ?thesis by (simp add: splitComment.simps [of c])
  next
    case (Some e)
    obtain y ys where y: "splitComment (drop (Suc e) c) = y # ys"
      using splitComment_not_Nil by (meson list.exhaust)
    then have "join (y # ys) [CHR 0x0A] = drop (Suc e) c" using 1 [OF Some] by simp
    then show ?thesis
      using Some y find_char_decomp [OF Some] by (simp add: splitComment.simps [of c])
  qed
qed

section \<open>Durations\<close>

text \<open>
  \<open>SecondsConfigProperty::parseDuration\<close>: \<open>unsigned int\<close> arithmetic, one pass over the
  characters with the number read so far, whether it has a digit, and the sum.
\<close>

definition duration_unit :: "char \<Rightarrow> 32 word option" where
  "duration_unit c =
     (if toupper c = CHR ''Y'' then Some (365 * 24 * 60 * 60)
      else if toupper c = CHR ''D'' then Some (24 * 60 * 60)
      else if toupper c = CHR ''H'' then Some (60 * 60)
      else if toupper c = CHR ''M'' then Some 60
      else if toupper c = CHR ''S'' \<or> toupper c = CHR ''+'' then Some 1
      else None)"

fun duration_loop :: "string \<Rightarrow> 32 word \<Rightarrow> bool \<Rightarrow> 32 word \<Rightarrow> string + 32 word" where
  "duration_loop [] current haveDigit seconds = Inr (seconds + current)"
| "duration_loop (c # value) current haveDigit seconds =
     (if isdigit c then duration_loop value (current * 10 + of_nat (ccode c - 48)) True seconds
      else if toupper c = CHR '' '' \<or> toupper c = CHR 0x09
      then duration_loop value current haveDigit seconds
      else (case duration_unit c of
              None \<Rightarrow> Inl (c_str (''invalid character '' @ [CHR 0x27, c, CHR 0x27]))
            | Some multiplier \<Rightarrow>
                if \<not> haveDigit \<and> c \<noteq> CHR ''+''
                then Inl (c_str (''unit character without preceeding number: '' @ [c]))
                else duration_loop value 0 False (seconds + current * multiplier)))"

definition parseDuration :: "string \<Rightarrow> string + 32 word" where
  "parseDuration value =
     (if value = [] then Inl ''duration expected, empty string not valid''
      else duration_loop value 0 False 0)"

text \<open>The terms a duration is a sum of.\<close>

definition duration_term :: "string \<times> char \<Rightarrow> bool" where
  "duration_term t \<longleftrightarrow> fst t \<noteq> [] \<and> list_all isdigit (fst t) \<and> duration_unit (snd t) \<noteq> None"

lemma duration_digits:
  assumes "list_all isdigit ds"
  shows "duration_loop (ds @ v) (of_nat n) h s =
     duration_loop v (of_nat (foldl (\<lambda>a c. a * 10 + (ccode c - 48)) n ds)) (h \<or> ds \<noteq> []) s"
  using assms
proof (induction ds arbitrary: n h)
  case (Cons d ds)
  then show ?case
    using Cons.IH [of "n * 10 + (ccode d - 48)" True] by (simp add: mult.commute)
qed simp

lemma isdigit_toupper: "isdigit c \<Longrightarrow> toupper c = c"
  by (simp add: toupper_def isdigit_def islower_def)

lemma duration_unit_char:
  assumes "duration_unit u = Some m"
  shows "\<not> isdigit u \<and> toupper u \<noteq> CHR '' '' \<and> toupper u \<noteq> CHR 0x09"
proof -
  have u: "toupper u \<in> {CHR ''Y'', CHR ''D'', CHR ''H'', CHR ''M'', CHR ''S'', CHR ''+''}"
    using assms by (auto simp: duration_unit_def split: if_splits)
  then have "\<not> isdigit (toupper u)" by (auto simp: isdigit_def ccode_def)
  then show ?thesis using u isdigit_toupper [of u] by auto
qed

lemma duration_term_step:
  assumes "duration_term (ds, u)"
  shows "duration_loop (ds @ u # v) 0 False s =
    duration_loop v 0 False (s + of_nat (dec_value ds) * the (duration_unit u))"
proof -
  obtain m where m: "duration_unit u = Some m" using assms by (auto simp: duration_term_def)
  then show ?thesis
    using assms duration_digits [of ds "u # v" 0 False s] duration_unit_char [OF m]
    by (simp add: duration_term_def dec_value_def)
qed

text \<open>
  A duration written as terms of a number and a unit, with or without a last number that
  has no unit, is accepted, and its value is the sum of the numbers times their units, modulo
  \<open>2 ^ 32\<close>.
\<close>

lemma parseDuration_sum:
  assumes "\<forall>t \<in> set ts. duration_term t" and "list_all isdigit tail" and "ts \<noteq> [] \<or> tail \<noteq> []"
  shows "parseDuration (concat (map (\<lambda>(ds, u). ds @ [u]) ts) @ tail) =
    Inr (sum_list (map (\<lambda>(ds, u). of_nat (dec_value ds) * the (duration_unit u)) ts) +
         of_nat (dec_value tail))"
proof -
  have "duration_loop (concat (map (\<lambda>(ds, u). ds @ [u]) ts) @ tail) 0 False s =
      Inr (s + sum_list (map (\<lambda>(ds, u). of_nat (dec_value ds) * the (duration_unit u)) ts) +
           of_nat (dec_value tail))" for s
    using assms(1)
  proof (induction ts arbitrary: s)
    case Nil
    then show ?case
      using duration_digits [OF assms(2), of "[]" 0 False s] by (simp add: dec_value_def)
  next
    case (Cons t ts)
    obtain ds u where t: "t = (ds, u)" by (cases t)
    then show ?case
      using Cons duration_term_step [of ds u] by (simp add: add.assoc)
  qed
  moreover have "concat (map (\<lambda>(ds, u). ds @ [u]) ts) @ tail \<noteq> []"
    using assms(3) by (cases ts) auto
  ultimately show ?thesis by (simp add: parseDuration_def)
qed

end
