(* ===== verification/Config_Props.thy ===== *)
theory Config_Props
  imports Config_Names
begin

text \<open>
  Property sets and filters (src/src/syncevo/ConfigFilter.h and ConfigFilter.cpp):
  \<open>ConfigProps\<close>, \<open>SourceProps\<close> and \<open>FullProps\<close> are maps with case-insensitive keys.
  The registry of known sync properties, the configurations on disk and the property nodes
  that \<open>createFilters\<close> reads are arguments.

  Shown here: how \<open>add\<close> and the filter functions resolve a property that is set at several
  levels.
\<close>

section \<open>Definitions\<close>

type_synonym config_props = "(string \<times> init_string) list"

type_synonym source_props = "(string \<times> config_props) list"

record context_props =
  m_syncProps :: config_props
  m_sourceProps :: source_props

type_synonym full_props = "(string \<times> context_props) list"

text \<open>The operations of the map class with the comparison object \<open>Nocase\<close>.\<close>

abbreviation nc_find :: "string \<Rightarrow> (string \<times> 'v) list \<Rightarrow> 'v option" where
  "nc_find \<equiv> kfind nocase_key"

abbreviation nc_put :: "string \<Rightarrow> 'v \<Rightarrow> (string \<times> 'v) list \<Rightarrow> (string \<times> 'v) list" where
  "nc_put \<equiv> kput nocase_key"

abbreviation nc_insert :: "string \<Rightarrow> 'v \<Rightarrow> (string \<times> 'v) list \<Rightarrow> (string \<times> 'v) list" where
  "nc_insert \<equiv> kinsert nocase_key"

abbreviation nc_erase :: "string \<Rightarrow> (string \<times> 'v) list \<Rightarrow> (string \<times> 'v) list" where
  "nc_erase \<equiv> kerase nocase_key"

abbreviation nc_sorted :: "(string \<times> 'v) list \<Rightarrow> bool" where
  "nc_sorted \<equiv> ksorted nocase_key"

text \<open>\<open>insert(entry)\<close>, and assignment to the element found when that fails.\<close>

definition ConfigProps_add :: "config_props \<Rightarrow> config_props \<Rightarrow> config_props" where
  "ConfigProps_add props other =
     fold (\<lambda>(k, v) m. case nc_find k m of None \<Rightarrow> nc_insert k v m | Some _ \<Rightarrow> nc_put k v m) other props"

definition ConfigProps_get :: "config_props \<Rightarrow> string \<Rightarrow> string \<Rightarrow> init_string" where
  "ConfigProps_get props key def =
     (case nc_find key props of None \<Rightarrow> (def, False) | Some v \<Rightarrow> v)"

definition ConfigProps_string :: "config_props \<Rightarrow> string" where
  "ConfigProps_string props = join (sort (map (\<lambda>(k, v). k @ '' = '' @ fst v) props)) [CHR 0x0A]"

definition SourceProps_createSourceFilter :: "source_props \<Rightarrow> string \<Rightarrow> config_props" where
  "SourceProps_createSourceFilter props source =
     (let filter = (case nc_find [] props of Some f \<Rightarrow> f | None \<Rightarrow> [])
      in if source \<noteq> []
         then (case nc_find source props of Some f \<Rightarrow> ConfigProps_add filter f | None \<Rightarrow> filter)
         else filter)"

text \<open>
  \<open>createSyncFilter\<close> and \<open>createSourceFilter\<close> of \<open>FullProps\<close>: the unset context first,
  then the context of the configuration, then the peer configuration.
\<close>

definition FullProps_createSyncFilter ::
  "(string \<times> string) list \<Rightarrow> full_props \<Rightarrow> string \<Rightarrow> config_props" where
  "FullProps_createSyncFilter getConfigs props config =
     (let filter = (case nc_find [] props of Some c \<Rightarrow> m_syncProps c | None \<Rightarrow> [])
      in if config \<noteq> []
         then
           (let normal = normalizeConfigString getConfigs config NORMALIZE_LONG_FORMAT;
                (_, peer, context') = splitConfigString normal;
                filter = (case nc_find (''@'' @ context') props of
                            Some c \<Rightarrow> ConfigProps_add filter (m_syncProps c) | None \<Rightarrow> filter)
            in if peer \<noteq> []
               then (case nc_find normal props of
                       Some c \<Rightarrow> ConfigProps_add filter (m_syncProps c) | None \<Rightarrow> filter)
               else filter)
         else filter)"

definition FullProps_createSourceFilter ::
  "(string \<times> string) list \<Rightarrow> full_props \<Rightarrow> string \<Rightarrow> string \<Rightarrow> config_props" where
  "FullProps_createSourceFilter getConfigs props config source =
     (let pick = (\<lambda>c. SourceProps_createSourceFilter (m_sourceProps c) source);
          filter = (case nc_find [] props of Some c \<Rightarrow> pick c | None \<Rightarrow> [])
      in if config \<noteq> []
         then
           (let normal = normalizeConfigString getConfigs config NORMALIZE_LONG_FORMAT;
                (_, peer, context') = splitConfigString normal;
                filter = (case nc_find (''@'' @ context') props of
                            Some c \<Rightarrow> ConfigProps_add filter (pick c) | None \<Rightarrow> filter)
            in if peer \<noteq> []
               then (case nc_find normal props of
                       Some c \<Rightarrow> ConfigProps_add filter (pick c) | None \<Rightarrow> filter)
               else filter)
         else filter)"

datatype PropCheckMode = CHECK_ALL | IGNORE_GLOBAL_PROPS

text \<open>The registry: the sharing of a known sync property.\<close>

definition FullProps_hasProperties :: "(string \<Rightarrow> Sharing option) \<Rightarrow> full_props \<Rightarrow> PropCheckMode \<Rightarrow> bool" where
  "FullProps_hasProperties registry props mode =
     list_ex (\<lambda>(_, context).
         (mode = CHECK_ALL \<and> m_syncProps context \<noteq> []) \<or>
         (mode = IGNORE_GLOBAL_PROPS \<and>
          list_ex (\<lambda>(k, _). case registry k of None \<Rightarrow> True | Some sh \<Rightarrow> sh \<noteq> GLOBAL_SHARING)
            (m_syncProps context)) \<or>
         list_ex (\<lambda>(_, source). source \<noteq> []) (m_sourceProps context)) props"

text \<open>
  What \<open>createFilters\<close> reads of a configuration it constructs by name: its own sync
  properties, its sources, and the properties of each source.
\<close>

record stored_config =
  sc_properties :: "config_props \<Rightarrow> config_props"
  sc_sources :: "string list"
  sc_source_properties :: "string \<Rightarrow> config_props \<Rightarrow> config_props"

definition addFilter_at :: "string \<Rightarrow> config_props \<Rightarrow> source_props \<Rightarrow> source_props" where
  "addFilter_at source other filters =
     nc_put source (ConfigProps_add (case nc_find source filters of Some p \<Rightarrow> p | None \<Rightarrow> []) other) filters"

definition source_filter_step ::
  "(string \<Rightarrow> stored_config) \<Rightarrow> (string \<times> string) list \<Rightarrow> full_props \<Rightarrow> string \<Rightarrow> string \<Rightarrow>
   string \<Rightarrow> source_props \<Rightarrow> source_props" where
  "source_filter_step SyncConfig getConfigs props context' config source filters =
     (let p = (case nc_find source filters of Some p \<Rightarrow> p | None \<Rightarrow> []);
          p = (if context' \<noteq> []
               then ConfigProps_add
                      (nc_erase ''type'' (sc_source_properties (SyncConfig context') source p))
                      (FullProps_createSourceFilter getConfigs props context' source)
               else p);
          p = (if config \<noteq> []
               then ConfigProps_add p (FullProps_createSourceFilter getConfigs props config source)
               else p)
      in nc_put source p filters)"

definition FullProps_createFilters ::
  "(string \<Rightarrow> stored_config) \<Rightarrow> (string \<times> string) list \<Rightarrow> full_props \<Rightarrow> string \<Rightarrow> string \<Rightarrow>
   string list option \<Rightarrow> config_props \<Rightarrow> source_props \<Rightarrow> config_props \<times> source_props" where
  "FullProps_createFilters SyncConfig getConfigs props context' config sources syncFilter sourceFilters =
     (let syncFilter = (if context' \<noteq> [] then sc_properties (SyncConfig context') syncFilter else syncFilter);
          (syncFilter, sourceFilters) =
            (if context' \<noteq> []
             then (ConfigProps_add syncFilter (FullProps_createSyncFilter getConfigs props context'),
                   addFilter_at [] (FullProps_createSourceFilter getConfigs props context' []) sourceFilters)
             else (syncFilter, sourceFilters));
          (syncFilter, sourceFilters) =
            (if config \<noteq> []
             then (ConfigProps_add syncFilter (FullProps_createSyncFilter getConfigs props config),
                   addFilter_at [] (FullProps_createSourceFilter getConfigs props config []) sourceFilters)
             else (syncFilter, sourceFilters));
          allSources = (case sources of Some s \<Rightarrow> s | None \<Rightarrow> []);
          allSources = allSources @ (if context' \<noteq> [] then sc_sources (SyncConfig context') else []);
          allSources = allSources @ (if config \<noteq> [] then sc_sources (SyncConfig config) else [])
      in (syncFilter,
          fold (source_filter_step SyncConfig getConfigs props context' config)
            (sorted_list_of_set (set allSources)) sourceFilters))"

section \<open>Lookup\<close>

lemma kfind_cong: "f k = f k' \<Longrightarrow> kfind f k m = kfind f k' m"
  by (induction m) auto

lemma add_step_put:
  "(case nc_find a m of None \<Rightarrow> nc_insert a v m | Some _ \<Rightarrow> nc_put a v m) = nc_put a v m"
  by (simp add: kinsert_def split: option.splits)

lemma ConfigProps_add_fold: "ConfigProps_add m other = fold (\<lambda>(k, v). nc_put k v) other m"
  by (simp only: ConfigProps_add_def add_step_put)

lemma ConfigProps_add_simps [simp]:
  "ConfigProps_add m [] = m"
  "ConfigProps_add m ((a, v) # other) = ConfigProps_add (nc_put a v m) other"
  by (simp_all add: ConfigProps_add_fold)

lemma nc_sorted_add [simp, intro]: "nc_sorted m \<Longrightarrow> nc_sorted (ConfigProps_add m other)"
  by (induction other arbitrary: m) (simp_all add: split_paired_all)

text \<open>The added entries win over the existing ones.\<close>

lemma nc_find_add [kmap_simps]:
  assumes "nc_sorted other"
  shows "nc_find k (ConfigProps_add m other) =
    (case nc_find k other of Some v \<Rightarrow> Some v | None \<Rightarrow> nc_find k m)"
  using assms
proof (induction other arbitrary: m)
  case (Cons e other)
  obtain a v where e: "e = (a, v)" by (cases e)
  have srt: "nc_sorted other" "\<forall>x \<in> set other. nocase_key a < nocase_key (fst x)"
    using Cons.prems by (auto simp: e ksorted_Cons)
  show ?case
  proof (cases "nocase_key a = nocase_key k")
    case True
    then have "nc_find k other = None" using srt(2) by (auto simp: kfind_None)
    then show ?thesis using Cons.IH [OF srt(1)] True by (simp add: e kfind_kput)
  next
    case False
    then show ?thesis
      using Cons.IH [OF srt(1)] by (auto simp: e kfind_kput split: option.splits)
  qed
qed simp

section \<open>Priorities\<close>

text \<open>The first of several lookups that succeeds.\<close>

fun first_some :: "'a option list \<Rightarrow> 'a option" where
  "first_some [] = None"
| "first_some (x # xs) = (case x of Some v \<Rightarrow> Some v | None \<Rightarrow> first_some xs)"

definition props_wf :: "source_props \<Rightarrow> bool" where
  "props_wf p \<longleftrightarrow> list_all (\<lambda>(_, f). nc_sorted f) p"

definition full_wf :: "full_props \<Rightarrow> bool" where
  "full_wf p \<longleftrightarrow> list_all (\<lambda>(_, c). nc_sorted (m_syncProps c) \<and> props_wf (m_sourceProps c)) p"

text \<open>The value of property \<open>k\<close> in the source filters of \<open>source\<close>, most specific first.\<close>

definition source_lookup :: "source_props \<Rightarrow> string \<Rightarrow> string \<Rightarrow> init_string option" where
  "source_lookup p source k =
     first_some [if source = [] then None else Option.bind (nc_find source p) (nc_find k),
                 Option.bind (nc_find [] p) (nc_find k)]"

lemma props_wf_find: "props_wf p \<Longrightarrow> nc_find s p = Some f \<Longrightarrow> nc_sorted f"
  by (auto simp: props_wf_def list_all_iff dest: kfind_memD)

lemma full_wf_find:
  "full_wf p \<Longrightarrow> nc_find s p = Some c \<Longrightarrow> nc_sorted (m_syncProps c) \<and> props_wf (m_sourceProps c)"
  by (auto simp: full_wf_def list_all_iff dest: kfind_memD)

lemma createSourceFilter_wf: "props_wf p \<Longrightarrow> nc_sorted (SourceProps_createSourceFilter p source)"
  by (auto simp: SourceProps_createSourceFilter_def Let_def split: option.splits dest: props_wf_find)

lemma createSourceFilter_find:
  assumes "props_wf p"
  shows "nc_find k (SourceProps_createSourceFilter p source) = source_lookup p source k"
  using assms props_wf_find [OF assms]
  by (auto simp: SourceProps_createSourceFilter_def Let_def source_lookup_def nc_find_add
      split: option.splits)

text \<open>
  Both filter functions of \<open>FullProps\<close> follow one scheme: a filter per level, the more
  specific level overwriting the less specific one.
\<close>

definition level_lookup ::
  "(string \<times> string) list \<Rightarrow> full_props \<Rightarrow> string \<Rightarrow> (context_props \<Rightarrow> init_string option) \<Rightarrow>
   init_string option" where
  "level_lookup configs props config get =
     (let normal = normalizeConfigString configs config NORMALIZE_LONG_FORMAT in
      first_some
        [if config = [] \<or> config_peer normal = [] then None else Option.bind (nc_find normal props) get,
         if config = [] then None else Option.bind (nc_find (''@'' @ config_context normal) props) get,
         Option.bind (nc_find [] props) get])"

lemma createSyncFilter_find:
  assumes "full_wf props"
  shows "nc_find k (FullProps_createSyncFilter configs props config) =
    level_lookup configs props config (\<lambda>c. nc_find k (m_syncProps c))"
  using full_wf_find [OF assms]
  by (auto simp: FullProps_createSyncFilter_def level_lookup_def Let_def nc_find_add
      split: option.splits prod.splits)

lemma createSourceFilter_full_find:
  assumes "full_wf props"
  shows "nc_find k (FullProps_createSourceFilter configs props config source) =
    level_lookup configs props config (\<lambda>c. source_lookup (m_sourceProps c) source k)"
  using full_wf_find [OF assms]
  by (auto simp: FullProps_createSourceFilter_def level_lookup_def Let_def nc_find_add
      createSourceFilter_find createSourceFilter_wf split: option.splits prod.splits)

text \<open>
  C39: a property set on several levels is resolved by documented priorities. A sync
  property takes the value set for the peer configuration, else the one for its context, else
  the one without a context; for a source property each of these levels is first searched for
  the source by name and then for all sources, so that a value for all sources in a more
  specific level wins over a value for the source in a less specific one.
\<close>

theorem filter_priorities:
  assumes "full_wf props"
  shows "nc_find k (FullProps_createSyncFilter configs props config) =
      level_lookup configs props config (\<lambda>c. nc_find k (m_syncProps c)) \<and>
    nc_find k (FullProps_createSourceFilter configs props config source) =
      level_lookup configs props config (\<lambda>c. first_some
        [if source = [] then None else Option.bind (nc_find source (m_sourceProps c)) (nc_find k),
         Option.bind (nc_find [] (m_sourceProps c)) (nc_find k)])"
  using createSyncFilter_find [OF assms] createSourceFilter_full_find [OF assms]
  by (simp add: source_lookup_def)

theorem filter_priorities_witness:
  "let props = [([], \<lparr>m_syncProps = [(''a'', explicit ''0'')], m_sourceProps = []\<rparr>),
                (''@default'', \<lparr>m_syncProps = [(''A'', explicit ''1'')], m_sourceProps = []\<rparr>)]
   in nc_find ''a'' (FullProps_createSyncFilter [] props ''foo'') =
      level_lookup [] props ''foo'' (\<lambda>c. nc_find ''a'' (m_syncProps c))"
proof -
  have "full_wf [([], \<lparr>m_syncProps = [(''a'', explicit ''0'')], m_sourceProps = []\<rparr>),
                (''@default'', \<lparr>m_syncProps = [(''A'', explicit ''1'')], m_sourceProps = []\<rparr>)]"
    by (simp add: full_wf_def props_wf_def ksorted_Cons)
  from filter_priorities [OF this, of "''a''" "[]" "''foo''" "[]"] show ?thesis
    by (simp add: Let_def)
qed

end
