(* ===== verification/Ini_Config_Node.thy ===== *)
theory Ini_Config_Node
  imports Config_Props String_Escape
begin

text \<open>
  The .ini backed configuration nodes (src/src/syncevo/IniConfigNode.h and .cpp) on top of
  data blobs (FileDataBlob, StringDataBlob). A blob owns its content here: the file below a
  node is changed by no one else. Operating system errors on the way to the file are not
  modelled. \<open>getContent\<close> is written with the list functions that its index loops compute.

  Shown here: what one property reads after another was written, for both classes; when
  writing an unset value removes a property and when not; that what is flushed is what the
  node reads back when it is opened again.
\<close>

section \<open>Data blobs\<close>

datatype blob_kind = FileBlob | StringBlob

text \<open>No data stands for a file that does not exist and for a null pointer to a string.\<close>

record data_blob =
  blob_kind :: blob_kind
  blob_name :: string
  blob_readonly :: bool
  blob_data :: "string option"

definition FileDataBlob :: "string \<Rightarrow> string \<Rightarrow> bool \<Rightarrow> string option \<Rightarrow> data_blob" where
  "FileDataBlob path fileName readonly file =
     \<lparr>blob_kind = FileBlob, blob_name = path @ ''/'' @ fileName, blob_readonly = readonly,
      blob_data = file\<rparr>"

definition StringDataBlob :: "string \<Rightarrow> string option \<Rightarrow> bool \<Rightarrow> data_blob" where
  "StringDataBlob name data readonly =
     \<lparr>blob_kind = StringBlob, blob_name = name, blob_readonly = readonly, blob_data = data\<rparr>"

definition blob_exists :: "data_blob \<Rightarrow> bool" where
  "blob_exists b \<longleftrightarrow> blob_data b \<noteq> None"

text \<open>The characters of the stream that \<open>read()\<close> returns; none for a stream that failed to open.\<close>

definition blob_read :: "data_blob \<Rightarrow> string" where
  "blob_read b = (case blob_data b of Some d \<Rightarrow> d | None \<Rightarrow> [])"

text \<open>\<open>ReadFile(istream)\<close>: success unless the stream failed to open.\<close>

definition blob_ReadFile :: "data_blob \<Rightarrow> bool \<times> string" where
  "blob_ReadFile b = (blob_data b \<noteq> None \<or> blob_kind b = StringBlob, blob_read b)"

text \<open>\<open>write()\<close>, output of the content and destruction of the stream.\<close>

definition blob_write :: "data_blob \<Rightarrow> string \<Rightarrow> data_blob step" where
  "blob_write b content =
     (case blob_kind b of
        FileBlob \<Rightarrow>
          if blob_readonly b
          then throw (Throw (blob_name b @ '': internal error: attempt to write read-only FileDataBlob'')) b
          else return (b\<lparr>blob_data := Some content\<rparr>)
      | StringBlob \<Rightarrow>
          if blob_data b = None then throw NullDeref b
          else return (b\<lparr>blob_data := Some content\<rparr>))"

section \<open>Lines\<close>

text \<open>Property, value and whether the line is a comment; \<open>None\<close> when there is no assignment.\<close>

definition getAssignment :: "string \<Rightarrow> bool \<Rightarrow> (string \<times> string \<times> bool) option" where
  "getAssignment s isComment =
     (let property = takeWhile (\<lambda>c. \<not> isspace c) s;
          s = dropWhile isspace (dropWhile (\<lambda>c. \<not> isspace c) s)
      in if s = [] \<or> hd s \<noteq> CHR ''='' then None
         else Some (property, rstrip (dropWhile isspace (tl s)), isComment))"

definition getContent :: "string \<Rightarrow> bool \<Rightarrow> (string \<times> string \<times> bool) option" where
  "getContent line fuzzyComments =
     (let s = dropWhile isspace line in
      if s = [] then None
      else if hd s = CHR ''#''
      then (if \<not> fuzzyComments then None else getAssignment (dropWhile isspace (tl s)) True)
      else getAssignment s False)"

definition getValue :: "string \<Rightarrow> string \<Rightarrow> bool \<Rightarrow> (string \<times> bool) option" where
  "getValue line property fuzzyComments =
     (case getContent line fuzzyComments of
        Some (curProp, value, isComment) \<Rightarrow>
          if strcasecmp_eq curProp property then Some (value, isComment) else None
      | None \<Rightarrow> None)"

section \<open>IniBaseConfigNode\<close>

record ini_base =
  m_data :: data_blob
  m_modified :: bool

definition IniBase_flush ::
  "('a ini_base_scheme \<Rightarrow> string) \<Rightarrow> 'a ini_base_scheme \<Rightarrow> 'a ini_base_scheme step" where
  "IniBase_flush toFile n =
     (if \<not> m_modified n then return n
      else if blob_readonly (m_data n)
      then throw (Throw (blob_name (m_data n) @
             '': internal error: flushing read-only config node not allowed'')) n
      else
        (let newcontent = toFile n;
             (ok, oldcontent) = blob_ReadFile (m_data n)
         in if \<not> ok \<or> oldcontent \<noteq> newcontent
            then
              (case blob_write (m_data n) newcontent of
                 (Some e, b) \<Rightarrow> throw e (n\<lparr>m_data := b\<rparr>)
               | (None, b) \<Rightarrow> return (n\<lparr>m_data := b, m_modified := False\<rparr>))
            else return (n\<lparr>m_modified := False\<rparr>)))"

section \<open>IniFileConfigNode\<close>

record ini_file = ini_base +
  m_lines :: "string list"

definition IniFile_toFile :: "ini_file \<Rightarrow> string" where
  "IniFile_toFile n = concat (map (\<lambda>line. line @ [CHR 0x0A]) (m_lines n))"

definition IniFile_read :: "ini_file \<Rightarrow> ini_file" where
  "IniFile_read n = n\<lparr>m_lines := m_lines n @ getlines (blob_read (m_data n)), m_modified := False\<rparr>"

definition IniFileConfigNode :: "data_blob \<Rightarrow> ini_file" where
  "IniFileConfigNode data = IniFile_read \<lparr>m_data = data, m_modified = False, m_lines = []\<rparr>"

fun read_line :: "string \<Rightarrow> string list \<Rightarrow> init_string" where
  "read_line property [] = unset"
| "read_line property (line # ls) =
     (case getValue line property False of
        Some (value, isComment) \<Rightarrow> explicit value
      | None \<Rightarrow> read_line property ls)"

definition IniFile_readProperty :: "ini_file \<Rightarrow> string \<Rightarrow> init_string" where
  "IniFile_readProperty n property = read_line property (m_lines n)"

definition IniFile_readProperties :: "ini_file \<Rightarrow> config_props \<Rightarrow> config_props" where
  "IniFile_readProperties n props =
     fold (\<lambda>line props. case getContent line False of
             Some (property, value, _) \<Rightarrow> nc_insert property (explicit value) props
           | None \<Rightarrow> props) (m_lines n) props"

definition IniFile_removeProperty :: "ini_file \<Rightarrow> string \<Rightarrow> ini_file" where
  "IniFile_removeProperty n property =
     (if list_ex (\<lambda>line. getValue line property False \<noteq> None) (m_lines n)
      then n\<lparr>m_lines := filter (\<lambda>line. getValue line property False = None) (m_lines n),
             m_modified := True\<rparr>
      else n)"

text \<open>
  The loop of \<open>writeProperty\<close> over the existing lines: \<open>None\<close> when it finds no assignment to
  the property (commented out ones included), otherwise the lines and whether they changed.
\<close>

fun write_line :: "string \<Rightarrow> string \<Rightarrow> init_string \<Rightarrow> string list \<Rightarrow> (string list \<times> bool) option" where
  "write_line newstr property newvalue [] = None"
| "write_line newstr property newvalue (line # ls) =
     (case getValue line property True of
        Some (oldvalue, isComment) \<Rightarrow>
          if fst newvalue \<noteq> oldvalue \<or> (isComment \<and> wasSet newvalue)
          then Some (newstr # ls, True) else Some (line # ls, False)
      | None \<Rightarrow> map_option (\<lambda>(ls', c). (line # ls', c)) (write_line newstr property newvalue ls))"

definition ini_assignment :: "string \<Rightarrow> init_string \<Rightarrow> string" where
  "ini_assignment property newvalue =
     (if wasSet newvalue then [] else ''# '') @ property @ '' = '' @ fst newvalue"

text \<open>The lines added in front of a new property: each line of the comment.\<close>

definition comment_lines :: "string list \<Rightarrow> string \<Rightarrow> string list" where
  "comment_lines ls comment =
     (if comment \<noteq> []
      then (if ls \<noteq> [] then [[]] else []) @ map (\<lambda>l. ''# '' @ l) (splitComment comment)
      else [])"

definition IniFile_writeProperty :: "ini_file \<Rightarrow> string \<Rightarrow> init_string \<Rightarrow> string \<Rightarrow> ini_file" where
  "IniFile_writeProperty n property newvalue comment =
     (case write_line (ini_assignment property newvalue) property newvalue (m_lines n) of
        Some (ls, changed) \<Rightarrow> if changed then n\<lparr>m_lines := ls, m_modified := True\<rparr> else n
      | None \<Rightarrow>
          n\<lparr>m_lines := m_lines n @ comment_lines (m_lines n) comment @
              [ini_assignment property newvalue],
            m_modified := True\<rparr>)"

definition IniFile_clear :: "ini_file \<Rightarrow> ini_file" where
  "IniFile_clear n = n\<lparr>m_lines := [], m_modified := True\<rparr>"

definition IniFile_reload :: "ini_file \<Rightarrow> ini_file" where
  "IniFile_reload n = IniFile_read (IniFile_clear n)"

section \<open>IniHashConfigNode\<close>

record ini_hash = ini_base +
  m_props :: "(string \<times> string) list"

definition IniHash_toFile :: "ini_hash \<Rightarrow> string" where
  "IniHash_toFile n = concat (map (\<lambda>(k, v). k @ '' = '' @ v @ [CHR 0x0A]) (m_props n))"

definition IniHash_read :: "ini_hash \<Rightarrow> ini_hash" where
  "IniHash_read n =
     n\<lparr>m_props :=
         fold (\<lambda>line props. case getContent line False of
                 Some (property, value, _) \<Rightarrow> kinsert id property value props
               | None \<Rightarrow> props)
           (getlines (blob_read (m_data n))) (m_props n),
       m_modified := False\<rparr>"

definition IniHashConfigNode :: "data_blob \<Rightarrow> ini_hash" where
  "IniHashConfigNode data = IniHash_read \<lparr>m_data = data, m_modified = False, m_props = []\<rparr>"

definition IniHash_readProperties :: "ini_hash \<Rightarrow> config_props \<Rightarrow> config_props" where
  "IniHash_readProperties n props = fold (\<lambda>(k, v). nc_insert k (explicit v)) (m_props n) props"

definition IniHash_writeProperties :: "ini_hash \<Rightarrow> config_props \<Rightarrow> ini_hash" where
  "IniHash_writeProperties n props =
     (if props \<noteq> []
      then n\<lparr>m_props := fold (\<lambda>(k, v). kinsert id k (fst v)) props (m_props n), m_modified := True\<rparr>
      else n)"

definition IniHash_readProperty :: "ini_hash \<Rightarrow> string \<Rightarrow> init_string" where
  "IniHash_readProperty n property =
     (case kfind id property (m_props n) of Some v \<Rightarrow> explicit v | None \<Rightarrow> unset)"

definition IniHash_removeProperty :: "ini_hash \<Rightarrow> string \<Rightarrow> ini_hash" where
  "IniHash_removeProperty n property =
     (case kfind id property (m_props n) of
        Some _ \<Rightarrow> n\<lparr>m_props := kerase id property (m_props n), m_modified := True\<rparr>
      | None \<Rightarrow> n)"

definition IniHash_clear :: "ini_hash \<Rightarrow> ini_hash" where
  "IniHash_clear n = (if m_props n \<noteq> [] then n\<lparr>m_props := [], m_modified := True\<rparr> else n)"

definition IniHash_writeProperty :: "ini_hash \<Rightarrow> string \<Rightarrow> init_string \<Rightarrow> string \<Rightarrow> ini_hash" where
  "IniHash_writeProperty n property newvalue comment =
     (if \<not> wasSet newvalue then IniHash_removeProperty n property
      else
        (case kfind id property (m_props n) of
           Some old \<Rightarrow>
             if old \<noteq> fst newvalue
             then n\<lparr>m_props := kput id property (fst newvalue) (m_props n), m_modified := True\<rparr>
             else n
         | None \<Rightarrow>
             n\<lparr>m_props := kinsert id property (fst newvalue) (m_props n), m_modified := True\<rparr>))"

definition IniHash_reload :: "ini_hash \<Rightarrow> ini_hash" where
  "IniHash_reload n = IniHash_read (IniHash_clear n)"

section \<open>Reading what was written: files\<close>

lemma dropWhile_append_all: "(\<And>c. c \<in> set a \<Longrightarrow> P c) \<Longrightarrow> dropWhile P (a @ b) = dropWhile P b"
  by (induction a) auto

lemma ini_trimmed_strip:
  "ini_trimmed v \<Longrightarrow> rstrip (dropWhile isspace v) = v"
  by (auto simp: ini_trimmed_def dropWhile_hd rstrip_last)

text \<open>A key that can be read back from an assignment.\<close>

definition ini_key :: "string \<Rightarrow> bool" where
  "ini_key p \<longleftrightarrow> p \<noteq> [] \<and> hd p \<noteq> CHR ''#'' \<and> (\<forall>c \<in> set p. \<not> isspace c)"

lemma ini_word_key [simp]: "ini_word p \<Longrightarrow> ini_key p"
  by (simp add: ini_word_def ini_key_def)

lemma ini_key_parse:
  assumes "ini_key p"
  shows "dropWhile isspace (p @ s) = p @ s"
    and "takeWhile (\<lambda>c. \<not> isspace c) (p @ CHR '' '' # s) = p"
    and "dropWhile (\<lambda>c. \<not> isspace c) (p @ CHR '' '' # s) = CHR '' '' # s"
proof -
  have p: "p \<noteq> []" "\<And>c. c \<in> set p \<Longrightarrow> \<not> isspace c"
    using assms by (auto simp: ini_key_def)
  then show "dropWhile isspace (p @ s) = p @ s" by (cases p) auto
  have sp: "isspace CHR '' ''" by (simp add: isspace_def)
  show "takeWhile (\<lambda>c. \<not> isspace c) (p @ CHR '' '' # s) = p"
    using p(2) sp by (subst takeWhile_append2) auto
  show "dropWhile (\<lambda>c. \<not> isspace c) (p @ CHR '' '' # s) = CHR '' '' # s"
    using p(2) sp by (subst dropWhile_append2) auto
qed

lemma getContent_assignment:
  assumes "ini_key p" and "ini_trimmed v"
  shows "getContent (p @ '' = '' @ v) fuzzy = Some (p, v, False)"
proof -
  have hd: "p \<noteq> []" "hd p \<noteq> CHR ''#''" using assms(1) by (auto simp: ini_key_def)
  have sp: "isspace CHR '' ''" "\<not> isspace CHR ''=''" by (simp_all add: isspace_def)
  show ?thesis
    using hd sp ini_key_parse [OF assms(1)] ini_trimmed_strip [OF assms(2)]
    by (simp add: getContent_def getAssignment_def Let_def)
qed

lemma getContent_commented:
  assumes "ini_key p" and "ini_trimmed v"
  shows "getContent (''# '' @ p @ '' = '' @ v) True = Some (p, v, True)"
    and "getContent (''# '' @ s) False = None"
proof -
  have sp: "isspace CHR '' ''" "\<not> isspace CHR ''=''" "\<not> isspace CHR ''#''"
    by (simp_all add: isspace_def)
  show "getContent (''# '' @ p @ '' = '' @ v) True = Some (p, v, True)"
    using sp ini_key_parse [OF assms(1)] ini_trimmed_strip [OF assms(2)]
    by (simp add: getContent_def getAssignment_def Let_def)
  show "getContent (''# '' @ s) False = None"
    using sp by (simp add: getContent_def)
qed

lemma getContent_empty [simp]: "getContent [] fuzzy = None"
  by (simp add: getContent_def)

text \<open>The two readings of a line agree unless the line is a comment.\<close>

lemma getAssignment_flag: "getAssignment s c = Some (p, v, c') \<Longrightarrow> c' = c"
  by (simp add: getAssignment_def Let_def split: if_splits)

lemma getContent_fuzzy:
  "getContent line False =
     (case getContent line True of
        Some (p, v, c) \<Rightarrow> if c then None else Some (p, v, False) | None \<Rightarrow> None)"
  by (auto simp: getContent_def Let_def dest: getAssignment_flag split: option.splits)

lemma getValue_fuzzy:
  "getValue line p False =
     (case getValue line p True of
        Some (v, c) \<Rightarrow> if c then None else Some (v, False) | None \<Rightarrow> None)"
  unfolding getValue_def getContent_fuzzy [of line] by (auto split: option.splits)

lemma getValue_comment_flag: "getValue line p False = Some (v, c) \<Longrightarrow> c = False"
  by (auto simp: getValue_fuzzy split: option.splits if_splits)

lemma strcasecmp_eq_equiv:
  "strcasecmp_eq a a" "strcasecmp_eq a b \<longleftrightarrow> strcasecmp_eq b a"
  "strcasecmp_eq a b \<Longrightarrow> strcasecmp_eq b c \<Longrightarrow> strcasecmp_eq a c"
  by (auto simp: strcasecmp_eq_def)

lemma getValue_other:
  "getValue line p f = Some r \<Longrightarrow> \<not> strcasecmp_eq q p \<Longrightarrow> getValue line q f' = None"
  unfolding getValue_def getContent_fuzzy
  by (cases f; cases f')
    (auto simp: getContent_fuzzy strcasecmp_eq_def split: option.splits if_splits)

lemma getValue_assignment:
  assumes "ini_key p" and "ini_trimmed v"
  shows "getValue (ini_assignment p (v, True)) q f = (if strcasecmp_eq p q then Some (v, False) else None)"
    and "getValue (ini_assignment p (v, False)) q False = None"
  using getContent_assignment [OF assms] getContent_commented(2) [OF assms]
  by (simp_all add: getValue_def ini_assignment_def)

lemma read_line_append:
  "(\<And>l. l \<in> set ls \<Longrightarrow> getValue l p False = None) \<Longrightarrow> read_line p (ls @ xs) = read_line p xs"
  by (induction ls) auto

lemma read_line_append_None:
  "(\<And>l. l \<in> set xs \<Longrightarrow> getValue l p False = None) \<Longrightarrow> read_line p (ls @ xs) = read_line p ls"
  by (induction ls) (auto simp: read_line_append [where xs = "[]", simplified] split: option.splits)

lemma write_line_None:
  "write_line s p v ls = None \<longleftrightarrow> (\<forall>l \<in> set ls. getValue l p True = None)"
  by (induction ls) (auto split: option.splits if_splits)

lemma write_line_unchanged: "write_line s p v ls = Some (ls', False) \<Longrightarrow> ls' = ls"
  by (induction ls arbitrary: ls') (auto split: option.splits if_splits)

lemma getValue_False_None: "getValue l p True = None \<Longrightarrow> getValue l p False = None"
  by (simp add: getValue_fuzzy)

lemma write_line_read:
  assumes "ini_key p" and "ini_trimmed v"
    and "write_line (ini_assignment p (v, True)) p (v, True) ls = Some (ls', c)"
  shows "read_line p ls' = explicit v"
  using assms(3)
proof (induction ls arbitrary: ls' c)
  case (Cons l ls)
  show ?case
  proof (cases "getValue l p True")
    case None
    then show ?thesis using Cons by (auto simp: getValue_False_None)
  next
    case (Some r)
    obtain old isComment where r: "r = (old, isComment)" by (cases r)
    show ?thesis
    proof (cases "v \<noteq> old \<or> isComment")
      case True
      then show ?thesis
        using Cons.prems Some getValue_assignment(1) [OF assms(1,2), of p False]
        by (auto simp: r strcasecmp_eq_equiv)
    next
      case False
      then have "getValue l p False = Some (v, False)"
        using Some by (simp add: getValue_fuzzy r)
      then show ?thesis using Cons.prems Some False by (auto simp: r)
    qed
  qed
qed simp

lemma write_line_other:
  assumes "ini_key p" and "ini_trimmed (fst v)" and "\<not> strcasecmp_eq q p"
    and "write_line (ini_assignment p v) p v ls = Some (ls', c)"
  shows "read_line q ls' = read_line q ls"
  using assms(4)
proof (induction ls arbitrary: ls' c)
  case (Cons l ls)
  show ?case
  proof (cases "getValue l p True")
    case None
    then show ?thesis using Cons by (auto split: option.splits)
  next
    case (Some r)
    have "getValue (ini_assignment p v) q False = None"
      using getValue_assignment [OF assms(1,2), of q] assms(3) strcasecmp_eq_equiv(2) [of p q]
      by (cases v; cases "snd v") auto
    then show ?thesis
      using Cons.prems Some getValue_other [OF Some assms(3)]
      by (auto split: if_splits prod.splits)
  qed
qed simp

lemma getValue_comment_line [simp]: "getValue (CHR ''#'' # CHR '' '' # l) q False = None"
  by (simp add: getValue_def getContent_def isspace_def)

lemma getValue_Nil [simp]: "getValue [] q f = None"
  by (simp add: getValue_def)

lemma comment_lines_None: "l \<in> set (comment_lines ls comment) \<Longrightarrow> getValue l q False = None"
  by (auto simp: comment_lines_def split: if_splits)

lemma IniFile_read_after_write:
  assumes "ini_word p" and "ini_trimmed v"
  shows "IniFile_readProperty (IniFile_writeProperty n p (explicit v) comment) p = explicit v \<and>
    (\<not> strcasecmp_eq q p \<longrightarrow>
       IniFile_readProperty (IniFile_writeProperty n p (explicit v) comment) q = IniFile_readProperty n q)"
proof (cases "write_line (ini_assignment p (explicit v)) p (explicit v) (m_lines n)")
  case None
  then have old: "\<And>l. l \<in> set (m_lines n) \<Longrightarrow> getValue l p False = None"
    by (auto simp: write_line_None getValue_False_None)
  have "m_lines (IniFile_writeProperty n p (explicit v) comment) =
      (m_lines n @ comment_lines (m_lines n) comment) @ [ini_assignment p (explicit v)]"
    using None by (simp add: IniFile_writeProperty_def)
  moreover have "read_line q (m_lines n @ comment_lines (m_lines n) comment @
      [ini_assignment p (explicit v)]) = read_line q (m_lines n)" if "\<not> strcasecmp_eq q p"
    using that getValue_assignment(1) [OF ini_word_key [OF assms(1)] assms(2), of q False]
    by (intro read_line_append_None)
      (auto dest: comment_lines_None simp: strcasecmp_eq_equiv(2) [of p q])
  moreover have "read_line p ((m_lines n @ comment_lines (m_lines n) comment) @
      [ini_assignment p (explicit v)]) = explicit v"
    using old getValue_assignment(1) [OF ini_word_key [OF assms(1)] assms(2), of p False]
    by (subst read_line_append) (auto dest: comment_lines_None simp: strcasecmp_eq_equiv(1))
  ultimately show ?thesis by (simp add: IniFile_readProperty_def)
next
  case (Some r)
  obtain ls c where r: "r = (ls, c)" by (cases r)
  have "m_lines (IniFile_writeProperty n p (explicit v) comment) = (if c then ls else m_lines n)"
    using Some by (simp add: IniFile_writeProperty_def r)
  moreover have "ls = m_lines n" if "\<not> c"
    using Some that write_line_unchanged by (simp add: r)
  ultimately show ?thesis
    using write_line_read [OF ini_word_key [OF assms(1)] assms(2) Some [unfolded r]]
      write_line_other [OF ini_word_key [OF assms(1)] _ _ Some [unfolded r], of q] assms(2)
    by (auto simp: IniFile_readProperty_def)
qed

text \<open>
  C37: reading after writing, for file nodes. After \<open>writeProperty\<close> with an explicit value, for a
  property name that is one word and a value without line breaks and outer space, reading the
  property (in any spelling of its case) gives the value, whatever lines, comments and
  duplicates the file had before, and every other property reads as before.
\<close>

theorem IniFile_write_read:
  assumes "ini_word p" and "ini_trimmed v"
  shows "IniFile_readProperty (IniFile_writeProperty n p (explicit v) comment) p = explicit v \<and>
    (\<not> strcasecmp_eq q p \<longrightarrow>
       IniFile_readProperty (IniFile_writeProperty n p (explicit v) comment) q = IniFile_readProperty n q)"
  by (rule IniFile_read_after_write [OF assms])

theorem IniFile_write_read_witness:
  "IniFile_readProperty (IniFile_writeProperty
     (IniFileConfigNode (StringDataBlob [] (Some (''# Foo = 1'')) False)) ''foo'' (explicit ''2'') []) ''foo''
   = explicit ''2''"
  using IniFile_write_read [of "''foo''" "''2''"]
  by (simp add: ini_word_def ini_trimmed_def isspace_def)

lemma IniFile_remove_read:
  "IniFile_readProperty (IniFile_removeProperty n p) p = unset \<and>
   (\<not> strcasecmp_eq q p \<longrightarrow> IniFile_readProperty (IniFile_removeProperty n p) q = IniFile_readProperty n q)"
proof -
  have lines: "m_lines (IniFile_removeProperty n p) =
      filter (\<lambda>line. getValue line p False = None) (m_lines n)"
    by (simp add: IniFile_removeProperty_def list_ex_iff del: not_None_eq not_Some_eq)
  have "read_line q (filter (\<lambda>line. getValue line p False = None) ls) = read_line q ls"
    if "\<not> strcasecmp_eq q p" for ls
    using that by (induction ls) (auto dest: getValue_other [of _ p False _ q False] split: option.splits)
  moreover have "read_line p (filter (\<lambda>line. getValue line p False = None) ls) = unset" for ls
    by (induction ls) auto
  ultimately show ?thesis by (simp add: IniFile_readProperty_def lines)
qed

text \<open>
  Writing a value that is not set is documented to remove the property. When the first
  assignment of the property in the file is active, has a different value and is the only
  active one, the property is commented out and reads as unset. But when that assignment has the
  same value, the node is left as it is and the property still reads as set.
\<close>

lemma IniFile_write_unset:
  assumes "m_lines n = pre @ l # post" and "\<forall>x \<in> set pre. getValue x p True = None"
    and "getValue l p True = Some (w, False)"
    and "ini_word p" and "ini_trimmed v"
  shows "(v = w \<longrightarrow> IniFile_writeProperty n p (v, False) comment = n \<and>
            IniFile_readProperty n p = explicit v) \<and>
    (v \<noteq> w \<and> (\<forall>x \<in> set post. getValue x p False = None) \<longrightarrow>
       IniFile_readProperty (IniFile_writeProperty n p (v, False) comment) p = unset)"
proof -
  have wl: "write_line s p (v, False) (pre @ l # post) =
      Some (if v = w then (pre @ l # post, False) else (pre @ s # post, True))" for s
    using assms(2,3) by (induction pre) (auto split: option.splits)
  have rd: "read_line p (pre @ xs) = read_line p xs" for xs
    using assms(2) by (intro read_line_append) (auto simp: getValue_False_None)
  have "getValue l p False = Some (w, False)"
    using assms(3) by (simp add: getValue_fuzzy)
  moreover have "read_line p post = unset" if "\<forall>x \<in> set post. getValue x p False = None"
    using that read_line_append [of post p "[]"] by simp
  ultimately show ?thesis
    using wl rd getValue_assignment(2) [OF ini_word_key [OF assms(4)] assms(5)]
    by (auto simp: IniFile_writeProperty_def IniFile_readProperty_def assms(1))
qed

section \<open>Persistence\<close>

lemma split_at_pieces: "l \<in> set (split_at P s) \<Longrightarrow> c \<in> set l \<Longrightarrow> \<not> P c"
  by (induction s arbitrary: l) (fastforce split: if_splits list.splits)+

lemma getlines_no_newline: "l \<in> set (getlines s) \<Longrightarrow> CHR 0x0A \<notin> set l"
  using split_at_pieces [of l "\<lambda>c. c = CHR 0x0A" s]
  by (auto simp: getlines_def Let_def split: if_splits dest: in_set_butlastD)

text \<open>
  Invariant of file nodes: no line contains a line break, and without pending modification
  the lines are those of the file.
\<close>

definition IniFile_inv :: "ini_file \<Rightarrow> bool" where
  "IniFile_inv n \<longleftrightarrow> (\<forall>l \<in> set (m_lines n). CHR 0x0A \<notin> set l) \<and>
     (\<not> m_modified n \<longrightarrow> m_lines n = getlines (blob_read (m_data n)))"

text \<open>The storage accepts a write.\<close>

definition blob_writable :: "data_blob \<Rightarrow> bool" where
  "blob_writable b \<longleftrightarrow> \<not> blob_readonly b \<and> (blob_kind b = StringBlob \<longrightarrow> blob_data b \<noteq> None)"

lemma IniFile_inv_new [simp]: "IniFile_inv (IniFileConfigNode b)"
  by (auto simp: IniFile_inv_def IniFileConfigNode_def IniFile_read_def dest: getlines_no_newline)

lemma write_line_set:
  "write_line s p v ls = Some (ls', c) \<Longrightarrow> set ls' \<subseteq> insert s (set ls)"
  by (induction ls arbitrary: ls' c) (fastforce split: option.splits if_splits)+

lemma comment_lines_no_newline: "l \<in> set (comment_lines ls comment) \<Longrightarrow> CHR 0x0A \<notin> set l"
  by (auto simp: comment_lines_def split: if_splits dest: splitComment_lines)

lemma ini_key_no_newline: "ini_key p \<Longrightarrow> CHR 0x0A \<notin> set p"
  by (auto simp: ini_key_def isspace_def)

lemma IniFile_inv_write:
  assumes "IniFile_inv n" and "ini_key p" and "CHR 0x0A \<notin> set (fst v)"
  shows "IniFile_inv (IniFile_writeProperty n p v comment)"
proof -
  have new: "CHR 0x0A \<notin> set (ini_assignment p v)"
    using assms(2,3) ini_key_no_newline by (auto simp: ini_assignment_def)
  show ?thesis
  proof (cases "write_line (ini_assignment p v) p v (m_lines n)")
    case None
    then show ?thesis
      using assms(1) new
      by (auto simp: IniFile_inv_def IniFile_writeProperty_def dest: comment_lines_no_newline)
  next
    case (Some r)
    then show ?thesis
      using assms(1) new write_line_set [of "ini_assignment p v" p v "m_lines n" "fst r" "snd r"]
      by (cases r) (auto simp: IniFile_inv_def IniFile_writeProperty_def)
  qed
qed

lemma IniFile_inv_ops:
  assumes "IniFile_inv n"
  shows "IniFile_inv (IniFile_removeProperty n p)" "IniFile_inv (IniFile_clear n)"
    "IniFile_inv (IniFile_reload n)"
  using assms
  by (auto simp: IniFile_inv_def IniFile_removeProperty_def IniFile_clear_def IniFile_reload_def
      IniFile_read_def dest: getlines_no_newline)

lemma IniFile_toFile_lines:
  "IniFile_inv n \<Longrightarrow> getlines (IniFile_toFile n) = m_lines n"
  by (simp add: IniFile_toFile_def IniFile_inv_def getlines_concat)

lemma IniBase_flush_ok:
  assumes "blob_writable (m_data n)"
  shows "IniBase_flush toFile n = (None,
    (if m_modified n then n\<lparr>m_data := (m_data n)\<lparr>blob_data := Some (toFile n)\<rparr>, m_modified := False\<rparr>
     else n)) \<or>
    (IniBase_flush toFile n = (None, n\<lparr>m_modified := False\<rparr>) \<and> blob_read (m_data n) = toFile n)"
  using assms
  by (auto simp: IniBase_flush_def blob_writable_def blob_ReadFile_def blob_write_def Let_def
      split: blob_kind.splits prod.splits)

text \<open>
  C38: saving a file node is faithful. For every node that satisfies the invariant (every opened
  node does, and all operations with words as names and values without line breaks keep it) and whose
  storage can be written, \<open>flush\<close> succeeds, and opening a new node on the storage gives exactly
  the node in memory, comments and unset properties included.
\<close>

theorem IniFile_flush_reopen:
  assumes "IniFile_inv n" and "blob_writable (m_data n)"
  shows "\<exists>n'. IniBase_flush IniFile_toFile n = (None, n') \<and> m_lines n' = m_lines n \<and>
    IniFileConfigNode (m_data n') = n'"
proof -
  have open': "IniFileConfigNode b = n\<lparr>m_data := b, m_modified := False\<rparr>"
    if "getlines (blob_read b) = m_lines n" for b
    using that by (simp add: IniFileConfigNode_def IniFile_read_def)
  note lines = IniFile_toFile_lines [OF assms(1)]
  consider "m_modified n"
      "IniBase_flush IniFile_toFile n = (None,
         n\<lparr>m_data := (m_data n)\<lparr>blob_data := Some (IniFile_toFile n)\<rparr>, m_modified := False\<rparr>)"
    | "\<not> m_modified n" "IniBase_flush IniFile_toFile n = (None, n\<lparr>m_modified := False\<rparr>)"
    | "IniBase_flush IniFile_toFile n = (None, n\<lparr>m_modified := False\<rparr>)"
      "blob_read (m_data n) = IniFile_toFile n"
    using IniBase_flush_ok [OF assms(2), of IniFile_toFile] by (auto split: if_splits)
  then show ?thesis
  proof cases
    case 1
    then show ?thesis using lines by (simp add: open' blob_read_def)
  next
    case 2
    then show ?thesis using assms(1) by (simp add: open' IniFile_inv_def)
  next
    case 3
    then show ?thesis using lines by (simp add: open')
  qed
qed

theorem IniFile_flush_reopen_witness:
  "\<exists>n'. IniBase_flush IniFile_toFile (IniFileConfigNode (FileDataBlob ''d'' ''f'' False None)) = (None, n')"
  using IniFile_flush_reopen [OF IniFile_inv_new, of "FileDataBlob ''d'' ''f'' False None"]
  by (auto simp: blob_writable_def FileDataBlob_def IniFileConfigNode_def IniFile_read_def)

section \<open>Hash nodes\<close>

lemma rstrip_prefix: "\<exists>r. x = rstrip x @ r"
  by (metis dropWhile_eq_drop rev_append rev_rev_ident rstrip_def append_take_drop_id)

lemma rstrip_trimmed:
  "x = [] \<or> \<not> isspace (hd x) \<Longrightarrow> CHR 0x0A \<notin> set x \<Longrightarrow> ini_trimmed (rstrip x)"
proof -
  assume h: "x = [] \<or> \<not> isspace (hd x)" "CHR 0x0A \<notin> set x"
  obtain r where r: "x = rstrip x @ r" using rstrip_prefix by blast
  have "\<not> isspace (last (rstrip x))" if "rstrip x \<noteq> []"
    using that hd_dropWhile [of isspace "rev x"] by (simp add: rstrip_def last_rev)
  moreover have "\<not> isspace (hd (rstrip x))" if "rstrip x \<noteq> []"
    using that h(1) r by (metis append_is_Nil_conv hd_append)
  moreover have "CHR 0x0A \<notin> set (rstrip x)" using h(2) r by (metis Un_iff set_append)
  ultimately show ?thesis by (simp add: ini_trimmed_def)
qed

lemma getContent_wf:
  assumes "getContent line False = Some (p, v, c)" and "CHR 0x0A \<notin> set line"
  shows "ini_key p \<and> ini_trimmed v"
proof -
  obtain x xs where s: "dropWhile isspace line = x # xs" and x: "x \<noteq> CHR ''#''" "\<not> isspace x"
    and ga: "getAssignment (x # xs) False = Some (p, v, c)"
    using assms(1) by (cases "dropWhile isspace line")
      (auto simp: getContent_def Let_def dropWhile_eq_Cons_conv split: if_splits)
  have "set (x # xs) \<subseteq> set line" using set_dropWhileD [of _ isspace line] by (auto simp: s)
  then have nl: "CHR 0x0A \<notin> set (x # xs)" using assms(2) by blast
  define t where "t = dropWhile isspace (dropWhile (\<lambda>c. \<not> isspace c) (x # xs))"
  have p: "p = x # takeWhile (\<lambda>c. \<not> isspace c) xs" and t: "t \<noteq> []"
    and v: "v = rstrip (dropWhile isspace (tl t))"
    using ga x by (auto simp: getAssignment_def t_def Let_def split: if_splits)
  have "CHR 0x0A \<notin> set t"
    using nl unfolding t_def by (meson set_dropWhileD)
  then have "CHR 0x0A \<notin> set (dropWhile isspace (tl t))"
    by (metis list.set_sel(2) set_dropWhileD t)
  then have "ini_trimmed v"
    unfolding v using hd_dropWhile [of isspace "tl t"] by (intro rstrip_trimmed) auto
  then show ?thesis using x by (auto simp: p ini_key_def dest: set_takeWhileD)
qed

text \<open>What opening a node reads from the storage.\<close>

definition hash_parse :: "string \<Rightarrow> (string \<times> string) list" where
  "hash_parse s =
     fold (\<lambda>line props. case getContent line False of
             Some (property, value, _) \<Rightarrow> kinsert id property value props
           | None \<Rightarrow> props) (getlines s) []"

definition hash_wf :: "(string \<times> string) list \<Rightarrow> bool" where
  "hash_wf m \<longleftrightarrow> ksorted id m \<and> (\<forall>(k, v) \<in> set m. ini_key k \<and> ini_trimmed v)"

definition IniHash_inv :: "ini_hash \<Rightarrow> bool" where
  "IniHash_inv n \<longleftrightarrow> hash_wf (m_props n) \<and>
     (\<not> m_modified n \<longrightarrow> m_props n = hash_parse (blob_read (m_data n)))"

lemma kput_mem:
  "(a, b) \<in> set (kput f k v m) \<Longrightarrow>
   (a, b) = (k, v) \<or> (a, b) \<in> set m \<or> b = v \<and> (\<exists>w. (a, w) \<in> set m)"
  by (induction m) (auto split: if_splits)

lemma hash_wf_kput:
  assumes "hash_wf m" "ini_key k" "ini_trimmed v"
  shows "hash_wf (kput id k v m)"
  using assms by (auto simp: hash_wf_def dest!: kput_mem)

lemma hash_wf_kinsert:
  "hash_wf m \<Longrightarrow> ini_key k \<Longrightarrow> ini_trimmed v \<Longrightarrow> hash_wf (kinsert id k v m)"
  by (simp add: kinsert_def hash_wf_kput split: option.splits)

lemma hash_wf_kerase: "hash_wf m \<Longrightarrow> hash_wf (kerase id k m)"
  using ksorted_kerase [of id m k] by (auto simp: hash_wf_def kerase_def)

lemma hash_wf_fold:
  "hash_wf m \<Longrightarrow> (\<forall>l \<in> set ls. CHR 0x0A \<notin> set l) \<Longrightarrow>
   hash_wf (fold (\<lambda>line props. case getContent line False of
             Some (property, value, _) \<Rightarrow> kinsert id property value props
           | None \<Rightarrow> props) ls m)"
  by (induction ls arbitrary: m)
    (auto split: option.splits dest!: getContent_wf intro: hash_wf_kinsert)

lemma hash_wf_parse: "hash_wf (hash_parse s)"
  unfolding hash_parse_def
  by (rule hash_wf_fold) (auto simp: hash_wf_def dest: getlines_no_newline)

lemma kput_last: "(\<forall>x \<in> set m. f (fst x) < f k) \<Longrightarrow> kput f k v m = m @ [(k, v)]"
  by (induction m) (auto dest: less_imp_neq order.asym)

lemma fold_kinsert_sorted:
  "ksorted f (m @ xs) \<Longrightarrow> fold (\<lambda>(k, v). kinsert f k v) xs m = m @ xs"
proof (induction xs arbitrary: m)
  case (Cons x xs)
  obtain k v where x: "x = (k, v)" by (cases x)
  have lt: "\<forall>y \<in> set m. f (fst y) < f k"
    using Cons.prems by (auto simp: x ksorted_def sorted_wrt_append)
  then have "kfind f k m = None" by (auto simp: kfind_None)
  then have "kinsert f k v m = m @ [(k, v)]" using kput_last [OF lt] by (simp add: kinsert_def)
  then show ?case using Cons.IH [of "m @ [(k, v)]"] Cons.prems by (simp add: x)
qed simp

lemma hash_parse_toFile:
  assumes "hash_wf (m_props n)"
  shows "hash_parse (IniHash_toFile n) = m_props n"
proof -
  let ?line = "\<lambda>(k, v). k @ '' = '' @ v"
  have content: "IniHash_toFile n = concat (map (\<lambda>l. l @ [CHR 0x0A]) (map ?line (m_props n)))"
    by (simp add: IniHash_toFile_def split_def comp_def)
  have lines: "getlines (IniHash_toFile n) = map ?line (m_props n)"
    unfolding content using assms ini_key_no_newline
    by (intro getlines_concat) (auto simp: hash_wf_def ini_trimmed_def)
  have "fold (\<lambda>line props. case getContent line False of
             Some (property, value, _) \<Rightarrow> kinsert id property value props
           | None \<Rightarrow> props) (map ?line xs) m = fold (\<lambda>(k, v). kinsert id k v) xs m"
    if "\<forall>(k, v) \<in> set xs. ini_key k \<and> ini_trimmed v" for xs m
    using that by (induction xs arbitrary: m) (auto simp: getContent_assignment [simplified])
  then show ?thesis
    using assms fold_kinsert_sorted [of id "[]" "m_props n"]
    by (simp add: hash_parse_def lines hash_wf_def)
qed

lemma IniHash_read_eq: "m_props n = [] \<Longrightarrow>
  IniHash_read n = n\<lparr>m_props := hash_parse (blob_read (m_data n)), m_modified := False\<rparr>"
  by (simp add: IniHash_read_def hash_parse_def)

lemma IniHashConfigNode_eq:
  "IniHashConfigNode b = \<lparr>m_data = b, m_modified = False, m_props = hash_parse (blob_read b)\<rparr>"
  by (simp add: IniHashConfigNode_def IniHash_read_eq)

lemma IniHash_inv_new [simp]: "IniHash_inv (IniHashConfigNode b)"
  by (simp add: IniHash_inv_def IniHashConfigNode_eq hash_wf_parse)

lemma IniHash_inv_write:
  assumes "IniHash_inv n" and "ini_key k" and "ini_trimmed (fst v)"
  shows "IniHash_inv (IniHash_writeProperty n k v c)"
  using assms hash_wf_kput [of "m_props n" k "fst v"] hash_wf_kinsert [of "m_props n" k "fst v"]
    hash_wf_kerase [of "m_props n" k]
  by (auto simp: IniHash_inv_def IniHash_writeProperty_def IniHash_removeProperty_def
      split: option.splits)

lemma IniHash_inv_ops:
  assumes "IniHash_inv n"
  shows "IniHash_inv (IniHash_removeProperty n k)" "IniHash_inv (IniHash_clear n)"
    "IniHash_inv (IniHash_reload n)"
proof -
  show "IniHash_inv (IniHash_removeProperty n k)" "IniHash_inv (IniHash_clear n)"
    using assms hash_wf_kerase [of "m_props n" k]
    by (auto simp: IniHash_inv_def IniHash_removeProperty_def IniHash_clear_def hash_wf_def
        split: option.splits)
  have "m_props (IniHash_clear n) = []" by (simp add: IniHash_clear_def)
  then show "IniHash_inv (IniHash_reload n)"
    by (simp add: IniHash_reload_def IniHash_read_eq IniHash_inv_def hash_wf_parse)
qed

lemma IniHash_inv_flush:
  assumes "IniHash_inv n" and "blob_writable (m_data n)"
  shows "\<exists>n'. IniBase_flush IniHash_toFile n = (None, n') \<and> m_props n' = m_props n \<and>
    IniHash_inv n' \<and> IniHashConfigNode (m_data n') = n'"
proof -
  have wf: "hash_wf (m_props n)" using assms(1) by (simp add: IniHash_inv_def)
  have open': "IniHashConfigNode b = n\<lparr>m_data := b, m_modified := False\<rparr>"
    if "hash_parse (blob_read b) = m_props n" for b
    using that by (simp add: IniHashConfigNode_eq)
  note parse = hash_parse_toFile [OF wf]
  consider "m_modified n"
      "IniBase_flush IniHash_toFile n = (None,
         n\<lparr>m_data := (m_data n)\<lparr>blob_data := Some (IniHash_toFile n)\<rparr>, m_modified := False\<rparr>)"
    | "\<not> m_modified n" "IniBase_flush IniHash_toFile n = (None, n\<lparr>m_modified := False\<rparr>)"
    | "IniBase_flush IniHash_toFile n = (None, n\<lparr>m_modified := False\<rparr>)"
      "blob_read (m_data n) = IniHash_toFile n"
    using IniBase_flush_ok [OF assms(2), of IniHash_toFile] by (auto split: if_splits)
  then show ?thesis
  proof cases
    case 1
    then show ?thesis using parse wf by (simp add: open' blob_read_def IniHash_inv_def)
  next
    case 2
    then show ?thesis using assms(1) by (simp add: open' IniHash_inv_def hash_wf_parse)
  next
    case 3
    then show ?thesis using parse wf by (simp add: open' IniHash_inv_def)
  qed
qed

text \<open>
  Saving a hash node is faithful. Every node opened on any storage satisfies the
  invariant, every write of a word and a trimmed value keeps it, and from every state that
  satisfies it, \<open>flush\<close> to writable storage succeeds and opening the storage again gives
  exactly the node in memory.
\<close>

lemma IniHash_flush_reopen:
  assumes "IniHash_inv n" and "blob_writable (m_data n)" and "ini_word k" and "ini_trimmed v"
  shows "IniHash_inv (IniHashConfigNode b) \<and>
    (\<exists>n'. IniBase_flush IniHash_toFile (IniHash_writeProperty n k (explicit v) c) = (None, n') \<and>
       IniHashConfigNode (m_data n') = n' \<and>
       m_props n' = m_props (IniHash_writeProperty n k (explicit v) c) \<and>
       IniHash_readProperty n' k = explicit v)"
proof -
  have "m_data (IniHash_writeProperty n k (explicit v) c) = m_data n"
    by (auto simp: IniHash_writeProperty_def split: option.splits)
  moreover have "IniHash_readProperty (IniHash_writeProperty n k (explicit v) c) k = explicit v"
    by (auto simp: IniHash_writeProperty_def IniHash_readProperty_def kmap_simps split: option.splits)
  moreover have "IniHash_inv (IniHash_writeProperty n k (explicit v) c)"
    using assms by (intro IniHash_inv_write) auto
  ultimately show ?thesis
    using IniHash_inv_flush [of "IniHash_writeProperty n k (explicit v) c"] assms(2)
    by (auto simp: IniHash_readProperty_def)
qed

end
