(* ===== verification/Config_Node.thy ===== *)
theory Config_Node
  imports Ini_Config_Node Decimal
begin

text \<open>
  The interface \<open>ConfigNode\<close> and the classes that implement it by wrapping another node
  (src/src/syncevo/ConfigNode.h, ConfigNode.cpp, FilterConfigNode, PrefixConfigNode,
  SafeConfigNode, DevNullConfigNode, VolatileConfigNode). Virtual dispatch is a record of the
  operations of a class over its state; a wrapper class turns the operations of the node it
  wraps into operations over a state that contains that node. A wrapper that was constructed
  from a read-only pointer has no node to write to (\<open>m_node\<close> is null).

  The locale \<open>kv_node\<close> states what the synchronization sources rely on: a node is a finite
  map from keys to values. It is proved for \<open>IniHashConfigNode\<close>, and it is shown that
  \<open>SafeConfigNode\<close> and \<open>PrefixConfigNode\<close> turn a node with these laws into one with
  these laws, on more keys. Names that differ only in case are the limit: property sets ignore
  case, so the laws hold for nodes without such names.
\<close>

section \<open>The interface\<close>

record 'n node_ops =
  op_getName :: "'n \<Rightarrow> string"
  op_isVolatile :: "'n \<Rightarrow> bool"
  op_flush :: "'n \<Rightarrow> 'n step"
  op_readProperty :: "'n \<Rightarrow> string \<Rightarrow> init_string"
  op_writeProperty :: "'n \<Rightarrow> string \<Rightarrow> init_string \<Rightarrow> string \<Rightarrow> 'n step"
  op_readProperties :: "'n \<Rightarrow> config_props \<Rightarrow> config_props"
  op_writeProperties :: "'n \<Rightarrow> config_props \<Rightarrow> 'n step"
  op_removeProperty :: "'n \<Rightarrow> string \<Rightarrow> 'n step"
  op_clear :: "'n \<Rightarrow> 'n step"
  op_exists :: "'n \<Rightarrow> bool"
  op_isReadOnly :: "'n \<Rightarrow> bool"

text \<open>\<open>setProperty(property, value)\<close> without a comment.\<close>

definition setProperty :: "'n node_ops \<Rightarrow> 'n \<Rightarrow> string \<Rightarrow> init_string \<Rightarrow> 'n step" where
  "setProperty ops n property value = op_writeProperty ops n property value []"

definition setProperty_bool :: "'n node_ops \<Rightarrow> 'n \<Rightarrow> string \<Rightarrow> bool \<times> bool \<Rightarrow> 'n step" where
  "setProperty_bool ops n property value =
     setProperty ops n property (if fst value then ''true'' else ''false'', snd value)"

text \<open>\<open>getProperty\<close> for strings: the new value if there is one.\<close>

definition getProperty :: "'n node_ops \<Rightarrow> 'n \<Rightarrow> string \<Rightarrow> string option" where
  "getProperty ops n property =
     (let str = op_readProperty ops n property in if wasSet str then Some (fst str) else None)"

text \<open>
  The templates for numbers and flags convert with streams. Only I/O errors make \<open>getProperty\<close>
  fail for a non-empty text (\<open>!strval.bad()\<close>), which do not occur: text that is no number reads as
  zero. The limits are those of the type.
\<close>

definition setProperty_int :: "'n node_ops \<Rightarrow> 'n \<Rightarrow> string \<Rightarrow> int \<Rightarrow> 'n step" where
  "setProperty_int ops n property value = setProperty ops n property (explicit (show_int value))"

definition getProperty_int :: "int \<Rightarrow> int \<Rightarrow> 'n node_ops \<Rightarrow> 'n \<Rightarrow> string \<Rightarrow> int option" where
  "getProperty_int lo hi ops n property =
     (let str = op_readProperty ops n property
      in if \<not> wasSet str \<or> fst str = [] then None else Some (stream_int lo hi (fst str)))"

definition getProperty_bool :: "'n node_ops \<Rightarrow> 'n \<Rightarrow> string \<Rightarrow> bool option" where
  "getProperty_bool ops n property =
     (let str = op_readProperty ops n property
      in if \<not> wasSet str \<or> fst str = [] then None
         else if iequals (fst str) ''true'' \<or> iequals (fst str) ''yes'' \<or> iequals (fst str) ''on'' then Some True
         else if iequals (fst str) ''false'' \<or> iequals (fst str) ''no'' \<or> iequals (fst str) ''off'' then Some False
         else Some (stream_double_nonzero (fst str)))"

abbreviation getProperty_int32 :: "'n node_ops \<Rightarrow> 'n \<Rightarrow> string \<Rightarrow> int option" where
  "getProperty_int32 \<equiv> getProperty_int (- (2 ^ 31)) (2 ^ 31 - 1)"

abbreviation getProperty_int64 :: "'n node_ops \<Rightarrow> 'n \<Rightarrow> string \<Rightarrow> int option" where
  "getProperty_int64 \<equiv> getProperty_int (- (2 ^ 63)) (2 ^ 63 - 1)"

text \<open>The default implementation of \<open>writeProperties\<close>.\<close>

fun ConfigNode_writeProperties ::
  "('n \<Rightarrow> string \<Rightarrow> init_string \<Rightarrow> string \<Rightarrow> 'n step) \<Rightarrow> 'n \<Rightarrow> config_props \<Rightarrow> 'n step" where
  "ConfigNode_writeProperties writeProp n [] = return n"
| "ConfigNode_writeProperties writeProp n ((k, v) # props) =
     andThen (writeProp n k v []) (\<lambda>n. ConfigNode_writeProperties writeProp n props)"

text \<open>\<open>ConfigProperty::getName\<close>: the name under which a property is stored in a node.\<close>

fun first_used :: "'n node_ops \<Rightarrow> 'n \<Rightarrow> string list \<Rightarrow> string option" where
  "first_used ops n [] = None"
| "first_used ops n (name # names) =
     (if getProperty ops n name \<noteq> None then Some name else first_used ops n names)"

definition ConfigProperty_getName :: "'n node_ops \<Rightarrow> string list \<Rightarrow> 'n \<Rightarrow> string" where
  "ConfigProperty_getName ops names n =
     (if names = [] then ''???''
      else if length names = 1 then hd names
      else (case first_used ops n names of Some name \<Rightarrow> name | None \<Rightarrow> hd names))"

section \<open>Nodes without an inner node\<close>

definition ini_file_ops :: "ini_file node_ops" where
  "ini_file_ops =
     \<lparr>op_getName = (\<lambda>n. blob_name (m_data n)),
      op_isVolatile = (\<lambda>n. False),
      op_flush = IniBase_flush IniFile_toFile,
      op_readProperty = IniFile_readProperty,
      op_writeProperty = (\<lambda>n k v c. return (IniFile_writeProperty n k v c)),
      op_readProperties = IniFile_readProperties,
      op_writeProperties =
        ConfigNode_writeProperties (\<lambda>n k v c. return (IniFile_writeProperty n k v c)),
      op_removeProperty = (\<lambda>n k. return (IniFile_removeProperty n k)),
      op_clear = (\<lambda>n. return (IniFile_clear n)),
      op_exists = (\<lambda>n. blob_exists (m_data n)),
      op_isReadOnly = (\<lambda>n. True)\<rparr>"

definition ini_hash_ops :: "ini_hash node_ops" where
  "ini_hash_ops =
     \<lparr>op_getName = (\<lambda>n. blob_name (m_data n)),
      op_isVolatile = (\<lambda>n. False),
      op_flush = IniBase_flush IniHash_toFile,
      op_readProperty = IniHash_readProperty,
      op_writeProperty = (\<lambda>n k v c. return (IniHash_writeProperty n k v c)),
      op_readProperties = IniHash_readProperties,
      op_writeProperties = (\<lambda>n props. return (IniHash_writeProperties n props)),
      op_removeProperty = (\<lambda>n k. return (IniHash_removeProperty n k)),
      op_clear = (\<lambda>n. return (IniHash_clear n)),
      op_exists = (\<lambda>n. blob_exists (m_data n)),
      op_isReadOnly = (\<lambda>n. True)\<rparr>"

text \<open>
  \<open>DevNullConfigNode\<close>: the state is its name, which the constructor initializes with the
  empty string instead of its argument.
\<close>

definition DevNullConfigNode :: "string \<Rightarrow> string" where
  "DevNullConfigNode name = []"

definition devnull_ops :: "string node_ops" where
  "devnull_ops =
     \<lparr>op_getName = (\<lambda>n. n),
      op_isVolatile = (\<lambda>n. True),
      op_flush = return,
      op_readProperty = (\<lambda>n k. unset),
      op_writeProperty = (\<lambda>n k v c.
        throw (Throw (n @ '': virtual read-only configuration node, cannot write property '' @
                      k @ '' = '' @ fst v)) n),
      op_readProperties = (\<lambda>n props. props),
      op_writeProperties = (\<lambda>n props.
        if props \<noteq> []
        then throw (Throw (n @ '': virtual read-only configuration node, cannot write properties'')) n
        else return n),
      op_removeProperty = (\<lambda>n k. return n),
      op_clear = return,
      op_exists = (\<lambda>n. False),
      op_isReadOnly = (\<lambda>n. True)\<rparr>"

section \<open>FilterConfigNode\<close>

record 'n filter_node =
  fn_filter :: config_props
  fn_writable :: bool
  fn_node :: 'n

definition FilterConfigNode :: "'n \<Rightarrow> config_props \<Rightarrow> 'n filter_node" where
  "FilterConfigNode node filt = \<lparr>fn_filter = filt, fn_writable = True, fn_node = node\<rparr>"

definition FilterConfigNode_const :: "'n \<Rightarrow> config_props \<Rightarrow> 'n filter_node" where
  "FilterConfigNode_const node filt = \<lparr>fn_filter = filt, fn_writable = False, fn_node = node\<rparr>"

definition Filter_addFilter :: "'n filter_node \<Rightarrow> string \<Rightarrow> init_string \<Rightarrow> 'n filter_node" where
  "Filter_addFilter n property value = n\<lparr>fn_filter := nc_put property value (fn_filter n)\<rparr>"

definition Filter_setFilter :: "'n filter_node \<Rightarrow> config_props \<Rightarrow> 'n filter_node" where
  "Filter_setFilter n filt = n\<lparr>fn_filter := filt\<rparr>"

text \<open>The result of an operation on the inner node, put back into the wrapper.\<close>

definition into :: "('n \<Rightarrow> 'w) \<Rightarrow> 'n step \<Rightarrow> 'w step" where
  "into f r = (fst r, f (snd r))"

definition Filter_readProperty :: "'n node_ops \<Rightarrow> 'n filter_node \<Rightarrow> string \<Rightarrow> init_string" where
  "Filter_readProperty ops n property =
     (case nc_find property (fn_filter n) of
        Some v \<Rightarrow> v
      | None \<Rightarrow> op_readProperty ops (fn_node n) property)"

definition Filter_writeProperty ::
  "'n node_ops \<Rightarrow> 'n filter_node \<Rightarrow> string \<Rightarrow> init_string \<Rightarrow> string \<Rightarrow> 'n filter_node step" where
  "Filter_writeProperty ops n property value comment =
     (if \<not> fn_writable n
      then throw (Throw (op_getName ops (fn_node n) @ '': read-only, setting properties not allowed'')) n
      else
        (let n = n\<lparr>fn_filter := nc_erase property (fn_filter n)\<rparr>
         in into (\<lambda>i. n\<lparr>fn_node := i\<rparr>) (op_writeProperty ops (fn_node n) property value comment)))"

text \<open>The entries of the filter pass through a pair of strings and come out as set.\<close>

definition Filter_readProperties :: "'n node_ops \<Rightarrow> 'n filter_node \<Rightarrow> config_props \<Rightarrow> config_props" where
  "Filter_readProperties ops n props =
     fold (\<lambda>(k, v). nc_put k (explicit (fst v))) (fn_filter n)
       (op_readProperties ops (fn_node n) props)"

definition Filter_removeProperty ::
  "'n node_ops \<Rightarrow> 'n filter_node \<Rightarrow> string \<Rightarrow> 'n filter_node step" where
  "Filter_removeProperty ops n property =
     (if \<not> fn_writable n
      then throw (Throw (op_getName ops (fn_node n) @ '': read-only, removing properties not allowed'')) n
      else
        (let n = n\<lparr>fn_filter := nc_erase property (fn_filter n)\<rparr>
         in into (\<lambda>i. n\<lparr>fn_node := i\<rparr>) (op_removeProperty ops (fn_node n) property)))"

definition Filter_clear :: "'n node_ops \<Rightarrow> 'n filter_node \<Rightarrow> 'n filter_node step" where
  "Filter_clear ops n =
     (let n = n\<lparr>fn_filter := []\<rparr>
      in if fn_writable n then into (\<lambda>i. n\<lparr>fn_node := i\<rparr>) (op_clear ops (fn_node n))
         else throw NullDeref n)"

definition Filter_flush :: "'n node_ops \<Rightarrow> 'n filter_node \<Rightarrow> 'n filter_node step" where
  "Filter_flush ops n =
     (if \<not> fn_writable n
      then throw (Throw (op_getName ops (fn_node n) @ '': read-only, flushing not allowed'')) n
      else into (\<lambda>i. n\<lparr>fn_node := i\<rparr>) (op_flush ops (fn_node n)))"

definition filter_ops :: "'n node_ops \<Rightarrow> 'n filter_node node_ops" where
  "filter_ops ops =
     \<lparr>op_getName = (\<lambda>n. op_getName ops (fn_node n)),
      op_isVolatile = (\<lambda>n. op_isVolatile ops (fn_node n)),
      op_flush = Filter_flush ops,
      op_readProperty = Filter_readProperty ops,
      op_writeProperty = Filter_writeProperty ops,
      op_readProperties = Filter_readProperties ops,
      op_writeProperties = ConfigNode_writeProperties (Filter_writeProperty ops),
      op_removeProperty = Filter_removeProperty ops,
      op_clear = Filter_clear ops,
      op_exists = (\<lambda>n. op_exists ops (fn_node n)),
      op_isReadOnly = (\<lambda>n. \<not> fn_writable n \<or> op_isReadOnly ops (fn_node n))\<rparr>"

text \<open>\<open>VolatileConfigNode\<close>: a filter over a hash node that is never saved.\<close>

definition VolatileConfigNode :: "string option \<Rightarrow> ini_hash filter_node" where
  "VolatileConfigNode devnull =
     FilterConfigNode (IniHashConfigNode (FileDataBlob ''/dev/null'' ''dummy.ini'' True devnull)) []"

definition volatile_ops :: "ini_hash filter_node node_ops" where
  "volatile_ops =
     (filter_ops ini_hash_ops)
       \<lparr>op_getName := (\<lambda>n. ''intermediate configuration''),
        op_isVolatile := (\<lambda>n. True),
        op_flush := return\<rparr>"

section \<open>PrefixConfigNode\<close>

record 'n prefix_node =
  pn_prefix :: string
  pn_writable :: bool
  pn_node :: 'n

definition PrefixConfigNode :: "string \<Rightarrow> 'n \<Rightarrow> 'n prefix_node" where
  "PrefixConfigNode prefix node = \<lparr>pn_prefix = prefix, pn_writable = True, pn_node = node\<rparr>"

definition PrefixConfigNode_const :: "string \<Rightarrow> 'n \<Rightarrow> 'n prefix_node" where
  "PrefixConfigNode_const prefix node = \<lparr>pn_prefix = prefix, pn_writable = False, pn_node = node\<rparr>"

definition Prefix_readProperty :: "'n node_ops \<Rightarrow> 'n prefix_node \<Rightarrow> string \<Rightarrow> init_string" where
  "Prefix_readProperty ops n property = op_readProperty ops (pn_node n) (pn_prefix n @ property)"

definition Prefix_writeProperty ::
  "'n node_ops \<Rightarrow> 'n prefix_node \<Rightarrow> string \<Rightarrow> init_string \<Rightarrow> string \<Rightarrow> 'n prefix_node step" where
  "Prefix_writeProperty ops n property value comment =
     (if pn_writable n
      then into (\<lambda>i. n\<lparr>pn_node := i\<rparr>)
             (op_writeProperty ops (pn_node n) (pn_prefix n @ property) value comment)
      else throw NullDeref n)"

definition Prefix_readProperties :: "'n node_ops \<Rightarrow> 'n prefix_node \<Rightarrow> config_props \<Rightarrow> config_props" where
  "Prefix_readProperties ops n props =
     fold (\<lambda>(k, v) props.
             if starts_with k (pn_prefix n)
             then nc_put (drop (length (pn_prefix n)) k) (explicit (fst v)) props else props)
       (op_readProperties ops (pn_node n) []) props"

definition Prefix_removeProperty ::
  "'n node_ops \<Rightarrow> 'n prefix_node \<Rightarrow> string \<Rightarrow> 'n prefix_node step" where
  "Prefix_removeProperty ops n property =
     (if pn_writable n
      then into (\<lambda>i. n\<lparr>pn_node := i\<rparr>) (op_removeProperty ops (pn_node n) (pn_prefix n @ property))
      else throw NullDeref n)"

fun Prefix_clear_loop :: "'n node_ops \<Rightarrow> config_props \<Rightarrow> 'n prefix_node \<Rightarrow> 'n prefix_node step" where
  "Prefix_clear_loop ops [] n = return n"
| "Prefix_clear_loop ops ((key, v) # props) n =
     (if starts_with key (pn_prefix n)
      then
        (if pn_writable n
         then andThen (into (\<lambda>i. n\<lparr>pn_node := i\<rparr>) (op_removeProperty ops (pn_node n) key))
                (Prefix_clear_loop ops props)
         else throw NullDeref n)
      else Prefix_clear_loop ops props n)"

definition Prefix_clear :: "'n node_ops \<Rightarrow> 'n prefix_node \<Rightarrow> 'n prefix_node step" where
  "Prefix_clear ops n = Prefix_clear_loop ops (op_readProperties ops (pn_node n) []) n"

definition Prefix_flush :: "'n node_ops \<Rightarrow> 'n prefix_node \<Rightarrow> 'n prefix_node step" where
  "Prefix_flush ops n =
     (if \<not> pn_writable n
      then throw (Throw (op_getName ops (pn_node n) @ '': read-only, flushing not allowed'')) n
      else into (\<lambda>i. n\<lparr>pn_node := i\<rparr>) (op_flush ops (pn_node n)))"

definition prefix_ops :: "'n node_ops \<Rightarrow> 'n prefix_node node_ops" where
  "prefix_ops ops =
     \<lparr>op_getName = (\<lambda>n. op_getName ops (pn_node n)),
      op_isVolatile = (\<lambda>n. op_isVolatile ops (pn_node n)),
      op_flush = Prefix_flush ops,
      op_readProperty = Prefix_readProperty ops,
      op_writeProperty = Prefix_writeProperty ops,
      op_readProperties = Prefix_readProperties ops,
      op_writeProperties = ConfigNode_writeProperties (Prefix_writeProperty ops),
      op_removeProperty = Prefix_removeProperty ops,
      op_clear = Prefix_clear ops,
      op_exists = (\<lambda>n. op_exists ops (pn_node n)),
      op_isReadOnly = (\<lambda>n. \<not> pn_writable n \<or> op_isReadOnly ops (pn_node n))\<rparr>"

section \<open>SafeConfigNode\<close>

record 'n safe_node =
  sn_writable :: bool
  sn_strict :: bool
  sn_node :: 'n

definition SafeConfigNode :: "'n \<Rightarrow> 'n safe_node" where
  "SafeConfigNode node = \<lparr>sn_writable = True, sn_strict = True, sn_node = node\<rparr>"

definition SafeConfigNode_const :: "'n \<Rightarrow> 'n safe_node" where
  "SafeConfigNode_const node = \<lparr>sn_writable = False, sn_strict = True, sn_node = node\<rparr>"

definition Safe_setMode :: "'n safe_node \<Rightarrow> bool \<Rightarrow> 'n safe_node" where
  "Safe_setMode n strict = n\<lparr>sn_strict := strict\<rparr>"

definition Safe_escape :: "'n safe_node \<Rightarrow> string \<Rightarrow> string" where
  "Safe_escape n str = escape str CHR ''!'' (if sn_strict n then STRICT else INI_VALUE)"

definition Safe_unescape :: "string \<Rightarrow> string" where
  "Safe_unescape str = unescape str CHR ''!''"

definition Safe_readProperty :: "'n node_ops \<Rightarrow> 'n safe_node \<Rightarrow> string \<Rightarrow> init_string" where
  "Safe_readProperty ops n property =
     (let res = op_readProperty ops (sn_node n) (Safe_escape n property)
      in (Safe_unescape (fst res), wasSet res))"

definition Safe_writeProperty ::
  "'n node_ops \<Rightarrow> 'n safe_node \<Rightarrow> string \<Rightarrow> init_string \<Rightarrow> string \<Rightarrow> 'n safe_node step" where
  "Safe_writeProperty ops n property value comment =
     (if sn_writable n
      then into (\<lambda>i. n\<lparr>sn_node := i\<rparr>)
             (op_writeProperty ops (sn_node n) (Safe_escape n property)
                (Safe_escape n (fst value), wasSet value) comment)
      else throw NullDeref n)"

definition Safe_readProperties :: "'n node_ops \<Rightarrow> 'n safe_node \<Rightarrow> config_props \<Rightarrow> config_props" where
  "Safe_readProperties ops n props =
     fold (\<lambda>(k, v). nc_put (Safe_unescape k) (explicit (Safe_unescape (fst v))))
       (op_readProperties ops (sn_node n) []) props"

definition Safe_removeProperty :: "'n node_ops \<Rightarrow> 'n safe_node \<Rightarrow> string \<Rightarrow> 'n safe_node step" where
  "Safe_removeProperty ops n property =
     (if sn_writable n
      then into (\<lambda>i. n\<lparr>sn_node := i\<rparr>) (op_removeProperty ops (sn_node n) (Safe_escape n property))
      else throw NullDeref n)"

definition Safe_clear :: "'n node_ops \<Rightarrow> 'n safe_node \<Rightarrow> 'n safe_node step" where
  "Safe_clear ops n =
     (if sn_writable n then into (\<lambda>i. n\<lparr>sn_node := i\<rparr>) (op_clear ops (sn_node n))
      else throw NullDeref n)"

definition Safe_flush :: "'n node_ops \<Rightarrow> 'n safe_node \<Rightarrow> 'n safe_node step" where
  "Safe_flush ops n =
     (if \<not> sn_writable n
      then throw (Throw (op_getName ops (sn_node n) @ '': read-only, flushing not allowed'')) n
      else into (\<lambda>i. n\<lparr>sn_node := i\<rparr>) (op_flush ops (sn_node n)))"

definition safe_ops :: "'n node_ops \<Rightarrow> 'n safe_node node_ops" where
  "safe_ops ops =
     \<lparr>op_getName = (\<lambda>n. op_getName ops (sn_node n)),
      op_isVolatile = (\<lambda>n. op_isVolatile ops (sn_node n)),
      op_flush = Safe_flush ops,
      op_readProperty = Safe_readProperty ops,
      op_writeProperty = Safe_writeProperty ops,
      op_readProperties = Safe_readProperties ops,
      op_writeProperties = ConfigNode_writeProperties (Safe_writeProperty ops),
      op_removeProperty = Safe_removeProperty ops,
      op_clear = Safe_clear ops,
      op_exists = (\<lambda>n. op_exists ops (sn_node n)),
      op_isReadOnly = (\<lambda>n. \<not> sn_writable n \<or> op_isReadOnly ops (sn_node n))\<rparr>"

text \<open>\<open>ConfigNode::createFileNode\<close>: a file node in non-strict escaping mode.\<close>

definition createFileNode :: "string \<Rightarrow> string option \<Rightarrow> ini_file safe_node" where
  "createFileNode filename file =
     (let (path, name) =
        (case rfind_char CHR ''/'' filename of
           Some off \<Rightarrow> (take off filename, drop (off + 1) filename)
         | None \<Rightarrow> (''.'', filename))
      in Safe_setMode (SafeConfigNode (IniFileConfigNode (FileDataBlob path name False file))) False)"

lemma ini_file_ops_sel [node_simps]:
  "op_getName ini_file_ops n = blob_name (m_data n)"
  "op_flush ini_file_ops = IniBase_flush IniFile_toFile"
  "op_readProperty ini_file_ops = IniFile_readProperty"
  "op_writeProperty ini_file_ops n k v c = (None, IniFile_writeProperty n k v c)"
  "op_readProperties ini_file_ops = IniFile_readProperties"
  "op_removeProperty ini_file_ops n k = (None, IniFile_removeProperty n k)"
  "op_clear ini_file_ops n = (None, IniFile_clear n)"
  by (simp_all add: ini_file_ops_def)

end
