(* ===== verification/Kv_Node.thy ===== *)
theory Kv_Node
  imports Config_Node
begin

text \<open>
  What clients of a configuration node rely on, as the locale \<open>kv_node\<close>: the node is a finite
  map (\<open>content\<close>), and every operation acts on it as its name says, for the keys and values that
  the node can store. \<open>SafeConfigNode\<close> and \<open>PrefixConfigNode\<close> preserve the contract;
  \<open>IniHashConfigNode\<close> provides it. The stack that the tracking sources use, a prefix over a
  strict escaping node over a hash node, provides it for all strings.
\<close>

section \<open>The contract\<close>

text \<open>No other key of the set is the given one in a different spelling of its case.\<close>

definition case_fresh :: "string \<Rightarrow> string set \<Rightarrow> bool" where
  "case_fresh k ks \<longleftrightarrow> (\<forall>k' \<in> ks. nocase_key k' = nocase_key k \<longrightarrow> k' = k)"

abbreviation case_distinct :: "string set \<Rightarrow> bool" where
  "case_distinct ks \<equiv> inj_on nocase_key ks"

text \<open>The property set that lists a map.\<close>

definition lists_map :: "config_props \<Rightarrow> (string \<rightharpoonup> string) \<Rightarrow> bool" where
  "lists_map props m \<longleftrightarrow> nc_sorted props \<and> (\<forall>k v. (k, v) \<in> set props \<longleftrightarrow> wasSet v \<and> m k = Some (fst v))"

locale kv_node =
  fixes ops :: "'n node_ops"
    and ninv :: "'n \<Rightarrow> bool"
    and content :: "'n \<Rightarrow> (string \<rightharpoonup> string)"
    and key :: "string \<Rightarrow> bool"
    and val :: "string \<Rightarrow> bool"
  assumes distinct_case: "ninv n \<Longrightarrow> case_distinct (dom (content n))"
    and valid: "ninv n \<Longrightarrow> content n k = Some v \<Longrightarrow> key k \<and> val v"
    and read_ok: "ninv n \<Longrightarrow> key k \<Longrightarrow>
      op_readProperty ops n k = (case content n k of Some v \<Rightarrow> explicit v | None \<Rightarrow> unset)"
    and write_ok: "ninv n \<Longrightarrow> key k \<Longrightarrow> val v \<Longrightarrow> case_fresh k (dom (content n)) \<Longrightarrow>
      \<exists>n'. op_writeProperty ops n k (explicit v) c = (None, n') \<and> ninv n' \<and>
           content n' = (content n)(k \<mapsto> v)"
    and remove_ok: "ninv n \<Longrightarrow> key k \<Longrightarrow>
      \<exists>n'. op_removeProperty ops n k = (None, n') \<and> ninv n' \<and> content n' = (content n)(k := None)"
    and clear_ok: "ninv n \<Longrightarrow> \<exists>n'. op_clear ops n = (None, n') \<and> ninv n' \<and> content n' = Map.empty"
    and reads_ok: "ninv n \<Longrightarrow> lists_map (op_readProperties ops n []) (content n)"
    and flush_ok: "ninv n \<Longrightarrow> \<exists>n'. op_flush ops n = (None, n') \<and> ninv n' \<and> content n' = content n"

section \<open>Property sets as maps\<close>

lemma case_distinct_insert:
  "case_distinct ks \<Longrightarrow> case_fresh k ks \<Longrightarrow> case_distinct (insert k ks)"
  by (auto simp: inj_on_def case_fresh_def)

lemma case_distinct_subset: "case_distinct ks \<Longrightarrow> js \<subseteq> ks \<Longrightarrow> case_distinct js"
  by (rule inj_on_subset)

lemma lists_map_empty [simp]: "lists_map [] Map.empty"
  by (simp add: lists_map_def)

lemma lists_map_sorted: "lists_map props m \<Longrightarrow> nc_sorted props"
  by (simp add: lists_map_def)

lemma lists_map_memD:
  assumes "lists_map props m" and "x \<in> set props"
  shows "m (fst x) = Some (fst (snd x))" and "snd (snd x)"
  using assms by (metis lists_map_def prod.collapse)+

lemma lists_map_memI: "lists_map props m \<Longrightarrow> m k = Some v \<Longrightarrow> (k, explicit v) \<in> set props"
  by (simp add: lists_map_def)

lemma lists_map_dom:
  assumes "lists_map props m"
  shows "fst ` set props = dom m"
proof
  show "fst ` set props \<subseteq> dom m" using lists_map_memD(1) [OF assms] by blast
  show "dom m \<subseteq> fst ` set props"
  proof
    fix k assume "k \<in> dom m"
    then obtain v where "m k = Some v" by blast
    then have "(k, explicit v) \<in> set props" by (rule lists_map_memI [OF assms])
    then show "k \<in> fst ` set props" by (rule rev_image_eqI) simp
  qed
qed

lemma lists_map_fresh:
  "lists_map props m \<Longrightarrow> case_fresh k (dom m) \<Longrightarrow> x \<in> set props \<Longrightarrow>
   nocase_key (fst x) = nocase_key k \<Longrightarrow> fst x = k"
  using lists_map_memD(1) unfolding case_fresh_def by blast

lemma kput_mem_iff:
  assumes "\<And>x. x \<in> set m \<Longrightarrow> f (fst x) = f k \<Longrightarrow> fst x = k" and "ksorted f m"
  shows "x \<in> set (kput f k v m) \<longleftrightarrow> (if fst x = k then snd x = v else x \<in> set m)"
  using assms
proof (induction m)
  case Nil
  then show ?case by (cases x) auto
next
  case (Cons e m)
  obtain y w where e: "e = (y, w)" by (cases e)
  have lt: "\<And>z. z \<in> set m \<Longrightarrow> f y < f (fst z)" and srt: "ksorted f m"
    using Cons.prems(2) by (simp_all add: e ksorted_Cons)
  have "\<And>x. x \<in> set m \<Longrightarrow> f (fst x) = f k \<Longrightarrow> fst x = k"
    using Cons.prems(1) by (meson list.set_intros(2))
  then have IH: "x \<in> set (kput f k v m) \<longleftrightarrow> (if fst x = k then snd x = v else x \<in> set m)"
    using Cons.IH srt by blast
  have y: "y = k" if "f y = f k" using that Cons.prems(1) [of e] by (simp add: e)
  have nin: "k \<notin> fst ` set m" if "f k \<le> f y"
    using lt that by (metis imageE leD)
  consider "f k < f y" | "f y = f k" | "f y < f k" using linorder_less_linear by blast
  then show ?case
  proof cases
    case 1
    then have "y \<noteq> k" by auto
    then show ?thesis using 1 nin by (cases x) (force simp: e)
  next
    case 2
    then show ?thesis using y nin by (cases x) (force simp: e)
  next
    case 3
    then have "y \<noteq> k" by auto
    then show ?thesis using 3 IH by (cases x) (auto simp: e)
  qed
qed

lemma lists_map_put:
  assumes "lists_map props m" and "case_fresh k (dom m)"
  shows "lists_map (nc_put k (explicit v) props) (m(k \<mapsto> v))"
proof -
  have mem: "x \<in> set (nc_put k (explicit v) props) \<longleftrightarrow>
      (if fst x = k then snd x = explicit v else x \<in> set props)" for x
    using lists_map_fresh [OF assms] lists_map_sorted [OF assms(1)] by (intro kput_mem_iff) auto
  have "(a, b) \<in> set (nc_put k (explicit v) props) \<longleftrightarrow> wasSet b \<and> (m(k \<mapsto> v)) a = Some (fst b)" for a b
  proof (cases "a = k")
    case True
    then show ?thesis using mem [of "(a, b)"] by (cases b) auto
  next
    case False
    then show ?thesis using mem [of "(a, b)"] assms(1) by (cases b) (simp add: lists_map_def)
  qed
  then show ?thesis using lists_map_sorted [OF assms(1)] by (simp add: lists_map_def)
qed

lemma nc_insert_put:
  assumes "lists_map props m" and "k \<notin> dom m" and "case_fresh k (dom m)"
  shows "nc_insert k v props = nc_put k v props"
proof -
  have "nocase_key (fst x) \<noteq> nocase_key k" if "x \<in> set props" for x
    using lists_map_fresh [OF assms(1,3) that] lists_map_memD(1) [OF assms(1) that] assms(2) by auto
  then have "nc_find k props = None" by (auto simp: kfind_None)
  then show ?thesis by (simp add: kinsert_def)
qed

text \<open>Copying entries one by one, with keys that stay distinct when case is ignored.\<close>

lemma lists_map_copy:
  assumes "distinct (map fst es)" and "case_distinct (dom m \<union> fst ` set es)"
    and "dom m \<inter> fst ` set es = {}" and "lists_map props m"
  shows "lists_map (fold (\<lambda>(k, v). nc_put k (explicit v)) es props) (m ++ map_of es) \<and>
         fold (\<lambda>(k, v). nc_insert k (explicit v)) es props = fold (\<lambda>(k, v). nc_put k (explicit v)) es props"
  using assms
proof (induction es arbitrary: m props)
  case (Cons e es)
  obtain k v where e: "e = (k, v)" by (cases e)
  have fresh: "case_fresh k (dom m)" "k \<notin> dom m"
    using Cons.prems(2,3) by (auto simp: e case_fresh_def inj_on_def)
  have step: "lists_map (nc_put k (explicit v) props) (m(k \<mapsto> v))"
    using lists_map_put [OF Cons.prems(4) fresh(1)] .
  have IH: "lists_map (fold (\<lambda>(k, v). nc_put k (explicit v)) es (nc_put k (explicit v) props))
      (m(k \<mapsto> v) ++ map_of es) \<and>
    fold (\<lambda>(k, v). nc_insert k (explicit v)) es (nc_put k (explicit v) props) =
    fold (\<lambda>(k, v). nc_put k (explicit v)) es (nc_put k (explicit v) props)"
  proof (rule Cons.IH [OF _ _ _ step])
    show "distinct (map fst es)" using Cons.prems(1) by (simp add: e)
    show "case_distinct (dom (m(k \<mapsto> v)) \<union> fst ` set es)"
      using Cons.prems(2) by (rule case_distinct_subset) (auto simp: e)
    show "dom (m(k \<mapsto> v)) \<inter> fst ` set es = {}" using Cons.prems(1,3) by (force simp: e)
  qed
  have "k \<notin> dom (map_of es)" using Cons.prems(1) by (simp add: e dom_map_of_conv_image_fst)
  then have "m ++ map_of (e # es) = m(k \<mapsto> v) ++ map_of es"
    by (simp add: e map_add_upd_left)
  moreover have "nc_insert k w props = nc_put k w props" for w
    by (rule nc_insert_put [OF Cons.prems(4) fresh(2,1)])
  ultimately show ?case
    using IH by (simp only: e fold_simps split_conv)
qed simp

lemma lists_map_distinct:
  assumes "lists_map props m"
  shows "distinct (map fst props)"
  using ksorted_distinct [OF lists_map_sorted [OF assms]] by (metis distinct_map map_map)

lemma lists_map_of:
  assumes "lists_map props m"
  shows "map_of props k = map_option explicit (m k)"
proof (cases "m k")
  case None
  then have "k \<notin> fst ` set props" using lists_map_dom [OF assms] by auto
  then show ?thesis using None by (simp add: map_of_eq_None_iff)
next
  case (Some v)
  then show ?thesis
    using lists_map_memI [OF assms Some] lists_map_distinct [OF assms] by (simp add: map_of_is_SomeI)
qed

section \<open>Strict escaping and case\<close>

definition esc :: "string \<Rightarrow> string" where
  "esc s = escape s CHR ''!'' STRICT"

lemma unescape_esc [simp]: "Safe_unescape (esc s) = s"
  by (simp add: Safe_unescape_def esc_def unescape_escape_static)

lemma esc_inj [simp]: "esc a = esc b \<longleftrightarrow> a = b"
  by (metis unescape_esc)

lemma Safe_escape_strict [simp]: "sn_strict n \<Longrightarrow> Safe_escape n s = esc s"
  by (simp add: Safe_escape_def esc_def)

lemma tolower_hexdigit [simp]: "tolower (hexdigit n) = hexdigit n"
  using hexchar_hexdigit [of n] by (auto simp: hexchar_def char_simps)

lemma tolower_eq_bang [simp]: "tolower c = CHR ''!'' \<longleftrightarrow> c = CHR ''!''"
proof
  assume "tolower c = CHR ''!''"
  then have "ccode (tolower c) = 33" by (simp add: ccode_def)
  then have "ccode c = 33" by (auto simp: ccode_tolower isupper_def split: if_splits)
  then have "ccode c = ccode (CHR ''!'')" by (simp add: ccode_def)
  then show "c = CHR ''!''" by simp
qed (simp add: tolower_def isupper_def ccode_def)

lemma tolower_bang [simp]: "tolower CHR ''!'' = CHR ''!''" "CHR ''!'' = tolower c \<longleftrightarrow> c = CHR ''!''"
  by (metis tolower_eq_bang)+

lemma hexdigit_inj: "i < 16 \<Longrightarrow> j < 16 \<Longrightarrow> hexdigit i = hexdigit j \<longleftrightarrow> i = j"
  by (metis hexval_hexdigit option.inject)

lemma hexdigit_pair:
  assumes "hexdigit (ccode c div 16) = hexdigit (ccode d div 16)"
    and "hexdigit (ccode c mod 16) = hexdigit (ccode d mod 16)"
  shows "c = d"
proof -
  have "ccode c div 16 = ccode d div 16" "ccode c mod 16 = ccode d mod 16"
    using assms by (simp_all add: hexdigit_inj)
  then have "ccode c = ccode d" by (metis div_mult_mod_eq)
  then show ?thesis by simp
qed

lemma esc_loop_nocase:
  "iequals (esc_loop CHR ''!'' STRICT l a) (esc_loop CHR ''!'' STRICT l' b) \<Longrightarrow> iequals a b"
proof (induction a arbitrary: b l l')
  case Nil
  then show ?case by (cases b) (auto simp: iequals_def esc_seq_eq split: if_splits)
next
  case (Cons c a)
  show ?case
  proof (cases b)
    case Nil
    then show ?thesis using Cons.prems by (auto simp: iequals_def esc_seq_eq split: if_splits)
  next
    case (Cons d b')
    then show ?thesis
      using Cons.prems Cons.IH [where b = b'] esc_keep_neq [of "CHR ''!''" STRICT l c]
        esc_keep_neq [of "CHR ''!''" STRICT l' d] hexdigit_pair [of c d]
      by (auto simp: iequals_def esc_seq_eq split: if_splits)
  qed
qed

lemma esc_nocase: "nocase_key (esc a) = nocase_key (esc b) \<Longrightarrow> nocase_key a = nocase_key b"
  unfolding nocase_key_eq_iff esc_def escape_def Let_def by (simp add: esc_loop_nocase)

section \<open>Hash nodes provide the contract\<close>

definition hash_content :: "ini_hash \<Rightarrow> (string \<rightharpoonup> string)" where
  "hash_content n = map_of (m_props n)"

definition hash_inv :: "ini_hash \<Rightarrow> bool" where
  "hash_inv n \<longleftrightarrow> IniHash_inv n \<and> blob_writable (m_data n) \<and> case_distinct (dom (hash_content n))"

lemma hash_content_kfind: "hash_content n k = kfind id k (m_props n)"
  by (simp add: hash_content_def kfind_id)

lemma IniHash_m_data [simp]:
  "m_data (IniHash_writeProperty n k v c) = m_data n"
  "m_data (IniHash_removeProperty n k) = m_data n"
  "m_data (IniHash_clear n) = m_data n"
  by (auto simp: IniHash_writeProperty_def IniHash_removeProperty_def IniHash_clear_def
      split: option.splits)

lemma hash_content_ops:
  "hash_content (IniHash_writeProperty n k (explicit v) c) = (hash_content n)(k \<mapsto> v)"
  "hash_content (IniHash_removeProperty n k) = (hash_content n)(k := None)"
  "hash_content (IniHash_clear n) = Map.empty"
  by (auto simp: fun_eq_iff hash_content_kfind IniHash_writeProperty_def IniHash_removeProperty_def
      IniHash_clear_def kmap_simps split: option.splits)

interpretation hash: kv_node ini_hash_ops hash_inv hash_content ini_key ini_trimmed
proof (unfold_locales, goal_cases)
  case (1 n)
  then show ?case by (simp add: hash_inv_def)
next
  case (2 n k v)
  then show ?case
    by (auto simp: hash_inv_def IniHash_inv_def hash_wf_def hash_content_def dest!: map_of_SomeD)
next
  case (3 n k)
  then show ?case
    by (simp add: ini_hash_ops_def IniHash_readProperty_def hash_content_kfind)
next
  case (4 n k v c)
  then show ?case
    using IniHash_inv_write [of n k "explicit v" c] case_distinct_insert [of "dom (hash_content n)" k]
    by (auto simp: ini_hash_ops_def hash_inv_def hash_content_ops)
next
  case (5 n k)
  then show ?case
    using IniHash_inv_ops(1) [of n k] case_distinct_subset [of "dom (hash_content n)"]
    by (auto simp: ini_hash_ops_def hash_inv_def hash_content_ops)
next
  case (6 n)
  then show ?case
    using IniHash_inv_ops(2) [of n] by (auto simp: ini_hash_ops_def hash_inv_def hash_content_ops)
next
  case (7 n)
  have "distinct (map fst (m_props n))"
    using 7 ksorted_distinct [of id "m_props n"] by (simp add: hash_inv_def IniHash_inv_def hash_wf_def)
  then show ?case
    using lists_map_copy [of "m_props n" Map.empty "[]"] 7
    by (simp add: ini_hash_ops_def IniHash_readProperties_def hash_content_def hash_inv_def
        dom_map_of_conv_image_fst)
next
  case (8 n)
  then obtain n' where n': "IniBase_flush IniHash_toFile n = (None, n')" "m_props n' = m_props n"
      "IniHash_inv n'" "IniHashConfigNode (m_data n') = n'"
    using IniHash_inv_flush [of n] by (auto simp: hash_inv_def)
  have "blob_writable (m_data n')"
    using n'(1) 8 by (auto simp: hash_inv_def IniBase_flush_def blob_write_def blob_writable_def
        Let_def split: if_splits prod.splits blob_kind.splits)
  then show ?case using n' 8 by (simp add: ini_hash_ops_def hash_inv_def hash_content_def)
qed

section \<open>Wrappers keep the contract\<close>

text \<open>
  The content of a strict escaping node: unescaped keys and values of the inner node, which
  has to hold nothing but escaped strings.
\<close>

definition safe_content :: "('n \<Rightarrow> (string \<rightharpoonup> string)) \<Rightarrow> 'n safe_node \<Rightarrow> (string \<rightharpoonup> string)" where
  "safe_content content n k = map_option Safe_unescape (content (sn_node n) (esc k))"

definition safe_inv :: "('n \<Rightarrow> bool) \<Rightarrow> ('n \<Rightarrow> (string \<rightharpoonup> string)) \<Rightarrow> 'n safe_node \<Rightarrow> bool" where
  "safe_inv ninv content n \<longleftrightarrow> sn_writable n \<and> sn_strict n \<and> ninv (sn_node n) \<and>
     (\<forall>k v. content (sn_node n) k = Some v \<longrightarrow> k \<in> range esc \<and> v \<in> range esc) \<and>
     case_distinct (dom (safe_content content n))"

text \<open>The content of a prefix node: the entries of the inner node that have the prefix.\<close>

definition prefix_content :: "('n \<Rightarrow> (string \<rightharpoonup> string)) \<Rightarrow> 'n prefix_node \<Rightarrow> (string \<rightharpoonup> string)" where
  "prefix_content content n k = content (pn_node n) (pn_prefix n @ k)"

text \<open>No inner key has the prefix in a different spelling.\<close>

definition prefix_inv ::
  "string \<Rightarrow> ('n \<Rightarrow> bool) \<Rightarrow> ('n \<Rightarrow> (string \<rightharpoonup> string)) \<Rightarrow> 'n prefix_node \<Rightarrow> bool" where
  "prefix_inv p ninv content n \<longleftrightarrow> pn_writable n \<and> pn_prefix n = p \<and> ninv (pn_node n) \<and>
     (\<forall>k \<in> dom (content (pn_node n)). nocase_key (take (length p) k) = nocase_key p \<longrightarrow> starts_with k p)"

text \<open>The entries of the inner node that do not have the prefix.\<close>

definition prefix_rest :: "('n \<Rightarrow> (string \<rightharpoonup> string)) \<Rightarrow> 'n prefix_node \<Rightarrow> (string \<rightharpoonup> string)" where
  "prefix_rest content n = content (pn_node n) |` {k. \<not> starts_with k (pn_prefix n)}"

lemma prefix_rest_upd:
  assumes "content i' = (content (pn_node n))(pn_prefix n @ k := v)"
  shows "prefix_rest content (n\<lparr>pn_node := i'\<rparr>) = prefix_rest content n"
  using assms by (auto simp: prefix_rest_def restrict_map_def fun_eq_iff)

lemma safe_content_upd:
  assumes "content i' = (content (sn_node n))(esc k \<mapsto> esc v)"
  shows "safe_content content (n\<lparr>sn_node := i'\<rparr>) = (safe_content content n)(k \<mapsto> v)"
  using assms by (auto simp: safe_content_def fun_eq_iff)

lemma safe_content_del:
  assumes "content i' = (content (sn_node n))(esc k := None)"
  shows "safe_content content (n\<lparr>sn_node := i'\<rparr>) = (safe_content content n)(k := None)"
  using assms by (auto simp: safe_content_def fun_eq_iff)

lemma safe_fresh:
  assumes "safe_inv ninv content n" and "case_fresh k (dom (safe_content content n))"
  shows "case_fresh (esc k) (dom (content (sn_node n)))"
  unfolding case_fresh_def
proof (intro ballI impI)
  fix k' assume k': "k' \<in> dom (content (sn_node n))" "nocase_key k' = nocase_key (esc k)"
  then obtain v where "content (sn_node n) k' = Some v" by blast
  then obtain u where u: "k' = esc u" "content (sn_node n) (esc u) = Some v"
    using assms(1) unfolding safe_inv_def by blast
  then have "u \<in> dom (safe_content content n)" by (simp add: safe_content_def dom_def)
  then show "k' = esc k"
    using assms(2) k'(2) esc_nocase [of u k] u(1) by (auto simp: case_fresh_def)
qed

lemma fold_map_put:
  "fold (\<lambda>(k, v). nc_put (f k) (explicit (g (fst v)))) es m =
   fold (\<lambda>(k, v). nc_put k (explicit v)) (map (\<lambda>(k, v). (f k, g (fst v))) es) m"
  by (induction es arbitrary: m) (auto simp: split_def)

lemma safe_reads:
  assumes "safe_inv ninv content n" and "lists_map es (content (sn_node n))"
  shows "lists_map (fold (\<lambda>(k, v). nc_put (Safe_unescape k) (explicit (Safe_unescape (fst v)))) es [])
    (safe_content content n)"
proof -
  let ?es = "map (\<lambda>(k, v). (Safe_unescape k, Safe_unescape (fst v))) es"
  have canon: "\<exists>u w. x = (esc u, explicit (esc w)) \<and> content (sn_node n) (esc u) = Some (esc w)"
    if "x \<in> set es" for x
    using lists_map_memD [OF assms(2) that] assms(1)
    by (cases x) (force simp: safe_inv_def)
  have keys: "fst ` set ?es = dom (safe_content content n)"
  proof
    show "fst ` set ?es \<subseteq> dom (safe_content content n)"
      using canon by (force simp: safe_content_def)
    show "dom (safe_content content n) \<subseteq> fst ` set ?es"
      using lists_map_memI [OF assms(2)] by (force simp: safe_content_def)
  qed
  have "fst ` set es \<subseteq> range esc" using canon by force
  then have "inj_on Safe_unescape (fst ` set es)"
    by (rule inj_on_subset [rotated]) (auto simp: inj_on_def)
  then have dist: "distinct (map fst ?es)"
    using lists_map_distinct [OF assms(2)] by (simp add: split_def comp_def distinct_map)
      (metis comp_inj_on comp_def inj_on_cong)
  have "map_of ?es = safe_content content n"
  proof
    fix k
    show "map_of ?es k = safe_content content n k"
    proof (cases "safe_content content n k")
      case None
      then have "k \<notin> fst ` set ?es" using keys by auto
      then show ?thesis using None by (simp only: map_of_eq_None_iff) simp
    next
      case (Some v)
      then obtain w where "content (sn_node n) (esc k) = Some w" "v = Safe_unescape w"
        by (auto simp: safe_content_def)
      then have "(k, v) \<in> set ?es" using lists_map_memI [OF assms(2)] by force
      then show ?thesis using dist Some by (simp only: map_of_is_SomeI)
    qed
  qed
  then show ?thesis
    using lists_map_copy [OF dist, of Map.empty "[]"] assms(1) keys
    by (simp add: fold_map_put safe_inv_def)
qed

lemma prefix_content_upd:
  assumes "content i' = (content (pn_node n))(pn_prefix n @ k := v)"
  shows "prefix_content content (n\<lparr>pn_node := i'\<rparr>) = (prefix_content content n)(k := v)"
  using assms by (auto simp: prefix_content_def fun_eq_iff)

lemma nocase_key_append [simp]: "nocase_key (a @ b) = nocase_key a @ nocase_key b"
  by (simp add: nocase_key_def)

lemma nocase_key_length [simp]: "length (nocase_key a) = length a"
  by (simp add: nocase_key_def)

lemma prefix_fresh:
  assumes "prefix_inv p ninv content n" and "case_fresh k (dom (prefix_content content n))"
  shows "case_fresh (p @ k) (dom (content (pn_node n)))"
  unfolding case_fresh_def
proof (intro ballI impI)
  fix k' assume k': "k' \<in> dom (content (pn_node n))" "nocase_key k' = nocase_key (p @ k)"
  have "nocase_key (take (length p) k') = take (length p) (nocase_key k')"
    by (simp add: nocase_key_def take_map)
  also have "\<dots> = nocase_key p" by (simp add: k'(2))
  finally have "starts_with k' p"
    using assms(1) k'(1) unfolding prefix_inv_def by blast
  then obtain r where r: "k' = p @ r" by (auto simp: starts_with_iff)
  then have "r \<in> dom (prefix_content content n)"
    using k'(1) assms(1) by (auto simp: prefix_content_def prefix_inv_def)
  moreover have "nocase_key r = nocase_key k" using k'(2) by (simp add: r)
  ultimately show "k' = p @ k" using assms(2) r by (auto simp: case_fresh_def)
qed

lemma map_of_graph:
  assumes "distinct (map fst es)" and "\<And>k v. (k, v) \<in> set es \<longleftrightarrow> m k = Some v"
  shows "map_of es = m"
proof
  fix k
  show "map_of es k = m k"
  proof (cases "m k")
    case None
    then have "k \<notin> fst ` set es" using assms(2) by fastforce
    then show ?thesis using None by (simp add: map_of_eq_None_iff)
  next
    case (Some v)
    then show ?thesis using assms by (simp add: map_of_is_SomeI)
  qed
qed

lemma prefix_reads:
  assumes "pn_prefix n = p" and "case_distinct (dom (content (pn_node n)))"
    and "lists_map es (content (pn_node n))"
  shows "lists_map (fold (\<lambda>(k, v) props. if starts_with k p
            then nc_put (drop (length p) k) (explicit (fst v)) props else props) es [])
    (prefix_content content n)"
proof -
  let ?es = "map (\<lambda>(k, v). (drop (length p) k, fst v)) (filter (\<lambda>(k, v). starts_with k p) es)"
  have "fold (\<lambda>(k, v) props. if starts_with k p
            then nc_put (drop (length p) k) (explicit (fst v)) props else props) es m =
      fold (\<lambda>(k, v). nc_put k (explicit v)) ?es m" for m
    by (induction es arbitrary: m) (auto simp: split_def)
  moreover have mem: "(k, v) \<in> set ?es \<longleftrightarrow> prefix_content content n k = Some v" for k v
  proof
    assume "(k, v) \<in> set ?es"
    then obtain b where "(p @ k, (v, b)) \<in> set es" by (auto simp: starts_with_iff)
    from lists_map_memD(1) [OF assms(3) this] show "prefix_content content n k = Some v"
      by (simp add: prefix_content_def assms(1))
  next
    assume "prefix_content content n k = Some v"
    then have "(p @ k, explicit v) \<in> set es"
      by (intro lists_map_memI [OF assms(3)]) (simp add: prefix_content_def assms(1))
    then show "(k, v) \<in> set ?es" by force
  qed
  have dist: "distinct (map fst ?es)"
  proof -
    have "inj_on (drop (length p)) (fst ` set (filter (\<lambda>(k, v). starts_with k p) es))"
      by (auto simp: inj_on_def starts_with_iff)
    moreover have "distinct (map fst (filter (\<lambda>(k, v). starts_with k p) es))"
      using lists_map_distinct [OF assms(3)] by (rule distinct_map_filter)
    ultimately have "distinct (map (drop (length p)) (map fst (filter (\<lambda>(k, v). starts_with k p) es)))"
      by (simp only: distinct_map set_map)
    then show ?thesis by (simp add: split_def comp_def)
  qed
  have map: "map_of ?es = prefix_content content n"
    by (rule map_of_graph [OF dist mem])
  moreover have "case_distinct (fst ` set ?es)"
  proof -
    have "fst ` set ?es = dom (prefix_content content n)"
      using map by (metis dom_map_of_conv_image_fst)
    moreover have "case_distinct (dom (prefix_content content n))"
    proof (rule inj_onI)
      fix x y assume "x \<in> dom (prefix_content content n)" "y \<in> dom (prefix_content content n)"
        and "nocase_key x = nocase_key y"
      then have "p @ x = p @ y"
        by (intro inj_onD [OF assms(2)]) (auto simp: prefix_content_def assms(1))
      then show "x = y" by simp
    qed
    ultimately show ?thesis by simp
  qed
  ultimately show ?thesis
    using lists_map_copy [OF dist, of Map.empty "[]"] by simp
qed

context kv_node
begin

lemma safe: "kv_node (safe_ops ops) (safe_inv ninv content) (safe_content content)
    (\<lambda>k. key (esc k)) (\<lambda>v. val (esc v))"
proof (unfold_locales, goal_cases)
  case (1 n)
  then show ?case by (simp add: safe_inv_def)
next
  case (2 n k v)
  then obtain w where w: "content (sn_node n) (esc k) = Some w" "v = Safe_unescape w"
    by (auto simp: safe_content_def)
  moreover obtain u where "w = esc u"
    using 2(1) w(1) unfolding safe_inv_def by blast
  ultimately show ?case
    using 2(1) valid [of "sn_node n" "esc k" w] by (simp add: safe_inv_def)
next
  case (3 n k)
  then have "op_readProperty ops (sn_node n) (esc k) =
      (case content (sn_node n) (esc k) of Some v \<Rightarrow> explicit v | None \<Rightarrow> unset)"
    by (intro read_ok) (simp_all add: safe_inv_def)
  then show ?case
    using 3(1) by (auto simp: safe_ops_def Safe_readProperty_def safe_content_def safe_inv_def
        Safe_unescape_def split: option.splits)
next
  case (4 n k v c)
  have w: "sn_writable n" "sn_strict n" "ninv (sn_node n)" using 4(1) by (simp_all add: safe_inv_def)
  obtain i where i: "op_writeProperty ops (sn_node n) (esc k) (explicit (esc v)) c = (None, i)"
      "ninv i" "content i = (content (sn_node n))(esc k \<mapsto> esc v)"
    using write_ok [OF w(3) 4(2,3) safe_fresh [OF 4(1,4)]] by blast
  note upd = safe_content_upd [of content i n k v, OF i(3)]
  have "case_distinct (dom (safe_content content (n\<lparr>sn_node := i\<rparr>)))"
    using case_distinct_insert [OF _ 4(4)] 4(1) by (simp add: upd safe_inv_def)
  then have "safe_inv ninv content (n\<lparr>sn_node := i\<rparr>)"
    using 4(1) i(2,3) by (auto simp: safe_inv_def)
  then show ?case using w i upd by (simp add: safe_ops_def Safe_writeProperty_def into_def)
next
  case (5 n k)
  have w: "sn_writable n" "sn_strict n" "ninv (sn_node n)" using 5(1) by (simp_all add: safe_inv_def)
  obtain i where i: "op_removeProperty ops (sn_node n) (esc k) = (None, i)"
      "ninv i" "content i = (content (sn_node n))(esc k := None)"
    using remove_ok [OF w(3) 5(2)] by blast
  note upd = safe_content_del [of content i n k, OF i(3)]
  have "case_distinct (dom (safe_content content (n\<lparr>sn_node := i\<rparr>)))"
    using 5(1) case_distinct_subset [of "dom (safe_content content n)"] by (auto simp: upd safe_inv_def)
  then have "safe_inv ninv content (n\<lparr>sn_node := i\<rparr>)"
    using 5(1) i(2,3) by (auto simp: safe_inv_def split: if_splits)
  then show ?case using w i upd by (simp add: safe_ops_def Safe_removeProperty_def into_def)
next
  case (6 n)
  then obtain i where i: "op_clear ops (sn_node n) = (None, i)" "ninv i" "content i = Map.empty"
    using clear_ok [of "sn_node n"] by (auto simp: safe_inv_def)
  moreover have "safe_content content (n\<lparr>sn_node := i\<rparr>) = Map.empty"
    using i(3) by (auto simp: safe_content_def fun_eq_iff)
  ultimately show ?case using 6 by (auto simp: safe_ops_def Safe_clear_def into_def safe_inv_def)
next
  case (7 n)
  then show ?case
    using safe_reads [of ninv content n "op_readProperties ops (sn_node n) []"] reads_ok [of "sn_node n"]
    by (simp add: safe_ops_def Safe_readProperties_def safe_inv_def)
next
  case (8 n)
  then obtain i where i: "op_flush ops (sn_node n) = (None, i)" "ninv i" "content i = content (sn_node n)"
    using flush_ok [of "sn_node n"] by (auto simp: safe_inv_def)
  moreover have "safe_content content (n\<lparr>sn_node := i\<rparr>) = safe_content content n"
    using i(3) by (auto simp: safe_content_def fun_eq_iff)
  ultimately show ?case using 8 by (auto simp: safe_ops_def Safe_flush_def into_def safe_inv_def)
qed

lemma prefix_step:
  assumes "prefix_inv p ninv content n" and "ninv i" and "content i = (content (pn_node n))(p @ k := v)"
  shows "prefix_inv p ninv content (n\<lparr>pn_node := i\<rparr>) \<and>
    prefix_content content (n\<lparr>pn_node := i\<rparr>) = (prefix_content content n)(k := v)"
proof -
  have "pn_prefix n = p" using assms(1) by (simp add: prefix_inv_def)
  then have "prefix_content content (n\<lparr>pn_node := i\<rparr>) = (prefix_content content n)(k := v)"
    using assms(3) by (intro prefix_content_upd) simp
  then show ?thesis using assms by (auto simp: prefix_inv_def split: if_splits)
qed

lemma prefix_clear_loop:
  assumes "prefix_inv p ninv content n"
    and "\<And>k. k \<in> fst ` set props \<Longrightarrow> starts_with k p \<Longrightarrow> key k"
  shows "\<exists>n'. Prefix_clear_loop ops props n = (None, n') \<and> prefix_inv p ninv content n' \<and>
    content (pn_node n') = (content (pn_node n)) |` (- {k \<in> fst ` set props. starts_with k p})"
  using assms
proof (induction props arbitrary: n)
  case Nil
  then show ?case by (simp add: restrict_map_def)
next
  case (Cons e props)
  obtain k v where e: "e = (k, v)" by (cases e)
  have n: "pn_writable n" "pn_prefix n = p" "ninv (pn_node n)"
    using Cons.prems(1) by (simp_all add: prefix_inv_def)
  show ?case
  proof (cases "starts_with k p")
    case False
    then have "{a \<in> fst ` set (e # props). starts_with a p} = {a \<in> fst ` set props. starts_with a p}"
      by (auto simp: e)
    then show ?thesis using False Cons.IH [of n] Cons.prems n(2) by (simp add: e)
  next
    case True
    then obtain r where r: "k = p @ r" by (auto simp: starts_with_iff)
    obtain i where i: "op_removeProperty ops (pn_node n) k = (None, i)" "ninv i"
        "content i = (content (pn_node n))(k := None)"
      using remove_ok [OF n(3)] Cons.prems(2) [of k] True by (auto simp: e)
    have step: "prefix_inv p ninv content (n\<lparr>pn_node := i\<rparr>)"
      using prefix_step [OF Cons.prems(1) i(2)] i(3) by (simp add: r)
    then obtain n' where n': "Prefix_clear_loop ops props (n\<lparr>pn_node := i\<rparr>) = (None, n')"
        "prefix_inv p ninv content n'"
        "content (pn_node n') = content i |` (- {k \<in> fst ` set props. starts_with k p})"
      using Cons.IH [of "n\<lparr>pn_node := i\<rparr>"] Cons.prems(2) by (auto simp: e)
    have "content (pn_node n') = (content (pn_node n)) |` (- {a \<in> fst ` set (e # props). starts_with a p})"
      using True by (auto simp: n'(3) i(3) e restrict_map_def fun_eq_iff)
    then show ?thesis using n' i True n by (simp add: e into_def)
  qed
qed

lemma prefix_node: "kv_node (prefix_ops ops) (prefix_inv p ninv content) (prefix_content content)
    (\<lambda>k. key (p @ k)) val"
proof (unfold_locales, goal_cases)
  case (1 n)
  show ?case
  proof (rule inj_onI)
    fix x y assume "x \<in> dom (prefix_content content n)" "y \<in> dom (prefix_content content n)"
      and "nocase_key x = nocase_key y"
    then have "pn_prefix n @ x = pn_prefix n @ y"
      using distinct_case [of "pn_node n"] 1
      by (intro inj_onD [of nocase_key "dom (content (pn_node n))"])
        (auto simp: prefix_content_def prefix_inv_def)
    then show "x = y" by simp
  qed
next
  case (2 n k v)
  then show ?case
    using valid [of "pn_node n" "p @ k" v] by (simp add: prefix_inv_def prefix_content_def)
next
  case (3 n k)
  then show ?case
    using read_ok [of "pn_node n" "p @ k"]
    by (simp add: prefix_ops_def Prefix_readProperty_def prefix_inv_def prefix_content_def)
next
  case (4 n k v c)
  have n: "pn_writable n" "pn_prefix n = p" "ninv (pn_node n)" using 4(1) by (simp_all add: prefix_inv_def)
  obtain i where i: "op_writeProperty ops (pn_node n) (p @ k) (explicit v) c = (None, i)"
      "ninv i" "content i = (content (pn_node n))(p @ k \<mapsto> v)"
    using write_ok [OF n(3) 4(2,3) prefix_fresh [OF 4(1,4)]] by blast
  then show ?case
    using prefix_step [OF 4(1) i(2,3)] n by (simp add: prefix_ops_def Prefix_writeProperty_def into_def)
next
  case (5 n k)
  have n: "pn_writable n" "pn_prefix n = p" "ninv (pn_node n)" using 5(1) by (simp_all add: prefix_inv_def)
  obtain i where i: "op_removeProperty ops (pn_node n) (p @ k) = (None, i)"
      "ninv i" "content i = (content (pn_node n))(p @ k := None)"
    using remove_ok [OF n(3) 5(2)] by blast
  then show ?case
    using prefix_step [OF 5 (1) i(2,3)] n by (simp add: prefix_ops_def Prefix_removeProperty_def into_def)
next
  case (6 n)
  let ?es = "op_readProperties ops (pn_node n) []"
  have n: "pn_prefix n = p" "ninv (pn_node n)" using 6 by (simp_all add: prefix_inv_def)
  note lst = reads_ok [OF n(2)]
  have "key k" if "k \<in> fst ` set ?es" for k
    using that lists_map_dom [OF lst] valid [OF n(2), of k] by auto
  then obtain n' where n': "Prefix_clear_loop ops ?es n = (None, n')" "prefix_inv p ninv content n'"
      "content (pn_node n') = (content (pn_node n)) |` (- {k \<in> fst ` set ?es. starts_with k p})"
    using prefix_clear_loop [OF 6, of ?es] by auto
  have "pn_prefix n' = p" using n'(2) by (simp add: prefix_inv_def)
  then have "prefix_content content n' k = None" for k
    using lists_map_dom [OF lst]
    by (auto simp: prefix_content_def n'(3) restrict_map_def dom_def)
  then show ?case using n' by (auto simp: prefix_ops_def Prefix_clear_def)
next
  case (7 n)
  then have n: "pn_prefix n = p" "ninv (pn_node n)" by (simp_all add: prefix_inv_def)
  show ?case
    using prefix_reads [where content = content, OF n(1) distinct_case [OF n(2)] reads_ok [OF n(2)]]
    unfolding prefix_ops_def by (simp add: Prefix_readProperties_def n(1) cong: if_cong)
next
  case (8 n)
  then obtain i where i: "op_flush ops (pn_node n) = (None, i)" "ninv i" "content i = content (pn_node n)"
    using flush_ok [of "pn_node n"] by (auto simp: prefix_inv_def)
  moreover have "prefix_content content (n\<lparr>pn_node := i\<rparr>) = prefix_content content n"
    using i(3) by (auto simp: prefix_content_def fun_eq_iff)
  ultimately show ?case using 8 by (auto simp: prefix_ops_def Prefix_flush_def into_def prefix_inv_def)
qed

text \<open>A prefix node leaves the other entries of its inner node alone.\<close>

lemma prefix_node_rest:
  "kv_node (prefix_ops ops) (\<lambda>n. prefix_inv p ninv content n \<and> prefix_rest content n = M)
    (prefix_content content) (\<lambda>k. key (p @ k)) val"
proof (unfold_locales, goal_cases)
  case (1 n)
  then show ?case using kv_node.distinct_case [OF prefix_node] by blast
next
  case (2 n k v)
  then show ?case using kv_node.valid [OF prefix_node, of p n k v] by blast
next
  case (3 n k)
  then show ?case using kv_node.read_ok [OF prefix_node, of p n k] by blast
next
  case (4 n k v c)
  then have inv: "prefix_inv p ninv content n" by blast
  then have n: "pn_writable n" "pn_prefix n = p" "ninv (pn_node n)" by (simp_all add: prefix_inv_def)
  obtain i where i: "op_writeProperty ops (pn_node n) (p @ k) (explicit v) c = (None, i)"
      "ninv i" "content i = (content (pn_node n))(p @ k \<mapsto> v)"
    using write_ok [OF n(3) 4(2,3) prefix_fresh [OF inv 4(4)]] by blast
  then show ?case
    using prefix_step [OF inv i(2,3)] prefix_rest_upd [of content i n k] 4(1) n
    by (simp add: prefix_ops_def Prefix_writeProperty_def into_def)
next
  case (5 n k)
  then have inv: "prefix_inv p ninv content n" by blast
  then have n: "pn_writable n" "pn_prefix n = p" "ninv (pn_node n)" by (simp_all add: prefix_inv_def)
  obtain i where i: "op_removeProperty ops (pn_node n) (p @ k) = (None, i)"
      "ninv i" "content i = (content (pn_node n))(p @ k := None)"
    using remove_ok [OF n(3) 5(2)] by blast
  then show ?case
    using prefix_step [OF inv i(2,3)] prefix_rest_upd [of content i n k] 5(1) n
    by (simp add: prefix_ops_def Prefix_removeProperty_def into_def)
next
  case (6 n)
  then have inv: "prefix_inv p ninv content n" by blast
  obtain n' where n': "op_clear (prefix_ops ops) n = (None, n')" "prefix_inv p ninv content n'"
      "prefix_content content n' = Map.empty"
    using kv_node.clear_ok [OF prefix_node inv] by blast
  have pn: "pn_prefix n = p" "ninv (pn_node n)" "pn_prefix n' = p"
    using inv n'(2) by (simp_all add: prefix_inv_def)
  have "key k" if "k \<in> fst ` set (op_readProperties ops (pn_node n) [])" for k
    using that lists_map_dom [OF reads_ok [OF pn(2)]] valid [OF pn(2), of k] by auto
  with prefix_clear_loop [OF inv, of "op_readProperties ops (pn_node n) []"] n'(1)
  have "content (pn_node n') = (content (pn_node n)) |`
      (- {k \<in> fst ` set (op_readProperties ops (pn_node n) []). starts_with k p})"
    by (auto simp: prefix_ops_def Prefix_clear_def)
  then have "prefix_rest content n' = prefix_rest content n"
    by (auto simp: prefix_rest_def pn restrict_map_def fun_eq_iff)
  then show ?case using n' 6 by simp
next
  case (7 n)
  then show ?case using kv_node.reads_ok [OF prefix_node] by blast
next
  case (8 n)
  then obtain i where i: "op_flush ops (pn_node n) = (None, i)" "ninv i" "content i = content (pn_node n)"
    using flush_ok [of "pn_node n"] by (auto simp: prefix_inv_def)
  moreover have "prefix_content content (n\<lparr>pn_node := i\<rparr>) = prefix_content content n"
      "prefix_rest content (n\<lparr>pn_node := i\<rparr>) = prefix_rest content n"
    using i(3) by (simp_all add: prefix_content_def prefix_rest_def fun_eq_iff restrict_map_def)
  ultimately show ?case using 8 by (auto simp: prefix_ops_def Prefix_flush_def into_def prefix_inv_def)
qed

end

section \<open>The stack below the tracking sources\<close>

abbreviation tracking_ops :: "ini_hash safe_node prefix_node node_ops" where
  "tracking_ops \<equiv> prefix_ops (safe_ops ini_hash_ops)"

definition tracking_inv :: "ini_hash safe_node prefix_node \<Rightarrow> bool" where
  "tracking_inv = prefix_inv ''item-'' (safe_inv hash_inv hash_content) (safe_content hash_content)"

definition tracking_content :: "ini_hash safe_node prefix_node \<Rightarrow> (string \<rightharpoonup> string)" where
  "tracking_content = prefix_content (safe_content hash_content)"

lemma item_key: "ini_key (esc (''item-'' @ k))"
  unfolding esc_def by (rule ini_word_key) (rule escape_strict_word, simp)

lemma item_val: "ini_trimmed (esc v)"
  unfolding esc_def by (rule escape_strict_trimmed)

interpretation safe_hash: kv_node "safe_ops ini_hash_ops" "safe_inv hash_inv hash_content"
  "safe_content hash_content" "\<lambda>k. ini_key (esc k)" "\<lambda>v. ini_trimmed (esc v)"
  by (rule hash.safe)

interpretation tracking: kv_node tracking_ops tracking_inv tracking_content "\<lambda>_. True" "\<lambda>_. True"
  using safe_hash.prefix_node [of "''item-''"]
  by (simp add: tracking_inv_def tracking_content_def item_key [simplified] item_val)

text \<open>The entries beside the items, such as \<open>databaseRevision\<close>.\<close>

definition tracking_meta :: "ini_hash safe_node prefix_node \<Rightarrow> (string \<rightharpoonup> string)" where
  "tracking_meta = prefix_rest (safe_content hash_content)"

interpretation tracking_frame: kv_node tracking_ops "\<lambda>n. tracking_inv n \<and> tracking_meta n = M"
    tracking_content "\<lambda>_. True" "\<lambda>_. True" for M
  using safe_hash.prefix_node_rest [of "''item-''" M]
  by (simp add: tracking_inv_def tracking_meta_def tracking_content_def item_key [simplified] item_val)

definition tracking_stack :: "ini_hash \<Rightarrow> ini_hash safe_node prefix_node" where
  "tracking_stack node = PrefixConfigNode ''item-'' (SafeConfigNode node)"

lemma tracking_inv_new:
  "blob_writable b \<Longrightarrow> hash_parse (blob_read b) = [] \<Longrightarrow> tracking_inv (tracking_stack (IniHashConfigNode b))"
  by (auto simp: tracking_inv_def tracking_stack_def prefix_inv_def safe_inv_def hash_inv_def
      PrefixConfigNode_def SafeConfigNode_def IniHashConfigNode_eq hash_content_def safe_content_def
      IniHash_inv_def hash_wf_def inj_on_def dom_def)

text \<open>
  C34: the node stack below the tracking sources is a map from strings to strings. Whatever the
  local ID and the revision (empty, with line breaks, equal signs, comment characters or zero
  bytes), storing the revision succeeds and keeps the invariant, the ID then reads as that
  revision and every other ID reads as before; removing the ID makes it read as unset; and the
  list of all properties is exactly the map. The one condition is that the ID does not differ
  from a stored one only in case.
\<close>

theorem tracking_node_is_map:
  assumes "tracking_inv n" and "case_fresh k (dom (tracking_content n))"
  shows "(\<exists>n'. setProperty tracking_ops n k (explicit v) = (None, n') \<and> tracking_inv n' \<and>
      (\<forall>q. op_readProperty tracking_ops n' q =
         (if q = k then explicit v else op_readProperty tracking_ops n q))) \<and>
    (\<exists>n'. op_removeProperty tracking_ops n k = (None, n') \<and> tracking_inv n' \<and>
      (\<forall>q. op_readProperty tracking_ops n' q =
         (if q = k then unset else op_readProperty tracking_ops n q))) \<and>
    (\<forall>q w. (q, explicit w) \<in> set (op_readProperties tracking_ops n []) \<longleftrightarrow>
       op_readProperty tracking_ops n q = explicit w)"
proof (intro conjI)
  obtain n1 where n1: "op_writeProperty tracking_ops n k (explicit v) [] = (None, n1)" "tracking_inv n1"
      "tracking_content n1 = (tracking_content n)(k \<mapsto> v)"
    using tracking.write_ok [OF assms(1) TrueI TrueI assms(2)] by blast
  then show "\<exists>n'. setProperty tracking_ops n k (explicit v) = (None, n') \<and> tracking_inv n' \<and>
      (\<forall>q. op_readProperty tracking_ops n' q =
         (if q = k then explicit v else op_readProperty tracking_ops n q))"
    using tracking.read_ok [OF n1(2)] tracking.read_ok [OF assms(1)] by (simp add: setProperty_def)
  obtain n2 where n2: "op_removeProperty tracking_ops n k = (None, n2)" "tracking_inv n2"
      "tracking_content n2 = (tracking_content n)(k := None)"
    using tracking.remove_ok [OF assms(1) TrueI] by blast
  then show "\<exists>n'. op_removeProperty tracking_ops n k = (None, n') \<and> tracking_inv n' \<and>
      (\<forall>q. op_readProperty tracking_ops n' q =
         (if q = k then unset else op_readProperty tracking_ops n q))"
    using tracking.read_ok [OF n2(2)] tracking.read_ok [OF assms(1)] by simp
  show "\<forall>q w. (q, explicit w) \<in> set (op_readProperties tracking_ops n []) \<longleftrightarrow>
       op_readProperty tracking_ops n q = explicit w"
    using tracking.reads_ok [OF assms(1)] tracking.read_ok [OF assms(1)]
    by (auto simp: lists_map_def split: option.splits)
qed

theorem tracking_node_is_map_witness:
  "\<exists>n'. setProperty tracking_ops
     (tracking_stack (IniHashConfigNode (FileDataBlob ''d'' ''f'' False None))) ''# a=b'' (explicit '' 1 '') = (None, n') \<and>
     op_readProperty tracking_ops n' ''# a=b'' = explicit '' 1 ''"
proof -
  let ?n = "tracking_stack (IniHashConfigNode (FileDataBlob ''d'' ''f'' False None))"
  have "tracking_inv ?n"
    by (intro tracking_inv_new)
      (simp_all add: blob_writable_def FileDataBlob_def hash_parse_def blob_read_def)
  moreover have "case_fresh ''# a=b'' (dom (tracking_content ?n))"
    by (simp add: case_fresh_def tracking_content_def tracking_stack_def prefix_content_def
        safe_content_def hash_content_def PrefixConfigNode_def SafeConfigNode_def
        IniHashConfigNode_eq FileDataBlob_def hash_parse_def blob_read_def dom_def)
  ultimately show ?thesis
    using tracking_node_is_map [of ?n "''# a=b''" "'' 1 ''"] by auto
qed

section \<open>Filters\<close>

lemma c_str_tolower: "map tolower (c_str s) = c_str (map tolower s)"
proof -
  have "tolower c = CHR 0x00 \<longleftrightarrow> c = CHR 0x00" for c
  proof
    assume "tolower c = CHR 0x00"
    then have "ccode (tolower c) = 0" by (simp add: ccode_def)
    then have "ccode c = ccode CHR 0x00" by (auto simp: ccode_tolower isupper_def ccode_def [of "CHR 0x00"] split: if_splits)
    then show "c = CHR 0x00" by simp
  qed (simp add: tolower_def isupper_def ccode_def)
  then show ?thesis by (induction s) (auto simp: c_str_def)
qed

lemma strcasecmp_iequals: "\<not> strcasecmp_eq a b \<Longrightarrow> nocase_key a \<noteq> nocase_key b"
  by (auto simp: strcasecmp_eq_def nocase_key_eq_iff iequals_def c_str_tolower)

text \<open>
  Filters override reads until the property is written. A property in the filter reads
  as the value in the filter; after an explicit value is written through the filter, the
  property reads as that value and every other property, filtered or not, reads as before. A
  filter without write access refuses writing, removing and flushing and stays as it is.
\<close>

lemma filter_node_overrides:
  assumes "ini_word k" and "ini_trimmed v"
  shows "(nc_find q (fn_filter n) = Some w \<longrightarrow> Filter_readProperty ini_file_ops n q = w) \<and>
    (fn_writable n \<longrightarrow>
      (\<exists>n'. Filter_writeProperty ini_file_ops n k (explicit v) c = (None, n') \<and>
         Filter_readProperty ini_file_ops n' k = explicit v \<and>
         (\<not> strcasecmp_eq q k \<longrightarrow>
            Filter_readProperty ini_file_ops n' q = Filter_readProperty ini_file_ops n q))) \<and>
    (\<not> fn_writable n \<longrightarrow>
       snd (Filter_writeProperty ini_file_ops n k (explicit v) c) = n \<and>
       fst (Filter_writeProperty ini_file_ops n k (explicit v) c) \<noteq> None \<and>
       snd (Filter_removeProperty ini_file_ops n k) = n \<and>
       fst (Filter_removeProperty ini_file_ops n k) \<noteq> None \<and>
       snd (Filter_flush ini_file_ops n) = n \<and> fst (Filter_flush ini_file_ops n) \<noteq> None)"
proof -
  have "IniFile_readProperty (IniFile_writeProperty (fn_node n) k (explicit v) c) k = explicit v"
    and "\<not> strcasecmp_eq q k \<Longrightarrow>
      IniFile_readProperty (IniFile_writeProperty (fn_node n) k (explicit v) c) q = IniFile_readProperty (fn_node n) q"
    using IniFile_read_after_write [OF assms] by blast+
  then show ?thesis
    using strcasecmp_iequals [of q k]
    by (auto simp: Filter_writeProperty_def Filter_readProperty_def Filter_removeProperty_def
        Filter_flush_def node_simps into_def kfind_kerase split: option.splits)
qed

end
