(* ===== verification/Sync_Changes.thy ===== *)
theory Sync_Changes
  imports Kv_Node
begin

text \<open>
  Change detection: \<open>SyncSourceChanges\<close> and \<open>SyncSourceRevisions\<close> of
  src/src/syncevo/SyncSource.h and SyncSource.cpp. The tracking node holds the revision of every
  item at the time of the last sync; \<open>detectChanges\<close> compares it with the current revisions and
  brings it up to date. The functions a backend implements, \<open>listAllItems\<close> and
  \<open>updateAllItems\<close>, are arguments. \<open>setAllItems\<close> is a notification without effect here.

  The lemmas on \<open>detectChanges\<close> are proved in the locale \<open>kv_node\<close>, for every tracking node
  that behaves as a map, and used through its interpretation for the real node stack.
\<close>

section \<open>SyncSourceChanges\<close>

datatype State = ANY | NEW | UPDATED | DELETED

text \<open>
  The sets are ordered lists without duplicates. The iterator is the element it points to,
  \<open>None\<close> at the end of the set.
\<close>

record sync_changes =
  m_items :: "State \<Rightarrow> string list"
  m_first :: bool
  m_it :: "string option"

definition SyncSourceChanges :: sync_changes where
  "SyncSourceChanges = \<lparr>m_items = (\<lambda>_. []), m_first = True, m_it = None\<rparr>"

definition addItem :: "'a sync_changes_scheme \<Rightarrow> string \<Rightarrow> State \<Rightarrow> 'a sync_changes_scheme \<times> bool" where
  "addItem s luid state =
     (s\<lparr>m_items := (m_items s)(state := insort_insert luid (m_items s state))\<rparr>,
      luid \<notin> set (m_items s state))"

definition reset :: "'a sync_changes_scheme \<Rightarrow> 'a sync_changes_scheme \<times> bool" where
  "reset s =
     (s\<lparr>m_items := (\<lambda>_. []), m_first := True\<rparr>,
      list_ex (\<lambda>st. m_items s st \<noteq> []) [ANY, NEW, UPDATED, DELETED])"

datatype next_status = ReadNextItem_EOF | ReadNextItem_Changed | ReadNextItem_Unchanged

fun first_element :: "string list \<Rightarrow> string option" where
  "first_element [] = None"
| "first_element (x # xs) = Some x"

text \<open>Increment of an iterator: the next larger element.\<close>

definition next_element :: "string list \<Rightarrow> string \<Rightarrow> string option" where
  "next_element xs luid = first_element (filter (\<lambda>x. luid < x) xs)"

text \<open>The item ID (a C string) and the status that the engine receives.\<close>

definition iterate :: "'a sync_changes_scheme \<Rightarrow> bool \<Rightarrow> 'a sync_changes_scheme \<times> string option \<times> next_status" where
  "iterate s aFirst =
     (let s = (if m_first s \<or> aFirst
               then s\<lparr>m_it := first_element (m_items s ANY), m_first := False\<rparr> else s)
      in case m_it s of
           None \<Rightarrow> (s, None, ReadNextItem_EOF)
         | Some luid \<Rightarrow>
             (s\<lparr>m_it := next_element (m_items s ANY) luid\<rparr>, Some (c_str luid),
              if luid \<in> set (m_items s NEW) \<or> luid \<in> set (m_items s UPDATED)
              then ReadNextItem_Changed else ReadNextItem_Unchanged))"

text \<open>The engine's loop: the first call, then further calls until the end; fuel counts the calls.\<close>

fun iterate_all :: "nat \<Rightarrow> sync_changes \<Rightarrow> bool \<Rightarrow> (string \<times> next_status) list option" where
  "iterate_all 0 s aFirst = None"
| "iterate_all (Suc fuel) s aFirst =
     (case iterate s aFirst of
        (s', Some item, status) \<Rightarrow> map_option ((#) (item, status)) (iterate_all fuel s' False)
      | (s', None, status) \<Rightarrow> Some [])"

lemma set_addItem:
  "set (m_items (fst (addItem s u st)) st') =
     (if st' = st then insert u (set (m_items s st)) else set (m_items s st'))"
  by (simp add: addItem_def set_insort_insert)

lemma addItem_sorted:
  "(\<forall>st. sorted_wrt (<) (m_items s st)) \<Longrightarrow> sorted_wrt (<) (m_items (fst (addItem s u st)) st')"
  by (simp add: addItem_def strict_sorted_iff sorted_insort_insert distinct_insort_insert)

definition item_status :: "'a sync_changes_scheme \<Rightarrow> string \<Rightarrow> next_status" where
  "item_status s luid =
     (if luid \<in> set (m_items s NEW) \<union> set (m_items s UPDATED)
      then ReadNextItem_Changed else ReadNextItem_Unchanged)"

lemma next_element_split:
  assumes "sorted_wrt (<) (pre @ x # post)"
  shows "next_element (pre @ x # post) x = first_element post"
proof -
  have "filter (\<lambda>y. x < y) pre = []" "filter (\<lambda>y. x < y) post = post"
    using assms by (auto simp: sorted_wrt_append filter_empty_conv intro!: filter_True dest: less_not_sym)
  then show ?thesis by (simp add: next_element_def)
qed

lemma iterate_rest:
  assumes "m_items s ANY = pre @ post" and "sorted_wrt (<) (m_items s ANY)"
    and "m_it s = first_element post" and "\<not> m_first s" and "length post < fuel"
  shows "iterate_all fuel s False = Some (map (\<lambda>u. (c_str u, item_status s u)) post)"
  using assms
proof (induction post arbitrary: s pre fuel)
  case Nil
  then show ?case by (cases fuel) (simp_all add: iterate_def)
next
  case (Cons x post)
  obtain f where f: "fuel = Suc f" using Cons.prems(5) by (cases fuel) auto
  let ?s = "s\<lparr>m_it := next_element (m_items s ANY) x\<rparr>"
  have "iterate_all f ?s False = Some (map (\<lambda>u. (c_str u, item_status ?s u)) post)"
  proof (rule Cons.IH [of ?s "pre @ [x]"])
    show "m_it ?s = first_element post"
      using next_element_split [of pre x post] Cons.prems(1,2) by simp
  qed (use Cons.prems f in auto)
  then show ?case
    using Cons.prems f by (simp add: iterate_def item_status_def Let_def)
qed

text \<open>
  C10: the engine sees every item once. However far a previous iteration got, reading the first
  and then the next items returns all local IDs in order, each once, marked as changed exactly
  when it was added as new or updated, and then reports the end.
\<close>

theorem iterate_complete:
  assumes "sorted_wrt (<) (m_items s ANY)" and "length (m_items s ANY) < fuel"
  shows "iterate_all fuel s True =
    Some (map (\<lambda>u. (c_str u,
       if u \<in> set (m_items s NEW) \<union> set (m_items s UPDATED)
       then ReadNextItem_Changed else ReadNextItem_Unchanged)) (m_items s ANY))"
proof -
  let ?s = "s\<lparr>m_it := first_element (m_items s ANY), m_first := False\<rparr>"
  have "iterate_all fuel s True = iterate_all fuel ?s False"
    by (cases fuel) (simp_all add: iterate_def Let_def)
  then show ?thesis
    using iterate_rest [of ?s "[]" "m_items s ANY" fuel] assms by (simp add: item_status_def)
qed

theorem iterate_complete_witness:
  "iterate_all 3 (fst (addItem (fst (addItem (fst (addItem SyncSourceChanges ''b'' ANY)) ''a'' ANY)) ''a'' NEW)) True
   = Some [(''a'', ReadNextItem_Changed), (''b'', ReadNextItem_Unchanged)]"
proof -
  let ?s = "fst (addItem (fst (addItem (fst (addItem SyncSourceChanges ''b'' ANY)) ''a'' ANY)) ''a'' NEW)"
  have "m_items ?s ANY = [''a'', ''b'']" "m_items ?s NEW = [''a'']" "m_items ?s UPDATED = []"
    by code_simp+
  then show ?thesis
    using iterate_complete [of ?s 3] by (simp add: c_str_def)
qed

section \<open>SyncSourceRevisions\<close>

type_synonym revision_map = "(string \<times> string) list"

datatype ChangeMode = CHANGES_FULL | CHANGES_SLOW | CHANGES_NONE

record sync_revisions = sync_changes +
  m_revisions :: revision_map
  m_revisionsSet :: bool
  m_firstCycle :: bool

text \<open>The state after \<open>init\<close>, as far as change detection goes.\<close>

definition SyncSourceRevisions :: sync_revisions where
  "SyncSourceRevisions =
     \<lparr>m_items = (\<lambda>_. []), m_first = True, m_it = None,
      m_revisions = [], m_revisionsSet = False, m_firstCycle = False\<rparr>"

definition initRevisions :: "revision_map \<Rightarrow> sync_revisions \<Rightarrow> sync_revisions" where
  "initRevisions listAllItems s =
     (if \<not> m_revisionsSet s then s\<lparr>m_revisions := listAllItems, m_revisionsSet := True\<rparr> else s)"

text \<open>\<open>map::insert\<close> of the entries of a property set.\<close>

definition revisions_of :: "config_props \<Rightarrow> revision_map" where
  "revisions_of props = fold (\<lambda>(k, v). kinsert id k (fst v)) props []"

text \<open>The loop over the current items; the node, the changes and the pending updates are its state.\<close>

fun detect_loop ::
  "'n node_ops \<Rightarrow> ChangeMode \<Rightarrow> revision_map \<Rightarrow> sync_revisions \<times> revision_map \<times> 'n \<Rightarrow>
   (sync_revisions \<times> revision_map \<times> 'n) step" where
  "detect_loop ops mode [] st = return st"
| "detect_loop ops mode ((uid, revision) # rest) (s, revUpdates, n) =
     (let s = fst (addItem s uid ANY) in
      if mode = CHANGES_SLOW
      then andThen (into (\<lambda>n. (s, revUpdates, n)) (setProperty ops n uid (explicit revision)))
             (detect_loop ops mode rest)
      else
        (let serverRevision = fst (op_readProperty ops n uid) in
         if serverRevision = []
         then detect_loop ops mode rest (fst (addItem s uid NEW), kput id uid revision revUpdates, n)
         else if revision \<noteq> serverRevision
         then detect_loop ops mode rest (fst (addItem s uid UPDATED), kput id uid revision revUpdates, n)
         else detect_loop ops mode rest (s, revUpdates, n)))"

fun delete_loop ::
  "'n node_ops \<Rightarrow> config_props \<Rightarrow> sync_revisions \<times> 'n \<Rightarrow> (sync_revisions \<times> 'n) step" where
  "delete_loop ops [] st = return st"
| "delete_loop ops ((uid, v) # props) (s, n) =
     (if uid \<notin> set (m_items s ANY)
      then (let s = fst (addItem s uid DELETED)
            in andThen (into (\<lambda>n. (s, n)) (op_removeProperty ops n uid)) (delete_loop ops props))
      else delete_loop ops props (s, n))"

fun update_loop :: "'n node_ops \<Rightarrow> revision_map \<Rightarrow> 'n \<Rightarrow> 'n step" where
  "update_loop ops [] n = return n"
| "update_loop ops ((uid, revision) # rest) n =
     andThen (setProperty ops n uid (explicit revision)) (update_loop ops rest)"

text \<open>The part of \<open>detectChanges\<close> that compares, once the current revisions are known.\<close>

definition compare_revisions ::
  "'n node_ops \<Rightarrow> ChangeMode \<Rightarrow> sync_revisions \<Rightarrow> 'n \<Rightarrow> (sync_revisions \<times> 'n) step" where
  "compare_revisions ops mode s n =
     andThen (into (\<lambda>n. (s, n)) (if mode = CHANGES_SLOW then op_clear ops n else return n))
       (\<lambda>(s, n).
          let (e, (s, revUpdates, n)) = detect_loop ops mode (m_revisions s) (s, [], n)
          in if e \<noteq> None \<or> mode = CHANGES_SLOW then (e, (s, n))
             else andThen (delete_loop ops (op_readProperties ops n []) (s, n))
                    (\<lambda>(s, n). into (\<lambda>n. (s, n)) (update_loop ops revUpdates n)))"

text \<open>
  \<open>detectChanges\<close>: the return value (whether a slow sync is forced), the source and the
  tracking node, with the exception that a node operation threw, if any.
\<close>

definition detectChanges ::
  "'n node_ops \<Rightarrow> revision_map \<Rightarrow> (revision_map \<Rightarrow> revision_map) \<Rightarrow> bool \<Rightarrow> ChangeMode \<Rightarrow>
   sync_revisions \<Rightarrow> 'n \<Rightarrow> bool \<times> (sync_revisions \<times> 'n) step" where
  "detectChanges ops listAllItems updateAllItems needChanges mode s n =
     (let s = fst (reset s);
          s = (if \<not> m_firstCycle s then s\<lparr>m_revisionsSet := False\<rparr> else s\<lparr>m_firstCycle := False\<rparr>)
      in if mode = CHANGES_NONE
         then (False, return (fold (\<lambda>(uid, _) s. fst (addItem s uid ANY)) (op_readProperties ops n []) s, n))
         else
           (let props = op_readProperties ops n [];
                s = (if \<not> m_revisionsSet s \<and> mode = CHANGES_FULL \<and> props \<noteq> []
                     then s\<lparr>m_revisions := updateAllItems (revisions_of props), m_revisionsSet := True\<rparr>
                     else s);
                s = initRevisions listAllItems s;
                forceSlowSync = (needChanges \<and> m_revisions s \<noteq> [] \<and> snd (hd (m_revisions s)) = []);
                mode = (if forceSlowSync \<or> \<not> needChanges then CHANGES_SLOW else mode)
            in (forceSlowSync, compare_revisions ops mode s n)))"

text \<open>\<open>updateRevision\<close> and \<open>deleteRevision\<close>, without the time stamp of \<open>databaseModified\<close>.\<close>

definition updateRevision ::
  "'n node_ops \<Rightarrow> bool \<Rightarrow> 'n \<Rightarrow> string \<Rightarrow> string \<Rightarrow> string \<Rightarrow> 'n step" where
  "updateRevision ops needChanges n old_luid new_luid revision =
     (if \<not> needChanges then return n
      else andThen (if old_luid \<noteq> new_luid then op_removeProperty ops n old_luid else return n)
             (\<lambda>n. if new_luid = [] \<or> revision = []
                  then throw (Throw ''need non-empty LUID and revision string'') n
                  else setProperty ops n new_luid (explicit revision)))"

definition deleteRevision :: "'n node_ops \<Rightarrow> bool \<Rightarrow> 'n \<Rightarrow> string \<Rightarrow> 'n step" where
  "deleteRevision ops needChanges n luid =
     (if \<not> needChanges then return n else op_removeProperty ops n luid)"

section \<open>Change detection on a node that is a map\<close>

lemma addItem_fields [simp]:
  "m_revisions (fst (addItem s u st)) = m_revisions s"
  "m_revisionsSet (fst (addItem s u st)) = m_revisionsSet s"
  "m_firstCycle (fst (addItem s u st)) = m_firstCycle s"
  by (simp_all add: addItem_def)

text \<open>The items recorded with a state, as a set.\<close>

definition items :: "sync_revisions \<Rightarrow> State \<Rightarrow> string set" where
  "items s st = set (m_items s st)"

lemma items_addItem [simp]:
  "items (fst (addItem s u st)) = (items s)(st := insert u (items s st))"
  by (auto simp: items_def set_addItem fun_eq_iff)

lemma in_items: "u \<in> set (m_items s st) \<longleftrightarrow> u \<in> items s st"
  by (simp add: items_def)

text \<open>The source when the revisions have been listed.\<close>

definition fetched :: "revision_map \<Rightarrow> sync_revisions \<Rightarrow> sync_revisions" where
  "fetched R s = (fst (reset s))\<lparr>m_revisions := R, m_revisionsSet := True\<rparr>"

lemma fetched_simps [simp]:
  "m_revisions (fetched R s) = R" "items (fetched R s) st = {}" "m_firstCycle (fetched R s) = m_firstCycle s"
  by (simp_all add: fetched_def reset_def items_def)

context kv_node
begin

lemma set_ok:
  assumes "ninv n" "key k" "val v" "case_distinct (insert k (dom (content n)))"
  shows "\<exists>n'. setProperty ops n k (explicit v) = (None, n') \<and> ninv n' \<and> content n' = (content n)(k \<mapsto> v)"
proof -
  have "case_fresh k (dom (content n))"
    using assms(4) by (auto simp: case_fresh_def inj_on_def)
  then show ?thesis using write_ok [OF assms(1-3)] by (simp add: setProperty_def)
qed

lemma detect_loop_slow:
  assumes "ninv n" and "\<forall>(k, v) \<in> set rs. key k \<and> val v" and "distinct (map fst rs)"
    and "case_distinct (dom (content n) \<union> fst ` set rs)"
  shows "\<exists>s' n'. detect_loop ops CHANGES_SLOW rs (s, us, n) = (None, (s', us, n')) \<and> ninv n' \<and>
    content n' = content n ++ map_of rs \<and>
    items s' ANY = items s ANY \<union> fst ` set rs \<and> (\<forall>st. st \<noteq> ANY \<longrightarrow> items s' st = items s st)"
  using assms
proof (induction rs arbitrary: s n)
  case (Cons r rs)
  obtain k v where r: "r = (k, v)" by (cases r)
  have "case_distinct (insert k (dom (content n)))"
    using Cons.prems(4) by (rule case_distinct_subset) (auto simp: r)
  then obtain n1 where n1: "setProperty ops n k (explicit v) = (None, n1)" "ninv n1"
      "content n1 = (content n)(k \<mapsto> v)"
    using set_ok [of n k v] Cons.prems(1,2) by (auto simp: r)
  have dist: "case_distinct (dom (content n1) \<union> fst ` set rs)"
    using Cons.prems(4) by (rule case_distinct_subset) (auto simp: r n1(3))
  have "\<forall>(k, v) \<in> set rs. key k \<and> val v" "distinct (map fst rs)" using Cons.prems(2,3) by auto
  from Cons.IH [OF n1(2) this dist, of "fst (addItem s k ANY)"]
  obtain s' n' where st: "detect_loop ops CHANGES_SLOW rs (fst (addItem s k ANY), us, n1) = (None, (s', us, n'))"
      "ninv n'" "content n' = content n1 ++ map_of rs"
      "items s' ANY = insert k (items s ANY) \<union> fst ` set rs"
      "\<forall>st. st \<noteq> ANY \<longrightarrow> items s' st = items s st"
    by auto
  have "k \<notin> dom (map_of rs)" using Cons.prems(3) by (simp add: r dom_map_of_conv_image_fst)
  then have "content n' = content n ++ map_of (r # rs)"
    using st(3) n1(3) by (simp add: r map_add_upd_left)
  then show ?case
    using st(1,2,4,5) n1(1) by (simp add: r into_def del: map_of.simps)
qed simp

text \<open>The comparison loop leaves the node alone and collects what has to be written.\<close>

lemma detect_loop_full:
  assumes "ninv n" and "\<forall>(k, v) \<in> set rs. key k" and "distinct (map fst rs)" and "mode \<noteq> CHANGES_SLOW"
  shows "\<exists>s' us'. detect_loop ops mode rs (s, us, n) = (None, (s', us', n)) \<and>
    items s' ANY = items s ANY \<union> fst ` set rs \<and>
    items s' NEW = items s NEW \<union> {k \<in> fst ` set rs. content n k \<in> {None, Some []}} \<and>
    items s' UPDATED = items s UPDATED \<union>
      {k \<in> fst ` set rs. content n k \<notin> {None, Some [], map_of rs k}} \<and>
    items s' DELETED = items s DELETED \<and>
    (ksorted id us \<longrightarrow> ksorted id us') \<and>
    (\<forall>k. kfind id k us' = (case map_of rs k of
        Some v \<Rightarrow> if content n k = Some v \<and> v \<noteq> [] then kfind id k us else Some v
      | None \<Rightarrow> kfind id k us))"
  using assms(1-3)
proof (induction rs arbitrary: s us)
  case Nil
  then show ?case by (simp add: id_def)
next
  case (Cons r rs)
  obtain k v where r: "r = (k, v)" by (cases r)
  have prems: "\<forall>(k, v) \<in> set rs. key k" "distinct (map fst rs)" and "key k"
    and nin: "k \<notin> fst ` set rs" "map_of rs k = None"
    using Cons.prems(2,3) by (auto simp: r map_of_eq_None_iff)
  let ?s = "fst (addItem s k ANY)"
  have rd: "fst (op_readProperty ops n k) = (case content n k of Some w \<Rightarrow> w | None \<Rightarrow> [])"
    using read_ok [OF Cons.prems(1) \<open>key k\<close>] by (simp split: option.splits)
  define case_new where "case_new \<longleftrightarrow> content n k \<in> {None, Some []}"
  define case_upd where "case_upd \<longleftrightarrow> content n k \<notin> {None, Some [], Some v}"
  define s1 where "s1 = (if case_new then fst (addItem ?s k NEW)
      else if case_upd then fst (addItem ?s k UPDATED) else ?s)"
  define us1 where "us1 = (if case_new \<or> case_upd then kput id k v us else us)"
  have step: "detect_loop ops mode ((k, v) # rs) (s, us, n) = detect_loop ops mode rs (s1, us1, n)"
    using assms(4) rd by (auto simp: s1_def us1_def case_new_def case_upd_def Let_def split: option.splits)
  obtain s' us' where IH: "detect_loop ops mode rs (s1, us1, n) = (None, (s', us', n))"
    "items s' ANY = items s1 ANY \<union> fst ` set rs"
    "items s' NEW = items s1 NEW \<union> {k \<in> fst ` set rs. content n k \<in> {None, Some []}}"
    "items s' UPDATED = items s1 UPDATED \<union> {k \<in> fst ` set rs. content n k \<notin> {None, Some [], map_of rs k}}"
    "items s' DELETED = items s1 DELETED"
    "ksorted id us1 \<longrightarrow> ksorted id us'"
    "\<forall>k. kfind id k us' = (case map_of rs k of
        Some v \<Rightarrow> if content n k = Some v \<and> v \<noteq> [] then kfind id k us1 else Some v
      | None \<Rightarrow> kfind id k us1)"
    using Cons.IH [OF Cons.prems(1) prems, of s1 us1] by blast
  show ?case
  proof (rule exI [of _ s'], rule exI [of _ us'], intro conjI)
    show "detect_loop ops mode (r # rs) (s, us, n) = (None, (s', us', n))"
      using step IH(1) by (simp add: r)
    show "items s' ANY = items s ANY \<union> fst ` set (r # rs)"
      using IH(2) by (auto simp: s1_def r)
    show "items s' NEW = items s NEW \<union> {k \<in> fst ` set (r # rs). content n k \<in> {None, Some []}}"
      using IH(3) by (auto simp: s1_def r case_new_def case_upd_def)
    show "items s' UPDATED = items s UPDATED \<union>
        {k \<in> fst ` set (r # rs). content n k \<notin> {None, Some [], map_of (r # rs) k}}"
      using IH(4) nin by (auto simp: s1_def r case_new_def case_upd_def split: if_splits)
    show "items s' DELETED = items s DELETED"
      using IH(5) by (simp add: s1_def)
    show "ksorted id us \<longrightarrow> ksorted id us'"
      using IH(6) by (auto simp: us1_def)
    show "\<forall>k. kfind id k us' = (case map_of (r # rs) k of
        Some v \<Rightarrow> if content n k = Some v \<and> v \<noteq> [] then kfind id k us else Some v
      | None \<Rightarrow> kfind id k us)"
      using IH(7) nin by (auto simp: r us1_def kfind_kput case_new_def case_upd_def split: option.splits)
  qed
qed

lemma delete_loop_ok:
  assumes "ninv n" and "\<forall>k \<in> fst ` set props. key k"
  shows "\<exists>s' n'. delete_loop ops props (s, n) = (None, (s', n')) \<and> ninv n' \<and>
    content n' = content n |` (- (fst ` set props - items s ANY)) \<and>
    items s' DELETED = items s DELETED \<union> (fst ` set props - items s ANY) \<and>
    (\<forall>st. st \<noteq> DELETED \<longrightarrow> items s' st = items s st)"
  using assms
proof (induction props arbitrary: s n)
  case (Cons e props)
  obtain k v where e: "e = (k, v)" by (cases e)
  have keys: "\<forall>k \<in> fst ` set props. key k" using Cons.prems(2) by simp
  show ?case
  proof (cases "k \<in> items s ANY")
    case True
    then have "fst ` set (e # props) - items s ANY = fst ` set props - items s ANY" by (auto simp: e)
    then show ?thesis
      using True Cons.IH [OF Cons.prems(1) keys, of s] by (simp add: e in_items)
  next
    case False
    obtain n1 where n1: "op_removeProperty ops n k = (None, n1)" "ninv n1"
        "content n1 = (content n)(k := None)"
      using remove_ok [OF Cons.prems(1)] Cons.prems(2) by (auto simp: e)
    from Cons.IH [OF n1(2) keys, of "fst (addItem s k DELETED)"]
    obtain s' n' where st: "delete_loop ops props (fst (addItem s k DELETED), n1) = (None, (s', n'))"
        "ninv n'" "content n' = content n1 |` (- (fst ` set props - items s ANY))"
        "items s' DELETED = insert k (items s DELETED) \<union> (fst ` set props - items s ANY)"
        "\<forall>st. st \<noteq> DELETED \<longrightarrow> items s' st = items s st"
      by auto
    have "content n' = content n |` (- (fst ` set (e # props) - items s ANY))"
      using False by (auto simp: st(3) n1(3) e restrict_map_def fun_eq_iff)
    moreover have "items s' DELETED = items s DELETED \<union> (fst ` set (e # props) - items s ANY)"
      using False st(4) by (auto simp: e)
    ultimately show ?thesis using st False n1 by (simp add: e in_items into_def)
  qed
qed (simp add: restrict_map_def)

lemma update_loop_ok:
  assumes "ninv n" and "\<forall>(k, v) \<in> set us. key k \<and> val v" and "distinct (map fst us)"
    and "case_distinct (dom (content n) \<union> fst ` set us)"
  shows "\<exists>n'. update_loop ops us n = (None, n') \<and> ninv n' \<and> content n' = content n ++ map_of us"
  using assms
proof (induction us arbitrary: n)
  case (Cons r us)
  obtain k v where r: "r = (k, v)" by (cases r)
  have "case_distinct (insert k (dom (content n)))"
    using Cons.prems(4) by (rule case_distinct_subset) (auto simp: r)
  then obtain n1 where n1: "setProperty ops n k (explicit v) = (None, n1)" "ninv n1"
      "content n1 = (content n)(k \<mapsto> v)"
    using set_ok [of n k v] Cons.prems(1,2) by (auto simp: r)
  have "case_distinct (dom (content n1) \<union> fst ` set us)"
    using Cons.prems(4) by (rule case_distinct_subset) (auto simp: r n1(3))
  moreover have "\<forall>(k, v) \<in> set us. key k \<and> val v" "distinct (map fst us)" using Cons.prems(2,3) by auto
  ultimately obtain n' where n': "update_loop ops us n1 = (None, n')" "ninv n'"
      "content n' = content n1 ++ map_of us"
    using Cons.IH [OF n1(2)] by blast
  have "k \<notin> dom (map_of us)" using Cons.prems(3) by (simp add: r dom_map_of_conv_image_fst)
  then have "content n' = content n ++ map_of (r # us)"
    using n'(3) n1(3) by (simp add: r map_add_upd_left)
  then show ?case using n' n1(1) by (simp add: r del: map_of.simps)
qed simp

text \<open>
  The comparison as a whole, for current revisions \<open>rs\<close>: the sets of changes are the
  differences between the node and the revisions, and the node becomes the revisions.
\<close>

lemma compare_full:
  assumes inv: "ninv n" and rs: "m_revisions s = rs" "distinct (map fst rs)"
      "\<forall>(k, v) \<in> set rs. key k \<and> val v"
    and dist: "case_distinct (dom (content n) \<union> fst ` set rs)"
    and empty: "\<And>st. items s st = {}"
  shows "\<exists>s' n'. compare_revisions ops CHANGES_FULL s n = (None, (s', n')) \<and> ninv n' \<and>
    content n' = map_of rs \<and>
    items s' ANY = fst ` set rs \<and>
    items s' NEW = {k \<in> fst ` set rs. content n k \<in> {None, Some []}} \<and>
    items s' UPDATED = {k \<in> fst ` set rs. content n k \<notin> {None, Some [], map_of rs k}} \<and>
    items s' DELETED = dom (content n) - fst ` set rs"
proof -
  have keys: "\<forall>(k, v) \<in> set rs. key k" using rs(3) by auto
  obtain s1 us where loop: "detect_loop ops CHANGES_FULL rs (s, [], n) = (None, (s1, us, n))"
    "items s1 ANY = fst ` set rs"
    "items s1 NEW = {k \<in> fst ` set rs. content n k \<in> {None, Some []}}"
    "items s1 UPDATED = {k \<in> fst ` set rs. content n k \<notin> {None, Some [], map_of rs k}}"
    "items s1 DELETED = {}" "ksorted id us"
    "\<And>k. kfind id k us = (case map_of rs k of
        Some v \<Rightarrow> if content n k = Some v \<and> v \<noteq> [] then None else Some v | None \<Rightarrow> None)"
    using detect_loop_full [OF inv keys rs(2), of CHANGES_FULL s "[]"]
    by (auto simp: empty cong: option.case_cong if_cong)
  have lst: "lists_map (op_readProperties ops n []) (content n)" using reads_ok [OF inv] .
  have dom: "fst ` set (op_readProperties ops n []) = dom (content n)"
    by (rule lists_map_dom [OF lst])
  have "\<forall>k \<in> fst ` set (op_readProperties ops n []). key k"
    using valid [OF inv] by (auto simp: dom)
  from delete_loop_ok [OF inv this, of s1]
  obtain s2 n2 where del: "delete_loop ops (op_readProperties ops n []) (s1, n) = (None, (s2, n2))" "ninv n2"
    "content n2 = content n |` (- (dom (content n) - fst ` set rs))"
    "items s2 DELETED = dom (content n) - fst ` set rs"
    "\<forall>st. st \<noteq> DELETED \<longrightarrow> items s2 st = items s1 st"
    by (auto simp: dom loop(2,5))
  have c2: "content n2 = content n |` (fst ` set rs)"
    by (auto simp: del(3) restrict_map_def fun_eq_iff)
  have us_map: "map_of us k = (case map_of rs k of
      Some v \<Rightarrow> if content n k = Some v \<and> v \<noteq> [] then None else Some v | None \<Rightarrow> None)" for k
    using loop(7) [of k] by (simp add: kfind_id)
  have us_dist: "distinct (map fst us)" using ksorted_distinct [OF loop(6)] by simp
  have us_rs: "map_of rs k = Some v" if "(k, v) \<in> set us" for k v
    using us_map [of k] map_of_is_SomeI [OF us_dist that] by (auto split: option.splits if_splits)
  have us_sub: "set us \<subseteq> set rs"
  proof
    fix x assume "x \<in> set us"
    then show "x \<in> set rs" using us_rs [of "fst x" "snd x"] by (auto dest: map_of_SomeD)
  qed
  then have us_keys: "\<forall>(k, v) \<in> set us. key k \<and> val v" using rs(3) by blast
  have "fst ` set us \<subseteq> fst ` set rs" using us_sub by blast
  then have "case_distinct (dom (content n2) \<union> fst ` set us)"
    using dist by (intro case_distinct_subset [OF dist]) (auto simp: c2)
  from update_loop_ok [OF del(2) us_keys us_dist this]
  obtain n' where upd: "update_loop ops us n2 = (None, n')" "ninv n'" "content n' = content n2 ++ map_of us"
    by blast
  have "content n' k = map_of rs k" for k
  proof (cases "map_of rs k")
    case None
    then have "k \<notin> fst ` set rs" by (simp add: map_of_eq_None_iff)
    then show ?thesis using None us_map [of k] by (simp add: upd(3) c2 map_add_def)
  next
    case (Some v)
    then have "k \<in> fst ` set rs" by (force dest: map_of_SomeD)
    then show ?thesis using Some us_map [of k] by (auto simp: upd(3) c2 map_add_def)
  qed
  then have "content n' = map_of rs" by blast
  then show ?thesis
    using loop(1-4) del(1,4,5) upd(1,2)
    by (simp add: compare_revisions_def into_def rs(1))
qed

lemma compare_slow:
  assumes inv: "ninv n" and rs: "m_revisions s = rs" "distinct (map fst rs)"
      "\<forall>(k, v) \<in> set rs. key k \<and> val v" "case_distinct (fst ` set rs)"
    and empty: "\<And>st. items s st = {}"
  shows "\<exists>s' n'. compare_revisions ops CHANGES_SLOW s n = (None, (s', n')) \<and> ninv n' \<and>
    content n' = map_of rs \<and> items s' ANY = fst ` set rs \<and> (\<forall>st. st \<noteq> ANY \<longrightarrow> items s' st = {})"
proof -
  obtain n1 where n1: "op_clear ops n = (None, n1)" "ninv n1" "content n1 = Map.empty"
    using clear_ok [OF inv] by blast
  have "case_distinct (dom (content n1) \<union> fst ` set rs)" using rs(4) by (simp add: n1(3))
  from detect_loop_slow [OF n1(2) rs(3,2) this, of s "[]"]
  show ?thesis using n1 by (auto simp: compare_revisions_def into_def rs(1) empty)
qed

lemma detect_loop_firstCycle:
  "m_firstCycle (fst (snd (detect_loop ops mode rs (s, us, n)))) = m_firstCycle s"
proof (induction rs arbitrary: s us n)
  case (Cons r rs)
  then show ?case
    by (cases r) (auto simp: Let_def into_def andThen_def split: option.splits prod.splits)
qed simp

lemma delete_loop_firstCycle:
  "m_firstCycle (fst (snd (delete_loop ops props (s, n)))) = m_firstCycle s"
proof (induction props arbitrary: s n)
  case (Cons r rs)
  then show ?case
    by (cases r) (auto simp: Let_def into_def andThen_def split: option.splits prod.splits)
qed simp

lemma compare_firstCycle:
  "m_firstCycle (fst (snd (compare_revisions ops mode s n))) = m_firstCycle s"
  by (simp add: compare_revisions_def into_def andThen_def Let_def split_def
      detect_loop_firstCycle delete_loop_firstCycle split: option.split)

lemma detect_prepare:
  assumes "\<forall>old. updateAll old = R" and "\<not> m_firstCycle s" and "mode \<noteq> CHANGES_NONE"
  shows "detectChanges ops R updateAll need mode s n =
    (let force = need \<and> R \<noteq> [] \<and> snd (hd R) = [] in (force, compare_revisions ops (if force \<or> \<not> need then CHANGES_SLOW else mode) (fetched R s) n))"
  using assms
  by (cases "mode = CHANGES_FULL \<and> op_readProperties ops n [] \<noteq> []")
    (simp_all add: detectChanges_def initRevisions_def fetched_def reset_def Let_def)

lemma detect_full:
  assumes inv: "ninv n" and R: "ksorted id R" "\<forall>(k, v) \<in> set R. key k \<and> val v \<and> v \<noteq> []"
    and upd: "\<forall>old. updateAll old = R"
    and dist: "case_distinct (dom (content n) \<union> fst ` set R)" and first: "\<not> m_firstCycle s"
  shows "\<exists>s' n'. detectChanges ops R updateAll True CHANGES_FULL s n = (False, (None, (s', n'))) \<and>
    ninv n' \<and> content n' = map_of R \<and> \<not> m_firstCycle s' \<and>
    items s' ANY = fst ` set R \<and>
    items s' NEW = {k \<in> fst ` set R. content n k \<in> {None, Some []}} \<and>
    items s' UPDATED = {k \<in> fst ` set R. content n k \<notin> {None, Some [], map_of R k}} \<and>
    items s' DELETED = dom (content n) - fst ` set R"
proof -
  let ?s0 = "fetched R s"
  have "snd (hd R) \<noteq> []" if "R \<noteq> []"
    using bspec [OF R(2) hd_in_set [OF that]] by (simp add: split_def)
  then have det: "detectChanges ops R updateAll True CHANGES_FULL s n = (False, compare_revisions ops CHANGES_FULL ?s0 n)"
    using detect_prepare [OF upd first, of CHANGES_FULL True n] by (auto simp: Let_def)
  have dist_R: "distinct (map fst R)" using ksorted_distinct [OF R(1)] by simp
  have "\<forall>(k, v) \<in> set R. key k \<and> val v" using R(2) by auto
  from compare_full [OF inv fetched_simps(1) [of R s] dist_R this dist fetched_simps(2)]
  obtain s' n' where c: "compare_revisions ops CHANGES_FULL ?s0 n = (None, (s', n'))" "ninv n'"
      "content n' = map_of R" "items s' ANY = fst ` set R"
      "items s' NEW = {k \<in> fst ` set R. content n k \<in> {None, Some []}}"
      "items s' UPDATED = {k \<in> fst ` set R. content n k \<notin> {None, Some [], map_of R k}}"
      "items s' DELETED = dom (content n) - fst ` set R"
    by (elim exE conjE) (rule that)
  have "\<not> m_firstCycle s'"
    using compare_firstCycle [of CHANGES_FULL ?s0 n] c(1) first by simp
  then show ?thesis using c det by simp
qed

lemma detect_slow:
  assumes inv: "ninv n" and R: "ksorted id R" "\<forall>(k, v) \<in> set R. key k \<and> val v" "case_distinct (fst ` set R)"
    and upd: "\<forall>old. updateAll old = R" and first: "\<not> m_firstCycle s"
    and slow: "mode = CHANGES_SLOW \<or> \<not> need \<or> R \<noteq> [] \<and> snd (hd R) = []" and mode: "mode \<noteq> CHANGES_NONE"
  shows "\<exists>s' n'. detectChanges ops R updateAll need mode s n =
      (need \<and> R \<noteq> [] \<and> snd (hd R) = [], (None, (s', n'))) \<and> ninv n' \<and> content n' = map_of R \<and>
    \<not> m_firstCycle s' \<and> items s' ANY = fst ` set R \<and> (\<forall>st. st \<noteq> ANY \<longrightarrow> items s' st = {})"
proof -
  let ?s0 = "fetched R s"
  have det: "detectChanges ops R updateAll need mode s n =
      (need \<and> R \<noteq> [] \<and> snd (hd R) = [], compare_revisions ops CHANGES_SLOW ?s0 n)"
    using detect_prepare [OF upd first mode, of need n] slow by (auto simp: Let_def)
  have "distinct (map fst R)" using ksorted_distinct [OF R(1)] by simp
  from compare_slow [OF inv fetched_simps(1) [of R s] this R(2,3) fetched_simps(2)]
  show ?thesis using det first compare_firstCycle [of CHANGES_SLOW ?s0 n] by fastforce
qed

lemma detect_none_firstCycle:
  "\<not> m_firstCycle (fst (snd (snd (detectChanges ops R updateAll need CHANGES_NONE s n))))"
proof -
  have "m_firstCycle (fold (\<lambda>(uid, _) s. fst (addItem s uid ANY)) props s) = m_firstCycle s"
    for s :: sync_revisions and props :: config_props
    by (induction props arbitrary: s) (auto simp: split_def)
  then show ?thesis by (simp add: detectChanges_def reset_def Let_def)
qed

lemma detect_none:
  assumes inv: "ninv n"
  shows "\<exists>s'. detectChanges ops R updateAll need CHANGES_NONE s n = (False, (None, (s', n))) \<and>
    items s' ANY = dom (content n) \<and> (\<forall>st. st \<noteq> ANY \<longrightarrow> items s' st = {})"
proof -
  have "items (fold (\<lambda>(uid, _) s. fst (addItem s uid ANY)) props s) ANY = items s ANY \<union> fst ` set props \<and>
    (\<forall>st. st \<noteq> ANY \<longrightarrow> items (fold (\<lambda>(uid, _) s. fst (addItem s uid ANY)) props s) st = items s st)"
    for s :: sync_revisions and props :: config_props
    by (induction props arbitrary: s) (auto simp: split_def)
  note fold_items = this
  define s0 where "s0 = (let s = fst (reset s) in
    if \<not> m_firstCycle s then s\<lparr>m_revisionsSet := False\<rparr> else s\<lparr>m_firstCycle := False\<rparr>)"
  have "items s0 st = {}" for st by (simp add: s0_def reset_def items_def Let_def)
  moreover have "detectChanges ops R updateAll need CHANGES_NONE s n =
    (False, return (fold (\<lambda>(uid, _) s. fst (addItem s uid ANY)) (op_readProperties ops n []) s0, n))"
    by (simp add: detectChanges_def s0_def Let_def)
  ultimately show ?thesis
    using lists_map_dom [OF reads_ok [OF inv]] fold_items [of "op_readProperties ops n []" s0]
    by (simp add: return_def)
qed

lemma update_ok:
  assumes "ninv n" and "key old" "key new" "val revision" and "new \<noteq> []" "revision \<noteq> []"
    and "case_distinct (insert new (dom (content n) - {old}))"
  shows "\<exists>n'. updateRevision ops True n old new revision = (None, n') \<and> ninv n' \<and>
    content n' = (if old = new then content n else (content n)(old := None))(new \<mapsto> revision)"
proof (cases "old = new")
  case True
  then show ?thesis using set_ok [of n new revision] assms by (simp add: updateRevision_def)
next
  case False
  obtain n1 where n1: "op_removeProperty ops n old = (None, n1)" "ninv n1"
      "content n1 = (content n)(old := None)"
    using remove_ok [OF assms(1,2)] by blast
  have "case_distinct (insert new (dom (content n1)))"
    using assms(7) by (rule case_distinct_subset) (auto simp: n1(3))
  then show ?thesis
    using set_ok [OF n1(2) assms(3,4)] assms n1 False by (simp add: updateRevision_def)
qed

end

section \<open>Change detection on the real tracking node\<close>

text \<open>
  C4: a regular sync finds exactly the changes since the tracking node was last written. An item
  is new when the node has no revision for it, updated when it has a different one, deleted when
  only the node knows it; afterwards the node holds the current revisions, and no slow sync is
  forced.
\<close>

theorem detectChanges_exact:
  assumes "tracking_inv n" and "ksorted id R" and "\<forall>(k, v) \<in> set R. v \<noteq> []"
    and "\<forall>old. updateAll old = R" and "case_distinct (dom (tracking_content n) \<union> fst ` set R)"
    and "\<not> m_firstCycle s"
  shows "\<exists>s' n'. detectChanges tracking_ops R updateAll True CHANGES_FULL s n = (False, (None, (s', n'))) \<and>
    tracking_inv n' \<and> tracking_content n' = map_of R \<and>
    set (m_items s' ANY) = fst ` set R \<and>
    set (m_items s' NEW) = {k \<in> fst ` set R. tracking_content n k \<in> {None, Some []}} \<and>
    set (m_items s' UPDATED) = {k \<in> fst ` set R. tracking_content n k \<notin> {None, Some [], map_of R k}} \<and>
    set (m_items s' DELETED) = dom (tracking_content n) - fst ` set R"
proof -
  have "\<forall>(k, v) \<in> set R. True \<and> True \<and> v \<noteq> []" using assms(3) by simp
  from tracking.detect_full [OF assms(1,2) this assms(4-6), unfolded items_def]
  show ?thesis by (elim exE conjE) (intro exI conjI)
qed

lemma tracking_content_new:
  assumes "hash_parse (blob_read b) = []"
  shows "tracking_content (tracking_stack (IniHashConfigNode b)) = Map.empty"
  using assms
  by (simp add: fun_eq_iff tracking_content_def tracking_stack_def prefix_content_def safe_content_def
      hash_content_def PrefixConfigNode_def SafeConfigNode_def IniHashConfigNode_eq)

abbreviation new_tracking :: "ini_hash safe_node prefix_node" where
  "new_tracking \<equiv> tracking_stack (IniHashConfigNode (FileDataBlob ''d'' ''f'' False None))"

lemma new_tracking: "tracking_inv new_tracking" "tracking_content new_tracking = Map.empty"
proof -
  have b: "blob_writable (FileDataBlob ''d'' ''f'' False None)"
      "hash_parse (blob_read (FileDataBlob ''d'' ''f'' False None)) = []"
    by (simp_all add: blob_writable_def FileDataBlob_def hash_parse_def blob_read_def)
  show "tracking_inv new_tracking" by (rule tracking_inv_new [OF b])
  show "tracking_content new_tracking = Map.empty" by (rule tracking_content_new [OF b(2)])
qed

theorem detectChanges_exact_witness:
  "\<exists>s' n'. detectChanges tracking_ops [(''1'', ''a''), (''2'', ''b'')] (\<lambda>_. [(''1'', ''a''), (''2'', ''b'')])
      True CHANGES_FULL SyncSourceRevisions new_tracking = (False, (None, (s', n'))) \<and>
    tracking_content n' ''2'' = Some ''b'' \<and> set (m_items s' NEW) = {''1'', ''2''} \<and>
    set (m_items s' DELETED) = {}"
proof -
  let ?R = "[(''1'', ''a''), (''2'', ''b'')]"
  have "case_distinct {''1'', ''2''}" "ksorted id ?R" by code_simp+
  then show ?thesis
    using detectChanges_exact [of new_tracking ?R "\<lambda>_. ?R" SyncSourceRevisions] new_tracking
    by (auto simp: SyncSourceRevisions_def)
qed

text \<open>
  C5: a slow sync, whether requested, caused by a source that does not need changes, or forced
  because the backend could not provide revisions, lists the current items without any changes
  and restarts the tracking node with their revisions, whatever the node held before. Only the
  last cause is reported as a forced slow sync.
\<close>

theorem detectChanges_slow:
  assumes "tracking_inv n" and "ksorted id R" and "\<forall>old. updateAll old = R"
    and "case_distinct (fst ` set R)" and "\<not> m_firstCycle s" and "mode \<noteq> CHANGES_NONE"
    and "mode = CHANGES_SLOW \<or> \<not> need \<or> R \<noteq> [] \<and> snd (hd R) = []"
  shows "\<exists>s' n'. detectChanges tracking_ops R updateAll need mode s n =
      (need \<and> R \<noteq> [] \<and> snd (hd R) = [], (None, (s', n'))) \<and>
    tracking_inv n' \<and> tracking_content n' = map_of R \<and>
    set (m_items s' ANY) = fst ` set R \<and> (\<forall>st. st \<noteq> ANY \<longrightarrow> set (m_items s' st) = {})"
proof -
  have "\<forall>(k, v) \<in> set R. True \<and> True" by simp
  from tracking.detect_slow [OF assms(1,2) this assms(4,3,5,7,6), unfolded items_def]
  show ?thesis by (elim exE conjE) (intro exI conjI)
qed

theorem detectChanges_slow_witness:
  "\<exists>s' n'. detectChanges tracking_ops [(''1'', [])] (\<lambda>_. [(''1'', [])])
      True CHANGES_FULL SyncSourceRevisions new_tracking = (True, (None, (s', n'))) \<and>
    set (m_items s' ANY) = {''1''}"
  using detectChanges_slow [of new_tracking "[(''1'', [])]" "\<lambda>_. [(''1'', [])]" SyncSourceRevisions
      CHANGES_FULL True] new_tracking
  by (auto simp: SyncSourceRevisions_def ksorted_Cons)

text \<open>
  The shortcut for an unchanged database lists the known items as unchanged and leaves the
  tracking node alone; it does not depend on what the backend would list.
\<close>

lemma detectChanges_none:
  assumes "tracking_inv n"
  shows "\<exists>s'. detectChanges tracking_ops R updateAll need CHANGES_NONE s n = (False, (None, (s', n))) \<and>
    set (m_items s' ANY) = dom (tracking_content n) \<and> (\<forall>st. st \<noteq> ANY \<longrightarrow> set (m_items s' st) = {})"
  using tracking.detect_none [OF assms, of R updateAll need s, unfolded items_def] by simp

text \<open>
  Local IDs that differ only in case are a limit of change tracking. The tracking node keeps
  both revisions, but it lists only one of them, so that the removal of the other item is not
  found: with the items \<open>A\<close> and \<open>a\<close> tracked and none left, only one deletion is
  reported.
\<close>

lemma detectChanges_case_collision:
  "(case snd (detectChanges tracking_ops [(''A'', ''1''), (''a'', ''1'')] (\<lambda>_. [(''A'', ''1''), (''a'', ''1'')])
      True CHANGES_FULL SyncSourceRevisions new_tracking) of
      (_, (s, n)) \<Rightarrow>
        m_items s NEW = [''A'', ''a''] \<and>
        (case snd (detectChanges tracking_ops [] (\<lambda>_. []) True CHANGES_FULL s n) of
           (_, (s', n')) \<Rightarrow> length (m_items s' DELETED) = 1))"
  by code_simp

end
