(* ===== verification/Tracking_Source.thy ===== *)
theory Tracking_Source
  imports Sync_Changes
begin

text \<open>
  \<open>TrackingSyncSource\<close> (src/src/syncevo/TrackingSyncSource.h and TrackingSyncSource.cpp): the
  base class of the sources that track changes with one revision string per item. The pure
  virtual functions that a backend implements are a record of operations over the state of the
  backend; the locale \<open>item_store\<close> states what the class documents of them, and it is
  interpreted for the file backend in the theory \<open>File_Source\<close>.

  The tracking node and the node for meta data of the class are two views of one stored node:
  the items have the prefix \<open>item-\<close>, the only other entry is \<open>databaseRevision\<close>.
\<close>

section \<open>The operations of a backend\<close>

datatype InsertItemResultState = ITEM_AGAIN | ITEM_OKAY | ITEM_REPLACED | ITEM_MERGED | ITEM_NEEDS_MERGE

text \<open>
  \<open>InsertItemResult\<close>. The callback that polls an unfinished operation is a value that the
  backend understands.
\<close>

record 'c insert_result =
  r_luid :: string
  r_revision :: string
  r_state :: InsertItemResultState
  r_continue :: "'c option"

record ('b, 'c) backend_ops =
  be_databaseRevision :: "'b \<Rightarrow> string"
  be_listAllItems :: "'b \<Rightarrow> revision_map \<times> 'b"
  be_updateAllItems :: "'b \<Rightarrow> revision_map \<Rightarrow> revision_map \<times> 'b"
  be_insertItem :: "'b \<Rightarrow> string \<Rightarrow> string \<Rightarrow> bool \<Rightarrow> (se_error + 'c insert_result) \<times> 'b"
  be_continue :: "'b \<Rightarrow> 'c option \<Rightarrow> (se_error + 'c insert_result) \<times> 'b"
  be_removeItem :: "'b \<Rightarrow> string \<Rightarrow> 'b step"
  be_flush :: "'b \<Rightarrow> 'b step"
  be_flushItemChanges :: "'b \<Rightarrow> 'b step"
  be_finishItemChanges :: "'b \<Rightarrow> 'b step"

section \<open>The source\<close>

record 'b tracking_source =
  ts_revisions :: sync_revisions
  ts_node :: "ini_hash safe_node prefix_node"
  ts_backend :: 'b

definition TrackingSyncSource :: "ini_hash \<Rightarrow> 'b \<Rightarrow> 'b tracking_source" where
  "TrackingSyncSource node b =
     \<lparr>ts_revisions = SyncSourceRevisions, ts_node = tracking_stack node, ts_backend = b\<rparr>"

text \<open>\<open>m_metaNode\<close> is the node below the prefix node.\<close>

abbreviation meta_ops :: "ini_hash safe_node node_ops" where
  "meta_ops \<equiv> safe_ops ini_hash_ops"

definition metaNode_read :: "ini_hash safe_node prefix_node \<Rightarrow> string" where
  "metaNode_read n = fst (op_readProperty meta_ops (pn_node n) ''databaseRevision'')"

definition metaNode_write :: "string \<Rightarrow> ini_hash safe_node prefix_node \<Rightarrow> ini_hash safe_node prefix_node step" where
  "metaNode_write v n = into (\<lambda>i. n\<lparr>pn_node := i\<rparr>) (setProperty meta_ops (pn_node n) ''databaseRevision'' (explicit v))"

definition metaNode_flush :: "ini_hash safe_node prefix_node \<Rightarrow> ini_hash safe_node prefix_node step" where
  "metaNode_flush n = into (\<lambda>i. n\<lparr>pn_node := i\<rparr>) (op_flush meta_ops (pn_node n))"

definition with_node :: "'b tracking_source \<Rightarrow> ini_hash safe_node prefix_node step \<Rightarrow> 'b tracking_source step" where
  "with_node t r = into (\<lambda>n. t\<lparr>ts_node := n\<rparr>) r"

abbreviation meta_read :: "'b tracking_source \<Rightarrow> string" where
  "meta_read t \<equiv> metaNode_read (ts_node t)"

definition meta_write :: "string \<Rightarrow> 'b tracking_source \<Rightarrow> 'b tracking_source step" where
  "meta_write v t = with_node t (metaNode_write v (ts_node t))"

definition meta_flush :: "'b tracking_source \<Rightarrow> 'b tracking_source step" where
  "meta_flush t = with_node t (metaNode_flush (ts_node t))"

definition with_backend :: "'b tracking_source \<Rightarrow> 'b step \<Rightarrow> 'b tracking_source step" where
  "with_backend t r = into (\<lambda>b. t\<lparr>ts_backend := b\<rparr>) r"

text \<open>
  \<open>detectChanges\<close> on the members of the source. It asks the backend for its items once at
  most; the state of the backend afterwards is the one that this call leaves.
\<close>

definition listing :: "('b, 'c) backend_ops \<Rightarrow> ChangeMode \<Rightarrow> 'b tracking_source \<Rightarrow> 'b" where
  "listing bops mode t =
     (let props = op_readProperties tracking_ops (ts_node t) [];
          known = m_firstCycle (ts_revisions t) \<and> m_revisionsSet (ts_revisions t)
      in if mode = CHANGES_NONE \<or> known then ts_backend t
         else if mode = CHANGES_FULL \<and> props \<noteq> []
         then snd (be_updateAllItems bops (ts_backend t) (revisions_of props))
         else snd (be_listAllItems bops (ts_backend t)))"

definition detect ::
  "('b, 'c) backend_ops \<Rightarrow> bool \<Rightarrow> ChangeMode \<Rightarrow> 'b tracking_source \<Rightarrow> bool \<times> 'b tracking_source step" where
  "detect bops needChanges mode t =
     (let (force, e, (s, n)) =
        detectChanges tracking_ops (fst (be_listAllItems bops (ts_backend t)))
          (\<lambda>old. fst (be_updateAllItems bops (ts_backend t) old)) needChanges mode (ts_revisions t) (ts_node t)
      in (force, e, t\<lparr>ts_revisions := s, ts_node := n, ts_backend := listing bops mode t\<rparr>))"

text \<open>The choice of the change mode when a token or the report needs incremental changes.\<close>

definition incremental_mode :: "('b, 'c) backend_ops \<Rightarrow> 'b tracking_source \<Rightarrow> ChangeMode" where
  "incremental_mode bops t =
     (let oldRevision = meta_read t
      in if oldRevision \<noteq> [] \<and> be_databaseRevision bops (ts_backend t) = oldRevision
         then CHANGES_NONE else CHANGES_FULL)"

text \<open>\<open>checkStatus\<close>: the counts of new, updated, deleted and all items for the report.\<close>

definition checkStatus ::
  "('b, 'c) backend_ops \<Rightarrow> bool \<Rightarrow> 'b tracking_source \<Rightarrow> (nat \<times> nat \<times> nat \<times> nat) \<times> 'b tracking_source step" where
  "checkStatus bops needChanges t =
     (let (_, e, t) = detect bops needChanges (incremental_mode bops t) t;
          size = (\<lambda>st. length (m_items (ts_revisions t) st))
      in ((size NEW, size UPDATED, size DELETED, size ANY), e, t))"

abbreviation STATUS_SLOW_SYNC_508 :: int where
  "STATUS_SLOW_SYNC_508 \<equiv> 508"

definition beginSync ::
  "('b, 'c) backend_ops \<Rightarrow> bool \<Rightarrow> string \<Rightarrow> string \<Rightarrow> 'b tracking_source \<Rightarrow> 'b tracking_source step" where
  "beginSync bops needChanges lastToken resumeToken t =
     (let token = (if resumeToken \<noteq> [] then resumeToken else lastToken);
          mode = (if token = [] then CHANGES_SLOW else incremental_mode bops t);
          (forceSlowSync, r) = detect bops needChanges mode t
      in andThen r (\<lambda>t. if forceSlowSync
           then throw (StatusThrow ''change detection incomplete, must do slow sync'' STATUS_SLOW_SYNC_508) t
           else return t))"

text \<open>\<open>endSync\<close>; the token that it returns is always \<open>''1''\<close>.\<close>

definition endSync ::
  "('b, 'c) backend_ops \<Rightarrow> bool \<Rightarrow> 'b tracking_source \<Rightarrow> string \<times> 'b tracking_source step" where
  "endSync bops success t =
     (''1'',
      andThen (with_backend t (be_flush bops (ts_backend t)))
        (\<lambda>t. if success
             then andThen (meta_write (be_databaseRevision bops (ts_backend t)) t)
                    (\<lambda>t. andThen (with_node t (op_flush tracking_ops (ts_node t))) meta_flush)
             else return t))"

definition resetDatabaseRevision :: "'b tracking_source \<Rightarrow> 'b tracking_source step" where
  "resetDatabaseRevision t = andThen (meta_write [] t) meta_flush"

text \<open>
  \<open>continueInsertItem\<close>: \<open>check\<close> is the call of the backend. A result that is not final
  gets a callback that remembers the local ID.
\<close>

definition continueInsertItem ::
  "bool \<Rightarrow> ('b \<Rightarrow> (se_error + 'c insert_result) \<times> 'b) \<Rightarrow> string \<Rightarrow> 'b tracking_source \<Rightarrow>
   (se_error + ('c option \<times> string) insert_result) \<times> 'b tracking_source" where
  "continueInsertItem needChanges check luid t =
     (case resetDatabaseRevision t of
        (Some e, t) \<Rightarrow> (Inl e, t)
      | (None, t) \<Rightarrow>
          (case check (ts_backend t) of
             (Inl e, b) \<Rightarrow> (Inl e, t\<lparr>ts_backend := b\<rparr>)
           | (Inr res, b) \<Rightarrow>
               (let t = t\<lparr>ts_backend := b\<rparr>;
                    final = \<lparr>r_luid = r_luid res, r_revision = r_revision res, r_state = r_state res,
                             r_continue = None\<rparr>
                in if r_state res = ITEM_AGAIN
                   then (Inr (final\<lparr>r_continue := Some (r_continue res, luid)\<rparr>), t)
                   else if r_state res \<noteq> ITEM_NEEDS_MERGE
                   then (case with_node t (updateRevision tracking_ops needChanges (ts_node t)
                                luid (r_luid res) (r_revision res)) of
                           (Some e, t) \<Rightarrow> (Inl e, t)
                         | (None, t) \<Rightarrow> (Inr final, t))
                   else (Inr final, t))))"

definition doInsertItem ::
  "('b, 'c) backend_ops \<Rightarrow> bool \<Rightarrow> string \<Rightarrow> string \<Rightarrow> bool \<Rightarrow> 'b tracking_source \<Rightarrow>
   (se_error + ('c option \<times> string) insert_result) \<times> 'b tracking_source" where
  "doInsertItem bops needChanges luid item raw t =
     continueInsertItem needChanges (\<lambda>b. be_insertItem bops b luid item raw) luid t"

abbreviation insertItem ::
  "('b, 'c) backend_ops \<Rightarrow> bool \<Rightarrow> string \<Rightarrow> string \<Rightarrow> 'b tracking_source \<Rightarrow>
   (se_error + ('c option \<times> string) insert_result) \<times> 'b tracking_source" where
  "insertItem bops needChanges luid item t \<equiv> doInsertItem bops needChanges luid item False t"

text \<open>Invoking the callback of a result.\<close>

definition run_continue ::
  "('b, 'c) backend_ops \<Rightarrow> bool \<Rightarrow> ('c option \<times> string) option \<Rightarrow> 'b tracking_source \<Rightarrow>
   (se_error + ('c option \<times> string) insert_result) \<times> 'b tracking_source" where
  "run_continue bops needChanges k t =
     (case k of
        None \<Rightarrow> (Inl NullDeref, t)
      | Some (c, luid) \<Rightarrow> continueInsertItem needChanges (\<lambda>b. be_continue bops b c) luid t)"

text \<open>The polling loop of \<open>insertItemRaw\<close>; the fuel bounds the number of polls.\<close>

fun poll ::
  "nat \<Rightarrow> ('b, 'c) backend_ops \<Rightarrow> bool \<Rightarrow>
   (se_error + ('c option \<times> string) insert_result) \<times> 'b tracking_source \<Rightarrow>
   ((se_error + ('c option \<times> string) insert_result) \<times> 'b tracking_source) option" where
  "poll fuel bops needChanges (Inl e, t) = Some (Inl e, t)"
| "poll fuel bops needChanges (Inr res, t) =
     (if r_state res \<noteq> ITEM_AGAIN then Some (Inr res, t)
      else case fuel of
             0 \<Rightarrow> None
           | Suc fuel \<Rightarrow>
               (case andThen (with_backend t (be_flushItemChanges bops (ts_backend t)))
                       (\<lambda>t. with_backend t (be_finishItemChanges bops (ts_backend t))) of
                  (Some e, t) \<Rightarrow> Some (Inl e, t)
                | (None, t) \<Rightarrow> poll fuel bops needChanges (run_continue bops needChanges (r_continue res) t)))"

definition insertItemRaw ::
  "nat \<Rightarrow> ('b, 'c) backend_ops \<Rightarrow> bool \<Rightarrow> string \<Rightarrow> string \<Rightarrow> 'b tracking_source \<Rightarrow>
   ((se_error + ('c option \<times> string) insert_result) \<times> 'b tracking_source) option" where
  "insertItemRaw fuel bops needChanges luid item t =
     poll fuel bops needChanges (doInsertItem bops needChanges luid item True t)"

definition deleteItem ::
  "('b, 'c) backend_ops \<Rightarrow> bool \<Rightarrow> string \<Rightarrow> 'b tracking_source \<Rightarrow> 'b tracking_source step" where
  "deleteItem bops needChanges luid t =
     andThen (resetDatabaseRevision t)
       (\<lambda>t. andThen (with_backend t (be_removeItem bops (ts_backend t) luid))
          (\<lambda>t. with_node t (deleteRevision tracking_ops needChanges (ts_node t) luid)))"

section \<open>The meta node\<close>

text \<open>The node of a source: items, and no other entry than the database revision.\<close>

definition node_inv :: "ini_hash safe_node prefix_node \<Rightarrow> bool" where
  "node_inv n \<longleftrightarrow> tracking_inv n \<and> dom (tracking_meta n) \<subseteq> {''databaseRevision''}"

lemma node_inv_tracking: "node_inv n \<Longrightarrow> tracking_inv n"
  by (simp add: node_inv_def)

lemma no_item_prefix: "\<not> starts_with ''databaseRevision'' ''item-''"
  by (simp add: starts_with_def)

lemma meta_key: "ini_key (esc ''databaseRevision'')"
  by code_simp

lemma tracking_meta_lookup:
  "tracking_inv n \<Longrightarrow> tracking_meta n ''databaseRevision'' = safe_content hash_content (pn_node n) ''databaseRevision''"
  using no_item_prefix by (simp add: tracking_meta_def prefix_rest_def tracking_inv_def prefix_inv_def)

lemma meta_read_ok:
  assumes "tracking_inv n"
  shows "metaNode_read n = (case tracking_meta n ''databaseRevision'' of Some v \<Rightarrow> v | None \<Rightarrow> [])"
  using safe_hash.read_ok [of "pn_node n" "''databaseRevision''"] assms meta_key
  by (auto simp: metaNode_read_def tracking_meta_lookup tracking_inv_def prefix_inv_def split: option.splits)

lemma meta_fresh:
  assumes "node_inv n"
  shows "case_fresh ''databaseRevision'' (dom (safe_content hash_content (pn_node n)))"
  unfolding case_fresh_def
proof (intro ballI impI)
  fix k assume k: "k \<in> dom (safe_content hash_content (pn_node n))"
    "nocase_key k = nocase_key ''databaseRevision''"
  have "\<not> starts_with k ''item-''"
  proof
    assume "starts_with k ''item-''"
    then obtain r where "k = ''item-'' @ r" by (auto simp: starts_with_iff)
    then show False using k(2) by (simp add: nocase_key_def schar_code toupper_code islower_code)
  qed
  then have "k \<in> dom (tracking_meta n)"
    using k(1) assms by (simp add: tracking_meta_def prefix_rest_def node_inv_def tracking_inv_def prefix_inv_def)
  then show "k = ''databaseRevision''" using assms by (auto simp: node_inv_def)
qed

lemma meta_step:
  assumes "node_inv n" and "safe_inv hash_inv hash_content i"
    and "safe_content hash_content i = (safe_content hash_content (pn_node n))(''databaseRevision'' := v)"
  shows "node_inv (n\<lparr>pn_node := i\<rparr>) \<and> tracking_content (n\<lparr>pn_node := i\<rparr>) = tracking_content n \<and>
    tracking_meta (n\<lparr>pn_node := i\<rparr>) = (tracking_meta n)(''databaseRevision'' := v)"
proof -
  have n: "pn_prefix n = ''item-''" "pn_writable n"
      "\<forall>k \<in> dom (safe_content hash_content (pn_node n)).
         nocase_key (take (length ''item-'') k) = nocase_key ''item-'' \<longrightarrow> starts_with k ''item-''"
    using assms(1) by (simp_all add: node_inv_def tracking_inv_def prefix_inv_def)
  have "nocase_key (take (length ''item-'') ''databaseRevision'') \<noteq> nocase_key ''item-''" by code_simp
  then have inv: "tracking_inv (n\<lparr>pn_node := i\<rparr>)"
    using n assms(2,3) by (auto simp: tracking_inv_def prefix_inv_def split: if_splits)
  have "tracking_content (n\<lparr>pn_node := i\<rparr>) k = tracking_content n k" for k
    using no_item_prefix n(1) assms(3) by (auto simp: tracking_content_def prefix_content_def)
  moreover have meta: "tracking_meta (n\<lparr>pn_node := i\<rparr>) = (tracking_meta n)(''databaseRevision'' := v)"
    using no_item_prefix n(1) assms(3)
    by (auto simp: tracking_meta_def prefix_rest_def restrict_map_def fun_eq_iff)
  ultimately show ?thesis
    using inv assms(1) by (auto simp: node_inv_def)
qed

lemma metaNode_write_ok:
  assumes "node_inv n"
  shows "\<exists>n'. metaNode_write v n = (None, n') \<and> node_inv n' \<and> tracking_content n' = tracking_content n \<and>
    tracking_meta n' = (tracking_meta n)(''databaseRevision'' \<mapsto> v)"
proof -
  have "safe_inv hash_inv hash_content (pn_node n)"
    using assms by (simp add: node_inv_def tracking_inv_def prefix_inv_def)
  from safe_hash.set_ok [OF this meta_key, of v]
  obtain i where "setProperty meta_ops (pn_node n) ''databaseRevision'' (explicit v) = (None, i)"
      "safe_inv hash_inv hash_content i"
      "safe_content hash_content i = (safe_content hash_content (pn_node n))(''databaseRevision'' \<mapsto> v)"
    using case_distinct_insert [OF safe_hash.distinct_case [OF \<open>safe_inv _ _ _\<close>] meta_fresh [OF assms]] item_val
    by auto
  then show ?thesis using meta_step [OF assms] by (auto simp: metaNode_write_def into_def)
qed

lemma metaNode_flush_ok:
  assumes "node_inv n"
  shows "\<exists>n'. metaNode_flush n = (None, n') \<and> node_inv n' \<and> tracking_content n' = tracking_content n \<and>
    tracking_meta n' = tracking_meta n"
proof -
  have "safe_inv hash_inv hash_content (pn_node n)"
    using assms by (simp add: node_inv_def tracking_inv_def prefix_inv_def)
  from safe_hash.flush_ok [OF this]
  obtain i where i: "op_flush meta_ops (pn_node n) = (None, i)" "safe_inv hash_inv hash_content i"
      "safe_content hash_content i = safe_content hash_content (pn_node n)" by blast
  have same: "(safe_content hash_content (pn_node n))(''databaseRevision'' := tracking_meta n ''databaseRevision'') =
      safe_content hash_content (pn_node n)"
    using assms by (auto simp: fun_eq_iff tracking_meta_lookup node_inv_def)
  show ?thesis
    using i meta_step [OF assms i(2), of "tracking_meta n ''databaseRevision''"] same
    by (auto simp: metaNode_flush_def into_def)
qed

lemma meta_write_ok:
  assumes "node_inv (ts_node t)"
  shows "\<exists>n. meta_write v t = (None, t\<lparr>ts_node := n\<rparr>) \<and> node_inv n \<and>
    tracking_content n = tracking_content (ts_node t) \<and>
    tracking_meta n = (tracking_meta (ts_node t))(''databaseRevision'' \<mapsto> v)"
  using metaNode_write_ok [OF assms, of v] by (auto simp: meta_write_def with_node_def into_def)

lemma meta_flush_ok:
  assumes "node_inv (ts_node t)"
  shows "\<exists>n. meta_flush t = (None, t\<lparr>ts_node := n\<rparr>) \<and> node_inv n \<and>
    tracking_content n = tracking_content (ts_node t) \<and> tracking_meta n = tracking_meta (ts_node t)"
  using metaNode_flush_ok [OF assms] by (auto simp: meta_flush_def with_node_def into_def)

lemma reset_ok:
  assumes "node_inv (ts_node t)"
  shows "\<exists>n. resetDatabaseRevision t = (None, t\<lparr>ts_node := n\<rparr>) \<and> node_inv n \<and>
    tracking_content n = tracking_content (ts_node t) \<and>
    tracking_meta n = (tracking_meta (ts_node t))(''databaseRevision'' \<mapsto> [])"
proof -
  obtain n where n: "meta_write [] t = (None, t\<lparr>ts_node := n\<rparr>)" "node_inv n"
      "tracking_content n = tracking_content (ts_node t)"
      "tracking_meta n = (tracking_meta (ts_node t))(''databaseRevision'' \<mapsto> [])"
    using meta_write_ok [OF assms] by blast
  then show ?thesis
    using meta_flush_ok [of "t\<lparr>ts_node := n\<rparr>"] by (auto simp: resetDatabaseRevision_def)
qed

text \<open>The operations on items keep the node invariant and the database revision.\<close>

lemma node_update_ok:
  assumes "node_inv n" and "new \<noteq> []" "revision \<noteq> []"
    and "case_distinct (insert new (dom (tracking_content n) - {old}))"
  shows "\<exists>n'. updateRevision tracking_ops True n old new revision = (None, n') \<and> node_inv n' \<and>
    tracking_meta n' = tracking_meta n \<and>
    tracking_content n' =
      (if old = new then tracking_content n else (tracking_content n)(old := None))(new \<mapsto> revision)"
proof -
  have "tracking_inv n \<and> tracking_meta n = tracking_meta n" using assms(1) by (simp add: node_inv_def)
  from tracking_frame.update_ok [OF this TrueI TrueI TrueI assms(2-4)]
  obtain n' where n': "updateRevision tracking_ops True n old new revision = (None, n')"
    "tracking_inv n'" "tracking_meta n' = tracking_meta n"
    "tracking_content n' =
      (if old = new then tracking_content n else (tracking_content n)(old := None))(new \<mapsto> revision)"
    by (elim exE conjE) (rule that)
  moreover have "node_inv n'" using n'(2,3) assms(1) by (simp add: node_inv_def)
  ultimately show ?thesis by blast
qed

lemma node_delete_ok:
  assumes "node_inv n"
  shows "\<exists>n'. deleteRevision tracking_ops True n luid = (None, n') \<and> node_inv n' \<and>
    tracking_meta n' = tracking_meta n \<and> tracking_content n' = (tracking_content n)(luid := None)"
  using tracking_frame.remove_ok [of n "tracking_meta n" luid] assms
  by (auto simp: node_inv_def deleteRevision_def)

lemma node_flush_ok:
  assumes "node_inv n"
  shows "\<exists>n'. op_flush tracking_ops n = (None, n') \<and> node_inv n' \<and>
    tracking_meta n' = tracking_meta n \<and> tracking_content n' = tracking_content n"
  using tracking_frame.flush_ok [of n "tracking_meta n"] assms by (auto simp: node_inv_def)

section \<open>What a backend promises\<close>

text \<open>
  The items of a backend are a map from local IDs to revisions, in a state without pending
  operations. The laws are what TrackingSyncSource.h and SyncSource.h say of the functions that a
  backend implements: listing and updating the list give the current revisions, inserting and
  removing change one item or, when they fail, none, an identifier of the database that is not
  empty and has not changed means that nothing has changed. Local IDs that differ only in case
  are excluded.
\<close>

locale item_store =
  fixes bops :: "('b, 'c) backend_ops"
    and binv :: "'b \<Rightarrow> bool"
    and revs :: "'b \<Rightarrow> (string \<rightharpoonup> string)"
    and luid_ok :: "string \<Rightarrow> bool"
  assumes lists: "binv b \<Longrightarrow> be_listAllItems bops b = (R, b') \<Longrightarrow>
      ksorted id R \<and> map_of R = revs b \<and> binv b' \<and> revs b' = revs b"
    and updates: "binv b \<Longrightarrow> be_updateAllItems bops b old = (R, b') \<Longrightarrow>
      ksorted id R \<and> map_of R = revs b \<and> binv b' \<and> revs b' = revs b"
    and revs_ok: "binv b \<Longrightarrow> case_distinct (dom (revs b)) \<and> [] \<notin> dom (revs b) \<and> [] \<notin> ran (revs b)"
    and inserts: "binv b \<Longrightarrow> luid_ok luid \<Longrightarrow> case_fresh luid (dom (revs b)) \<Longrightarrow> be_insertItem bops b luid item raw = (Inr res, b') \<Longrightarrow>
      binv b' \<and> r_state res \<noteq> ITEM_AGAIN \<and>
      revs b' = (if r_state res = ITEM_NEEDS_MERGE then revs b
                 else (if luid = r_luid res then revs b else (revs b)(luid := None))
                        (r_luid res \<mapsto> r_revision res))"
    and insert_fails: "binv b \<Longrightarrow> luid_ok luid \<Longrightarrow> case_fresh luid (dom (revs b)) \<Longrightarrow> be_insertItem bops b luid item raw = (Inl e, b') \<Longrightarrow>
      binv b' \<and> revs b' = revs b"
    and removes: "binv b \<Longrightarrow> luid_ok luid \<Longrightarrow> be_removeItem bops b luid = (err, b') \<Longrightarrow>
      binv b' \<and> revs b' = (if err = None then (revs b)(luid := None) else revs b)"
    and flushes: "binv b \<Longrightarrow> \<exists>b'. be_flush bops b = (None, b') \<and> binv b' \<and> revs b' = revs b"
    and revision_unique: "binv b \<Longrightarrow> binv b' \<Longrightarrow> be_databaseRevision bops b \<noteq> [] \<Longrightarrow>
      be_databaseRevision bops b = be_databaseRevision bops b' \<Longrightarrow> revs b = revs b'"

text \<open>The invariant of a source, and when its node describes the items of the backend.\<close>

definition source_inv :: "('b \<Rightarrow> bool) \<Rightarrow> 'b tracking_source \<Rightarrow> bool" where
  "source_inv binv t \<longleftrightarrow> node_inv (ts_node t) \<and> \<not> m_firstCycle (ts_revisions t) \<and> binv (ts_backend t)"

definition in_step :: "('b \<Rightarrow> (string \<rightharpoonup> string)) \<Rightarrow> 'b tracking_source \<Rightarrow> bool" where
  "in_step revs t \<longleftrightarrow> tracking_content (ts_node t) = revs (ts_backend t)"

text \<open>A recorded database revision belongs to the items in the node.\<close>

definition revision_valid ::
  "('b, 'c) backend_ops \<Rightarrow> ('b \<Rightarrow> bool) \<Rightarrow> ('b \<Rightarrow> (string \<rightharpoonup> string)) \<Rightarrow> 'b tracking_source \<Rightarrow> bool" where
  "revision_valid bops binv revs t \<longleftrightarrow>
     (\<forall>b. binv b \<and> meta_read t \<noteq> [] \<and> be_databaseRevision bops b = meta_read t \<longrightarrow>
        revs b = tracking_content (ts_node t))"

text \<open>The changes between two sets of revisions, as they are reported.\<close>

definition reports :: "sync_revisions \<Rightarrow> (string \<rightharpoonup> string) \<Rightarrow> (string \<rightharpoonup> string) \<Rightarrow> bool" where
  "reports s old new \<longleftrightarrow>
     items s ANY = dom new \<and>
     items s NEW = {k \<in> dom new. old k \<in> {None, Some []}} \<and>
     items s UPDATED = {k \<in> dom new. old k \<notin> {None, Some [], new k}} \<and>
     items s DELETED = dom old - dom new"

section \<open>The life of a source\<close>

text \<open>
  A source is idle or in a sync session. A session starts with \<open>beginSync\<close>, the engine then
  inserts, updates and deletes items, in any order and whether or not each of these operations
  succeeds, and \<open>endSync\<close> ends it. Between sessions anybody may change the items. The state
  also records the items at the end of the last session.
\<close>

datatype phase = Idle | Active

type_synonym 'b life = "phase \<times> (string \<rightharpoonup> string) \<times> 'b tracking_source"

inductive life_step ::
  "('b, 'c) backend_ops \<Rightarrow> ('b \<Rightarrow> bool) \<Rightarrow> ('b \<Rightarrow> (string \<rightharpoonup> string)) \<Rightarrow> (string \<Rightarrow> bool) \<Rightarrow>
   'b life \<Rightarrow> 'b life \<Rightarrow> bool"
  for bops binv revs luid_ok where
  external_change: "binv b \<Longrightarrow> case_distinct (dom prev \<union> dom (revs b)) \<Longrightarrow>
    life_step bops binv revs luid_ok (Idle, prev, t) (Idle, prev, t\<lparr>ts_backend := b\<rparr>)"
| begin_sync: "beginSync bops True lastToken resumeToken t = (None, t') \<Longrightarrow>
    life_step bops binv revs luid_ok (Idle, prev, t) (Active, prev, t')"
| insert_item: "luid_ok luid \<Longrightarrow> case_fresh luid (dom (revs (ts_backend t))) \<Longrightarrow>
    doInsertItem bops True luid item raw t = (r, t') \<Longrightarrow>
    life_step bops binv revs luid_ok (Active, prev, t) (Active, prev, t')"
| delete_item: "luid_ok luid \<Longrightarrow> deleteItem bops True luid t = (e, t') \<Longrightarrow>
    life_step bops binv revs luid_ok (Active, prev, t) (Active, prev, t')"
| end_sync: "endSync bops True t = (token, (None, t')) \<Longrightarrow>
    life_step bops binv revs luid_ok (Active, prev, t) (Idle, revs (ts_backend t'), t')"

inductive_cases life_stepE: "life_step bops binv revs luid_ok x y"

text \<open>A source with a node without entries, whose items are \<open>revs b\<close>.\<close>

definition life_start :: "('b \<Rightarrow> bool) \<Rightarrow> ('b \<Rightarrow> (string \<rightharpoonup> string)) \<Rightarrow> 'b life \<Rightarrow> bool" where
  "life_start binv revs x \<longleftrightarrow>
     (\<exists>t. x = (Idle, Map.empty, t) \<and> source_inv binv t \<and>
        tracking_content (ts_node t) = Map.empty \<and> tracking_meta (ts_node t) = Map.empty)"

fun life_inv ::
  "('b, 'c) backend_ops \<Rightarrow> ('b \<Rightarrow> bool) \<Rightarrow> ('b \<Rightarrow> (string \<rightharpoonup> string)) \<Rightarrow> 'b life \<Rightarrow> bool" where
  "life_inv bops binv revs (Idle, prev, t) \<longleftrightarrow>
     source_inv binv t \<and> tracking_content (ts_node t) = prev \<and> revision_valid bops binv revs t \<and>
     case_distinct (dom prev \<union> dom (revs (ts_backend t))) \<and> [] \<notin> ran prev"
| "life_inv bops binv revs (Active, prev, t) \<longleftrightarrow> source_inv binv t \<and> in_step revs t"

context item_store
begin

lemma listing_ok:
  assumes "binv (ts_backend t)"
  shows "binv (listing bops mode t)" and "revs (listing bops mode t) = revs (ts_backend t)"
  using assms lists [OF assms surjective_pairing] updates [OF assms surjective_pairing]
  by (auto simp: listing_def Let_def)

lemma list_facts:
  assumes "binv b"
  defines "R \<equiv> fst (be_listAllItems bops b)"
  shows "ksorted id R" and "map_of R = revs b" and "fst ` set R = dom (revs b)"
    and "\<forall>(k, v) \<in> set R. True \<and> True \<and> v \<noteq> []" and "\<forall>(k, v) \<in> set R. True \<and> True"
    and "\<forall>old. fst (be_updateAllItems bops b old) = R"
proof -
  show sorted: "ksorted id R" and map: "map_of R = revs b"
    using lists [OF assms(1), of R "snd (be_listAllItems bops b)"] by (simp_all add: R_def)
  then show "fst ` set R = dom (revs b)" by (metis dom_map_of_conv_image_fst)
  have "distinct (map fst R)" using ksorted_distinct [OF sorted] by simp
  then have "revs b k = Some v" if "(k, v) \<in> set R" for k v using that map by (metis map_of_is_SomeI)
  then show "\<forall>(k, v) \<in> set R. True \<and> True \<and> v \<noteq> []"
    using revs_ok [OF assms(1)] by (auto simp: ran_def)
  show "\<forall>(k, v) \<in> set R. True \<and> True" by simp
  show "\<forall>old. fst (be_updateAllItems bops b old) = R"
  proof
    fix old
    show "fst (be_updateAllItems bops b old) = R"
      using updates [OF assms(1), of old "fst (be_updateAllItems bops b old)" "snd (be_updateAllItems bops b old)"]
        sorted map by (intro ksorted_unique) simp_all
  qed
qed

text \<open>Both ways to find changes: comparing all items, and relying on the database revision.\<close>

lemma detect_full_ok:
  assumes "source_inv binv t"
    and "case_distinct (dom (tracking_content (ts_node t)) \<union> dom (revs (ts_backend t)))"
  shows "\<exists>t'. detect bops True CHANGES_FULL t = (False, (None, t')) \<and> source_inv binv t' \<and> in_step revs t' \<and>
    revs (ts_backend t') = revs (ts_backend t) \<and>
    reports (ts_revisions t') (tracking_content (ts_node t)) (revs (ts_backend t))"
proof -
  let ?n = "ts_node t" and ?R = "fst (be_listAllItems bops (ts_backend t))"
  have b: "binv (ts_backend t)" and first: "\<not> m_firstCycle (ts_revisions t)" and n: "node_inv ?n"
    using assms(1) by (simp_all add: source_inv_def)
  note R = list_facts [OF b]
  have n': "tracking_inv ?n \<and> tracking_meta ?n = tracking_meta ?n" using n by (simp add: node_inv_def)
  have "case_distinct (dom (tracking_content ?n) \<union> fst ` set ?R)" using assms(2) by (simp add: R(3))
  from tracking_frame.detect_full [OF n' R(1,4,6) this first]
  obtain s' n' where d: "detectChanges tracking_ops ?R (\<lambda>old. fst (be_updateAllItems bops (ts_backend t) old))
        True CHANGES_FULL (ts_revisions t) ?n = (False, (None, (s', n')))"
      "tracking_inv n'" "tracking_meta n' = tracking_meta ?n" "tracking_content n' = map_of ?R" "\<not> m_firstCycle s'"
      "items s' ANY = fst ` set ?R"
      "items s' NEW = {k \<in> fst ` set ?R. tracking_content ?n k \<in> {None, Some []}}"
      "items s' UPDATED = {k \<in> fst ` set ?R. tracking_content ?n k \<notin> {None, Some [], map_of ?R k}}"
      "items s' DELETED = dom (tracking_content ?n) - fst ` set ?R"
    by (elim exE conjE) (rule that)
  have "reports s' (tracking_content ?n) (revs (ts_backend t))"
    using d(6-9) by (simp add: reports_def R(2,3))
  then show ?thesis
    using d(1-5) n listing_ok [OF b, of CHANGES_FULL] R(2)
    by (simp add: detect_def source_inv_def in_step_def node_inv_def)
qed

lemma detect_none_ok:
  assumes "source_inv binv t" and "in_step revs t"
  shows "\<exists>t'. detect bops True CHANGES_NONE t = (False, (None, t')) \<and> source_inv binv t' \<and> in_step revs t' \<and>
    revs (ts_backend t') = revs (ts_backend t) \<and>
    reports (ts_revisions t') (tracking_content (ts_node t)) (revs (ts_backend t))"
proof -
  let ?n = "ts_node t" and ?R = "fst (be_listAllItems bops (ts_backend t))"
  let ?upd = "\<lambda>old. fst (be_updateAllItems bops (ts_backend t) old)"
  have b: "binv (ts_backend t)" and first: "\<not> m_firstCycle (ts_revisions t)" and n: "tracking_inv ?n"
    using assms(1) by (simp_all add: source_inv_def node_inv_def)
  from tracking.detect_none [OF n, of ?R ?upd True "ts_revisions t"]
  obtain s' where d: "detectChanges tracking_ops ?R ?upd True CHANGES_NONE (ts_revisions t) ?n =
        (False, (None, (s', ?n)))"
      "items s' ANY = dom (tracking_content ?n)" "\<forall>st. st \<noteq> ANY \<longrightarrow> items s' st = {}"
    by blast
  have "\<not> m_firstCycle s'"
    using d(1) first tracking.detect_none_firstCycle [of ?R ?upd True "ts_revisions t" ?n] by simp
  moreover have "reports s' (tracking_content ?n) (revs (ts_backend t))"
    using d(2,3) assms(2) revs_ok [OF b] by (auto simp: reports_def in_step_def ran_def)
  ultimately show ?thesis
    using d(1) assms listing_ok [OF b, of CHANGES_NONE]
    by (simp add: detect_def source_inv_def in_step_def node_inv_def)
qed

lemma begin_incremental:
  assumes inv: "source_inv binv t" and rev: "revision_valid bops binv revs t"
    and dist: "case_distinct (dom (tracking_content (ts_node t)) \<union> dom (revs (ts_backend t)))"
    and token: "lastToken \<noteq> [] \<or> resumeToken \<noteq> []"
  shows "\<exists>t'. beginSync bops True lastToken resumeToken t = (None, t') \<and> source_inv binv t' \<and> in_step revs t' \<and>
    revs (ts_backend t') = revs (ts_backend t) \<and>
    reports (ts_revisions t') (tracking_content (ts_node t)) (revs (ts_backend t))"
proof (cases "incremental_mode bops t")
  case CHANGES_FULL
  then show ?thesis using detect_full_ok [OF inv dist] token by (auto simp: beginSync_def Let_def)
next
  case CHANGES_NONE
  then have "in_step revs t"
    using rev inv by (auto simp: incremental_mode_def Let_def revision_valid_def source_inv_def in_step_def split: if_splits)
  then show ?thesis using detect_none_ok [OF inv] CHANGES_NONE token by (auto simp: beginSync_def Let_def)
qed (simp add: incremental_mode_def Let_def split: if_splits)

lemma begin_slow:
  assumes "source_inv binv t"
  shows "\<exists>t'. beginSync bops True [] [] t = (None, t') \<and> source_inv binv t' \<and> in_step revs t' \<and>
    revs (ts_backend t') = revs (ts_backend t) \<and>
    items (ts_revisions t') ANY = dom (revs (ts_backend t)) \<and>
    (\<forall>st. st \<noteq> ANY \<longrightarrow> items (ts_revisions t') st = {})"
proof -
  let ?n = "ts_node t" and ?R = "fst (be_listAllItems bops (ts_backend t))"
  have b: "binv (ts_backend t)" and first: "\<not> m_firstCycle (ts_revisions t)" and n: "node_inv ?n"
    using assms(1) by (simp_all add: source_inv_def)
  note R = list_facts [OF b]
  have n': "tracking_inv ?n \<and> tracking_meta ?n = tracking_meta ?n" using n by (simp add: node_inv_def)
  have "case_distinct (fst ` set ?R)" using revs_ok [OF b] by (simp add: R(3))
  from tracking_frame.detect_slow [OF n' R(1,5) this R(6) first, of CHANGES_SLOW True]
  obtain s' n' where d: "detectChanges tracking_ops ?R (\<lambda>old. fst (be_updateAllItems bops (ts_backend t) old))
        True CHANGES_SLOW (ts_revisions t) ?n = (?R \<noteq> [] \<and> snd (hd ?R) = [], (None, (s', n')))"
      "tracking_inv n'" "tracking_meta n' = tracking_meta ?n" "tracking_content n' = map_of ?R" "\<not> m_firstCycle s'"
      "items s' ANY = fst ` set ?R" "\<forall>st. st \<noteq> ANY \<longrightarrow> items s' st = {}"
    by auto
  have "\<not> (?R \<noteq> [] \<and> snd (hd ?R) = [])"
    using R(4) by (cases ?R) auto
  then show ?thesis
    using d n listing_ok [OF b, of CHANGES_SLOW] R(2,3)
    by (simp add: beginSync_def detect_def source_inv_def in_step_def node_inv_def)
qed

text \<open>The operations of a session keep the node in step with the items.\<close>

lemma insert_ok:
  assumes inv: "source_inv binv t" and step: "in_step revs t" and luid: "luid_ok luid"
    and fresh: "case_fresh luid (dom (revs (ts_backend t)))"
    and run: "doInsertItem bops True luid item raw t = (r, t')"
  shows "source_inv binv t' \<and> in_step revs t'"
proof -
  have b: "binv (ts_backend t)" and n: "node_inv (ts_node t)" and first: "\<not> m_firstCycle (ts_revisions t)"
    using inv by (simp_all add: source_inv_def)
  obtain n1 where n1: "resetDatabaseRevision t = (None, t\<lparr>ts_node := n1\<rparr>)" "node_inv n1"
      "tracking_content n1 = revs (ts_backend t)"
    using reset_ok [OF n] step by (auto simp: in_step_def)
  obtain c b' where ins: "be_insertItem bops (ts_backend t) luid item raw = (c, b')" by fastforce
  show ?thesis
  proof (cases c)
    case (Inl e)
    then show ?thesis
      using run n1 ins insert_fails [OF b luid fresh, of item raw e b'] first
      by (auto simp: doInsertItem_def continueInsertItem_def source_inv_def in_step_def)
  next
    case (Inr res)
    note law = inserts [OF b luid fresh ins [unfolded Inr]]
    show ?thesis
    proof (cases "r_state res = ITEM_NEEDS_MERGE")
      case True
      then show ?thesis
        using run n1 ins Inr law first
        by (auto simp: doInsertItem_def continueInsertItem_def source_inv_def in_step_def Let_def)
    next
      case False
      let ?new = "r_luid res" and ?rev = "r_revision res"
      have b': "binv b'" and revs': "revs b' = (if luid = ?new then revs (ts_backend t)
          else (revs (ts_backend t))(luid := None))(?new \<mapsto> ?rev)"
        using law False by simp_all
      have at: "revs b' ?new = Some ?rev" by (simp add: revs')
      then have ne: "?new \<noteq> []" "?rev \<noteq> []"
        using revs_ok [OF b'] by (auto dest: ranI)
      have "dom (revs b') = insert ?new (dom (tracking_content n1) - {luid})"
        by (auto simp: revs' n1(3))
      then have "case_distinct (insert ?new (dom (tracking_content n1) - {luid}))"
        using revs_ok [OF b'] by simp
      from node_update_ok [OF n1(2) ne this]
      obtain n2 where n2: "updateRevision tracking_ops True n1 luid ?new ?rev = (None, n2)" "node_inv n2"
          "tracking_content n2 = (if luid = ?new then tracking_content n1
             else (tracking_content n1)(luid := None))(?new \<mapsto> ?rev)"
        by blast
      then have "tracking_content n2 = revs b'" by (simp add: revs' n1(3))
      then show ?thesis
        using run n1(1) ins Inr law False n2(1,2) b' first
        by (auto simp: doInsertItem_def continueInsertItem_def source_inv_def in_step_def Let_def
            with_node_def into_def)
    qed
  qed
qed

lemma delete_ok:
  assumes inv: "source_inv binv t" and step: "in_step revs t" and luid: "luid_ok luid"
    and run: "deleteItem bops True luid t = (e, t')"
  shows "source_inv binv t' \<and> in_step revs t'"
proof -
  have b: "binv (ts_backend t)" and n: "node_inv (ts_node t)" and first: "\<not> m_firstCycle (ts_revisions t)"
    using inv by (simp_all add: source_inv_def)
  obtain n1 where n1: "resetDatabaseRevision t = (None, t\<lparr>ts_node := n1\<rparr>)" "node_inv n1"
      "tracking_content n1 = revs (ts_backend t)"
    using reset_ok [OF n] step by (auto simp: in_step_def)
  obtain err b' where rem: "be_removeItem bops (ts_backend t) luid = (err, b')" by fastforce
  note law = removes [OF b luid rem]
  obtain n2 where n2: "deleteRevision tracking_ops True n1 luid = (None, n2)" "node_inv n2"
      "tracking_content n2 = (tracking_content n1)(luid := None)"
    using node_delete_ok [OF n1(2)] by blast
  show ?thesis
    using run n1 rem law n2 first
    by (cases err)
      (auto simp: deleteItem_def source_inv_def in_step_def with_backend_def with_node_def into_def)
qed

lemma end_ok:
  assumes inv: "source_inv binv t" and step: "in_step revs t"
  shows "\<exists>t'. endSync bops True t = (''1'', (None, t')) \<and> source_inv binv t' \<and> in_step revs t' \<and>
    revision_valid bops binv revs t' \<and> revs (ts_backend t') = revs (ts_backend t)"
proof -
  have b: "binv (ts_backend t)" and n: "node_inv (ts_node t)" and first: "\<not> m_firstCycle (ts_revisions t)"
    using inv by (simp_all add: source_inv_def)
  obtain b' where b': "be_flush bops (ts_backend t) = (None, b')" "binv b'" "revs b' = revs (ts_backend t)"
    using flushes [OF b] by blast
  let ?r = "be_databaseRevision bops b'"
  let ?t1 = "t\<lparr>ts_backend := b'\<rparr>"
  obtain n1 where n1: "meta_write ?r ?t1 = (None, ?t1\<lparr>ts_node := n1\<rparr>)" "node_inv n1"
      "tracking_content n1 = tracking_content (ts_node t)"
      "tracking_meta n1 = (tracking_meta (ts_node t))(''databaseRevision'' \<mapsto> ?r)"
    using meta_write_ok [of ?t1 ?r] n by auto
  obtain n2 where n2: "op_flush tracking_ops n1 = (None, n2)" "node_inv n2"
      "tracking_content n2 = tracking_content n1" "tracking_meta n2 = tracking_meta n1"
    using node_flush_ok [OF n1(2)] by blast
  obtain n3 where n3: "meta_flush (?t1\<lparr>ts_node := n2\<rparr>) = (None, ?t1\<lparr>ts_node := n3\<rparr>)" "node_inv n3"
      "tracking_content n3 = tracking_content n2" "tracking_meta n3 = tracking_meta n2"
    using meta_flush_ok [of "?t1\<lparr>ts_node := n2\<rparr>"] n2(2) by auto
  let ?t = "?t1\<lparr>ts_node := n3\<rparr>"
  have "meta_read ?t = ?r"
    using meta_read_ok [of n3] n3(2) by (simp add: node_inv_def n3(4) n2(4) n1(4))
  moreover have content: "tracking_content n3 = revs b'"
    using step by (simp add: n3(3) n2(3) n1(3) b'(3) in_step_def)
  ultimately have "revision_valid bops binv revs ?t"
    using revision_unique [OF b'(2)] by (auto simp: revision_valid_def)
  then show ?thesis
    using b' n1(1) n2(1) n3(1,2) content first
    by (simp add: endSync_def source_inv_def in_step_def with_backend_def with_node_def into_def)
qed

lemma begin_ok:
  assumes "life_inv bops binv revs (Idle, prev, t)"
  shows "\<exists>t'. beginSync bops True lastToken resumeToken t = (None, t') \<and> source_inv binv t' \<and> in_step revs t'"
proof (cases "lastToken = [] \<and> resumeToken = []")
  case True
  then show ?thesis using begin_slow [of t] assms by auto
next
  case False
  then show ?thesis using begin_incremental [of t lastToken resumeToken] assms by auto
qed

lemma life_step_inv:
  assumes "life_step bops binv revs luid_ok x y" and "life_inv bops binv revs x"
  shows "life_inv bops binv revs y"
  using assms
proof (induction rule: life_step.induct)
  case (external_change b prev t)
  then show ?case by (auto simp: source_inv_def revision_valid_def)
next
  case (begin_sync lastToken resumeToken t t' prev)
  then show ?case using begin_ok [of prev t lastToken resumeToken] by auto
next
  case (insert_item luid t item raw r t' prev)
  then show ?case using insert_ok [of t luid item raw r t'] by simp
next
  case (delete_item luid t e t' prev)
  then show ?case using delete_ok [of t luid e t'] by simp
next
  case (end_sync t token t' prev)
  then show ?case
    using end_ok [of t] revs_ok [of "ts_backend t'"] by (auto simp: in_step_def source_inv_def)
qed

lemma life_start_inv:
  assumes "life_start binv revs x"
  shows "life_inv bops binv revs x"
proof -
  obtain t where t: "x = (Idle, Map.empty, t)" "source_inv binv t"
      "tracking_content (ts_node t) = Map.empty" "tracking_meta (ts_node t) = Map.empty"
    using assms by (auto simp: life_start_def)
  have "meta_read t = []" using meta_read_ok [of "ts_node t"] t by (simp add: source_inv_def node_inv_def)
  then show ?thesis
    using t revs_ok [of "ts_backend t"] by (simp add: revision_valid_def source_inv_def)
qed

lemma life_reachable_inv:
  assumes "(life_step bops binv revs luid_ok)\<^sup>*\<^sup>* x y" and "life_start binv revs x"
  shows "life_inv bops binv revs y"
  using assms
  by (induction rule: rtranclp_induct) (blast intro: life_start_inv life_step_inv)+

text \<open>The next sync reports the difference to the end of the last session.\<close>

lemma next_sync_reports:
  assumes "(life_step bops binv revs luid_ok)\<^sup>*\<^sup>* x (Idle, prev, t)" and "life_start binv revs x"
    and "lastToken \<noteq> [] \<or> resumeToken \<noteq> []"
  shows "\<exists>t'. beginSync bops True lastToken resumeToken t = (None, t') \<and>
    items (ts_revisions t') ANY = dom (revs (ts_backend t)) \<and>
    items (ts_revisions t') NEW = dom (revs (ts_backend t)) - dom prev \<and>
    items (ts_revisions t') UPDATED = {k \<in> dom (revs (ts_backend t)) \<inter> dom prev. prev k \<noteq> revs (ts_backend t) k} \<and>
    items (ts_revisions t') DELETED = dom prev - dom (revs (ts_backend t))"
proof -
  note inv = life_reachable_inv [OF assms(1,2)]
  then obtain t' where t': "beginSync bops True lastToken resumeToken t = (None, t')"
      "reports (ts_revisions t') prev (revs (ts_backend t))"
    using begin_incremental [of t lastToken resumeToken] assms(3) by auto
  have "prev k \<noteq> Some []" for k using inv by (auto dest: ranI)
  then have "{k \<in> dom new. prev k \<in> {None, Some []}} = dom new - dom prev"
    and "{k \<in> dom new. prev k \<notin> {None, Some [], new k}} = {k \<in> dom new \<inter> dom prev. prev k \<noteq> new k}" for new
    by auto
  then show ?thesis using t' by (simp add: reports_def)
qed

end

section \<open>Polling for a result\<close>

lemma continue_again:
  assumes "continueInsertItem needChanges check luid t = (Inr res, t')" and "r_state res = ITEM_AGAIN"
  shows "\<exists>res0. check (ts_backend t) = (Inr res0, ts_backend t') \<and> r_state res0 = ITEM_AGAIN \<and>
    r_continue res = Some (r_continue res0, luid)"
proof -
  have backend: "ts_backend (snd (resetDatabaseRevision t)) = ts_backend t"
    by (simp add: resetDatabaseRevision_def meta_write_def meta_flush_def with_node_def into_def andThen_def
        split: option.split)
  show ?thesis
    using assms backend
    by (auto simp: continueInsertItem_def Let_def split: prod.splits option.splits sum.splits if_splits)
qed

lemma poll_ends:
  assumes "\<forall>b c res b'. be_continue bops b c = (Inr res, b') \<and> r_state res = ITEM_AGAIN \<longrightarrow> m b' < m b"
    and "\<forall>b. m (snd (be_flushItemChanges bops b)) \<le> m b" and "\<forall>b. m (snd (be_finishItemChanges bops b)) \<le> m b"
    and "m (ts_backend (snd x)) < fuel"
  shows "\<exists>r t. poll fuel bops needChanges x = Some (r, t) \<and> (\<forall>res. r = Inr res \<longrightarrow> r_state res \<noteq> ITEM_AGAIN)"
  using assms(4)
proof (induction fuel arbitrary: x)
  case (Suc fuel)
  show ?case
  proof (cases "\<exists>res t. x = (Inr res, t) \<and> r_state res = ITEM_AGAIN")
    case False
    then show ?thesis by (cases x; cases "fst x") auto
  next
    case True
    then obtain res t where x: "x = (Inr res, t)" "r_state res = ITEM_AGAIN" by blast
    let ?wait = "andThen (with_backend t (be_flushItemChanges bops (ts_backend t)))
      (\<lambda>t. with_backend t (be_finishItemChanges bops (ts_backend t)))"
    have wait: "m (ts_backend (snd ?wait)) \<le> m (ts_backend t)"
      using assms(2,3)
      by (auto simp: with_backend_def into_def andThen_def intro: order_trans split: option.split)
    show ?thesis
    proof (cases "fst ?wait")
      case (Some e)
      then show ?thesis using x by (cases ?wait) simp
    next
      case None
      then obtain t1 where t1: "?wait = (None, t1)" by (cases ?wait) simp
      let ?y = "run_continue bops needChanges (r_continue res) t1"
      have "poll (Suc fuel) bops needChanges x = poll fuel bops needChanges ?y"
        using x t1 by simp
      moreover have "\<exists>r t. poll fuel bops needChanges ?y = Some (r, t) \<and> (\<forall>res. r = Inr res \<longrightarrow> r_state res \<noteq> ITEM_AGAIN)"
      proof (cases "\<exists>res' t'. ?y = (Inr res', t') \<and> r_state res' = ITEM_AGAIN")
        case False
        then show ?thesis by (cases ?y; cases "fst ?y") auto
      next
        case True
        then obtain res' t' where y: "?y = (Inr res', t')" "r_state res' = ITEM_AGAIN" by blast
        then obtain c luid where "continueInsertItem needChanges (\<lambda>b. be_continue bops b c) luid t1 = (Inr res', t')"
          by (auto simp: run_continue_def split: option.splits)
        from continue_again [OF this y(2)] have "m (ts_backend t') < m (ts_backend t1)"
          using assms(1) by blast
        then show ?thesis using Suc.IH [of ?y] Suc.prems wait x t1 y(1) by simp
      qed
      ultimately show ?thesis by simp
    qed
  qed
qed simp


text \<open>A backend that completes an operation after a number of polls.\<close>

definition countdown_ops :: "(nat, unit) backend_ops" where
  "countdown_ops =
     (let answer = (\<lambda>b. (Inr \<lparr>r_luid = ''1'', r_revision = ''a'',
            r_state = (if b = 0 then ITEM_OKAY else ITEM_AGAIN), r_continue = None\<rparr>, b - 1))
      in \<lparr>be_databaseRevision = (\<lambda>_. []), be_listAllItems = (\<lambda>b. ([], b)),
          be_updateAllItems = (\<lambda>b _. ([], b)), be_insertItem = (\<lambda>b _ _ _. answer b),
          be_continue = (\<lambda>b _. answer b), be_removeItem = (\<lambda>b _. return b),
          be_flush = return, be_flushItemChanges = return, be_finishItemChanges = return\<rparr>)"


end
