(* ===== verification/File_Source.thy ===== *)
theory File_Source
  imports Tracking_Source Config_Names Util_Misc
begin

text \<open>
  \<open>FileSyncSource\<close> (src/src/backends/file/FileSyncSource.cpp): a directory with one file per
  item. The name of a file is its local ID, the modification time its revision. The directory is
  modelled by the files in it and by the clock that stamps files which are written; a directory
  that is not writable or that is full makes writing fail. The delays that environment variables
  insert for testing are left out.

  The interpretation of \<open>item_store\<close> for this backend connects it with
  \<open>TrackingSyncSource\<close>: the theorem at the end is about the composition of the backend, change
  tracking, the node wrappers and the stored node.
\<close>

section \<open>Numbers from text\<close>

text \<open>\<open>atoll\<close>: leading space, an optional sign, digits; the limits of the type for too large values.\<close>

definition atoll :: "string \<Rightarrow> 64 word" where
  "atoll s =
     (let s = dropWhile isspace (c_str s);
          neg = (s \<noteq> [] \<and> hd s = CHR ''-'');
          s = (if s \<noteq> [] \<and> (hd s = CHR ''-'' \<or> hd s = CHR ''+'') then tl s else s);
          v = int (dec_value (takeWhile isdigit s));
          i = (if neg then - v else v)
      in word_of_int (max (- (2 ^ 63)) (min (2 ^ 63 - 1) i)))"

section \<open>The directory\<close>

record file_entry =
  f_data :: string
  f_mtime :: int
  f_mnsec :: int

text \<open>
  The directory of an open source. The files are kept in the order of their names. A directory
  cannot hold more than \<open>max_entries\<close> files.
\<close>

record file_source =
  m_basedir :: string
  m_entryCounter :: "64 word"
  dir_files :: "(string \<times> file_entry) list"
  dir_writable :: bool
  dir_now :: "int \<times> int"

definition max_entries :: nat where
  "max_entries = 2 ^ 32"

definition entry_ok :: "string \<Rightarrow> bool" where
  "entry_ok e \<longleftrightarrow> e \<noteq> [] \<and> e \<noteq> ''.'' \<and> e \<noteq> ''..'' \<and> CHR ''/'' \<notin> set e \<and> CHR 0x00 \<notin> set e"

definition createFilename :: "file_source \<Rightarrow> string \<Rightarrow> string" where
  "createFilename b entry = m_basedir b @ ''/'' @ entry"

text \<open>The entry of the directory that a file name for an entry denotes, as a C string.\<close>

definition stat_file :: "file_source \<Rightarrow> string \<Rightarrow> file_entry option" where
  "stat_file b entry = (if entry_ok (c_str entry) then kfind id (c_str entry) (dir_files b) else None)"

definition write_file :: "file_source \<Rightarrow> string \<Rightarrow> string \<Rightarrow> file_source option" where
  "write_file b entry content =
     (if dir_writable b \<and> entry_ok (c_str entry) \<and>
         (stat_file b entry \<noteq> None \<or> length (dir_files b) < max_entries)
      then Some (b\<lparr>dir_files := kput id (c_str entry)
                    \<lparr>f_data = content, f_mtime = fst (dir_now b), f_mnsec = snd (dir_now b)\<rparr> (dir_files b)\<rparr>)
      else None)"

definition getATimeString :: "file_entry \<Rightarrow> string" where
  "getATimeString f = show_int (f_mtime f) @ (if f_mnsec f \<noteq> 0 then ''.'' @ show_int (f_mnsec f) else [])"

section \<open>The source\<close>

text \<open>
  The constructor: the fields that are logged for an item and their separator, or the
  exception when no format is given.
\<close>

definition FileSyncSource :: "string \<Rightarrow> se_error + string list \<times> string" where
  "FileSyncSource dataformat =
     (if dataformat = [] then Inl (Throw ''a database format must be specified'')
      else if dataformat = ''text/vcard'' \<or> dataformat = ''text/x-vcard''
      then Inr ([''N_FIRST'', ''N_MIDDLE'', ''N_LAST''], '' '')
      else if dataformat = ''text/calendar'' \<or> dataformat = ''text/x-vcalendar''
      then Inr ([''SUMMARY'', ''LOCATION''], '', '')
      else Inr ([], []))"

definition getMimeVersion :: "string \<Rightarrow> string" where
  "getMimeVersion mimeType =
     (if iequals mimeType ''text/vcard'' then ''3.0''
      else if iequals mimeType ''text/x-vcard'' then ''2.1''
      else if iequals mimeType ''text/calendar'' then ''2.0''
      else if iequals mimeType ''text/x-vcalendar'' then ''1.0''
      else [])"

text \<open>
  \<open>open\<close>: the base directory and whether it has to be created. The file system answers
  whether a path is a directory, and if not, whether it does not exist.
\<close>

definition open_source :: "(string \<Rightarrow> bool) \<Rightarrow> (string \<Rightarrow> bool) \<Rightarrow> string \<Rightarrow> se_error + string \<times> bool" where
  "open_source isDir missing database =
     (let createDir = starts_with database ''file://'';
          basedir = (if createDir then drop (length ''file://'') database else database)
      in if isDir basedir then Inr (basedir, False)
         else if missing basedir \<and> createDir then Inr (basedir, True)
         else Inl (Throw basedir))"

definition isEmpty :: "file_source \<Rightarrow> bool" where
  "isEmpty b \<longleftrightarrow> dir_files b = []"

fun list_files :: "(string \<times> file_entry) list \<Rightarrow> revision_map \<times> 64 word \<Rightarrow> revision_map \<times> 64 word" where
  "list_files [] acc = acc"
| "list_files ((entry, f) # fs) (revisions, counter) =
     (let entrynum = atoll entry;
          counter = (if sint counter \<le> sint entrynum then entrynum + 1 else counter)
      in list_files fs (kput id entry (getATimeString f) revisions, counter))"

definition File_listAllItems :: "file_source \<Rightarrow> revision_map \<times> file_source" where
  "File_listAllItems b =
     (case list_files (dir_files b) ([], m_entryCounter b) of
        (revisions, counter) \<Rightarrow> (revisions, b\<lparr>m_entryCounter := counter\<rparr>))"

text \<open>\<open>updateAllItems\<close> as inherited from \<open>TrackingSyncSource\<close>.\<close>

definition File_updateAllItems :: "file_source \<Rightarrow> revision_map \<Rightarrow> revision_map \<times> file_source" where
  "File_updateAllItems b revisions = File_listAllItems b"

definition File_readItem :: "file_source \<Rightarrow> string \<Rightarrow> se_error + string" where
  "File_readItem b uid =
     (case stat_file b uid of
        Some f \<Rightarrow> Inr (f_data f)
      | None \<Rightarrow> Inl (Throw (createFilename b uid @ '': reading failed'')))"

text \<open>The loop that looks for an unused number; the fuel is the number of attempts.\<close>

fun next_entry :: "nat \<Rightarrow> file_source \<Rightarrow> file_source option" where
  "next_entry 0 b = None"
| "next_entry (Suc fuel) b =
     (if stat_file b (show_int (sint (m_entryCounter b))) = None then Some b
      else next_entry fuel (b\<lparr>m_entryCounter := m_entryCounter b + 1\<rparr>))"

definition store_item ::
  "file_source \<Rightarrow> string \<Rightarrow> string \<Rightarrow> (se_error + unit insert_result) \<times> file_source" where
  "store_item b newuid item =
     (case write_file b newuid item of
        None \<Rightarrow> (Inl (Throw (createFilename b newuid @ '': writing failed'')), b)
      | Some b' \<Rightarrow>
          (case stat_file b' newuid of
             None \<Rightarrow> (Inl (Throw (createFilename b newuid)), b')
           | Some f \<Rightarrow>
               (Inr \<lparr>r_luid = newuid, r_revision = getATimeString f, r_state = ITEM_OKAY, r_continue = None\<rparr>, b')))"

text \<open>One attempt more than there are files is enough; the lemma \<open>next_entry_found\<close> shows it.\<close>

definition File_insertItem ::
  "file_source \<Rightarrow> string \<Rightarrow> string \<Rightarrow> bool \<Rightarrow> (se_error + unit insert_result) \<times> file_source" where
  "File_insertItem b uid item raw =
     (if uid \<noteq> [] then store_item b uid item
      else case next_entry (Suc (length (dir_files b))) b of
             None \<Rightarrow> (Inl (Throw []), b)
           | Some b' \<Rightarrow> store_item b' (show_int (sint (m_entryCounter b'))) item)"

definition File_removeItem :: "file_source \<Rightarrow> string \<Rightarrow> file_source step" where
  "File_removeItem b uid =
     (if dir_writable b \<and> stat_file b uid \<noteq> None
      then return (b\<lparr>dir_files := kerase id (c_str uid) (dir_files b)\<rparr>)
      else throw (Throw (createFilename b uid)) b)"

text \<open>The virtual functions, with the defaults of the base classes.\<close>

definition file_ops :: "(file_source, unit) backend_ops" where
  "file_ops =
     \<lparr>be_databaseRevision = (\<lambda>_. []), be_listAllItems = File_listAllItems,
      be_updateAllItems = File_updateAllItems, be_insertItem = File_insertItem,
      be_continue = (\<lambda>b _. (Inl NullDeref, b)), be_removeItem = File_removeItem,
      be_flush = return, be_flushItemChanges = return, be_finishItemChanges = return\<rparr>"

section \<open>Time stamps\<close>

lemma getATimeString_nonempty [simp]: "getATimeString f \<noteq> []"
  by (simp add: getATimeString_def)

text \<open>The revision strings are equal exactly when the time stamps are.\<close>

lemma getATimeString_inj:
  "getATimeString f = getATimeString g \<longleftrightarrow> f_mtime f = f_mtime g \<and> f_mnsec f = f_mnsec g"
proof
  assume eq: "getATimeString f = getATimeString g"
  let ?sec = "takeWhile (\<lambda>c. c \<noteq> CHR ''.'')" and ?nsec = "dropWhile (\<lambda>c. c \<noteq> CHR ''.'')"
  have "?sec (getATimeString h) = show_int (f_mtime h)"
    and "?nsec (getATimeString h) = (if f_mnsec h \<noteq> 0 then ''.'' @ show_int (f_mnsec h) else [])" for h
    using show_int_no(1) [of "f_mtime h"]
    by (auto simp: getATimeString_def takeWhile_append dropWhile_append dropWhile_eq_Nil_conv)
  then show "f_mtime f = f_mtime g \<and> f_mnsec f = f_mnsec g"
    using eq by (metis append_Cons append_Nil list.distinct(1) list.inject show_int_inj)
qed (simp add: getATimeString_def)

section \<open>The directory as an item store\<close>

definition file_revs :: "file_source \<Rightarrow> (string \<rightharpoonup> string)" where
  "file_revs b k = map_option getATimeString (map_of (dir_files b) k)"

definition file_inv :: "file_source \<Rightarrow> bool" where
  "file_inv b \<longleftrightarrow> ksorted id (dir_files b) \<and> case_distinct (dom (file_revs b)) \<and>
     (\<forall>e \<in> dom (file_revs b). entry_ok e) \<and> length (dir_files b) \<le> max_entries"

lemma file_revs_counter [simp]: "file_revs (b\<lparr>m_entryCounter := c\<rparr>) = file_revs b"
  by (simp add: file_revs_def fun_eq_iff)

lemma file_inv_counter [simp]: "file_inv (b\<lparr>m_entryCounter := c\<rparr>) = file_inv b"
  by (simp add: file_inv_def)

lemma stat_file_counter [simp]: "stat_file (b\<lparr>m_entryCounter := c\<rparr>) e = stat_file b e"
  by (simp add: stat_file_def)

lemma dom_file_revs: "dom (file_revs b) = fst ` set (dir_files b)"
  by (auto simp: file_revs_def dom_def dom_map_of_conv_image_fst [symmetric])

lemma list_files_sorted: "ksorted id R \<Longrightarrow> ksorted id (fst (list_files fs (R, c)))"
  by (induction fs arbitrary: R c) (auto simp: Let_def)

lemma list_files_map:
  assumes "distinct (map fst fs)"
  shows "map_of (fst (list_files fs (R, c))) k =
    (case map_of fs k of Some f \<Rightarrow> Some (getATimeString f) | None \<Rightarrow> map_of R k)"
  using assms
proof (induction fs arbitrary: R c)
  case (Cons x fs)
  obtain e f where x: "x = (e, f)" by (cases x)
  have "map_of fs e = None" using Cons.prems by (simp add: x map_of_eq_None_iff)
  then show ?case
    using Cons by (auto simp: x Let_def map_of_kput split: option.splits)
qed simp

lemma File_lists:
  assumes "file_inv b" and "File_listAllItems b = (R, b')"
  shows "ksorted id R \<and> map_of R = file_revs b \<and> file_inv b' \<and> file_revs b' = file_revs b"
proof -
  obtain c where R: "R = fst (list_files (dir_files b) ([], m_entryCounter b))" and b': "b' = b\<lparr>m_entryCounter := c\<rparr>"
    using assms(2) by (auto simp: File_listAllItems_def split: prod.splits)
  have "distinct (map fst (dir_files b))"
    using assms(1) ksorted_distinct [of id "dir_files b"] by (simp add: file_inv_def)
  then show ?thesis
    using assms(1) list_files_sorted [of "[]"] list_files_map [of "dir_files b" "[]"]
    by (auto simp: R b' file_revs_def fun_eq_iff split: option.splits)
qed

lemma length_kput_le: "length (kput f k v m) \<le> Suc (length m)"
  by (induction f k v m rule: kput.induct) auto

lemma length_kput_same: "ksorted f m \<Longrightarrow> kfind f k m \<noteq> None \<Longrightarrow> length (kput f k v m) = length m"
proof (induction m)
  case (Cons p m)
  obtain a w where p: "p = (a, w)" by (cases p)
  have "kfind f k m = None" if "f k < f a"
    using that Cons.prems(1) by (force simp: p ksorted_Cons kfind_None)
  then show ?case using Cons by (auto simp: p ksorted_Cons)
qed simp

lemma c_str_id: "CHR 0x00 \<notin> set s \<Longrightarrow> c_str s = s"
  by (auto simp: c_str_def takeWhile_eq_all_conv)

lemma write_ok:
  assumes "file_inv b" and "CHR 0x00 \<notin> set e" and "write_file b e content = Some b'"
    and "case_fresh e (dom (file_revs b))"
  shows "file_inv b'" and "\<exists>f. stat_file b' e = Some f \<and> file_revs b' = (file_revs b)(e \<mapsto> getATimeString f)"
proof -
  define f where "f = \<lparr>f_data = content, f_mtime = fst (dir_now b), f_mnsec = snd (dir_now b)\<rparr>"
  have e: "entry_ok e" and b': "b' = b\<lparr>dir_files := kput id e f (dir_files b)\<rparr>"
    and room: "kfind id e (dir_files b) \<noteq> None \<or> length (dir_files b) < max_entries"
    using assms(3) c_str_id [OF assms(2)] by (auto simp: write_file_def f_def stat_file_def split: if_splits)
  have revs: "file_revs b' = (file_revs b)(e \<mapsto> getATimeString f)"
    by (auto simp: file_revs_def b' fun_eq_iff kfind_id [symmetric] kfind_kput)
  then show "\<exists>f. stat_file b' e = Some f \<and> file_revs b' = (file_revs b)(e \<mapsto> getATimeString f)"
    using e by (auto simp: stat_file_def c_str_id [OF assms(2)] b' kfind_kput)
  have sorted: "ksorted id (dir_files b)" using assms(1) by (simp add: file_inv_def)
  have "length (kput id e f (dir_files b)) \<le> max_entries"
    using room
  proof
    assume "kfind id e (dir_files b) \<noteq> None"
    then show ?thesis
      using length_kput_same [OF sorted, of e f] assms(1) by (simp add: file_inv_def)
  next
    assume "length (dir_files b) < max_entries"
    then show ?thesis using length_kput_le [of id e f "dir_files b"] by simp
  qed
  moreover have "case_distinct (insert e (dom (file_revs b)))"
    using assms(1,4) by (intro case_distinct_insert) (simp_all add: file_inv_def)
  ultimately show "file_inv b'"
    using assms(1) sorted e by (auto simp: file_inv_def revs) (simp_all add: b')
qed

text \<open>The search for an unused number ends.\<close>

lemma next_entry_Some:
  "next_entry n b = Some b' \<Longrightarrow>
    (\<exists>c. b' = b\<lparr>m_entryCounter := c\<rparr>) \<and> stat_file b' (show_int (sint (m_entryCounter b'))) = None"
proof (induction n arbitrary: b)
  case (Suc n)
  show ?case
  proof (cases "stat_file b (show_int (sint (m_entryCounter b)))")
    case None
    then show ?thesis using Suc.prems by (auto intro: exI [of _ "m_entryCounter b"])
  next
    case (Some f)
    then show ?thesis using Suc.prems Suc.IH [of "b\<lparr>m_entryCounter := m_entryCounter b + 1\<rparr>"] by auto
  qed
qed simp

lemma next_entry_None:
  "next_entry n b = None \<Longrightarrow> j < n \<Longrightarrow> stat_file b (show_int (sint (m_entryCounter b + of_nat j))) \<noteq> None"
proof (induction n arbitrary: b j)
  case (Suc n)
  show ?case
  proof (cases j)
    case 0
    then show ?thesis using Suc.prems by (auto split: if_splits)
  next
    case (Suc i)
    have "stat_file (b\<lparr>m_entryCounter := m_entryCounter b + 1\<rparr>)
        (show_int (sint (m_entryCounter b + 1 + of_nat i))) \<noteq> None"
      using Suc.IH [of "b\<lparr>m_entryCounter := m_entryCounter b + 1\<rparr>" i] Suc.prems \<open>j = Suc i\<close>
      by (auto split: if_splits)
    then show ?thesis by (simp add: Suc add.assoc)
  qed
qed simp

lemma entry_ok_number: "entry_ok (show_int i)"
  using show_int_no [of i] by (auto simp: entry_ok_def)

lemma sint_inj: "sint x = sint y \<Longrightarrow> x = y" for x y :: "64 word"
  by (rule injD [OF inj_signed])

lemma next_entry_found:
  assumes "file_inv b"
  shows "\<exists>b'. next_entry (Suc (length (dir_files b))) b = Some b'"
proof (rule ccontr)
  let ?n = "length (dir_files b)"
  let ?name = "\<lambda>j. show_int (sint (m_entryCounter b + of_nat j))"
  assume "\<not> ?thesis"
  then have "stat_file b (?name j) \<noteq> None" if "j \<le> ?n" for j
    using that next_entry_None [of "Suc ?n" b j] by (simp del: next_entry.simps)
  then have "?name ` {..?n} \<subseteq> fst ` set (dir_files b)"
    using show_int_no(3)
    by (force simp: stat_file_def c_str_id entry_ok_number kfind_id dest: map_of_SomeD)
  then have "card (?name ` {..?n}) \<le> card (fst ` set (dir_files b))"
    by (intro card_mono) simp_all
  also have "\<dots> \<le> ?n" by (metis card_length length_map list.set_map)
  finally have "card (?name ` {..?n}) \<le> ?n" .
  moreover have "inj_on ?name {..?n}"
  proof (rule inj_onI)
    fix i j assume ij: "i \<in> {..?n}" "j \<in> {..?n}" and "?name i = ?name j"
    then have "m_entryCounter b + of_nat i = m_entryCounter b + of_nat j"
      by (intro sint_inj) simp
    then have "of_nat i = (of_nat j :: 64 word)" by simp
    moreover have "i < 2 ^ 64" "j < 2 ^ 64"
      using ij assms by (simp_all add: file_inv_def max_entries_def)
    then have "unat (of_nat i :: 64 word) = i" "unat (of_nat j :: 64 word) = j"
      by (simp_all add: unsigned_of_nat take_bit_nat_eq_self)
    ultimately show "i = j" by metis
  qed
  then have "card (?name ` {..?n}) = Suc ?n" by (simp add: card_image)
  ultimately show False by simp
qed

text \<open>Names made of digits do not collide with other names by case.\<close>

lemma number_case_fresh: "case_fresh (show_int i) ks"
  unfolding case_fresh_def
proof (intro ballI impI)
  fix k assume "nocase_key k = nocase_key (show_int i)"
  then have low: "map tolower k = map tolower (show_int i)" by (simp add: nocase_key_eq_iff iequals_def to_lower_def)
  have digit: "\<not> isupper c \<and> \<not> islower c" if "isdigit c \<or> c = CHR ''-''" for c
    using that by (auto simp: isupper_def islower_def isdigit_def ccode_def)
  have "tolower c = c" if "c \<in> set (show_int i)" for c
    using show_int_chars [OF that] digit by (auto simp: tolower_def)
  then have "map tolower (show_int i) = show_int i" by (rule map_idI)
  then have k: "map tolower k = show_int i" using low by simp
  have "tolower c = c" if "c \<in> set k" for c
  proof (rule ccontr)
    assume "tolower c \<noteq> c"
    then have "isupper c" by (auto simp: tolower_def split: if_splits)
    then have "islower (tolower c)" by (simp add: islower_def ccode_tolower isupper_def)
    moreover have "tolower c \<in> set (show_int i)" using that k by (metis image_eqI list.set_map)
    ultimately show False using show_int_chars digit by blast
  qed
  then show "k = show_int i" using k by (metis map_idI)
qed

lemma store_ok:
  assumes "file_inv b" and "CHR 0x00 \<notin> set e" and "case_fresh e (dom (file_revs b))"
    and "store_item b e item = (r, b')"
  shows "file_inv b' \<and> (case r of Inl err \<Rightarrow> file_revs b' = file_revs b
    | Inr res \<Rightarrow> r_luid res = e \<and> r_state res = ITEM_OKAY \<and> file_revs b' = (file_revs b)(e \<mapsto> r_revision res))"
proof (cases "write_file b e item")
  case None
  then show ?thesis using assms by (auto simp: store_item_def)
next
  case (Some b1)
  from write_ok [OF assms(1,2) Some assms(3)] show ?thesis
    using assms(4) Some by (auto simp: store_item_def)
qed

lemma File_insert_ok:
  assumes "file_inv b" and "CHR 0x00 \<notin> set luid" and "case_fresh luid (dom (file_revs b))"
    and "File_insertItem b luid item raw = (r, b')"
  shows "file_inv b' \<and> (case r of Inl err \<Rightarrow> file_revs b' = file_revs b
    | Inr res \<Rightarrow> r_state res = ITEM_OKAY \<and> (luid = [] \<or> r_luid res = luid) \<and>
        file_revs b' = (file_revs b)(r_luid res \<mapsto> r_revision res))"
proof (cases "luid = []")
  case False
  then show ?thesis
    using store_ok [OF assms(1-3), of item r b'] assms(4) by (auto simp: File_insertItem_def split: sum.splits)
next
  case True
  obtain b1 where b1: "next_entry (Suc (length (dir_files b))) b = Some b1"
    using next_entry_found [OF assms(1)] by blast
  then obtain c where c: "b1 = b\<lparr>m_entryCounter := c\<rparr>" using next_entry_Some [OF b1] by blast
  let ?e = "show_int (sint (m_entryCounter b1))"
  have "store_item b1 ?e item = (r, b')"
    using assms(4) True b1 by (simp add: File_insertItem_def del: next_entry.simps)
  moreover have "file_inv b1" "file_revs b1 = file_revs b" using assms(1) by (simp_all add: c)
  ultimately show ?thesis
    using store_ok [of b1 ?e item r b'] show_int_no(3) number_case_fresh True by (auto split: sum.splits)
qed

lemma File_remove_ok:
  assumes "file_inv b" and "CHR 0x00 \<notin> set luid" and "File_removeItem b luid = (err, b')"
  shows "file_inv b' \<and> file_revs b' = (if err = None then (file_revs b)(luid := None) else file_revs b)"
proof (cases "dir_writable b \<and> stat_file b luid \<noteq> None")
  case True
  then have b': "err = None" "b' = b\<lparr>dir_files := kerase id luid (dir_files b)\<rparr>"
    using assms(3) c_str_id [OF assms(2)] by (auto simp: File_removeItem_def)
  then have revs: "file_revs b' = (file_revs b)(luid := None)"
    by (auto simp: file_revs_def fun_eq_iff kfind_id [symmetric] kfind_kerase)
  have "length (dir_files b') \<le> length (dir_files b)" by (simp add: b' kerase_def)
  moreover have "case_distinct (dom (file_revs b'))"
    using assms(1) by (auto simp: file_inv_def revs intro: case_distinct_subset)
  ultimately show ?thesis
    using assms(1) by (auto simp: file_inv_def revs b'(1)) (simp add: b'(2))
next
  case False
  then show ?thesis using assms by (auto simp: File_removeItem_def)
qed

interpretation files: item_store file_ops file_inv file_revs "\<lambda>luid. CHR 0x00 \<notin> set luid"
proof (unfold_locales, goal_cases)
  case (1 b R b')
  then show ?case using File_lists by (simp add: file_ops_def)
next
  case (2 b old R b')
  then show ?case using File_lists by (simp add: file_ops_def File_updateAllItems_def)
next
  case (3 b)
  then show ?case by (auto simp: file_inv_def entry_ok_def ran_def) (auto simp: file_revs_def)
next
  case (4 b luid item raw res b')
  then show ?case
    using File_insert_ok [of b luid item raw "Inr res" b']
    by (auto simp: file_ops_def file_inv_def entry_ok_def fun_eq_iff)
next
  case (5 b luid item raw e b')
  then show ?case using File_insert_ok [of b luid item raw "Inl e" b'] by (simp add: file_ops_def)
next
  case (6 b luid err b')
  then show ?case using File_remove_ok by (simp add: file_ops_def)
qed (simp_all add: file_ops_def)

section \<open>Properties\<close>

abbreviation c_luid :: "string \<Rightarrow> bool" where
  "c_luid luid \<equiv> CHR 0x00 \<notin> set luid"


text \<open>A directory with one file, and a source that has never been synchronized.\<close>

abbreviation one_file :: file_source where
  "one_file \<equiv> \<lparr>m_basedir = ''/d'', m_entryCounter = 0,
     dir_files = [(''a'', \<lparr>f_data = ''x'', f_mtime = 7, f_mnsec = 0\<rparr>)], dir_writable = True, dir_now = (9, 5)\<rparr>"

abbreviation fresh_source :: "file_source \<Rightarrow> file_source tracking_source" where
  "fresh_source b \<equiv> TrackingSyncSource (IniHashConfigNode (FileDataBlob ''d'' ''f'' False None)) b"

lemma empty_directory: "file_inv (one_file\<lparr>dir_files := []\<rparr>)" "file_revs (one_file\<lparr>dir_files := []\<rparr>) = Map.empty"
  by (simp_all add: file_inv_def file_revs_def fun_eq_iff dom_def)

lemma one_file_inv: "file_inv one_file" "file_revs one_file = [''a'' \<mapsto> ''7'']"
proof -
  have "getATimeString \<lparr>f_data = ''x'', f_mtime = 7, f_mnsec = 0\<rparr> = ''7''" by code_simp
  then show revs: "file_revs one_file = [''a'' \<mapsto> ''7'']"
    by (auto simp: file_revs_def fun_eq_iff)
  show "file_inv one_file"
    unfolding file_inv_def revs by (simp add: ksorted_Cons entry_ok_def max_entries_def)
qed

lemma meta_new: "tracking_meta new_tracking = Map.empty"
  by (simp add: fun_eq_iff tracking_meta_def tracking_stack_def prefix_rest_def safe_content_def restrict_map_def
      hash_content_def PrefixConfigNode_def SafeConfigNode_def IniHashConfigNode_eq FileDataBlob_def
      hash_parse_def blob_read_def)

lemma fresh_start:
  assumes "file_inv b"
  shows "life_start file_inv file_revs (Idle, Map.empty, fresh_source b)"
  using assms new_tracking meta_new
  by (simp add: life_start_def source_inv_def node_inv_def TrackingSyncSource_def SyncSourceRevisions_def)

lemma one_file_history:
  "(life_step file_ops file_inv file_revs c_luid)\<^sup>*\<^sup>*
     (Idle, Map.empty, fresh_source (one_file\<lparr>dir_files := []\<rparr>)) (Idle, Map.empty, fresh_source one_file)"
  using life_step.external_change [of file_inv one_file Map.empty file_revs file_ops c_luid
      "fresh_source (one_file\<lparr>dir_files := []\<rparr>)"] one_file_inv
  by (intro r_into_rtranclp) (simp add: TrackingSyncSource_def)




text \<open>
  C7: adding an item to a directory that is writable and not full succeeds. The loop finds an
  unused number, so that no existing file is overwritten, the new item can be read back, and
  all other files are as before.
\<close>

theorem File_insert_new:
  assumes "file_inv b" and "dir_writable b" and "length (dir_files b) < max_entries"
  shows "\<exists>res b'. File_insertItem b [] item raw = (Inr res, b') \<and> r_state res = ITEM_OKAY \<and>
    stat_file b (r_luid res) = None \<and> File_readItem b' (r_luid res) = Inr item \<and>
    (\<forall>uid. c_str uid \<noteq> r_luid res \<longrightarrow> stat_file b' uid = stat_file b uid)"
proof -
  obtain b1 where b1: "next_entry (Suc (length (dir_files b))) b = Some b1"
    using next_entry_found [OF assms(1)] by blast
  then obtain c where c: "b1 = b\<lparr>m_entryCounter := c\<rparr>"
      and free: "stat_file b1 (show_int (sint (m_entryCounter b1))) = None"
    using next_entry_Some [OF b1] by blast
  let ?e = "show_int (sint c)"
  have e: "c_str ?e = ?e" "entry_ok ?e" by (simp_all add: c_str_id show_int_no(3) entry_ok_number)
  define b2 where "b2 = b1\<lparr>dir_files := kput id ?e
      \<lparr>f_data = item, f_mtime = fst (dir_now b), f_mnsec = snd (dir_now b)\<rparr> (dir_files b)\<rparr>"
  have wrote: "write_file b1 ?e item = Some b2"
    using assms(2,3) e by (simp add: write_file_def c b2_def)
  have stat: "stat_file b2 uid = (if c_str uid = ?e
      then Some \<lparr>f_data = item, f_mtime = fst (dir_now b), f_mnsec = snd (dir_now b)\<rparr> else stat_file b uid)" for uid
    using e by (auto simp: stat_file_def b2_def kfind_kput)
  have "File_insertItem b [] item raw = store_item b1 ?e item"
    by (simp add: File_insertItem_def b1 c del: next_entry.simps)
  also have "\<dots> = (Inr \<lparr>r_luid = ?e, r_revision = getATimeString (the (stat_file b2 ?e)),
      r_state = ITEM_OKAY, r_continue = None\<rparr>, b2)"
    using wrote stat [of ?e] e by (simp add: store_item_def)
  finally show ?thesis
    using free c stat e by (simp add: File_readItem_def)
qed

theorem File_insert_new_witness:
  "\<exists>res b'. File_insertItem one_file [] ''y'' False = (Inr res, b') \<and> File_readItem b' (r_luid res) = Inr ''y''"
  using File_insert_new [OF one_file_inv(1), of "''y''" False] by (auto simp: max_entries_def)

end
