(* ===== verification/Map_Source.thy ===== *)
theory Map_Source
  imports Tracking_Source
begin

text \<open>
  \<open>MapSyncSource\<close> (src/src/syncevo/MapSyncSource.h and MapSyncSource.cpp): a source on top of
  a source that stores several items under one main ID, such as the recurrences of a calendar
  event. The engine sees one local ID per pair of a main ID and a sub ID. The revisions are kept
  in memory and written to the tracking node at the end of a sync, one encoded entry per main ID.

  The functions of the class \<open>SubSyncSource\<close> are a record of operations over its state.
\<close>

section \<open>Local IDs\<close>

definition m_escape :: string_escape where
  "m_escape = StringEscape_chars SET CHR ''%'' ''/''"

definition createLUID :: "string \<Rightarrow> string \<Rightarrow> string" where
  "createLUID uid subid =
     StringEscape_escape m_escape uid @
     (if subid \<noteq> [] then CHR ''/'' # StringEscape_escape m_escape subid else [])"

definition splitLUID :: "string \<Rightarrow> string \<times> string" where
  "splitLUID luid =
     (case find_char CHR ''/'' luid of
        Some index \<Rightarrow> (StringEscape_unescape m_escape (take index luid),
                       StringEscape_unescape m_escape (drop (index + 1) luid))
      | None \<Rightarrow> (StringEscape_unescape m_escape luid, []))"

lemma unescape_m_escape [simp]: "StringEscape_unescape m_escape (StringEscape_escape m_escape s) = s"
  unfolding m_escape_def by (rule unescape_escape_chars) simp

lemma m_escape_no_slash: "CHR ''/'' \<notin> set (StringEscape_escape m_escape s)"
proof -
  have "CHR ''/'' \<notin> set (esc_seq CHR ''%'' c)" for c
    using set_esc_seq [of "CHR ''%''" "CHR ''/''" c] hexchar_class [of "CHR ''/''"] by auto
  then show ?thesis
    by (auto simp: StringEscape_escape_def m_escape_def StringEscape_chars_def c_str_def)
qed

lemma splitLUID_create: "splitLUID (createLUID uid subid) = (uid, subid)"
proof (cases "subid = []")
  case True
  then show ?thesis
    using find_char_notin [OF m_escape_no_slash, of uid] by (simp add: createLUID_def splitLUID_def)
next
  case False
  then show ?thesis
    using find_char_split [OF m_escape_no_slash, of uid "StringEscape_escape m_escape subid"]
    by (simp add: createLUID_def splitLUID_def)
qed

text \<open>
  A local ID determines the main ID and the sub ID. Splitting a local ID that was created
  from any two strings, with slashes and percent signs or empty, returns them.
\<close>

lemma splitLUID_createLUID: "splitLUID (createLUID uid subid) = (uid, subid)"
  by (rule splitLUID_create)

lemma createLUID_inj [simp]: "createLUID m s = createLUID m' s' \<longleftrightarrow> m = m' \<and> s = s'"
  by (metis prod.inject splitLUID_create)

section \<open>Revision entries\<close>

record sub_entry =
  m_revision :: string
  m_uid :: string
  m_subids :: "string list"

type_synonym sub_map = "(string \<times> sub_entry) list"

text \<open>The value that \<open>endSync\<close> stores for a main ID.\<close>

definition encode_entry :: "sub_entry \<Rightarrow> string" where
  "encode_entry ids =
     ''/'' @ StringEscape_escape m_escape (m_revision ids) @ ''/'' @
     StringEscape_escape m_escape (m_uid ids) @ ''/'' @
     concat (map (\<lambda>subid. StringEscape_escape m_escape subid @ ''/'') (m_subids ids))"

text \<open>The text up to the next slash and what follows it.\<close>

definition next_field :: "string \<Rightarrow> (string \<times> string) option" where
  "next_field s = map_option (\<lambda>pos. (take pos s, drop (pos + 1) s)) (find_char CHR ''/'' s)"

lemma next_field_shorter: "next_field s = Some (a, r) \<Longrightarrow> length r < length s"
  by (auto simp: next_field_def dest!: find_char_SomeD)

function decode_subids :: "string \<Rightarrow> string list \<Rightarrow> string list" where
  "decode_subids s subids =
     (case next_field s of
        None \<Rightarrow> subids
      | Some (subid, rest) \<Rightarrow> decode_subids rest (insort_insert (StringEscape_unescape m_escape subid) subids))"
  by auto
termination
  by (relation "measure (length \<circ> fst)") (auto dest: next_field_shorter)

declare decode_subids.simps [simp del]

definition decode_entry :: "string \<Rightarrow> sub_entry option" where
  "decode_entry value =
     (if find_char CHR ''/'' value = Some 0
      then (case next_field (tl value) of
              None \<Rightarrow> None
            | Some (revision, rest) \<Rightarrow>
                (case next_field rest of
                   None \<Rightarrow> None
                 | Some (uid, rest) \<Rightarrow>
                     Some \<lparr>m_revision = StringEscape_unescape m_escape revision,
                           m_uid = StringEscape_unescape m_escape uid,
                           m_subids = decode_subids rest []\<rparr>))
      else None)"

lemma next_field_escaped: "next_field (StringEscape_escape m_escape s @ CHR ''/'' # r) = Some (StringEscape_escape m_escape s, r)"
  using find_char_split [OF m_escape_no_slash, of s r] by (simp add: next_field_def)

lemma decode_subids_concat:
  "decode_subids (concat (map (\<lambda>subid. StringEscape_escape m_escape subid @ ''/'') xs)) acc =
     fold insort_insert xs acc"
proof (induction xs arbitrary: acc)
  case Nil
  then show ?case by (subst decode_subids.simps) (simp add: next_field_def)
next
  case (Cons x xs)
  then show ?case by (subst decode_subids.simps) (simp add: next_field_escaped)
qed

lemma fold_insort_sorted:
  assumes "sorted_wrt (<) (acc @ xs)"
  shows "fold insort_insert xs acc = acc @ xs"
  using assms
proof (induction xs arbitrary: acc)
  case (Cons x xs)
  have "\<forall>y \<in> set acc. y < x" using Cons.prems by (auto simp: sorted_wrt_append)
  then have "insort_insert x acc = acc @ [x]"
  proof (induction acc)
    case (Cons a acc)
    then show ?case by (auto simp: insort_insert_key_def)
  qed (simp add: insort_insert_key_def)
  then show ?case using Cons.IH [of "acc @ [x]"] Cons.prems by simp
qed simp

lemma decode_encode:
  assumes "sorted_wrt (<) (m_subids ids)"
  shows "decode_entry (encode_entry ids) = Some ids"
  using next_field_escaped decode_subids_concat [of "m_subids ids" "[]"] fold_insort_sorted [of "[]" "m_subids ids"] assms
  by (simp add: decode_entry_def encode_entry_def)

text \<open>
  The revision entries survive being stored: decoding the encoded entry returns the same
  revision, UID and set of sub IDs, whatever characters they contain.
\<close>

lemma revision_entry_roundtrip:
  assumes "sorted_wrt (<) (m_subids ids)"
  shows "decode_entry (encode_entry ids) = Some ids"
  by (rule decode_encode [OF assms])

section \<open>The source\<close>

record sub_result =
  res_mainid :: string
  res_subid :: string
  res_revision :: string
  res_uid :: string
  res_state :: InsertItemResultState

record 'u sub_ops =
  sub_begin :: "'u \<Rightarrow> 'u step"
  sub_endSubSync :: "'u \<Rightarrow> bool \<Rightarrow> 'u step"
  sub_databaseRevision :: "'u \<Rightarrow> string"
  sub_listAllSubItems :: "'u \<Rightarrow> sub_map \<times> 'u"
  sub_updateAllSubItems :: "'u \<Rightarrow> sub_map \<Rightarrow> sub_map \<times> 'u"
  sub_setAllSubItems :: "'u \<Rightarrow> sub_map \<Rightarrow> 'u"
  sub_insertSubItem :: "'u \<Rightarrow> string \<Rightarrow> string \<Rightarrow> string \<Rightarrow> (se_error + sub_result) \<times> 'u"
  sub_readSubItem :: "'u \<Rightarrow> string \<Rightarrow> string \<Rightarrow> se_error + string"
  sub_removeSubItem :: "'u \<Rightarrow> string \<Rightarrow> string \<Rightarrow> (se_error + string) \<times> 'u"
  sub_removeMergedItem :: "'u \<Rightarrow> string \<Rightarrow> 'u step"
  sub_getSubDescription :: "'u \<Rightarrow> string \<Rightarrow> string \<Rightarrow> string"

record 'u map_source =
  ms_changes :: sync_changes
  ms_revisions :: sub_map
  ms_node :: "ini_hash safe_node prefix_node"
  ms_sub :: 'u

text \<open>Reading the stored entries; a corrupt one is skipped.\<close>

definition read_revisions :: "config_props \<Rightarrow> sub_map" where
  "read_revisions props =
     fold (\<lambda>(mainid, v) m. case decode_entry (fst v) of
         Some ids \<Rightarrow> kput id mainid ids m
       | None \<Rightarrow> m) props []"

definition add_items :: "State \<Rightarrow> string \<Rightarrow> string list \<Rightarrow> sync_changes \<Rightarrow> sync_changes" where
  "add_items st mainid subids s = fold (\<lambda>subid s. fst (addItem s (createLUID mainid subid) st)) subids s"

text \<open>The two loops that find the changes between the stored and the current revisions.\<close>

definition add_deleted :: "sub_map \<Rightarrow> sub_map \<Rightarrow> sync_changes \<Rightarrow> sync_changes" where
  "add_deleted old new s =
     fold (\<lambda>(mainid, ids) s.
         if kfind id mainid new = None then add_items DELETED mainid (m_subids ids) s else s) old s"

definition add_changed :: "sub_map \<Rightarrow> sub_map \<Rightarrow> sync_changes \<Rightarrow> sync_changes" where
  "add_changed old new s =
     fold (\<lambda>(mainid, ids) s.
         case kfind id mainid old of
           None \<Rightarrow> add_items NEW mainid (m_subids ids) s
         | Some it \<Rightarrow>
             if m_revision it \<noteq> m_revision ids
             then
               (let s = fold (\<lambda>subid s. if subid \<notin> set (m_subids ids)
                          then fst (addItem s (createLUID mainid subid) DELETED) else s) (m_subids it) s
                in fold (\<lambda>subid s. fst (addItem s (createLUID mainid subid)
                      (if subid \<notin> set (m_subids it) then NEW else UPDATED))) (m_subids ids) s)
             else s) new s"

definition add_any :: "sub_map \<Rightarrow> sync_changes \<Rightarrow> sync_changes" where
  "add_any revisions s = fold (\<lambda>(mainid, ids). add_items ANY mainid (m_subids ids)) revisions s"

definition Map_detectChanges :: "'u sub_ops \<Rightarrow> ChangeMode \<Rightarrow> 'u map_source \<Rightarrow> 'u map_source" where
  "Map_detectChanges sops mode t =
     (let s = fst (reset (ms_changes t));
          old = read_revisions (op_readProperties tracking_ops (ms_node t) []);
          (s, revisions, u) =
            (case mode of
               CHANGES_NONE \<Rightarrow> (s, old, sub_setAllSubItems sops (ms_sub t) old)
             | CHANGES_FULL \<Rightarrow>
                 (let (new, u) = (if old = [] then sub_listAllSubItems sops (ms_sub t)
                                  else sub_updateAllSubItems sops (ms_sub t) old)
                  in (add_changed old new (add_deleted old new s), new, u))
             | CHANGES_SLOW \<Rightarrow> (let (new, u) = sub_listAllSubItems sops (ms_sub t) in (s, new, u)))
      in t\<lparr>ms_changes := add_any revisions s, ms_revisions := revisions, ms_sub := u\<rparr>)"

definition map_with_sub :: "'u map_source \<Rightarrow> 'u step \<Rightarrow> 'u map_source step" where
  "map_with_sub t r = into (\<lambda>u. t\<lparr>ms_sub := u\<rparr>) r"

definition map_with_node :: "'u map_source \<Rightarrow> ini_hash safe_node prefix_node step \<Rightarrow> 'u map_source step" where
  "map_with_node t r = into (\<lambda>n. t\<lparr>ms_node := n\<rparr>) r"

definition Map_beginSync :: "'u sub_ops \<Rightarrow> string \<Rightarrow> string \<Rightarrow> 'u map_source \<Rightarrow> 'u map_source step" where
  "Map_beginSync sops lastToken resumeToken t =
     andThen (map_with_sub t (sub_begin sops (ms_sub t))) (\<lambda>t.
       let token = (if resumeToken \<noteq> [] then resumeToken else lastToken)
       in if token = [] then return (Map_detectChanges sops CHANGES_SLOW t)
          else
            (let oldRevision = metaNode_read (ms_node t)
             in if oldRevision \<noteq> []
                then
                  (let mode = (if sub_databaseRevision sops (ms_sub t) = oldRevision
                               then CHANGES_NONE else CHANGES_FULL)
                   in andThen (map_with_node t (andThen (metaNode_write [] (ms_node t)) metaNode_flush))
                        (\<lambda>t. return (Map_detectChanges sops mode t)))
                else return (Map_detectChanges sops CHANGES_FULL t)))"

definition Map_endSync :: "'u sub_ops \<Rightarrow> bool \<Rightarrow> 'u map_source \<Rightarrow> string \<times> 'u map_source step" where
  "Map_endSync sops success t =
     (''1'',
      andThen (map_with_sub t (sub_endSubSync sops (ms_sub t) success)) (\<lambda>t.
        if success
        then map_with_node t
               (andThen (metaNode_write (sub_databaseRevision sops (ms_sub t)) (ms_node t)) (\<lambda>n.
                andThen (op_clear tracking_ops n) (\<lambda>n.
                andThen (update_loop tracking_ops (map (\<lambda>(mainid, ids). (mainid, encode_entry ids)) (ms_revisions t)) n) (\<lambda>n.
                andThen (op_flush tracking_ops n) metaNode_flush))))
        else return t))"

text \<open>The reference to the entry of a main ID, which is created when it is missing.\<close>

definition entry_at :: "string \<Rightarrow> sub_map \<Rightarrow> sub_entry" where
  "entry_at mainid m =
     (case kfind id mainid m of Some ids \<Rightarrow> ids | None \<Rightarrow> \<lparr>m_revision = [], m_uid = [], m_subids = []\<rparr>)"

definition Map_insertItem ::
  "'u sub_ops \<Rightarrow> string \<Rightarrow> string \<Rightarrow> 'u map_source \<Rightarrow>
   (se_error + string \<times> string \<times> InsertItemResultState) \<times> 'u map_source" where
  "Map_insertItem sops luid item t =
     (let ids = splitLUID luid
      in case sub_insertSubItem sops (ms_sub t) (fst ids) (snd ids) item of
           (Inl e, u) \<Rightarrow> (Inl e, t\<lparr>ms_sub := u\<rparr>)
         | (Inr res, u) \<Rightarrow>
             (let entry = entry_at (res_mainid res) (ms_revisions t);
                  entry = entry\<lparr>m_uid := res_uid res, m_revision := res_revision res,
                                m_subids := insort_insert (res_subid res) (m_subids entry)\<rparr>;
                  revisions = (if res_state res \<noteq> ITEM_NEEDS_MERGE
                               then kput id (res_mainid res) entry (ms_revisions t) else ms_revisions t)
              in (Inr (createLUID (res_mainid res) (res_subid res), res_revision res, res_state res),
                  t\<lparr>ms_revisions := revisions, ms_sub := u\<rparr>)))"

definition Map_readItem :: "'u sub_ops \<Rightarrow> string \<Rightarrow> 'u map_source \<Rightarrow> se_error + string" where
  "Map_readItem sops luid t = (case splitLUID luid of (mainid, subid) \<Rightarrow> sub_readSubItem sops (ms_sub t) mainid subid)"

definition Map_deleteItem :: "'u sub_ops \<Rightarrow> string \<Rightarrow> 'u map_source \<Rightarrow> 'u map_source step" where
  "Map_deleteItem sops luid t =
     (let (mainid, subid) = splitLUID luid
      in case sub_removeSubItem sops (ms_sub t) mainid subid of
           (Inl e, u) \<Rightarrow> throw e (t\<lparr>ms_sub := u\<rparr>)
         | (Inr revision, u) \<Rightarrow>
             return (t\<lparr>ms_sub := u, ms_revisions :=
               (case kfind id mainid (ms_revisions t) of
                  None \<Rightarrow> ms_revisions t
                | Some ids \<Rightarrow>
                    (let subids = removeAll subid (m_subids ids)
                     in if subids = [] then kerase id mainid (ms_revisions t)
                        else kput id mainid (ids\<lparr>m_subids := subids, m_revision := revision\<rparr>) (ms_revisions t)))\<rparr>))"

definition Map_getDescription :: "'u sub_ops \<Rightarrow> string \<Rightarrow> 'u map_source \<Rightarrow> string" where
  "Map_getDescription sops luid t =
     (case splitLUID luid of (mainid, subid) \<Rightarrow> sub_getSubDescription sops (ms_sub t) mainid subid)"

fun remove_merged :: "'u sub_ops \<Rightarrow> sub_map \<Rightarrow> 'u \<Rightarrow> 'u step" where
  "remove_merged sops [] u = return u"
| "remove_merged sops ((mainid, ids) # m) u =
     andThen (sub_removeMergedItem sops u mainid) (remove_merged sops m)"

definition Map_removeAllItems :: "'u sub_ops \<Rightarrow> 'u map_source \<Rightarrow> 'u map_source step" where
  "Map_removeAllItems sops t =
     andThen (map_with_sub t (remove_merged sops (ms_revisions t) (ms_sub t)))
       (\<lambda>t. return (t\<lparr>ms_revisions := []\<rparr>))"

section \<open>Local IDs of a set of revisions\<close>

definition map_wf :: "sub_map \<Rightarrow> bool" where
  "map_wf m \<longleftrightarrow> ksorted id m \<and> (\<forall>(mainid, ids) \<in> set m. sorted_wrt (<) (m_subids ids))"

text \<open>The main ID and sub ID pairs with the revision that they share.\<close>

definition map_revs :: "sub_map \<Rightarrow> string \<times> string \<rightharpoonup> string" where
  "map_revs m = (\<lambda>(mainid, subid). case map_of m mainid of
      Some ids \<Rightarrow> if subid \<in> set (m_subids ids) then Some (m_revision ids) else None
    | None \<Rightarrow> None)"

abbreviation luid_of :: "string \<times> string \<Rightarrow> string" where
  "luid_of p \<equiv> createLUID (fst p) (snd p)"

lemma fold_items:
  assumes "\<And>x s st. x \<in> set xs \<Longrightarrow> set (m_items (F x s) st) = set (m_items s st) \<union> A x st"
  shows "set (m_items (fold F xs s) st) = set (m_items s st) \<union> (\<Union>x \<in> set xs. A x st)"
  using assms by (induction xs arbitrary: s) auto

lemma set_add_items:
  "set (m_items (add_items st' mainid subids s) st) =
     set (m_items s st) \<union> (if st = st' then createLUID mainid ` set subids else {})"
  unfolding add_items_def
  by (subst fold_items [where A = "\<lambda>subid st. if st = st' then {createLUID mainid subid} else {}"])
    (auto simp: set_addItem)

lemma map_revs_Some:
  "map_revs m p = Some r \<longleftrightarrow>
     (\<exists>ids. map_of m (fst p) = Some ids \<and> snd p \<in> set (m_subids ids) \<and> r = m_revision ids)"
  by (auto simp: map_revs_def split_def split: option.splits)

lemma dom_map_revs: "p \<in> dom (map_revs m) \<longleftrightarrow> (\<exists>ids. map_of m (fst p) = Some ids \<and> snd p \<in> set (m_subids ids))"
  by (simp add: dom_def map_revs_Some)

lemma luid_union:
  assumes "ksorted id m"
  shows "(\<Union>x \<in> set m. createLUID (fst x) ` S x) =
    luid_of ` {p. \<exists>ids. map_of m (fst p) = Some ids \<and> snd p \<in> S (fst p, ids)}" (is "?l = ?r")
proof -
  note iff = ksorted_mem_iff [OF assms]
  show ?thesis
  proof (intro equalityI subsetI)
    fix l assume "l \<in> ?l"
    then obtain a ids u where "(a, ids) \<in> set m" "l = createLUID a u" "u \<in> S (a, ids)" by auto
    then show "l \<in> ?r" by (intro image_eqI [of _ _ "(a, u)"]) (auto simp: iff)
  next
    fix l assume "l \<in> ?r"
    then obtain a ids u where "map_of m a = Some ids" "l = createLUID a u" "u \<in> S (a, ids)" by auto
    then show "l \<in> ?l" by (intro UN_I [of "(a, ids)"]) (auto simp: iff)
  qed
qed

lemma set_add_any:
  assumes "ksorted id m"
  shows "set (m_items (add_any m s) st) =
     set (m_items s st) \<union> (if st = ANY then luid_of ` dom (map_revs m) else {})"
proof -
  have "set (m_items (add_any m s) st) = set (m_items s st) \<union>
      (\<Union>x \<in> set m. createLUID (fst x) ` (if st = ANY then set (m_subids (snd x)) else {}))"
    unfolding add_any_def by (rule fold_items) (auto simp: set_add_items)
  moreover have "dom (map_revs m) = {p. \<exists>ids. map_of m (fst p) = Some ids \<and> snd p \<in> set (m_subids ids)}"
    by (rule set_eqI) (simp add: dom_map_revs)
  ultimately show ?thesis unfolding luid_union [OF assms] by simp
qed

lemma set_add_deleted:
  assumes "ksorted id old"
  shows "set (m_items (add_deleted old new s) st) = set (m_items s st) \<union>
     (if st = DELETED then luid_of ` {p \<in> dom (map_revs old). map_of new (fst p) = None} else {})"
proof -
  have "set (m_items (add_deleted old new s) st) = set (m_items s st) \<union>
      (\<Union>x \<in> set old. createLUID (fst x) `
         (if st = DELETED \<and> map_of new (fst x) = None then set (m_subids (snd x)) else {}))"
    unfolding add_deleted_def kfind_id by (rule fold_items) (auto simp: set_add_items split: if_splits)
  moreover have eq: "{p. \<exists>ids. map_of old (fst p) = Some ids \<and> snd p \<in>
        (if st = DELETED \<and> map_of new (fst (fst p, ids)) = None then set (m_subids (snd (fst p, ids))) else {})} =
      (if st = DELETED then {p \<in> dom (map_revs old). map_of new (fst p) = None} else {})"
    by (rule set_eqI) (auto simp: dom_map_revs simp del: domIff split: if_splits)
  ultimately show ?thesis unfolding luid_union [OF assms] eq by simp
qed

text \<open>What \<open>add_changed\<close> adds for one main ID.\<close>

definition changed_of :: "sub_map \<Rightarrow> string \<times> sub_entry \<Rightarrow> State \<Rightarrow> string set" where
  "changed_of old x st =
     (case map_of old (fst x) of
        None \<Rightarrow> if st = NEW then set (m_subids (snd x)) else {}
      | Some it \<Rightarrow>
          if m_revision it = m_revision (snd x) then {}
          else if st = DELETED then set (m_subids it) - set (m_subids (snd x))
          else if st = NEW then set (m_subids (snd x)) - set (m_subids it)
          else if st = UPDATED then set (m_subids (snd x)) \<inter> set (m_subids it) else {})"

lemma set_add_changed:
  "set (m_items (add_changed old new s) st) = set (m_items s st) \<union>
     (\<Union>x \<in> set new. createLUID (fst x) ` changed_of old x st)"
  unfolding add_changed_def kfind_id
proof (rule fold_items)
  fix x s st assume "x \<in> set new"
  obtain a ids where x: "x = (a, ids)" by (cases x)
  have del: "set (m_items (fold (\<lambda>subid s. if subid \<notin> set (m_subids ids)
        then fst (addItem s (createLUID a subid) DELETED) else s) xs s) st) =
      set (m_items s st) \<union> (if st = DELETED then createLUID a ` (set xs - set (m_subids ids)) else {})" for xs s
    by (subst fold_items [where A = "\<lambda>u st. if st = DELETED \<and> u \<notin> set (m_subids ids) then {createLUID a u} else {}"])
      (auto simp: set_addItem)
  have upd: "set (m_items (fold (\<lambda>subid s. fst (addItem s (createLUID a subid)
        (if subid \<notin> set (m_subids it) then NEW else UPDATED))) (m_subids ids) s) st) = set (m_items s st) \<union>
      (if st = NEW then createLUID a ` (set (m_subids ids) - set (m_subids it))
       else if st = UPDATED then createLUID a ` (set (m_subids ids) \<inter> set (m_subids it)) else {})" for it s
    by (subst fold_items [where A = "\<lambda>u st. if st = (if u \<notin> set (m_subids it) then NEW else UPDATED)
          then {createLUID a u} else {}"]) (auto simp: set_addItem)
  show "set (m_items ((case x of (mainid, ids) \<Rightarrow> \<lambda>s.
         case map_of old mainid of
           None \<Rightarrow> add_items NEW mainid (m_subids ids) s
         | Some it \<Rightarrow>
             if m_revision it \<noteq> m_revision ids
             then
               (let s = fold (\<lambda>subid s. if subid \<notin> set (m_subids ids)
                          then fst (addItem s (createLUID mainid subid) DELETED) else s) (m_subids it) s
                in fold (\<lambda>subid s. fst (addItem s (createLUID mainid subid)
                      (if subid \<notin> set (m_subids it) then NEW else UPDATED))) (m_subids ids) s)
             else s) s) st) = set (m_items s st) \<union> createLUID (fst x) ` changed_of old x st"
    by (cases "map_of old a")
      (simp_all add: x changed_of_def set_add_items del upd Let_def)
qed

text \<open>
  With revisions that are consistent, an unchanged revision meaning unchanged sub IDs, the
  changes are the differences between the two maps from local IDs to revisions.
\<close>

definition consistent :: "sub_map \<Rightarrow> sub_map \<Rightarrow> bool" where
  "consistent old new \<longleftrightarrow>
     (\<forall>m ids ids'. map_of old m = Some ids \<and> map_of new m = Some ids' \<and> m_revision ids = m_revision ids' \<longrightarrow>
        set (m_subids ids) = set (m_subids ids'))"

lemma changes_exact:
  assumes "ksorted id old" "ksorted id new" "consistent old new" and "\<And>st. m_items s st = []"
  defines "s' \<equiv> add_changed old new (add_deleted old new s)"
  shows "set (m_items s' NEW) = luid_of ` (dom (map_revs new) - dom (map_revs old))"
    and "set (m_items s' UPDATED) =
      luid_of ` {p \<in> dom (map_revs new) \<inter> dom (map_revs old). map_revs old p \<noteq> map_revs new p}"
    and "set (m_items s' DELETED) = luid_of ` (dom (map_revs old) - dom (map_revs new))"
    and "set (m_items s' ANY) = {}"
proof -
  let ?c = "\<lambda>st. {p. \<exists>ids. map_of new (fst p) = Some ids \<and> snd p \<in> changed_of old (fst p, ids) st}"
  have s': "set (m_items s' st) =
      (if st = DELETED then luid_of ` {p \<in> dom (map_revs old). map_of new (fst p) = None} else {}) \<union> luid_of ` ?c st" for st
    unfolding s'_def set_add_changed set_add_deleted [OF assms(1)] luid_union [OF assms(2)] by (simp add: assms(4))
  have same: "set (m_subids ids) = set (m_subids ids')"
    if "map_of old m = Some ids" "map_of new m = Some ids'" "m_revision ids = m_revision ids'" for m ids ids'
    using assms(3) that unfolding consistent_def by blast
  have "?c ANY = {}" by (auto simp: changed_of_def split: option.splits if_splits)
  then show "set (m_items s' ANY) = {}" by (simp add: s')
  have "?c NEW = dom (map_revs new) - dom (map_revs old)"
  proof (rule set_eqI)
    fix p show "p \<in> ?c NEW \<longleftrightarrow> p \<in> dom (map_revs new) - dom (map_revs old)"
      using same [of "fst p" "the (map_of old (fst p))" "the (map_of new (fst p))"]
      by (cases "map_of old (fst p)"; cases "map_of new (fst p)")
        (auto simp: changed_of_def dom_map_revs simp del: domIff)
  qed
  then show "set (m_items s' NEW) = luid_of ` (dom (map_revs new) - dom (map_revs old))" by (simp add: s')
  have "?c UPDATED = {p \<in> dom (map_revs new) \<inter> dom (map_revs old). map_revs old p \<noteq> map_revs new p}"
  proof (rule set_eqI)
    fix p show "p \<in> ?c UPDATED \<longleftrightarrow> p \<in> {p \<in> dom (map_revs new) \<inter> dom (map_revs old). map_revs old p \<noteq> map_revs new p}"
      by (cases "map_of old (fst p)"; cases "map_of new (fst p)")
        (auto simp: changed_of_def map_revs_def split_def)
  qed
  then show "set (m_items s' UPDATED) =
      luid_of ` {p \<in> dom (map_revs new) \<inter> dom (map_revs old). map_revs old p \<noteq> map_revs new p}" by (simp add: s')
  have "{p \<in> dom (map_revs old). map_of new (fst p) = None} \<union> ?c DELETED = dom (map_revs old) - dom (map_revs new)"
  proof (rule set_eqI)
    fix p show "p \<in> {p \<in> dom (map_revs old). map_of new (fst p) = None} \<union> ?c DELETED \<longleftrightarrow>
        p \<in> dom (map_revs old) - dom (map_revs new)"
      using same [of "fst p" "the (map_of old (fst p))" "the (map_of new (fst p))"]
      by (cases "map_of old (fst p)"; cases "map_of new (fst p)")
        (auto simp: changed_of_def dom_map_revs simp del: domIff)
  qed
  then show "set (m_items s' DELETED) = luid_of ` (dom (map_revs old) - dom (map_revs new))"
    by (simp only: s' image_Un [symmetric] refl if_True)
qed

section \<open>From one sync to the next\<close>

definition encode_all :: "sub_map \<Rightarrow> (string \<times> string) list" where
  "encode_all m = map (\<lambda>(mainid, ids). (mainid, encode_entry ids)) m"

lemma map_of_encode_all: "map_of (encode_all m) k = map_option encode_entry (map_of m k)"
  by (simp add: encode_all_def map_of_map)

lemma fst_encode_all: "map fst (encode_all m) = map fst m" "fst ` set (encode_all m) = fst ` set m"
proof -
  show *: "map fst (encode_all m) = map fst m" by (simp add: encode_all_def split_def)
  show "fst ` set (encode_all m) = fst ` set m" using arg_cong [OF *, of set] by simp
qed

lemma map_wf_find: "map_wf m \<Longrightarrow> map_of m k = Some ids \<Longrightarrow> sorted_wrt (<) (m_subids ids)"
  unfolding map_wf_def by (auto dest!: map_of_SomeD)

lemma read_revisions_loop:
  assumes "distinct (map fst props)"
  shows "map_of (fold (\<lambda>(mainid, v) m. case decode_entry (fst v) of Some ids \<Rightarrow> kput id mainid ids m | None \<Rightarrow> m) props acc) k =
    (case Option.bind (map_of props k) (decode_entry \<circ> fst) of Some ids \<Rightarrow> Some ids | None \<Rightarrow> map_of acc k)"
  using assms
proof (induction props arbitrary: acc)
  case (Cons x props)
  obtain e v b where x: "x = (e, (v, b))" by (cases x)
  have "map_of props e = None" using Cons.prems by (simp add: x map_of_eq_None_iff)
  then show ?case using Cons by (auto simp: x map_of_kput split: option.splits)
qed simp

lemma read_revisions_sorted: "ksorted id (read_revisions props)"
proof -
  have "ksorted id acc \<Longrightarrow> ksorted id (fold (\<lambda>(mainid, v) m. case decode_entry (fst v) of
      Some ids \<Rightarrow> kput id mainid ids m | None \<Rightarrow> m) props acc)" for acc
    by (induction props arbitrary: acc) (simp_all add: split_def split: option.split)
  then show ?thesis by (simp add: read_revisions_def)
qed

text \<open>Reading the node returns the revisions that were stored in it.\<close>

lemma read_revisions_stored:
  assumes "tracking_inv n" and "map_wf m" and "tracking_content n = map_of (encode_all m)"
  shows "read_revisions (op_readProperties tracking_ops n []) = m"
proof (rule ksorted_unique [OF read_revisions_sorted])
  let ?props = "op_readProperties tracking_ops n []"
  note lst = tracking.reads_ok [OF assms(1)]
  have dist: "distinct (map fst ?props)" by (rule lists_map_distinct [OF lst])
  have props: "map_of ?props k = map_option (\<lambda>ids. explicit (encode_entry ids)) (map_of m k)" for k
  proof (cases "map_of m k")
    case None
    then have "k \<notin> fst ` set ?props"
      using lists_map_dom [OF lst] by (simp add: assms(3) map_of_encode_all domIff)
    then have "map_of ?props k = None" by (simp add: map_of_eq_None_iff)
    then show ?thesis by (simp only: None option.map)
  next
    case (Some ids)
    then have "(k, explicit (encode_entry ids)) \<in> set ?props"
      by (intro lists_map_memI [OF lst]) (simp add: assms(3) map_of_encode_all)
    then show ?thesis using Some dist by simp
  qed
  have "map_of (read_revisions ?props) k = map_of m k" for k
  proof (cases "map_of m k")
    case None
    then show ?thesis unfolding read_revisions_def read_revisions_loop [OF dist] by (simp add: props)
  next
    case (Some ids)
    then show ?thesis
      unfolding read_revisions_def read_revisions_loop [OF dist]
      using decode_encode [OF map_wf_find [OF assms(2) Some]] by (simp add: props)
  qed
  then show "map_of (read_revisions ?props) = map_of m" by blast
qed (use assms(2) in \<open>simp add: map_wf_def\<close>)

lemma store_revisions:
  assumes "node_inv n" and "map_wf m" and "case_distinct (fst ` set m)"
  shows "\<exists>n'. andThen (op_clear tracking_ops n) (update_loop tracking_ops (encode_all m)) = (None, n') \<and>
    node_inv n' \<and> tracking_meta n' = tracking_meta n \<and> tracking_content n' = map_of (encode_all m)"
proof -
  have "tracking_inv n \<and> tracking_meta n = tracking_meta n" using assms(1) by (simp add: node_inv_def)
  from tracking_frame.clear_ok [OF this]
  obtain n1 where n1: "op_clear tracking_ops n = (None, n1)" "tracking_inv n1 \<and> tracking_meta n1 = tracking_meta n"
      "tracking_content n1 = Map.empty" by blast
  have "distinct (map fst m)" using assms(2) ksorted_distinct [of id m] by (simp add: map_wf_def)
  then have d: "distinct (map fst (encode_all m))" by (simp add: fst_encode_all)
  have "case_distinct (dom (tracking_content n1) \<union> fst ` set (encode_all m))"
    using assms(3) by (simp add: n1(3) fst_encode_all)
  moreover have "\<forall>(k, v) \<in> set (encode_all m). True \<and> True" by simp
  ultimately obtain n2 where "update_loop tracking_ops (encode_all m) n1 = (None, n2)"
      "tracking_inv n2 \<and> tracking_meta n2 = tracking_meta n" "tracking_content n2 = tracking_content n1 ++ map_of (encode_all m)"
    using tracking_frame.update_loop_ok [OF n1(2) _ d] by blast
  then show ?thesis using n1 assms(1) by (simp add: node_inv_def)
qed

lemma Map_end_ok:
  assumes "node_inv (ms_node t)" and "map_wf (ms_revisions t)" and "case_distinct (fst ` set (ms_revisions t))"
    and "sub_endSubSync sops (ms_sub t) True = (None, u1)"
  shows "\<exists>n. Map_endSync sops True t = (''1'', (None, t\<lparr>ms_sub := u1, ms_node := n\<rparr>)) \<and> node_inv n \<and>
    metaNode_read n = sub_databaseRevision sops u1 \<and> tracking_content n = map_of (encode_all (ms_revisions t))"
proof -
  let ?r = "sub_databaseRevision sops u1"
  obtain n1 where n1: "metaNode_write ?r (ms_node t) = (None, n1)" "node_inv n1"
      "tracking_meta n1 = (tracking_meta (ms_node t))(''databaseRevision'' \<mapsto> ?r)"
    using metaNode_write_ok [OF assms(1)] by blast
  obtain n2 where n2: "andThen (op_clear tracking_ops n1) (update_loop tracking_ops (encode_all (ms_revisions t))) = (None, n2)"
      "node_inv n2" "tracking_meta n2 = tracking_meta n1" "tracking_content n2 = map_of (encode_all (ms_revisions t))"
    using store_revisions [OF n1(2) assms(2,3)] by blast
  obtain n3 where n3: "op_flush tracking_ops n2 = (None, n3)" "node_inv n3" "tracking_meta n3 = tracking_meta n2"
      "tracking_content n3 = tracking_content n2" using node_flush_ok [OF n2(2)] by blast
  obtain n4 where n4: "metaNode_flush n3 = (None, n4)" "node_inv n4" "tracking_content n4 = tracking_content n3"
      "tracking_meta n4 = tracking_meta n3" using metaNode_flush_ok [OF n3(2)] by blast
  obtain nc where nc: "op_clear tracking_ops n1 = (None, nc)"
      "update_loop tracking_ops (encode_all (ms_revisions t)) nc = (None, n2)"
    using n2(1) by (auto simp: andThen_def split: option.splits prod.splits) (metis prod.collapse)+
  have "metaNode_read n4 = ?r"
    using meta_read_ok [of n4] n4(2) by (simp add: node_inv_def n4(4) n3(3) n2(3) n1(3))
  moreover have "Map_endSync sops True t = (''1'', (None, t\<lparr>ms_sub := u1, ms_node := n4\<rparr>))"
    using assms(4) n1(1) nc n3(1) n4(1)
    by (simp add: Map_endSync_def map_with_sub_def map_with_node_def into_def encode_all_def)
  moreover have "tracking_content n4 = map_of (encode_all (ms_revisions t))"
    using n4(3) n3(4) n2(4) by simp
  ultimately show ?thesis using n4(2) by blast
qed

text \<open>What the source reports about the change from one set of revisions to another.\<close>

definition map_reports :: "sync_changes \<Rightarrow> sub_map \<Rightarrow> sub_map \<Rightarrow> bool" where
  "map_reports s old new \<longleftrightarrow>
     set (m_items s ANY) = luid_of ` dom (map_revs new) \<and>
     set (m_items s NEW) = luid_of ` (dom (map_revs new) - dom (map_revs old)) \<and>
     set (m_items s UPDATED) =
       luid_of ` {p \<in> dom (map_revs new) \<inter> dom (map_revs old). map_revs old p \<noteq> map_revs new p} \<and>
     set (m_items s DELETED) = luid_of ` (dom (map_revs old) - dom (map_revs new))"

lemma reset_items: "m_items (fst (reset s)) st = []"
  by (simp add: reset_def)

lemma Map_detect_full:
  assumes "tracking_inv (ms_node t)" and "map_wf old" and "tracking_content (ms_node t) = map_of (encode_all old)"
    and "fst (sub_listAllSubItems sops (ms_sub t)) = new"
    and "\<forall>m. fst (sub_updateAllSubItems sops (ms_sub t) m) = new"
    and "ksorted id new" and "consistent old new"
  shows "ms_revisions (Map_detectChanges sops CHANGES_FULL t) = new \<and>
    map_reports (ms_changes (Map_detectChanges sops CHANGES_FULL t)) old new"
proof -
  have old: "read_revisions (op_readProperties tracking_ops (ms_node t) []) = old"
    by (rule read_revisions_stored [OF assms(1-3)])
  have "ksorted id old" using assms(2) by (simp add: map_wf_def)
  note exact = changes_exact [OF this assms(6,7) reset_items]
  let ?t = "Map_detectChanges sops CHANGES_FULL t"
  have "ms_revisions ?t = new \<and> ms_changes ?t =
      add_any new (add_changed old new (add_deleted old new (fst (reset (ms_changes t)))))"
    using assms(4,5) by (auto simp: Map_detectChanges_def old Let_def split_def)
  then show ?thesis
    using exact by (simp add: map_reports_def set_add_any [OF assms(6)])
qed

lemma Map_detect_none:
  assumes "tracking_inv (ms_node t)" and "map_wf old" and "tracking_content (ms_node t) = map_of (encode_all old)"
  shows "ms_revisions (Map_detectChanges sops CHANGES_NONE t) = old \<and>
    map_reports (ms_changes (Map_detectChanges sops CHANGES_NONE t)) old old"
proof -
  have old: "read_revisions (op_readProperties tracking_ops (ms_node t) []) = old"
    by (rule read_revisions_stored [OF assms(1-3)])
  have "ksorted id old" using assms(2) by (simp add: map_wf_def)
  from set_add_any [OF this] show ?thesis
    by (simp add: Map_detectChanges_def old Let_def map_reports_def reset_items)
qed

text \<open>
  C3: a source with several items per main ID reports exactly what changed between two syncs.
  The revisions stored at the end of a successful sync are the ones that the next sync starts
  from; it reports as new, updated and deleted exactly the local IDs that the other source has
  added, changed and removed since then. This also holds when the unchanged database revision
  lets it skip the comparison.
\<close>

theorem map_sync_exact:
  assumes "node_inv (ms_node t)" and "map_wf (ms_revisions t)" and "case_distinct (fst ` set (ms_revisions t))"
    and "sub_endSubSync sops (ms_sub t) True = (None, u1)" and "sub_begin sops u2 = (None, u3)"
    and "fst (sub_listAllSubItems sops u3) = new" and "\<forall>m. fst (sub_updateAllSubItems sops u3 m) = new"
    and "ksorted id new" and "consistent (ms_revisions t) new"
    and "sub_databaseRevision sops u1 \<noteq> [] \<and> sub_databaseRevision sops u3 = sub_databaseRevision sops u1 \<longrightarrow>
      new = ms_revisions t"
    and "token \<noteq> []"
  shows "\<exists>t1 t2. Map_endSync sops True t = (''1'', (None, t1)) \<and>
    Map_beginSync sops token [] (t1\<lparr>ms_sub := u2\<rparr>) = (None, t2) \<and>
    ms_revisions t2 = new \<and> map_reports (ms_changes t2) (ms_revisions t) new"
proof -
  let ?old = "ms_revisions t"
  obtain n where n: "Map_endSync sops True t = (''1'', (None, t\<lparr>ms_sub := u1, ms_node := n\<rparr>))" "node_inv n"
      "metaNode_read n = sub_databaseRevision sops u1" "tracking_content n = map_of (encode_all ?old)"
    using Map_end_ok [OF assms(1-4)] by blast
  let ?t = "t\<lparr>ms_node := n, ms_sub := u3\<rparr>"
  have "\<exists>t2. Map_beginSync sops token [] (t\<lparr>ms_node := n, ms_sub := u2\<rparr>) = (None, t2) \<and>
    ms_revisions t2 = new \<and> map_reports (ms_changes t2) ?old new"
  proof (cases "metaNode_read n = []")
    case True
    then have "Map_beginSync sops token [] (t\<lparr>ms_node := n, ms_sub := u2\<rparr>) =
        (None, Map_detectChanges sops CHANGES_FULL ?t)"
      using assms(5,11) by (simp add: Map_beginSync_def map_with_sub_def into_def Let_def)
    then show ?thesis
      using Map_detect_full [of ?t ?old sops new] n(2,4) assms by (simp add: node_inv_def)
  next
    case False
    obtain n1 where n1: "metaNode_write [] n = (None, n1)" "node_inv n1" "tracking_content n1 = tracking_content n"
      using metaNode_write_ok [OF n(2)] by blast
    obtain n2 where n2: "metaNode_flush n1 = (None, n2)" "node_inv n2" "tracking_content n2 = tracking_content n1"
      using metaNode_flush_ok [OF n1(2)] by blast
    let ?t2 = "t\<lparr>ms_sub := u3, ms_node := n2\<rparr>"
    let ?mode = "if sub_databaseRevision sops u3 = sub_databaseRevision sops u1 then CHANGES_NONE else CHANGES_FULL"
    have run: "Map_beginSync sops token [] (t\<lparr>ms_node := n, ms_sub := u2\<rparr>) = (None, Map_detectChanges sops ?mode ?t2)"
      using assms(5,11) False n1 n2 n(3)
      by (simp add: Map_beginSync_def map_with_sub_def map_with_node_def into_def Let_def)
    have t2: "tracking_inv (ms_node ?t2)" "tracking_content (ms_node ?t2) = map_of (encode_all ?old)"
      using n2 n1 n by (simp_all add: node_inv_def)
    show ?thesis
    proof (cases "sub_databaseRevision sops u3 = sub_databaseRevision sops u1")
      case True
      then have "new = ?old" using assms(10) False n(3) by simp
      then show ?thesis using run True Map_detect_none [OF t2(1) assms(2) t2(2), of sops] by simp
    next
      case neq: False
      then show ?thesis
        using run Map_detect_full [OF t2(1) assms(2) t2(2), of sops new] assms by simp
    qed
  qed
  then show ?thesis using n(1) by (auto simp: fun_upd_def)
qed

text \<open>A source below that always lists one event with two recurrences and has no database revision.\<close>

definition fixed_sub :: "sub_map \<Rightarrow> unit sub_ops" where
  "fixed_sub m =
     \<lparr>sub_begin = return, sub_endSubSync = (\<lambda>u _. return u), sub_databaseRevision = (\<lambda>_. []),
      sub_listAllSubItems = (\<lambda>u. (m, u)), sub_updateAllSubItems = (\<lambda>u _. (m, u)),
      sub_setAllSubItems = (\<lambda>u _. u), sub_insertSubItem = (\<lambda>u _ _ _. (Inl NullDeref, u)),
      sub_readSubItem = (\<lambda>_ _ _. Inl NullDeref), sub_removeSubItem = (\<lambda>u _ _. (Inl NullDeref, u)),
      sub_removeMergedItem = (\<lambda>u _. return u), sub_getSubDescription = (\<lambda>_ _ _. [])\<rparr>"

abbreviation new_map_source :: "unit map_source" where
  "new_map_source \<equiv> \<lparr>ms_changes = SyncSourceChanges, ms_revisions = [], ms_node = new_tracking, ms_sub = ()\<rparr>"

abbreviation one_event :: sub_map where
  "one_event \<equiv> [(''e'', \<lparr>m_revision = ''1'', m_uid = ''u'', m_subids = [''r1'', ''r2'']\<rparr>)]"

lemma node_inv_new: "node_inv new_tracking"
proof -
  have "tracking_meta new_tracking = Map.empty"
    by (simp add: fun_eq_iff tracking_meta_def tracking_stack_def prefix_rest_def safe_content_def restrict_map_def
        hash_content_def PrefixConfigNode_def SafeConfigNode_def IniHashConfigNode_eq FileDataBlob_def
        hash_parse_def blob_read_def)
  then show ?thesis using new_tracking(1) by (simp add: node_inv_def)
qed

theorem map_sync_exact_witness:
  "\<exists>t1 t2. Map_endSync (fixed_sub one_event) True new_map_source = (''1'', (None, t1)) \<and>
    Map_beginSync (fixed_sub one_event) ''1'' [] (t1\<lparr>ms_sub := ()\<rparr>) = (None, t2) \<and>
    ms_revisions t2 = one_event \<and> map_reports (ms_changes t2) [] one_event"
  using map_sync_exact [of new_map_source "fixed_sub one_event" "()" "()" "()" one_event "''1''"] node_inv_new
  by (simp add: fixed_sub_def map_wf_def consistent_def ksorted_Cons)

section \<open>Own changes\<close>

lemma map_wf_iff:
  "map_wf m \<longleftrightarrow> ksorted id m \<and> (\<forall>k ids. map_of m k = Some ids \<longrightarrow> sorted_wrt (<) (m_subids ids))"
  using map_wf_find [of m] ksorted_mem_iff [of m] by (auto simp: map_wf_def)

lemma map_wf_kput: "map_wf m \<Longrightarrow> sorted_wrt (<) (m_subids ids) \<Longrightarrow> map_wf (kput id k ids m)"
  by (simp add: map_wf_iff map_of_kput)

lemma map_wf_kerase: "map_wf m \<Longrightarrow> map_wf (kerase id k m)"
  by (simp add: map_wf_iff map_of_kerase)

lemma Map_insert_ok:
  assumes "map_wf (ms_revisions t)"
    and "Map_insertItem sops luid item t = (Inr (new_luid, revision, state), t')" and "state \<noteq> ITEM_NEEDS_MERGE"
  shows "map_wf (ms_revisions t') \<and>
    (\<exists>mainid subid. new_luid = createLUID mainid subid \<and>
      dom (map_revs (ms_revisions t')) = insert (mainid, subid) (dom (map_revs (ms_revisions t))) \<and>
      map_revs (ms_revisions t') (mainid, subid) = Some revision)"
proof -
  obtain res u where res: "sub_insertSubItem sops (ms_sub t) (fst (splitLUID luid)) (snd (splitLUID luid)) item = (Inr res, u)"
      "new_luid = createLUID (res_mainid res) (res_subid res)" "revision = res_revision res" "state = res_state res"
    using assms(2) by (auto simp: Map_insertItem_def Let_def split: prod.splits sum.splits)
  let ?m = "ms_revisions t" and ?id = "res_mainid res"
  let ?e = "(entry_at ?id ?m)\<lparr>m_uid := res_uid res, m_revision := res_revision res,
    m_subids := insort_insert (res_subid res) (m_subids (entry_at ?id ?m))\<rparr>"
  have t': "ms_revisions t' = kput id ?id ?e ?m"
    using assms(2,3) res by (auto simp: Map_insertItem_def Let_def)
  have "sorted_wrt (<) (m_subids (entry_at ?id ?m))"
    using assms(1) by (auto simp: entry_at_def kfind_id map_wf_iff split: option.splits)
  then have "sorted_wrt (<) (m_subids ?e)"
    by (simp add: strict_sorted_iff sorted_insort_insert distinct_insort_insert)
  then have "map_wf (ms_revisions t')" unfolding t' by (rule map_wf_kput [OF assms(1)])
  moreover have "dom (map_revs (ms_revisions t')) = insert (?id, res_subid res) (dom (map_revs ?m))"
  proof (rule set_eqI)
    fix p show "p \<in> dom (map_revs (ms_revisions t')) \<longleftrightarrow> p \<in> insert (?id, res_subid res) (dom (map_revs ?m))"
      by (cases p; cases "map_of ?m ?id")
        (auto simp: dom_map_revs t' map_of_kput entry_at_def kfind_id set_insort_insert simp del: domIff)
  qed
  moreover have "map_revs (ms_revisions t') (?id, res_subid res) = Some revision"
    by (simp add: map_revs_Some t' map_of_kput set_insort_insert res(3))
  ultimately show ?thesis using res(2) by blast
qed

lemma Map_delete_ok:
  assumes "map_wf (ms_revisions t)" and "Map_deleteItem sops (createLUID mainid subid) t = (None, t')"
  shows "map_wf (ms_revisions t') \<and>
    dom (map_revs (ms_revisions t')) = dom (map_revs (ms_revisions t)) - {(mainid, subid)}"
proof -
  let ?m = "ms_revisions t"
  obtain revision u where "sub_removeSubItem sops (ms_sub t) mainid subid = (Inr revision, u)"
    using assms(2) by (auto simp: Map_deleteItem_def splitLUID_create split: prod.splits sum.splits)
  then have t': "ms_revisions t' = (case map_of ?m mainid of None \<Rightarrow> ?m
      | Some ids \<Rightarrow> if removeAll subid (m_subids ids) = [] then kerase id mainid ?m
          else kput id mainid (ids\<lparr>m_subids := removeAll subid (m_subids ids), m_revision := revision\<rparr>) ?m)"
    using assms(2) by (auto simp: Map_deleteItem_def splitLUID_create kfind_id Let_def split: option.splits)
  show ?thesis
  proof (cases "map_of ?m mainid")
    case None
    then show ?thesis using assms(1) t' by (auto simp: dom_map_revs simp del: domIff)
  next
    case (Some ids)
    have "sorted_wrt (<) (removeAll subid (m_subids ids))"
      using assms(1) Some by (auto simp: map_wf_iff removeAll_filter_not_eq sorted_wrt_filter)
    then have "map_wf (ms_revisions t')"
      using t' Some map_wf_kput [OF assms(1)] map_wf_kerase [OF assms(1)] by simp
    moreover have "dom (map_revs (ms_revisions t')) = dom (map_revs ?m) - {(mainid, subid)}"
    proof (rule set_eqI)
      have none: "removeAll subid xs = [] \<longleftrightarrow> set xs \<subseteq> {subid}" for xs
        by (auto simp: removeAll_filter_not_eq filter_empty_conv)
      fix p show "p \<in> dom (map_revs (ms_revisions t')) \<longleftrightarrow> p \<in> dom (map_revs ?m) - {(mainid, subid)}"
        by (cases p) (auto simp: dom_map_revs t' Some map_of_kput map_of_kerase none simp del: domIff)
    qed
    ultimately show ?thesis by blast
  qed
qed



end
