(* ===== verification/Source_Admin.thy ===== *)
theory Source_Admin
  imports Kv_Node Util_Misc
begin

text \<open>
  \<open>SyncSourceAdmin\<close> (src/src/syncevo/SyncSource.cpp): the storage of the administrative data
  and of the map of local to remote IDs that the synchronization engine keeps per source when
  it acts as server. The map items of the engine are the struct \<open>MapID\<close> of its interface, which
  is used here with its four fields; the string fields may be null pointers.

  The two nodes are arguments, each with the operations of its class.
\<close>

section \<open>Map items as entries of a node\<close>

record map_id =
  localID :: "string option"
  remoteID :: "string option"
  flags :: int
  ident :: int

text \<open>\<open>%x\<close> of an \<open>int\<close>.\<close>

definition percent_x :: "int \<Rightarrow> string" where
  "percent_x i = hexdigits (nat (i mod 2 ^ 32))"

definition mapid2entry :: "map_id \<Rightarrow> string \<times> string" where
  "mapid2entry mID =
     (let local = (case localID mID of Some s \<Rightarrow> s | None \<Rightarrow> []);
          remote = (case remoteID mID of Some s \<Rightarrow> s | None \<Rightarrow> [])
      in (c_str (escape local CHR ''!'' INI_WORD) @ ''-'' @ percent_x (ident mID),
          if remote \<noteq> []
          then c_str (escape remote CHR ''!'' INI_WORD) @ '' '' @ percent_x (flags mID)
          else percent_x (flags mID)))"

definition entry2mapid :: "string \<Rightarrow> string \<Rightarrow> map_id" where
  "entry2mapid key value =
     (let found = rfind_char CHR ''-'' key;
          local = (case found of Some i \<Rightarrow> take i key | None \<Rightarrow> key);
          tokens = split_at (\<lambda>c. c = CHR '' '') value
      in \<lparr>localID = Some (c_str (unescape local CHR ''!'')),
          remoteID = (if 2 \<le> length tokens then Some (c_str (unescape (tokens ! 0) CHR ''!'')) else None),
          flags = strtol16 (tokens ! (if 2 \<le> length tokens then 1 else 0)),
          ident = (case found of Some i \<Rightarrow> strtol16 (drop (i + 1) key) | None \<Rightarrow> 0)\<rparr>)"

lemma hexchar_hexdigits: "c \<in> set (hexdigits n) \<Longrightarrow> hexchar c"
proof (induction n rule: hexdigits.induct)
  case (1 n)
  show ?case
  proof (cases "n < 16")
    case True
    then show ?thesis using "1.prems" by (subst (asm) hexdigits.simps) auto
  next
    case False
    then show ?thesis using 1 by (subst (asm) hexdigits.simps) auto
  qed
qed

lemma hexdigits_nonempty [simp]: "hexdigits n \<noteq> []"
  by (subst hexdigits.simps) simp

lemma hexval_hexdigit_mod: "hexval (hexdigit n) = Some (n mod 16)"
  using hexval_hexdigit [of "n mod 16"] by simp

lemma hexnum_hexdigits: "hexnum (hexdigits n) = n"
proof (induction n rule: hexdigits.induct)
  case (1 n)
  then show ?case by (subst hexdigits.simps) (auto simp: hexnum_def hexval_hexdigit_mod)
qed

lemma hexval_hexchar: "hexchar c \<Longrightarrow> hexval c \<noteq> None"
  by (auto simp: hexchar_def hexval_def isdigit_code ccode_def)

lemma strtol16_hexdigits:
  assumes "n < 2 ^ 32"
  shows "strtol16 (hexdigits n) = int n"
proof -
  have hex: "hexchar c" if "c \<in> set (hexdigits n)" for c using hexchar_hexdigits [OF that] .
  note cls = hexchar_class [OF hex]
  have c: "c_str (hexdigits n) = hexdigits n"
    using cls by (auto simp: c_str_def takeWhile_eq_all_conv)
  have h: "\<not> isspace (hd (hexdigits n))" "hd (hexdigits n) \<noteq> CHR ''-''" "hd (hexdigits n) \<noteq> CHR ''+''"
    using cls [OF hd_in_set [OF hexdigits_nonempty]] by auto
  have x: "CHR ''x'' \<notin> set (hexdigits n)" "CHR ''X'' \<notin> set (hexdigits n)" using cls by auto
  have no_prefix: "\<not> starts_with (hexdigits n) ''0x''" "\<not> starts_with (hexdigits n) ''0X''"
    using x by (auto simp: starts_with_iff)
  have all: "takeWhile (\<lambda>c. \<exists>y. hexval c = Some y) (hexdigits n) = hexdigits n"
    using hexval_hexchar [OF hex] by (simp add: takeWhile_eq_all_conv)
  have "int n < 2 ^ 63" using assms by simp
  then show ?thesis
    using h no_prefix
    by (simp add: strtol16_def c dropWhile_hd Let_def all hexnum_hexdigits min_def)
qed

lemma percent_x_back: "0 \<le> i \<Longrightarrow> i < 2 ^ 32 \<Longrightarrow> strtol16 (percent_x i) = i"
  by (simp add: percent_x_def strtol16_hexdigits nat_less_iff)

lemma percent_x_chars: "c \<in> set (percent_x i) \<Longrightarrow> c \<noteq> CHR ''-'' \<and> c \<noteq> CHR '' ''"
  using hexchar_class [of c] hexchar_hexdigits [of c] by (auto simp: percent_x_def isspace_def)

lemma esc_loop_mem:
  "e \<noteq> CHR 0x00 \<Longrightarrow> x \<in> set (esc_loop e m l s) \<Longrightarrow>
     x = e \<or> hexchar x \<or> (\<exists>l. esc_keep e m l x) \<and> x \<in> set s"
  by (induction s arbitrary: l) (auto dest: set_esc_seq split: if_splits)

lemma escape_word_chars:
  assumes "CHR 0x00 \<notin> set s"
  shows "c_str (escape s CHR ''!'' INI_WORD) = escape s CHR ''!'' INI_WORD"
    and "CHR '' '' \<notin> set (escape s CHR ''!'' INI_WORD)"
proof -
  have "c \<noteq> CHR 0x00 \<and> c \<noteq> CHR '' ''" if "c \<in> set (escape s CHR ''!'' INI_WORD)" for c
  proof -
    have "c = CHR ''!'' \<or> hexchar c \<or> (\<exists>l. esc_keep CHR ''!'' INI_WORD l c) \<and> c \<in> set s"
      using esc_loop_mem [of "CHR ''!''" c INI_WORD True s] that by (simp add: escape_def Let_def)
    moreover have "\<not> esc_keep CHR ''!'' INI_WORD l CHR '' ''" for l by (simp add: esc_keep_def isspace_def)
    moreover have "\<not> hexchar CHR '' ''" "\<not> hexchar CHR 0x00" by (simp_all add: hexchar_def)
    ultimately show ?thesis using assms by auto
  qed
  then show "c_str (escape s CHR ''!'' INI_WORD) = escape s CHR ''!'' INI_WORD"
    and "CHR '' '' \<notin> set (escape s CHR ''!'' INI_WORD)"
    by (auto simp: c_str_def takeWhile_eq_all_conv)
qed

lemma c_str_clean: "CHR 0x00 \<notin> set s \<Longrightarrow> c_str s = s"
  by (auto simp: c_str_def takeWhile_eq_all_conv)

lemma split_space:
  assumes "CHR '' '' \<notin> set a"
  shows "split_at (\<lambda>c. c = CHR '' '') (a @ CHR '' '' # b) = a # split_at (\<lambda>c. c = CHR '' '') b"
  using assms by (induction a) auto

text \<open>The map items that the engine stores: C strings, and numbers of at most 32 bits.\<close>

definition map_id_ok :: "map_id \<Rightarrow> bool" where
  "map_id_ok mID \<longleftrightarrow>
     (\<exists>l. localID mID = Some l \<and> CHR 0x00 \<notin> set l) \<and>
     (\<forall>r. remoteID mID = Some r \<longrightarrow> r \<noteq> [] \<and> CHR 0x00 \<notin> set r) \<and>
     0 \<le> flags mID \<and> flags mID < 2 ^ 32 \<and> 0 \<le> ident mID \<and> ident mID < 2 ^ 32"

lemma entry_mapid:
  assumes "map_id_ok mID"
  shows "entry2mapid (fst (mapid2entry mID)) (snd (mapid2entry mID)) = mID"
proof -
  obtain l where l: "localID mID = Some l" "CHR 0x00 \<notin> set l" using assms by (auto simp: map_id_ok_def)
  have num: "strtol16 (percent_x (flags mID)) = flags mID" "strtol16 (percent_x (ident mID)) = ident mID"
    using assms by (simp_all add: map_id_ok_def percent_x_back)
  let ?e = "\<lambda>s. escape s CHR ''!'' INI_WORD"
  have un: "unescape (?e s) CHR ''!'' = s" for s by (simp add: unescape_escape_static)
  have key: "fst (mapid2entry mID) = ?e l @ CHR ''-'' # percent_x (ident mID)"
    by (simp add: mapid2entry_def l escape_word_chars(1) Let_def)
  have found: "rfind_char CHR ''-'' (fst (mapid2entry mID)) = Some (length (?e l))"
    unfolding key by (rule rfind_char_split) (use percent_x_chars in blast)
  have one: "split_at (\<lambda>c. c = CHR '' '') (percent_x i) = [percent_x i]" for i
    by (rule split_at_none) (use percent_x_chars in blast)
  show ?thesis
  proof (cases "remoteID mID")
    case None
    then have "snd (mapid2entry mID) = percent_x (flags mID)" by (simp add: mapid2entry_def)
    then show ?thesis
      unfolding entry2mapid_def Let_def found
      using None l by (simp add: key un c_str_clean num one)
  next
    case (Some r)
    then have r: "r \<noteq> []" "CHR 0x00 \<notin> set r" using assms by (auto simp: map_id_ok_def)
    have "snd (mapid2entry mID) = ?e r @ CHR '' '' # percent_x (flags mID)"
      by (simp add: mapid2entry_def Some r escape_word_chars(1) [OF r(2)] Let_def)
    then have "split_at (\<lambda>c. c = CHR '' '') (snd (mapid2entry mID)) = [?e r, percent_x (flags mID)]"
      using split_space [OF escape_word_chars(2) [OF r(2)]] one by simp
    then show ?thesis
      unfolding entry2mapid_def Let_def found
      using Some r l by (simp add: key un c_str_clean num)
  qed
qed

text \<open>
  A map item survives being stored in a node: converting it to a key and a value and back
  returns the same local ID, remote ID, flags and kind, whatever characters the IDs contain.
\<close>

lemma map_item_roundtrip:
  assumes "map_id_ok mID"
  shows "entry2mapid (fst (mapid2entry mID)) (snd (mapid2entry mID)) = mID"
  by (rule entry_mapid [OF assms])

section \<open>The storage\<close>

datatype TSyError = LOCERR_OK | DB_Forbidden

text \<open>The iterator is the key that it points to, \<open>None\<close> at the end of the map.\<close>

record ('c, 'm) source_admin =
  m_configNode :: 'c
  m_adminPropertyName :: string
  m_mappingNode :: 'm
  m_mappingLoaded :: bool
  m_mapping :: config_props
  m_mappingIterator :: "string option"

definition SyncSourceAdmin_init :: "'c \<Rightarrow> string \<Rightarrow> 'm \<Rightarrow> ('c, 'm) source_admin" where
  "SyncSourceAdmin_init config adminPropertyName mapping =
     \<lparr>m_configNode = config, m_adminPropertyName = adminPropertyName, m_mappingNode = mapping,
      m_mappingLoaded = False, m_mapping = [], m_mappingIterator = None\<rparr>"

definition has_map_items :: "'m node_ops \<Rightarrow> 'm \<Rightarrow> bool" where
  "has_map_items mops mapping \<longleftrightarrow> \<not> op_isVolatile mops mapping"

fun first_key :: "config_props \<Rightarrow> string option" where
  "first_key [] = None"
| "first_key ((k, v) # props) = Some k"

definition resetMap :: "'m node_ops \<Rightarrow> ('c, 'm) source_admin \<Rightarrow> ('c, 'm) source_admin" where
  "resetMap mops a =
     (let mapping = op_readProperties mops (m_mappingNode a) []
      in a\<lparr>m_mapping := mapping, m_mappingIterator := first_key mapping, m_mappingLoaded := True\<rparr>)"

definition loadAdminData ::
  "'c node_ops \<Rightarrow> 'm node_ops \<Rightarrow> ('c, 'm) source_admin \<Rightarrow> string \<times> ('c, 'm) source_admin" where
  "loadAdminData cops mops a =
     (c_str (unescape (fst (op_readProperty cops (m_configNode a) (m_adminPropertyName a))) CHR ''!''), resetMap mops a)"

definition Admin_flush ::
  "'c node_ops \<Rightarrow> 'm node_ops \<Rightarrow> ('c, 'm) source_admin \<Rightarrow> ('c, 'm) source_admin step" where
  "Admin_flush cops mops a =
     andThen (into (\<lambda>c. a\<lparr>m_configNode := c\<rparr>) (op_flush cops (m_configNode a)))
       (\<lambda>a. if m_mappingLoaded a
            then into (\<lambda>m. a\<lparr>m_mappingNode := m\<rparr>)
                   (andThen (op_clear mops (m_mappingNode a)) (\<lambda>m.
                    andThen (op_writeProperties mops m (m_mapping a)) (op_flush mops)))
            else return a)"

definition saveAdminData ::
  "'c node_ops \<Rightarrow> 'm node_ops \<Rightarrow> string \<Rightarrow> ('c, 'm) source_admin \<Rightarrow> ('c, 'm) source_admin step" where
  "saveAdminData cops mops adminData a =
     andThen (into (\<lambda>c. a\<lparr>m_configNode := c\<rparr>)
         (setProperty cops (m_configNode a) (m_adminPropertyName a) (explicit (escape adminData CHR ''!'' INI_VALUE))))
       (Admin_flush cops mops)"

definition readNextMapItem ::
  "'m node_ops \<Rightarrow> bool \<Rightarrow> ('c, 'm) source_admin \<Rightarrow> map_id option \<times> ('c, 'm) source_admin" where
  "readNextMapItem mops aFirst a =
     (let a = (if aFirst then resetMap mops a else a)
      in case m_mappingIterator a of
           None \<Rightarrow> (None, a)
         | Some key \<Rightarrow>
             (map_option (\<lambda>v. entry2mapid key (fst v)) (nc_find key (m_mapping a)),
              a\<lparr>m_mappingIterator := first_key (filter (\<lambda>(k, v). nocase_less key k) (m_mapping a))\<rparr>))"

definition insertMapItem :: "map_id \<Rightarrow> ('c, 'm) source_admin \<Rightarrow> TSyError \<times> ('c, 'm) source_admin" where
  "insertMapItem mID a =
     (case mapid2entry mID of (key, val) \<Rightarrow> (LOCERR_OK, a\<lparr>m_mapping := nc_put key (explicit val) (m_mapping a)\<rparr>))"

definition updateMapItem :: "map_id \<Rightarrow> ('c, 'm) source_admin \<Rightarrow> TSyError \<times> ('c, 'm) source_admin" where
  "updateMapItem mID a =
     (case mapid2entry mID of (key, val) \<Rightarrow>
        if nc_find key (m_mapping a) = None then (DB_Forbidden, a)
        else (LOCERR_OK, a\<lparr>m_mapping := nc_put key (explicit val) (m_mapping a)\<rparr>))"

definition deleteMapItem :: "map_id \<Rightarrow> ('c, 'm) source_admin \<Rightarrow> TSyError \<times> ('c, 'm) source_admin" where
  "deleteMapItem mID a =
     (case mapid2entry mID of (key, val) \<Rightarrow>
        if nc_find key (m_mapping a) = None then (DB_Forbidden, a)
        else (LOCERR_OK, a\<lparr>m_mapping := kerase nocase_key key (m_mapping a)\<rparr>))"

section \<open>The map survives\<close>

text \<open>A map whose entries can be written to the file of an \<open>IniHashConfigNode\<close>.\<close>

definition mapping_ok :: "config_props \<Rightarrow> bool" where
  "mapping_ok m \<longleftrightarrow> nc_sorted m \<and> (\<forall>(k, v) \<in> set m. ini_key k \<and> ini_trimmed (fst v) \<and> wasSet v)"

lemma nc_sorted_case_distinct: "nc_sorted m \<Longrightarrow> case_distinct (fst ` set m)"
  using ksorted_distinct [of nocase_key m] by (auto simp: distinct_map inj_on_def)

lemma nc_sorted_distinct: "nc_sorted m \<Longrightarrow> distinct (map fst m)"
  using ksorted_distinct [of nocase_key m] by (metis distinct_map map_map)

lemma lists_map_unique:
  assumes "lists_map xs m" and "lists_map ys m"
  shows "xs = ys"
proof (rule map_sorted_distinct_set_unique)
  let ?f = "nocase_key \<circ> fst"
  have srt: "nc_sorted xs" "nc_sorted ys" using assms by (simp_all add: lists_map_def)
  show "sorted (map ?f xs)" "sorted (map ?f ys)" "distinct (map ?f xs)" "distinct (map ?f ys)"
    using srt by (simp_all add: ksorted_def strict_sorted_iff)
  show "set xs = set ys" using assms by (auto simp: lists_map_def)
  then show "inj_on ?f (set xs \<union> set ys)"
    using \<open>distinct (map ?f xs)\<close> by (simp add: distinct_map)
qed

text \<open>The content of a node after \<open>clear\<close> and \<open>writeProperties\<close>.\<close>

lemma kinsert_fold:
  assumes "distinct (map fst m)" and "fst ` set m \<inter> fst ` set acc = {}"
  shows "map_of (fold (\<lambda>(k, v). kinsert id k (fst v)) m acc) = map_of acc ++ (\<lambda>k. map_option fst (map_of m k))"
  using assms
proof (induction m arbitrary: acc)
  case Nil
  then show ?case by (simp add: map_add_def fun_eq_iff)
next
  case (Cons x m)
  obtain a v where x: "x = (a, v)" by (cases x)
  have new: "map_of acc a = None" "map_of m a = None"
    using Cons.prems by (auto simp: x map_of_eq_None_iff)
  have put: "kinsert id a (fst v) acc = kput id a (fst v) acc" by (simp add: kinsert_def kfind_id new)
  have keys: "fst ` set (kput id a (fst v) acc) = insert a (fst ` set acc)"
    by (simp only: dom_map_of_conv_image_fst [symmetric]) (simp add: dom_def map_of_kput set_eq_iff)
  have "fst ` set m \<inter> fst ` set (kput id a (fst v) acc) = {}" "distinct (map fst m)"
    using Cons.prems by (auto simp: x keys)
  note IH = Cons.IH [OF this(2,1)]
  show ?case
  proof
    fix k
    have "map_of (fold (\<lambda>(k, v). kinsert id k (fst v)) (x # m) acc) k =
        (map_of (kput id a (fst v) acc) ++ (\<lambda>k. map_option fst (map_of m k))) k"
      by (simp add: x put IH)
    also have "\<dots> = (map_of acc ++ (\<lambda>k. map_option fst (map_of (x # m) k))) k"
      using new by (cases "k = a") (simp_all add: map_add_def map_of_kput x split: option.split)
    finally show "map_of (fold (\<lambda>(k, v). kinsert id k (fst v)) (x # m) acc) k =
        (map_of acc ++ (\<lambda>k. map_option fst (map_of (x # m) k))) k" .
  qed
qed

lemma hash_wf_kinserts:
  "hash_wf acc \<Longrightarrow> \<forall>(k, v) \<in> set m. ini_key k \<and> ini_trimmed (fst v) \<Longrightarrow>
     hash_wf (fold (\<lambda>(k, v). kinsert id k (fst v)) m acc)"
  by (induction m arbitrary: acc) (auto simp: hash_wf_kinsert)

lemma store_mapping:
  assumes "hash_inv n" and "mapping_ok m"
  shows "hash_inv (IniHash_writeProperties (IniHash_clear n) m)"
    and "lists_map m (hash_content (IniHash_writeProperties (IniHash_clear n) m))"
proof -
  let ?n = "IniHash_writeProperties (IniHash_clear n) m"
  have srt: "nc_sorted m" using assms(2) by (simp add: mapping_ok_def)
  have empty: "m_props (IniHash_clear n) = []" by (simp add: IniHash_clear_def)
  have props: "m_props ?n = fold (\<lambda>(k, v). kinsert id k (fst v)) m []"
    by (simp add: IniHash_writeProperties_def empty)
  have content: "hash_content ?n = (\<lambda>k. map_option fst (map_of m k))"
    using kinsert_fold [OF nc_sorted_distinct [OF srt], of "[]"] by (simp add: hash_content_def props)
  have mem: "(k, v) \<in> set m \<longleftrightarrow> map_of m k = Some v" for k v
    using map_of_eq_Some_iff [OF nc_sorted_distinct [OF srt]] by simp
  show "lists_map m (hash_content ?n)"
    using assms(2) unfolding lists_map_def mapping_ok_def content
    by (auto simp: mem [symmetric])
  have "dom (hash_content ?n) = fst ` set m"
    by (auto simp: content dom_def map_of_eq_None_iff)
  then have "case_distinct (dom (hash_content ?n))" using nc_sorted_case_distinct [OF srt] by simp
  moreover have "IniHash_inv ?n"
  proof (cases "m = []")
    case True
    then show ?thesis using assms(1) by (simp add: IniHash_writeProperties_def hash_inv_def IniHash_inv_ops)
  next
    case False
    have "hash_wf (m_props ?n)"
      unfolding props using assms(2) by (intro hash_wf_kinserts) (auto simp: hash_wf_def mapping_ok_def)
    then show ?thesis using False by (simp add: IniHash_inv_def IniHash_writeProperties_def)
  qed
  ultimately show "hash_inv ?n"
    using assms(1) by (simp add: hash_inv_def IniHash_writeProperties_def IniHash_clear_def)
qed

lemma Admin_flush_ok:
  assumes "hash_inv (m_mappingNode a)" and "mapping_ok (m_mapping a)" and "m_mappingLoaded a"
    and "op_flush cops (m_configNode a) = (None, c)"
  shows "\<exists>n. Admin_flush cops ini_hash_ops a = (None, a\<lparr>m_configNode := c, m_mappingNode := n\<rparr>) \<and>
    IniHashConfigNode (m_data n) = n \<and> IniHash_readProperties n [] = m_mapping a"
proof -
  let ?n = "IniHash_writeProperties (IniHash_clear (m_mappingNode a)) (m_mapping a)"
  note st = store_mapping [OF assms(1,2)]
  have inv: "IniHash_inv ?n" "blob_writable (m_data ?n)" using st(1) by (simp_all add: hash_inv_def)
  obtain n where n: "IniBase_flush IniHash_toFile ?n = (None, n)" "m_props n = m_props ?n"
      "IniHashConfigNode (m_data n) = n"
    using IniHash_inv_flush [OF inv] by blast
  have "lists_map (IniHash_readProperties ?n []) (hash_content ?n)"
    using hash.reads_ok [OF st(1)] by (simp add: ini_hash_ops_def)
  then have "IniHash_readProperties ?n [] = m_mapping a" using st(2) by (rule lists_map_unique)
  then have "IniHash_readProperties n [] = m_mapping a" by (simp add: IniHash_readProperties_def n(2))
  moreover have "Admin_flush cops ini_hash_ops a = (None, a\<lparr>m_configNode := c, m_mappingNode := n\<rparr>)"
    using n(1) assms(3,4) by (simp add: Admin_flush_def into_def ini_hash_ops_def)
  ultimately show ?thesis using n(3) by blast
qed

text \<open>
  C9: the map survives from one session to the next. After the map was loaded and changed by
  any number of operations, flushing it and loading it again from the stored file gives the
  same map, for entries that can be represented in the file.
\<close>

theorem admin_map_survives:
  assumes "hash_inv (m_mappingNode a)" and "mapping_ok (m_mapping a)" and "m_mappingLoaded a"
    and "op_flush cops (m_configNode a) = (None, c)"
  shows "\<exists>a'. Admin_flush cops ini_hash_ops a = (None, a') \<and>
    m_mapping (resetMap ini_hash_ops
      (SyncSourceAdmin_init c (m_adminPropertyName a) (IniHashConfigNode (m_data (m_mappingNode a'))))) = m_mapping a"
proof -
  obtain n where "Admin_flush cops ini_hash_ops a = (None, a\<lparr>m_configNode := c, m_mappingNode := n\<rparr>)"
      "IniHashConfigNode (m_data n) = n" "IniHash_readProperties n [] = m_mapping a"
    using Admin_flush_ok [OF assms] by blast
  then show ?thesis by (simp add: resetMap_def SyncSourceAdmin_init_def ini_hash_ops_def Let_def)
qed

text \<open>A source with an empty map in a file that does not exist yet.\<close>

abbreviation new_admin :: "(ini_hash, ini_hash) source_admin" where
  "new_admin \<equiv> resetMap ini_hash_ops
     (SyncSourceAdmin_init (IniHashConfigNode (FileDataBlob ''d'' ''c'' False None)) ''adminData''
        (IniHashConfigNode (FileDataBlob ''d'' ''m'' False None)))"

abbreviation sample_id :: "string \<Rightarrow> map_id" where
  "sample_id l \<equiv> \<lparr>localID = Some l, remoteID = Some ''r'', flags = 2, ident = 1\<rparr>"

theorem admin_map_survives_witness:
  "\<exists>a'. Admin_flush ini_hash_ops ini_hash_ops (snd (insertMapItem (sample_id ''x'') new_admin)) = (None, a') \<and>
    m_mapping (resetMap ini_hash_ops
      (SyncSourceAdmin_init (m_configNode new_admin) ''adminData'' (IniHashConfigNode (m_data (m_mappingNode a'))))) =
    [(''x-1'', explicit ''r 2'')]"
proof -
  let ?a = "snd (insertMapItem (sample_id ''x'') new_admin)"
  have m: "m_mapping ?a = [(''x-1'', explicit ''r 2'')]" "m_mappingLoaded ?a" "m_adminPropertyName ?a = ''adminData''"
    by code_simp+
  have "hash_inv (m_mappingNode ?a)"
    by (simp add: insertMapItem_def resetMap_def SyncSourceAdmin_init_def Let_def split_def hash_inv_def
        hash_content_def IniHashConfigNode_eq IniHash_inv_def hash_wf_parse)
      (simp add: blob_writable_def FileDataBlob_def hash_parse_def blob_read_def)
  moreover have "mapping_ok (m_mapping ?a)"
    by (simp add: m mapping_ok_def ini_key_def ini_trimmed_def isspace_def ksorted_Cons)
  moreover have "op_flush ini_hash_ops (m_configNode ?a) = (None, m_configNode new_admin)"
    by code_simp
  ultimately show ?thesis
    using admin_map_survives [of ?a ini_hash_ops "m_configNode new_admin"] m by simp
qed

text \<open>
  The operations on the map. Inserting stores the item under its key, whether or not there
  was one; updating and deleting an item whose key is not in the map are refused and change
  nothing. The lookup ignores case, and so does the key.
\<close>

lemma admin_map_operations:
  "fst (insertMapItem mID a) = LOCERR_OK \<and>
   (\<forall>k. nc_find k (m_mapping (snd (insertMapItem mID a))) =
      (if nocase_key k = nocase_key (fst (mapid2entry mID)) then Some (explicit (snd (mapid2entry mID)))
       else nc_find k (m_mapping a))) \<and>
   (if nc_find (fst (mapid2entry mID)) (m_mapping a) = None
    then updateMapItem mID a = (DB_Forbidden, a) \<and> deleteMapItem mID a = (DB_Forbidden, a)
    else updateMapItem mID a = insertMapItem mID a \<and> fst (deleteMapItem mID a) = LOCERR_OK \<and>
      (\<forall>k. nc_find k (m_mapping (snd (deleteMapItem mID a))) =
         (if nocase_key k = nocase_key (fst (mapid2entry mID)) then None else nc_find k (m_mapping a))))"
  by (auto simp: insertMapItem_def updateMapItem_def deleteMapItem_def split_def kfind_kput kfind_kerase)

text \<open>
  A limit of the map. The key of an item whose local ID starts with a hash mark is stored
  without escaping it and is taken for a comment when the file is read again, so that the item
  is lost; and two local IDs that differ only in case share one entry.
\<close>

lemma admin_map_loses_items:
  "(case Admin_flush ini_hash_ops ini_hash_ops (snd (insertMapItem (sample_id ''#1'') new_admin)) of
      (e, a) \<Rightarrow> e = None \<and> length (m_mapping a) = 1 \<and>
        m_mapping (resetMap ini_hash_ops
          (SyncSourceAdmin_init (m_configNode a) ''adminData'' (IniHashConfigNode (m_data (m_mappingNode a))))) = []) \<and>
   length (m_mapping (snd (insertMapItem (sample_id ''a'') (snd (insertMapItem (sample_id ''A'') new_admin))))) = 1"
  by code_simp

end
