(* ===== verification/Suspend_Flags.thy ===== *)
theory Suspend_Flags
  imports Prelude "HOL-Library.Word"
begin

unbundle bit_operations_syntax

text \<open>
  \<open>SuspendFlags\<close> (src/src/syncevo/SuspendFlags.h and SuspendFlags.cpp): the singleton that
  turns signals and requests into the state of a sync session. The signal handler runs at any
  time; it changes the state and writes to a pipe, which \<open>printSignals\<close> empties in the main
  thread. The pipe is a list of bytes with a limited capacity. Shared pointers are counted: a
  blocker or a guard exists while its count is positive.

  The signals and the requests of the program are the steps of a transition relation, with
  theorems on all states that can be reached.
\<close>

section \<open>State\<close>

datatype flag_state = NORMAL | SUSPEND | ABORT | SUSPEND_AGAIN | ABORT_AGAIN | ABORT_MAX

primrec state_code :: "flag_state \<Rightarrow> nat" where
  "state_code NORMAL = 0"
| "state_code SUSPEND = 1"
| "state_code ABORT = 2"
| "state_code SUSPEND_AGAIN = 3"
| "state_code ABORT_AGAIN = 4"
| "state_code ABORT_MAX = 5"

datatype sig_handler = SIG_DFL | Other_Handler nat | Handle_Signal

abbreviation SIGINT :: nat where "SIGINT \<equiv> 2"
abbreviation SIGTERM :: nat where "SIGTERM \<equiv> 15"

definition ABORT_INTERVAL :: int where
  "ABORT_INTERVAL = 2"

text \<open>
  The pipe exists while signal handling is active. \<open>sf_process\<close> is the table of signal handlers
  of the process, \<open>sf_log\<close> the messages shown to the user, \<open>sf_changed\<close> counts the calls of the
  listeners for state changes.
\<close>

record suspend_flags =
  sf_state :: flag_state
  sf_received :: "32 word"
  sf_lastSuspend :: int
  sf_pipe :: "nat list option"
  sf_activeSignals :: "32 word"
  sf_oldHandlers :: "nat \<Rightarrow> sig_handler"
  sf_process :: "nat \<Rightarrow> sig_handler"
  sf_guards :: nat
  sf_suspendBlockers :: nat
  sf_abortBlockers :: nat
  sf_log :: "string list"
  sf_changed :: nat

definition SuspendFlags :: "(nat \<Rightarrow> sig_handler) \<Rightarrow> suspend_flags" where
  "SuspendFlags process =
     \<lparr>sf_state = NORMAL, sf_received = 0, sf_lastSuspend = 0, sf_pipe = None, sf_activeSignals = 0,
      sf_oldHandlers = (\<lambda>_. SIG_DFL), sf_process = process, sf_guards = 0,
      sf_suspendBlockers = 0, sf_abortBlockers = 0, sf_log = [], sf_changed = 0\<rparr>"

definition getState :: "suspend_flags \<Rightarrow> flag_state" where
  "getState f =
     (if sf_abortBlockers f > 0 then ABORT
      else if sf_suspendBlockers f > 0 then SUSPEND
      else sf_state f)"

text \<open>Bytes that fit into a pipe.\<close>

definition pipe_capacity :: nat where
  "pipe_capacity = 65536"

text \<open>
  Writing with retries while the pipe is full. Nothing reads from the pipe meanwhile, so that
  a write without room never ends: the result is then \<open>None\<close>.
\<close>

definition write_pipe :: "suspend_flags \<Rightarrow> nat list \<Rightarrow> suspend_flags option" where
  "write_pipe f bytes =
     (case sf_pipe f of
        None \<Rightarrow> Some f
      | Some p \<Rightarrow> if length p + length bytes \<le> pipe_capacity
                  then Some (f\<lparr>sf_pipe := Some (p @ bytes)\<rparr>) else None)"

section \<open>The signal handler\<close>

text \<open>The inner \<open>switch\<close> for \<open>SIGINT\<close>: the state, the time of the last suspend request, the message.\<close>

definition sigint_switch :: "int \<Rightarrow> flag_state \<Rightarrow> int \<Rightarrow> flag_state \<times> int \<times> flag_state" where
  "sigint_switch current state lastSuspend =
     (case state of
        NORMAL \<Rightarrow> (SUSPEND, current, SUSPEND)
      | SUSPEND \<Rightarrow>
          if current - lastSuspend < ABORT_INTERVAL then (ABORT, lastSuspend, ABORT)
          else (SUSPEND, current, SUSPEND_AGAIN)
      | ABORT \<Rightarrow> (ABORT, lastSuspend, ABORT_AGAIN)
      | _ \<Rightarrow> (state, lastSuspend, ABORT_MAX))"

text \<open>
  There is no \<open>break\<close> behind the inner \<open>switch\<close>: control runs into the default case of the outer
  one, which sets the message to \<open>ABORT_MAX\<close>.
\<close>

definition signal_switch :: "nat \<Rightarrow> int \<Rightarrow> flag_state \<Rightarrow> int \<Rightarrow> flag_state \<times> int \<times> flag_state" where
  "signal_switch sig current state lastSuspend =
     (if sig = SIGTERM
      then (if state = ABORT then (state, lastSuspend, ABORT_AGAIN) else (ABORT, lastSuspend, ABORT))
      else if sig = SIGINT
      then (case sigint_switch current state lastSuspend of (state, lastSuspend, _) \<Rightarrow> (state, lastSuspend, ABORT_MAX))
      else (state, lastSuspend, ABORT_MAX))"

definition handleSignal :: "nat \<Rightarrow> int \<Rightarrow> suspend_flags \<Rightarrow> suspend_flags option" where
  "handleSignal sig current f =
     (let (state, lastSuspend, msg1) = signal_switch sig current (sf_state f) (sf_lastSuspend f);
          f = f\<lparr>sf_state := state, sf_lastSuspend := lastSuspend\<rparr>
      in write_pipe f ((state_code ABORT_MAX + sig) # (if msg1 = ABORT_MAX then [] else [state_code msg1])))"

section \<open>The main thread\<close>

definition suspend_text :: string where
  "suspend_text = ''Asking to suspend...'' @ [CHR 0x0A] @ ''Press CTRL-C again quickly (within 2s) to stop immediately (can cause problems in the future!)''"

definition suspend_again_text :: string where
  "suspend_again_text = ''Suspend in progress...'' @ [CHR 0x0A] @ ''Press CTRL-C again quickly (within 2s) to stop immediately (can cause problems in the future!)''"

definition print_message :: "nat \<Rightarrow> suspend_flags \<Rightarrow> suspend_flags" where
  "print_message msg f =
     (let f = (if msg = state_code SUSPEND then f\<lparr>sf_log := sf_log f @ [suspend_text]\<rparr>
               else if msg = state_code SUSPEND_AGAIN then f\<lparr>sf_log := sf_log f @ [suspend_again_text]\<rparr>
               else if msg = state_code ABORT then f\<lparr>sf_log := sf_log f @ [''Aborting immediately ...'']\<rparr>
               else if msg = state_code ABORT_AGAIN
               then f\<lparr>sf_log := sf_log f @ [''Already aborting as requested earlier ...'']\<rparr>
               else f\<lparr>sf_received := sf_received f OR push_bit (msg - state_code ABORT_MAX) 1\<rparr>)
      in f\<lparr>sf_changed := sf_changed f + 1\<rparr>)"

definition printSignals :: "suspend_flags \<Rightarrow> suspend_flags" where
  "printSignals f =
     (case sf_pipe f of
        None \<Rightarrow> f
      | Some p \<Rightarrow> (fold print_message p f)\<lparr>sf_pipe := Some []\<rparr>)"

definition isAborted :: "suspend_flags \<Rightarrow> bool \<times> suspend_flags" where
  "isAborted f = (let f = printSignals f in (getState f = ABORT, f))"

definition isSuspended :: "suspend_flags \<Rightarrow> bool \<times> suspend_flags" where
  "isSuspended f = (let f = printSignals f in (getState f = SUSPEND, f))"

definition isNormal :: "suspend_flags \<Rightarrow> bool \<times> suspend_flags" where
  "isNormal f = (let f = printSignals f in (getState f = NORMAL, f))"

text \<open>\<open>LOCERR_USERABORT\<close> is the status of the exception.\<close>

definition checkForNormal :: "int \<Rightarrow> suspend_flags \<Rightarrow> suspend_flags step" where
  "checkForNormal LOCERR_USERABORT f =
     (let f = printSignals f
      in if getState f \<noteq> NORMAL then throw (StatusThrow ''aborting as requested by user'' LOCERR_USERABORT) f
         else return f)"

text \<open>\<open>block\<close> on one of the two blockers: the caller holds one more reference afterwards.\<close>

definition block_with :: "(suspend_flags \<Rightarrow> suspend_flags) \<Rightarrow> suspend_flags \<Rightarrow> suspend_flags option" where
  "block_with acquire f =
     (let oldState = getState f;
          f = acquire f;
          newState = getState f
      in map_option (\<lambda>f. if newState \<noteq> oldState then f\<lparr>sf_changed := sf_changed f + 1\<rparr> else f)
           (if state_code newState > state_code oldState then write_pipe f [state_code newState] else Some f))"

definition suspend :: "suspend_flags \<Rightarrow> suspend_flags option" where
  "suspend f = block_with (\<lambda>f. f\<lparr>sf_suspendBlockers := sf_suspendBlockers f + 1\<rparr>) f"

definition abort :: "suspend_flags \<Rightarrow> suspend_flags option" where
  "abort f = block_with (\<lambda>f. f\<lparr>sf_abortBlockers := sf_abortBlockers f + 1\<rparr>) f"

section \<open>Activation\<close>

definition in_mask :: "32 word \<Rightarrow> nat \<Rightarrow> bool" where
  "in_mask bits sig \<longleftrightarrow> sig < 32 \<and> bits AND push_bit sig 1 \<noteq> 0"

text \<open>The first argument is the text of \<open>strerror\<close> when \<open>pipe\<close> fails.\<close>

definition activate :: "string option \<Rightarrow> 32 word \<Rightarrow> suspend_flags \<Rightarrow> suspend_flags step" where
  "activate pipe_error sigmask f =
     (if sf_pipe f \<noteq> None then return (f\<lparr>sf_guards := sf_guards f + 1\<rparr>)
      else if pipe_error \<noteq> None
      then throw (Throw (''allocating pipe for signals failed: '' @ the pipe_error)) f
      else
        (let old = (\<lambda>sig. if in_mask sigmask sig then sf_process f sig else sf_oldHandlers f sig)
         in return (f\<lparr>sf_pipe := Some [], sf_oldHandlers := old,
                      sf_process := (\<lambda>sig. if in_mask sigmask sig \<and> old sig = SIG_DFL then Handle_Signal
                                           else sf_process f sig),
                      sf_activeSignals := sigmask, sf_guards := sf_guards f + 1\<rparr>)))"

definition deactivate :: "suspend_flags \<Rightarrow> suspend_flags" where
  "deactivate f =
     (if sf_pipe f \<noteq> None
      then f\<lparr>sf_process := (\<lambda>sig. if in_mask (sf_activeSignals f) sig then sf_oldHandlers f sig else sf_process f sig),
             sf_activeSignals := 0, sf_pipe := None, sf_guards := 0\<rparr>
      else f)"

text \<open>The last reference to the guard deactivates.\<close>

definition release_guard :: "suspend_flags \<Rightarrow> suspend_flags" where
  "release_guard f =
     (if sf_guards f > 1 then f\<lparr>sf_guards := sf_guards f - 1\<rparr>
      else if sf_guards f = 1 then deactivate f else f)"

section \<open>The life of the flags\<close>

inductive flags_step :: "suspend_flags \<Rightarrow> suspend_flags \<Rightarrow> bool" where
  signal: "sig < 32 \<Longrightarrow> handleSignal sig now f = Some f' \<Longrightarrow> flags_step f f'"
| print: "flags_step f (printSignals f)"
| request_suspend: "suspend f = Some f' \<Longrightarrow> flags_step f f'"
| request_abort: "abort f = Some f' \<Longrightarrow> flags_step f f'"
| drop_suspend: "sf_suspendBlockers f > 0 \<Longrightarrow> flags_step f (f\<lparr>sf_suspendBlockers := sf_suspendBlockers f - 1\<rparr>)"
| drop_abort: "sf_abortBlockers f > 0 \<Longrightarrow> flags_step f (f\<lparr>sf_abortBlockers := sf_abortBlockers f - 1\<rparr>)"
| activation: "activate pipe_error sigmask f = (e, f') \<Longrightarrow> flags_step f f'"
| drop_guard: "flags_step f (release_guard f)"

text \<open>
  The invariant: only three states, a pipe that holds messages for them or signal numbers, and
  the handlers \<open>p\<close> of the process are in place or saved.
\<close>

definition message_ok :: "nat \<Rightarrow> bool" where
  "message_ok m \<longleftrightarrow> 0 < m \<and> m < state_code ABORT_MAX + 32"

definition restored :: "suspend_flags \<Rightarrow> nat \<Rightarrow> sig_handler" where
  "restored f = (\<lambda>sig. if in_mask (sf_activeSignals f) sig then sf_oldHandlers f sig else sf_process f sig)"

definition flags_inv :: "(nat \<Rightarrow> sig_handler) \<Rightarrow> suspend_flags \<Rightarrow> bool" where
  "flags_inv p f \<longleftrightarrow> sf_state f \<in> {NORMAL, SUSPEND, ABORT} \<and>
     (case sf_pipe f of
        None \<Rightarrow> sf_process f = p \<and> sf_guards f = 0
      | Some bytes \<Rightarrow> length bytes \<le> pipe_capacity \<and> list_all message_ok bytes \<and> sf_guards f > 0 \<and> restored f = p)"

lemma restored_fields [simp]:
  "restored (f\<lparr>sf_state := x1\<rparr>) = restored f" "restored (f\<lparr>sf_lastSuspend := x2\<rparr>) = restored f"
  "restored (f\<lparr>sf_pipe := x3\<rparr>) = restored f" "restored (f\<lparr>sf_guards := n\<rparr>) = restored f"
  "restored (f\<lparr>sf_changed := n\<rparr>) = restored f" "restored (f\<lparr>sf_log := x4\<rparr>) = restored f"
  "restored (f\<lparr>sf_received := x5\<rparr>) = restored f"
  "restored (f\<lparr>sf_suspendBlockers := n\<rparr>) = restored f" "restored (f\<lparr>sf_abortBlockers := n\<rparr>) = restored f"
  by (simp_all add: restored_def cong: if_cong)

lemma write_pipe_inv:
  assumes "flags_inv p f" and "list_all message_ok bytes" and "write_pipe f bytes = Some f'"
  shows "flags_inv p f'" and "sf_state f' = sf_state f"
  using assms by (auto simp: write_pipe_def flags_inv_def split: option.splits if_splits)

lemma getState_three: "flags_inv p f \<Longrightarrow> getState f \<in> {NORMAL, SUSPEND, ABORT}"
  by (simp add: getState_def flags_inv_def)

lemma print_message_fields [simp]:
  "sf_state (print_message m f) = sf_state f" "sf_pipe (print_message m f) = sf_pipe f"
  "sf_process (print_message m f) = sf_process f" "sf_guards (print_message m f) = sf_guards f" "restored (print_message m f) = restored f"
  "sf_oldHandlers (print_message m f) = sf_oldHandlers f" "sf_activeSignals (print_message m f) = sf_activeSignals f"
  by (simp_all add: print_message_def Let_def restored_def cong: if_cong)

lemma print_messages_fields [simp]:
  "sf_state (fold print_message ms f) = sf_state f" "sf_process (fold print_message ms f) = sf_process f"
  "sf_guards (fold print_message ms f) = sf_guards f" "sf_oldHandlers (fold print_message ms f) = sf_oldHandlers f"
  "sf_activeSignals (fold print_message ms f) = sf_activeSignals f" "restored (fold print_message ms f) = restored f"
  by (induction ms arbitrary: f) simp_all

text \<open>Fields that the invariant does not mention.\<close>

lemma flags_inv_changed [simp]:
  "flags_inv p (f\<lparr>sf_changed := n\<rparr>) = flags_inv p f"
  "flags_inv p (f\<lparr>sf_suspendBlockers := n\<rparr>) = flags_inv p f"
  "flags_inv p (f\<lparr>sf_abortBlockers := n\<rparr>) = flags_inv p f"
  by (simp_all add: flags_inv_def split: option.splits)

lemma block_inv:
  assumes "flags_inv p f" and "flags_inv p (acquire f)" and "sf_state (acquire f) = sf_state f"
    and "block_with acquire f = Some f'"
  shows "flags_inv p f' \<and> sf_state f' = sf_state f"
proof -
  let ?new = "getState (acquire f)"
  obtain g where g: "(if state_code ?new > state_code (getState f) then write_pipe (acquire f) [state_code ?new]
        else Some (acquire f)) = Some g"
      and f': "f' = (if ?new \<noteq> getState f then g\<lparr>sf_changed := sf_changed g + 1\<rparr> else g)"
    using assms(4) by (auto simp: block_with_def Let_def)
  have "list_all message_ok [state_code ?new]" if "state_code ?new > 0"
    using that getState_three [OF assms(2)] by (auto simp: message_ok_def)
  then have "flags_inv p g \<and> sf_state g = sf_state f"
    using g write_pipe_inv [OF assms(2), of "[state_code ?new]" g] assms(2,3) by (auto split: if_splits)
  then show ?thesis by (simp add: f')
qed

lemma handleSignal_inv:
  assumes "flags_inv p f" and "sig < 32" and "handleSignal sig now f = Some f'"
  shows "flags_inv p f' \<and> state_code (sf_state f) \<le> state_code (sf_state f')"
proof -
  obtain st lst msg where sw: "signal_switch sig now (sf_state f) (sf_lastSuspend f) = (st, lst, msg)"
    by (metis prod_cases3)
  let ?f = "f\<lparr>sf_state := st, sf_lastSuspend := lst\<rparr>"
  let ?bytes = "(state_code ABORT_MAX + sig) # (if msg = ABORT_MAX then [] else [state_code msg])"
  have st: "st \<in> {NORMAL, SUSPEND, ABORT}" "state_code (sf_state f) \<le> state_code st" "msg \<noteq> NORMAL"
    using sw assms(1)
    by (auto simp: signal_switch_def sigint_switch_def flags_inv_def split: if_splits flag_state.splits)
  have "flags_inv p ?f" using assms(1) st(1) by (simp add: flags_inv_def split: option.splits)
  moreover have "list_all message_ok ?bytes"
    using assms(2) st(3) by (cases msg) (simp_all add: message_ok_def)
  moreover have "write_pipe ?f ?bytes = Some f'" using assms(3) sw by (simp add: handleSignal_def)
  ultimately show ?thesis using write_pipe_inv [of p ?f ?bytes f'] st(2) by simp
qed

lemma flags_step_inv:
  assumes "flags_step f f'" and "flags_inv p f"
  shows "flags_inv p f' \<and> state_code (sf_state f) \<le> state_code (sf_state f')"
  using assms
proof (induction rule: flags_step.induct)
  case (signal sig now f f')
  then show ?case using handleSignal_inv by blast
next
  case (print f)
  then show ?case by (auto simp: printSignals_def flags_inv_def split: option.splits)
next
  case (request_suspend f f')
  then show ?case
    using block_inv [of p f "\<lambda>f. f\<lparr>sf_suspendBlockers := sf_suspendBlockers f + 1\<rparr>" f']
    by (simp add: suspend_def)
next
  case (request_abort f f')
  then show ?case
    using block_inv [of p f "\<lambda>f. f\<lparr>sf_abortBlockers := sf_abortBlockers f + 1\<rparr>" f']
    by (simp add: abort_def)
next
  case (drop_suspend f)
  then show ?case by simp
next
  case (drop_abort f)
  then show ?case by simp
next
  case (activation pipe_error sigmask f e f')
  then show ?case
    by (auto simp: activate_def flags_inv_def restored_def Let_def split: if_splits option.splits)
next
  case (drop_guard f)
  then show ?case
    by (auto simp: release_guard_def deactivate_def flags_inv_def restored_def split: option.splits)
qed

lemma flags_steps_inv:
  assumes "flags_step\<^sup>*\<^sup>* f f'" and "flags_inv p f"
  shows "flags_inv p f' \<and> state_code (sf_state f) \<le> state_code (sf_state f')"
  using assms
proof (induction rule: rtranclp_induct)
  case (step g h)
  then show ?case using flags_step_inv [of g h p] by auto
qed simp

text \<open>
  C26: the state set by signals is safe. In every history of signals, requests, activations and
  reads, it is one of normal, suspend and abort and never goes back, so that an abort cannot be
  undone; and when signal handling is inactive, all signal handlers of the process are the ones
  that were installed before.
\<close>

theorem suspend_flags_safe:
  assumes "flags_step\<^sup>*\<^sup>* (SuspendFlags p) f" and "flags_step\<^sup>*\<^sup>* f f'"
  shows "sf_state f' \<in> {NORMAL, SUSPEND, ABORT} \<and> state_code (sf_state f) \<le> state_code (sf_state f') \<and>
    (sf_pipe f' = None \<longrightarrow> sf_process f' = p)"
proof -
  have "flags_inv p (SuspendFlags p)" by (simp add: flags_inv_def SuspendFlags_def)
  then have "flags_inv p f" using flags_steps_inv [OF assms(1)] by blast
  from flags_steps_inv [OF assms(2) this] show ?thesis by (auto simp: flags_inv_def)
qed

theorem suspend_flags_safe_witness:
  "sf_process (release_guard (the (handleSignal SIGTERM 0 (snd (activate None 32772 (SuspendFlags (\<lambda>_. SIG_DFL))))))) = (\<lambda>_. SIG_DFL)"
proof -
  let ?s = "SuspendFlags (\<lambda>_. SIG_DFL)"
  let ?f = "snd (activate None 32772 ?s)" and ?g = "the (handleSignal SIGTERM 0 (snd (activate None 32772 ?s)))"
  have f: "sf_pipe ?f = Some []" "sf_guards ?f = 1"
    by (simp_all add: activate_def SuspendFlags_def Let_def return_def)
  then have g: "handleSignal SIGTERM 0 ?f = Some ?g" "sf_guards ?g = 1" "sf_pipe ?g \<noteq> None"
    by (simp_all add: handleSignal_def signal_switch_def write_pipe_def pipe_capacity_def Let_def)
  have "flags_step ?s ?f" by (rule flags_step.activation [of None 32772 _ "fst (activate None 32772 ?s)"]) simp
  moreover have "flags_step ?f ?g" by (rule flags_step.signal [of SIGTERM 0, OF _ g(1)]) simp
  moreover have "sf_pipe (release_guard ?g) = None" using g(2,3) by (simp add: release_guard_def deactivate_def)
  ultimately show ?thesis
    using suspend_flags_safe [of "\<lambda>_. SIG_DFL" ?s "release_guard ?g"] flags_step.drop_guard [of ?g]
    by (meson converse_rtranclp_into_rtranclp r_into_rtranclp rtranclp.rtrancl_refl)
qed

section \<open>Single signals and requests\<close>

text \<open>Room for \<open>n\<close> more bytes.\<close>

definition room :: "nat \<Rightarrow> suspend_flags \<Rightarrow> bool" where
  "room n f = (case sf_pipe f of None \<Rightarrow> True | Some p \<Rightarrow> length p + n \<le> pipe_capacity)"

definition write_bytes :: "nat list \<Rightarrow> suspend_flags \<Rightarrow> suspend_flags" where
  "write_bytes bytes f = f\<lparr>sf_pipe := map_option (\<lambda>p. p @ bytes) (sf_pipe f)\<rparr>"

lemma write_pipe_room: "room (length bytes) f \<Longrightarrow> write_pipe f bytes = Some (write_bytes bytes f)"
  by (cases "sf_pipe f") (simp_all add: write_pipe_def room_def write_bytes_def)

lemma write_bytes_fields [simp]:
  "sf_state (write_bytes bytes f) = sf_state f" "sf_lastSuspend (write_bytes bytes f) = sf_lastSuspend f"
  "sf_pipe (write_bytes bytes f) = map_option (\<lambda>p. p @ bytes) (sf_pipe f)"
  by (simp_all add: write_bytes_def)

lemma sigint_step:
  assumes "room 1 f"
  shows "handleSignal SIGINT now f =
    (case sigint_switch now (sf_state f) (sf_lastSuspend f) of
       (st, lst, _) \<Rightarrow> Some (write_bytes [7] (f\<lparr>sf_state := st, sf_lastSuspend := lst\<rparr>)))"
proof -
  obtain st lst m where sw: "sigint_switch now (sf_state f) (sf_lastSuspend f) = (st, lst, m)"
    by (metis prod_cases3)
  have "room 1 (f\<lparr>sf_state := st, sf_lastSuspend := lst\<rparr>)" using assms by (simp add: room_def split: option.splits)
  then show ?thesis
    using write_pipe_room [of "[7]" "f\<lparr>sf_state := st, sf_lastSuspend := lst\<rparr>"] sw
    by (simp add: handleSignal_def signal_switch_def)
qed

text \<open>
  Pressing CTRL-C twice. From the normal state the first \<open>SIGINT\<close> asks to suspend; a second
  one less than two seconds later aborts, a later one keeps the suspend request and starts a new
  interval. The handler finishes both times while the pipe has room for two bytes.
\<close>

lemma sigint_twice:
  assumes "sf_state f = NORMAL" and "room 2 f"
  shows "\<exists>g h. handleSignal SIGINT t f = Some g \<and> handleSignal SIGINT t' g = Some h \<and> sf_state g = SUSPEND \<and>
    sf_state h = (if t' - t < 2 then ABORT else SUSPEND) \<and>
    sf_lastSuspend h = (if t' - t < 2 then t else t')"
proof -
  let ?g = "write_bytes [7] (f\<lparr>sf_state := SUSPEND, sf_lastSuspend := t\<rparr>)"
  have "room 1 f" "room 1 ?g" using assms(2) by (auto simp: room_def write_bytes_def split: option.splits)
  then show ?thesis
    using assms(1) sigint_step [of f t] sigint_step [of ?g t']
    by (cases "t' - t < 2") (simp_all add: sigint_switch_def ABORT_INTERVAL_def)
qed

text \<open>
  A \<open>SIGINT\<close> is silent. With signal handling active, the handler and the following
  \<open>printSignals\<close> record the signal, but show no message to the user, whatever state the
  signal led to: the messages about suspending are only shown for \<open>suspend\<close> requests.
\<close>

lemma sigint_silent:
  assumes "sf_pipe f = Some []"
  shows "\<exists>g. handleSignal SIGINT now f = Some g \<and> sf_log (printSignals g) = sf_log f \<and>
    in_mask (sf_received (printSignals g)) SIGINT"
proof -
  obtain st lst m where sw: "sigint_switch now (sf_state f) (sf_lastSuspend f) = (st, lst, m)"
    by (metis prod_cases3)
  have "room 1 f" using assms by (simp add: room_def pipe_capacity_def)
  then have "handleSignal SIGINT now f = Some (write_bytes [7] (f\<lparr>sf_state := st, sf_lastSuspend := lst\<rparr>))"
    by (simp add: sigint_step sw)
  moreover have "in_mask (r OR push_bit 2 1) 2" for r :: "32 word"
    using bit_or_iff [of r "push_bit 2 1" 2]
    by (auto simp: in_mask_def bit_eq_iff bit_and_iff bit_push_bit_iff intro: exI [of _ 2])
  ultimately show ?thesis
    using assms by (simp add: printSignals_def write_bytes_def print_message_def Let_def)
qed

text \<open>
  The state is not the maximum of signals and requests. After a \<open>SIGTERM\<close> the state is
  abort; a later suspend request lowers it to suspend until the request is dropped.
\<close>

lemma getState_not_maximum:
  "\<exists>g h. handleSignal SIGTERM now (SuspendFlags p) = Some g \<and> getState g = ABORT \<and>
     suspend g = Some h \<and> getState h = SUSPEND \<and> sf_state h = ABORT"
  by (simp add: handleSignal_def signal_switch_def write_pipe_def SuspendFlags_def getState_def suspend_def
      block_with_def Let_def)

end
