(* ===== verification/Sync_Modes.thy ===== *)
theory Sync_Modes
  imports Decimal
begin

text \<open>
  The enumerations of src/src/syncevo/SyncML.h and the functions of SyncML.cpp on them: sync
  modes with their directions and names, content types, and the description of status codes. The
  values of the error codes of libsynthesis are not part of the sources: they are a parameter of
  \<open>Status2String\<close>.
\<close>

section \<open>Sync modes\<close>

datatype SyncMode =
  SYNC_NONE | SYNC_TWO_WAY | SYNC_SLOW | SYNC_ONE_WAY_FROM_CLIENT | SYNC_REFRESH_FROM_CLIENT |
  SYNC_ONE_WAY_FROM_SERVER | SYNC_REFRESH_FROM_SERVER | SA_SYNC_TWO_WAY |
  SA_SYNC_ONE_WAY_FROM_CLIENT | SA_SYNC_REFRESH_FROM_CLIENT | SA_SYNC_ONE_WAY_FROM_SERVER |
  SA_SYNC_REFRESH_FROM_SERVER | SYNC_RESTORE_FROM_BACKUP | SYNC_ONE_WAY_FROM_LOCAL |
  SYNC_REFRESH_FROM_LOCAL | SYNC_ONE_WAY_FROM_REMOTE | SYNC_REFRESH_FROM_REMOTE |
  SYNC_LOCAL_CACHE_SLOW | SYNC_LOCAL_CACHE_INCREMENTAL | SYNC_LAST | SYNC_INVALID

primrec mode_code :: "SyncMode \<Rightarrow> int" where
  "mode_code SYNC_NONE = 0"
| "mode_code SYNC_TWO_WAY = 200"
| "mode_code SYNC_SLOW = 201"
| "mode_code SYNC_ONE_WAY_FROM_CLIENT = 202"
| "mode_code SYNC_REFRESH_FROM_CLIENT = 203"
| "mode_code SYNC_ONE_WAY_FROM_SERVER = 204"
| "mode_code SYNC_REFRESH_FROM_SERVER = 205"
| "mode_code SA_SYNC_TWO_WAY = 206"
| "mode_code SA_SYNC_ONE_WAY_FROM_CLIENT = 207"
| "mode_code SA_SYNC_REFRESH_FROM_CLIENT = 208"
| "mode_code SA_SYNC_ONE_WAY_FROM_SERVER = 209"
| "mode_code SA_SYNC_REFRESH_FROM_SERVER = 210"
| "mode_code SYNC_RESTORE_FROM_BACKUP = 211"
| "mode_code SYNC_ONE_WAY_FROM_LOCAL = 212"
| "mode_code SYNC_REFRESH_FROM_LOCAL = 213"
| "mode_code SYNC_ONE_WAY_FROM_REMOTE = 214"
| "mode_code SYNC_REFRESH_FROM_REMOTE = 215"
| "mode_code SYNC_LOCAL_CACHE_SLOW = 218"
| "mode_code SYNC_LOCAL_CACHE_INCREMENTAL = 219"
| "mode_code SYNC_LAST = 220"
| "mode_code SYNC_INVALID = 255"

datatype SimpleSyncMode =
  SIMPLE_SYNC_NONE | SIMPLE_SYNC_TWO_WAY | SIMPLE_SYNC_SLOW | SIMPLE_SYNC_RESTORE_FROM_BACKUP |
  SIMPLE_SYNC_ONE_WAY_FROM_LOCAL | SIMPLE_SYNC_REFRESH_FROM_LOCAL |
  SIMPLE_SYNC_ONE_WAY_FROM_REMOTE | SIMPLE_SYNC_REFRESH_FROM_REMOTE |
  SIMPLE_SYNC_LOCAL_CACHE_SLOW | SIMPLE_SYNC_LOCAL_CACHE_INCREMENTAL | SIMPLE_SYNC_INVALID

primrec simple_code :: "SimpleSyncMode \<Rightarrow> int" where
  "simple_code SIMPLE_SYNC_NONE = 0"
| "simple_code SIMPLE_SYNC_TWO_WAY = 200"
| "simple_code SIMPLE_SYNC_SLOW = 201"
| "simple_code SIMPLE_SYNC_RESTORE_FROM_BACKUP = 211"
| "simple_code SIMPLE_SYNC_ONE_WAY_FROM_LOCAL = 212"
| "simple_code SIMPLE_SYNC_REFRESH_FROM_LOCAL = 213"
| "simple_code SIMPLE_SYNC_ONE_WAY_FROM_REMOTE = 214"
| "simple_code SIMPLE_SYNC_REFRESH_FROM_REMOTE = 215"
| "simple_code SIMPLE_SYNC_LOCAL_CACHE_SLOW = 218"
| "simple_code SIMPLE_SYNC_LOCAL_CACHE_INCREMENTAL = 219"
| "simple_code SIMPLE_SYNC_INVALID = 255"

datatype SANSyncMode =
  SA_SLOW | SA_TWO_WAY | SA_ONE_WAY_FROM_CLIENT | SA_REFRESH_FROM_CLIENT | SA_ONE_WAY_FROM_SERVER |
  SA_REFRESH_FROM_SERVER | SA_INVALID

primrec san_code :: "SANSyncMode \<Rightarrow> int" where
  "san_code SA_SLOW = 201"
| "san_code SA_TWO_WAY = 206"
| "san_code SA_ONE_WAY_FROM_CLIENT = 207"
| "san_code SA_REFRESH_FROM_CLIENT = 208"
| "san_code SA_ONE_WAY_FROM_SERVER = 209"
| "san_code SA_REFRESH_FROM_SERVER = 210"
| "san_code SA_INVALID = 255"

definition SimplifySyncMode :: "SyncMode \<Rightarrow> bool \<Rightarrow> SimpleSyncMode" where
  "SimplifySyncMode mode peerIsClient =
     (case mode of
        SYNC_NONE \<Rightarrow> SIMPLE_SYNC_NONE
      | SYNC_TWO_WAY \<Rightarrow> SIMPLE_SYNC_TWO_WAY
      | SYNC_SLOW \<Rightarrow> SIMPLE_SYNC_SLOW
      | SYNC_RESTORE_FROM_BACKUP \<Rightarrow> SIMPLE_SYNC_RESTORE_FROM_BACKUP
      | SYNC_ONE_WAY_FROM_LOCAL \<Rightarrow> SIMPLE_SYNC_ONE_WAY_FROM_LOCAL
      | SYNC_REFRESH_FROM_LOCAL \<Rightarrow> SIMPLE_SYNC_REFRESH_FROM_LOCAL
      | SYNC_ONE_WAY_FROM_REMOTE \<Rightarrow> SIMPLE_SYNC_ONE_WAY_FROM_REMOTE
      | SYNC_REFRESH_FROM_REMOTE \<Rightarrow> SIMPLE_SYNC_REFRESH_FROM_REMOTE
      | SA_SYNC_ONE_WAY_FROM_CLIENT \<Rightarrow>
          (if peerIsClient then SIMPLE_SYNC_ONE_WAY_FROM_REMOTE else SIMPLE_SYNC_ONE_WAY_FROM_LOCAL)
      | SYNC_ONE_WAY_FROM_CLIENT \<Rightarrow>
          (if peerIsClient then SIMPLE_SYNC_ONE_WAY_FROM_REMOTE else SIMPLE_SYNC_ONE_WAY_FROM_LOCAL)
      | SA_SYNC_REFRESH_FROM_CLIENT \<Rightarrow>
          (if peerIsClient then SIMPLE_SYNC_REFRESH_FROM_REMOTE else SIMPLE_SYNC_REFRESH_FROM_LOCAL)
      | SYNC_REFRESH_FROM_CLIENT \<Rightarrow>
          (if peerIsClient then SIMPLE_SYNC_REFRESH_FROM_REMOTE else SIMPLE_SYNC_REFRESH_FROM_LOCAL)
      | SA_SYNC_ONE_WAY_FROM_SERVER \<Rightarrow>
          (if peerIsClient then SIMPLE_SYNC_ONE_WAY_FROM_LOCAL else SIMPLE_SYNC_ONE_WAY_FROM_REMOTE)
      | SYNC_ONE_WAY_FROM_SERVER \<Rightarrow>
          (if peerIsClient then SIMPLE_SYNC_ONE_WAY_FROM_LOCAL else SIMPLE_SYNC_ONE_WAY_FROM_REMOTE)
      | SA_SYNC_REFRESH_FROM_SERVER \<Rightarrow>
          (if peerIsClient then SIMPLE_SYNC_REFRESH_FROM_LOCAL else SIMPLE_SYNC_REFRESH_FROM_REMOTE)
      | SYNC_REFRESH_FROM_SERVER \<Rightarrow>
          (if peerIsClient then SIMPLE_SYNC_REFRESH_FROM_LOCAL else SIMPLE_SYNC_REFRESH_FROM_REMOTE)
      | SA_SYNC_TWO_WAY \<Rightarrow> SIMPLE_SYNC_TWO_WAY
      | SYNC_LOCAL_CACHE_SLOW \<Rightarrow> SIMPLE_SYNC_LOCAL_CACHE_SLOW
      | SYNC_LOCAL_CACHE_INCREMENTAL \<Rightarrow> SIMPLE_SYNC_LOCAL_CACHE_INCREMENTAL
      | SYNC_LAST \<Rightarrow> SIMPLE_SYNC_INVALID
      | SYNC_INVALID \<Rightarrow> SIMPLE_SYNC_INVALID)"

definition AlertSyncMode :: "SyncMode \<Rightarrow> bool \<Rightarrow> SANSyncMode" where
  "AlertSyncMode mode peerIsClient =
     (case mode of
        SYNC_RESTORE_FROM_BACKUP \<Rightarrow> SA_INVALID
      | SYNC_NONE \<Rightarrow> SA_INVALID
      | SYNC_LAST \<Rightarrow> SA_INVALID
      | SYNC_INVALID \<Rightarrow> SA_INVALID
      | SYNC_SLOW \<Rightarrow> SA_SLOW
      | SYNC_LOCAL_CACHE_SLOW \<Rightarrow> SA_SLOW
      | SYNC_TWO_WAY \<Rightarrow> SA_TWO_WAY
      | SA_SYNC_TWO_WAY \<Rightarrow> SA_TWO_WAY
      | SYNC_LOCAL_CACHE_INCREMENTAL \<Rightarrow> SA_TWO_WAY
      | SYNC_ONE_WAY_FROM_CLIENT \<Rightarrow> SA_ONE_WAY_FROM_CLIENT
      | SA_SYNC_ONE_WAY_FROM_CLIENT \<Rightarrow> SA_ONE_WAY_FROM_CLIENT
      | SYNC_REFRESH_FROM_CLIENT \<Rightarrow> SA_REFRESH_FROM_CLIENT
      | SA_SYNC_REFRESH_FROM_CLIENT \<Rightarrow> SA_REFRESH_FROM_CLIENT
      | SYNC_ONE_WAY_FROM_SERVER \<Rightarrow> SA_ONE_WAY_FROM_SERVER
      | SA_SYNC_ONE_WAY_FROM_SERVER \<Rightarrow> SA_ONE_WAY_FROM_SERVER
      | SYNC_REFRESH_FROM_SERVER \<Rightarrow> SA_REFRESH_FROM_SERVER
      | SA_SYNC_REFRESH_FROM_SERVER \<Rightarrow> SA_REFRESH_FROM_SERVER
      | SYNC_ONE_WAY_FROM_LOCAL \<Rightarrow> (if peerIsClient then SA_ONE_WAY_FROM_SERVER else SA_ONE_WAY_FROM_CLIENT)
      | SYNC_REFRESH_FROM_LOCAL \<Rightarrow> (if peerIsClient then SA_REFRESH_FROM_SERVER else SA_REFRESH_FROM_CLIENT)
      | SYNC_ONE_WAY_FROM_REMOTE \<Rightarrow> (if peerIsClient then SA_ONE_WAY_FROM_CLIENT else SA_ONE_WAY_FROM_SERVER)
      | SYNC_REFRESH_FROM_REMOTE \<Rightarrow> (if peerIsClient then SA_REFRESH_FROM_CLIENT else SA_REFRESH_FROM_SERVER))"

definition PrettyPrintSyncMode :: "SyncMode \<Rightarrow> bool \<Rightarrow> string" where
  "PrettyPrintSyncMode mode userVisible =
     (case mode of
        SYNC_NONE \<Rightarrow> (if userVisible then ''disabled'' else ''SYNC_NONE'')
      | SYNC_TWO_WAY \<Rightarrow> (if userVisible then ''two-way'' else ''SYNC_TWO_WAY'')
      | SYNC_SLOW \<Rightarrow> (if userVisible then ''slow'' else ''SYNC_SLOW'')
      | SYNC_ONE_WAY_FROM_CLIENT \<Rightarrow> (if userVisible then ''one-way-from-client'' else ''SYNC_ONE_WAY_FROM_CLIENT'')
      | SYNC_REFRESH_FROM_CLIENT \<Rightarrow> (if userVisible then ''refresh-from-client'' else ''SYNC_REFRESH_FROM_CLIENT'')
      | SYNC_ONE_WAY_FROM_SERVER \<Rightarrow> (if userVisible then ''one-way-from-server'' else ''SYNC_ONE_WAY_FROM_SERVER'')
      | SYNC_REFRESH_FROM_SERVER \<Rightarrow> (if userVisible then ''refresh-from-server'' else ''SYNC_REFRESH_FROM_SERVER'')
      | SA_SYNC_TWO_WAY \<Rightarrow> (if userVisible then ''two-way'' else ''SYNC_TWO_WAY'')
      | SA_SYNC_ONE_WAY_FROM_CLIENT \<Rightarrow> (if userVisible then ''one-way-from-client'' else ''SYNC_ONE_WAY_FROM_CLIENT'')
      | SA_SYNC_REFRESH_FROM_CLIENT \<Rightarrow> (if userVisible then ''refresh-from-client'' else ''SYNC_REFRESH_FROM_CLIENT'')
      | SA_SYNC_ONE_WAY_FROM_SERVER \<Rightarrow> (if userVisible then ''one-way-from-server'' else ''SYNC_ONE_WAY_FROM_SERVER'')
      | SA_SYNC_REFRESH_FROM_SERVER \<Rightarrow> (if userVisible then ''refresh-from-server'' else ''SYNC_REFRESH_FROM_SERVER'')
      | SYNC_RESTORE_FROM_BACKUP \<Rightarrow> (if userVisible then ''restore-from-backup'' else ''SYNC_RESTORE_FROM_BACKUP'')
      | SYNC_ONE_WAY_FROM_LOCAL \<Rightarrow> (if userVisible then ''one-way-from-local'' else ''SYNC_REFRESH_FROM_LOCAL'')
      | SYNC_REFRESH_FROM_LOCAL \<Rightarrow> (if userVisible then ''refresh-from-local'' else ''SYNC_REFRESH_FROM_LOCAL'')
      | SYNC_ONE_WAY_FROM_REMOTE \<Rightarrow> (if userVisible then ''one-way-from-remote'' else ''SYNC_ONE_WAY_FROM_REMOTE'')
      | SYNC_REFRESH_FROM_REMOTE \<Rightarrow> (if userVisible then ''refresh-from-remote'' else ''SYNC_REFRESH_FROM_REMOTE'')
      | SYNC_LOCAL_CACHE_SLOW \<Rightarrow> (if userVisible then ''local-cache-slow'' else ''SYNC_LOCAL_CACHE_SLOW'')
      | SYNC_LOCAL_CACHE_INCREMENTAL \<Rightarrow> (if userVisible then ''local-cache-incremental'' else ''SYNC_LOCAL_CACHE_INCREMENTAL'')
      | _ \<Rightarrow> (if userVisible then ''sync-mode-'' else ''SYNC_'') @ show_int (mode_code mode))"

definition StringToSyncMode :: "string \<Rightarrow> bool \<Rightarrow> SyncMode" where
  "StringToSyncMode mode serverAlerted =
     (if iequals mode ''slow'' \<or> iequals mode ''SYNC_SLOW'' then SYNC_SLOW
      else if iequals mode ''two-way'' \<or> iequals mode ''SYNC_TWO_WAY'' then (if serverAlerted then SA_SYNC_TWO_WAY else SYNC_TWO_WAY)
      else if iequals mode ''refresh-from-server'' \<or> iequals mode ''SYNC_REFRESH_FROM_SERVER'' then (if serverAlerted then SA_SYNC_REFRESH_FROM_SERVER else SYNC_REFRESH_FROM_SERVER)
      else if iequals mode ''refresh-from-client'' \<or> iequals mode ''SYNC_REFRESH_FROM_CLIENT'' then (if serverAlerted then SA_SYNC_REFRESH_FROM_CLIENT else SYNC_REFRESH_FROM_CLIENT)
      else if iequals mode ''one-way-from-server'' \<or> iequals mode ''SYNC_ONE_WAY_FROM_SERVER'' then (if serverAlerted then SA_SYNC_ONE_WAY_FROM_SERVER else SYNC_ONE_WAY_FROM_SERVER)
      else if iequals mode ''one-way-from-client'' \<or> iequals mode ''SYNC_ONE_WAY_FROM_CLIENT'' then (if serverAlerted then SA_SYNC_ONE_WAY_FROM_CLIENT else SYNC_ONE_WAY_FROM_CLIENT)
      else if iequals mode ''refresh-from-remote'' \<or> iequals mode ''SYNC_REFRESH_FROM_REMOTE'' then SYNC_REFRESH_FROM_REMOTE
      else if iequals mode ''refresh-from-local'' \<or> iequals mode ''SYNC_REFRESH_FROM_LOCAL'' then SYNC_REFRESH_FROM_LOCAL
      else if iequals mode ''one-way-from-remote'' \<or> iequals mode ''SYNC_ONE_WAY_FROM_REMOTE'' then SYNC_ONE_WAY_FROM_REMOTE
      else if iequals mode ''one-way-from-local'' \<or> iequals mode ''SYNC_ONE_WAY_FROM_LOCAL'' then SYNC_ONE_WAY_FROM_LOCAL
      else if iequals mode ''disabled'' \<or> iequals mode ''SYNC_NONE'' then SYNC_NONE
      else if iequals mode ''local-cache-slow'' \<or> iequals mode ''SYNC_LOCAL_CACHE_SLOW'' then SYNC_LOCAL_CACHE_SLOW
      else if iequals mode ''local-cache-incremental'' \<or> iequals mode ''SYNC_LOCAL_CACHE_INCREMENTAL'' then SYNC_LOCAL_CACHE_INCREMENTAL
      else SYNC_INVALID)"

section \<open>Content types\<close>

datatype ContentType =
  WSPCTC_TEXT_PLAIN | WSPCTC_XVCALENDAR | WSPCTC_XVCARD | WSPCTC_ICALENDAR | WSPCTC_VCARD | WSPCTC_UNKNOWN

definition StringToContentType :: "string \<Rightarrow> bool \<Rightarrow> ContentType" where
  "StringToContentType type force =
     (if iequals type ''text/x-vcard'' \<or> iequals type ''text/x-vcard:2.1'' then WSPCTC_XVCARD
      else if iequals type ''text/vcard'' \<or> iequals type ''text/vcard:3.0''
      then (if force then WSPCTC_VCARD else WSPCTC_XVCARD)
      else if iequals type ''text/x-vcalendar'' \<or> iequals type ''text/x-vcalendar:1.0'' \<or>
              iequals type ''text/x-calendar'' \<or> iequals type ''text/x-calendar:1.0'' then WSPCTC_XVCALENDAR
      else if iequals type ''text/calendar'' \<or> iequals type ''text/calendar:2.0''
      then (if force then WSPCTC_ICALENDAR else WSPCTC_XVCALENDAR)
      else if iequals type ''text/plain'' \<or> iequals type ''text/plain:1.0'' then WSPCTC_TEXT_PLAIN
      else WSPCTC_UNKNOWN)"

definition GetLegacyMIMEType :: "string \<Rightarrow> bool \<Rightarrow> string" where
  "GetLegacyMIMEType type force =
     (if iequals type ''text/x-vcard'' \<or> iequals type ''text/x-vcard:2.1'' then ''text/x-vcard''
      else if iequals type ''text/vcard'' \<or> iequals type ''text/vcard:3.0''
      then (if force then ''text/vcard'' else ''text/x-vcard'')
      else if iequals type ''text/x-vcalendar'' \<or> iequals type ''text/x-vcalendar:1.0'' \<or>
              iequals type ''text/x-calendar'' \<or> iequals type ''text/x-calendar:1.0'' then ''text/x-vcalendar''
      else if iequals type ''text/calendar'' \<or> iequals type ''text/calendar:2.0''
      then (if force then ''text/vcalendar'' else ''text/x-vcalendar'')
      else if iequals type ''text/plain'' \<or> iequals type ''text/plain:1.0'' then ''text/plain''
      else [])"

section \<open>Status codes\<close>

datatype locerr =
  LOCERR_BADPROTO | LOCERR_SMLFATAL | LOCERR_COMMOPEN | LOCERR_SENDDATA | LOCERR_RECVDATA |
  LOCERR_BADCONTENT | LOCERR_PROCESSMSG | LOCERR_COMMCLOSE | LOCERR_AUTHFAIL | LOCERR_CFGPARSE |
  LOCERR_CFGREAD | LOCERR_NOCFG | LOCERR_NOCFGFILE | LOCERR_EXPIRED | LOCERR_WRONGUSAGE |
  LOCERR_BADHANDLE | LOCERR_USERABORT | LOCERR_BADREG | LOCERR_LIMITED | LOCERR_TIMEOUT |
  LOCERR_CERT_EXPIRED | LOCERR_CERT_INVALID | LOCERR_INCOMPLETE | LOCERR_RETRYMSG |
  LOCERR_OUTOFMEM | LOCERR_NOCONN | LOCERR_CONN | LOCERR_ALREADY | LOCERR_TOONEW | LOCERR_NOTIMP |
  LOCERR_WRONGPROD | LOCERR_USERSUSPEND | LOCERR_TOOOLD | LOCERR_UNKSUBSYSTEM | LOCERR_SESSIONRST |
  LOCERR_LOCDBNOTRDY | LOCERR_RESTART | LOCERR_PIPECOMM | LOCERR_BUFTOOSMALL | LOCERR_TRUNCATED |
  LOCERR_BADPARAM | LOCERR_OUTOFRANGE | LOCERR_TRANSPFAIL | LOCERR_CLASSNOTREG | LOCERR_IIDNOTREG |
  LOCERR_BADURL | LOCERR_SRVNOTFOUND

record sysync =
  local_status_code :: int
  local_status_code_end :: int
  locerr_code :: "locerr \<Rightarrow> int"

text \<open>The labels of the \<open>switch\<close> with their texts; \<open>ver\<close> is the version of the program.\<close>

definition status_texts :: "(locerr \<Rightarrow> int) \<Rightarrow> string \<Rightarrow> (int \<times> string) list" where
  "status_texts le ver =
     [(0, ''no error''),
      (200, ''no error''),
      (204, ''no content/end of data''),
      (207, ''data merged''),
      (401, ''authorization failed''),
      (403, ''access denied''),
      (404, ''object not found''),
      (405, ''operation not allowed''),
      (406, ''optional feature not supported''),
      (407, ''authorization required''),
      (410, ''command gone''),
      (411, ''size required''),
      (412, ''incomplete command''),
      (413, ''request entity too large''),
      (415, ''unsupported media type or format''),
      (416, ''requested size too big''),
      (417, ''retry later''),
      (418, ''object exists already''),
      (421, ''unknown search grammar''),
      (422, ''bad CGI or filter query''),
      (423, ''soft-delete conflict''),
      (426, ''partial item not accepted''),
      (427, ''item not empty''),
      (428, ''move failed''),
      (500, ''fatal error''),
      (510, ''database failure''),
      (420, ''out of space''),
      (22000, ''unexpected slow sync''),
      (22001, ''some changes could not be transferred''),
      (22003, ''password request timed out''),
      (22004, ''SyncEvolution binary V'' @ ver @ '' too old to use configuration''),
      (22005, ''proceeding would make backward incompatible changes, aborted''),
      (22006, ''intentionally skip sync session shutdown''),
      (le LOCERR_BADPROTO, ''bad or unknown protocol''),
      (le LOCERR_SMLFATAL, ''fatal problem with SML''),
      (le LOCERR_COMMOPEN, ''cannot open communication''),
      (le LOCERR_SENDDATA, ''cannot send data''),
      (le LOCERR_RECVDATA, ''cannot receive data''),
      (le LOCERR_BADCONTENT, ''bad content in response''),
      (le LOCERR_PROCESSMSG, ''SML (or SAN) error processing incoming message''),
      (le LOCERR_COMMCLOSE, ''cannot close communication''),
      (le LOCERR_AUTHFAIL, ''transport layer authorisation failed''),
      (le LOCERR_CFGPARSE, ''error parsing config file''),
      (le LOCERR_CFGREAD, ''error reading config file''),
      (le LOCERR_NOCFG, ''no config found''),
      (le LOCERR_NOCFGFILE, ''config file could not be found''),
      (le LOCERR_EXPIRED, ''expired''),
      (le LOCERR_WRONGUSAGE, ''bad usage''),
      (le LOCERR_BADHANDLE, ''bad handle''),
      (le LOCERR_USERABORT, ''aborted on behalf of user''),
      (le LOCERR_BADREG, ''bad registration''),
      (le LOCERR_LIMITED, ''limited trial version''),
      (le LOCERR_TIMEOUT, ''connection timeout''),
      (le LOCERR_CERT_EXPIRED, ''connection SSL certificate expired''),
      (le LOCERR_CERT_INVALID, ''connection SSL certificate invalid''),
      (le LOCERR_INCOMPLETE, ''incomplete sync session''),
      (le LOCERR_RETRYMSG, ''retry sending message''),
      (le LOCERR_OUTOFMEM, ''out of memory''),
      (le LOCERR_NOCONN, ''no means to open a connection''),
      (le LOCERR_CONN, ''connection cannot be established''),
      (le LOCERR_ALREADY, ''element is already installed''),
      (le LOCERR_TOONEW, ''this build is too new for this license''),
      (le LOCERR_NOTIMP, ''function not implemented''),
      (le LOCERR_WRONGPROD, ''this license code is valid, but not for this product''),
      (le LOCERR_USERSUSPEND, ''explicitly suspended on behalf of user''),
      (le LOCERR_TOOOLD, ''this build is too old for this SDK/plugin''),
      (le LOCERR_UNKSUBSYSTEM, ''unknown subsystem''),
      (le LOCERR_SESSIONRST, ''next message will be a session restart''),
      (le LOCERR_LOCDBNOTRDY, ''local datastore is not ready''),
      (le LOCERR_RESTART, ''session should be restarted from scratch''),
      (le LOCERR_PIPECOMM, ''internal pipe communication problem''),
      (le LOCERR_BUFTOOSMALL, ''buffer too small for requested value''),
      (le LOCERR_TRUNCATED, ''value truncated to fit into field or buffer''),
      (le LOCERR_BADPARAM, ''bad parameter''),
      (le LOCERR_OUTOFRANGE, ''out of range''),
      (le LOCERR_TRANSPFAIL, ''external transport failure''),
      (le LOCERR_CLASSNOTREG, ''class not registered''),
      (le LOCERR_IIDNOTREG, ''interface not registered''),
      (le LOCERR_BADURL, ''bad URL''),
      (le LOCERR_SRVNOTFOUND, ''server not found'')]"

definition Status2String :: "sysync \<Rightarrow> string \<Rightarrow> int \<Rightarrow> string" where
  "Status2String sy ver status =
     (let isLocal = (status \<ge> local_status_code sy);
          code = (if isLocal \<and> status \<le> local_status_code_end sy then status - local_status_code sy else status);
          error = (case map_of (status_texts (locerr_code sy) ver) code of Some t \<Rightarrow> t | None \<Rightarrow> []);
          statusstr = (if isLocal then ''local'' else ''remote'') @ '', status '' @ show_int status
      in if error = [] then statusstr else error @ '' ('' @ statusstr @ '')'')"

section \<open>Theorems\<close>

text \<open>The normal and the server alerted variant of a mode.\<close>

definition plain_mode :: "SyncMode \<Rightarrow> SyncMode" where
  "plain_mode mode =
     (case mode of
        SA_SYNC_TWO_WAY \<Rightarrow> SYNC_TWO_WAY
      | SA_SYNC_ONE_WAY_FROM_CLIENT \<Rightarrow> SYNC_ONE_WAY_FROM_CLIENT
      | SA_SYNC_REFRESH_FROM_CLIENT \<Rightarrow> SYNC_REFRESH_FROM_CLIENT
      | SA_SYNC_ONE_WAY_FROM_SERVER \<Rightarrow> SYNC_ONE_WAY_FROM_SERVER
      | SA_SYNC_REFRESH_FROM_SERVER \<Rightarrow> SYNC_REFRESH_FROM_SERVER
      | _ \<Rightarrow> mode)"

definition alerted_mode :: "SyncMode \<Rightarrow> SyncMode" where
  "alerted_mode mode =
     (case plain_mode mode of
        SYNC_TWO_WAY \<Rightarrow> SA_SYNC_TWO_WAY
      | SYNC_ONE_WAY_FROM_CLIENT \<Rightarrow> SA_SYNC_ONE_WAY_FROM_CLIENT
      | SYNC_REFRESH_FROM_CLIENT \<Rightarrow> SA_SYNC_REFRESH_FROM_CLIENT
      | SYNC_ONE_WAY_FROM_SERVER \<Rightarrow> SA_SYNC_ONE_WAY_FROM_SERVER
      | SYNC_REFRESH_FROM_SERVER \<Rightarrow> SA_SYNC_REFRESH_FROM_SERVER
      | m \<Rightarrow> m)"

text \<open>
  Parsing inverts printing of sync modes. The user-visible name of a mode is parsed as the
  mode, in its server alerted variant when that is asked for. The exceptions are the pseudo mode
  for restoring from a backup, which has a name that is not parsed, and the two markers.
\<close>

lemma sync_mode_roundtrip:
  "StringToSyncMode (PrettyPrintSyncMode mode True) serverAlerted =
     (if mode \<in> {SYNC_RESTORE_FROM_BACKUP, SYNC_LAST, SYNC_INVALID} then SYNC_INVALID
      else if serverAlerted then alerted_mode mode else plain_mode mode)"
proof -
  have markers: "show_int 220 = ''220''" "show_int 255 = ''255''" by code_simp+
  show ?thesis
    by (cases mode)
      (simp_all add: StringToSyncMode_def PrettyPrintSyncMode_def iequals_def tolower_literals markers
        alerted_mode_def plain_mode_def)
qed

text \<open>The mode that a simplified mode stands for.\<close>

primrec of_simple :: "SimpleSyncMode \<Rightarrow> SyncMode" where
  "of_simple SIMPLE_SYNC_NONE = SYNC_NONE"
| "of_simple SIMPLE_SYNC_TWO_WAY = SYNC_TWO_WAY"
| "of_simple SIMPLE_SYNC_SLOW = SYNC_SLOW"
| "of_simple SIMPLE_SYNC_RESTORE_FROM_BACKUP = SYNC_RESTORE_FROM_BACKUP"
| "of_simple SIMPLE_SYNC_ONE_WAY_FROM_LOCAL = SYNC_ONE_WAY_FROM_LOCAL"
| "of_simple SIMPLE_SYNC_REFRESH_FROM_LOCAL = SYNC_REFRESH_FROM_LOCAL"
| "of_simple SIMPLE_SYNC_ONE_WAY_FROM_REMOTE = SYNC_ONE_WAY_FROM_REMOTE"
| "of_simple SIMPLE_SYNC_REFRESH_FROM_REMOTE = SYNC_REFRESH_FROM_REMOTE"
| "of_simple SIMPLE_SYNC_LOCAL_CACHE_SLOW = SYNC_LOCAL_CACHE_SLOW"
| "of_simple SIMPLE_SYNC_LOCAL_CACHE_INCREMENTAL = SYNC_LOCAL_CACHE_INCREMENTAL"
| "of_simple SIMPLE_SYNC_INVALID = SYNC_INVALID"

text \<open>The numbers of the enumerations agree, as the casts in the code need.\<close>

lemma simple_code_of_simple: "mode_code (of_simple m) = simple_code m"
  by (cases m) simp_all


text \<open>
  The MIME type for a content type. The MIME type that is chosen for a type has the content
  type of that type, in the legacy and in the forced case, except for iCalendar 2.0 when it is
  forced: the returned name is then not known as a content type at all.
\<close>

lemma legacy_mime_type:
  "StringToContentType (GetLegacyMIMEType type force) force =
     (if force \<and> StringToContentType type force = WSPCTC_ICALENDAR then WSPCTC_UNKNOWN
      else StringToContentType type force)"
  by (auto simp: StringToContentType_def GetLegacyMIMEType_def iequals_def tolower_literals)

text \<open>The number at the end of a description.\<close>

definition status_digits :: "string \<Rightarrow> string" where
  "status_digits s =
     rev (takeWhile (\<lambda>c. isdigit c \<or> c = CHR ''-'') (rev (if last s = CHR '')'' then butlast s else s)))"

lemma takeWhile_number:
  "takeWhile (\<lambda>c. isdigit c \<or> c = CHR ''-'') (rev (show_int i) @ CHR '' '' # r) = rev (show_int i)"
proof -
  have "\<not> isdigit CHR '' ''" by (simp add: isdigit_code)
  then show ?thesis
    using show_int_chars [of _ i] by (subst takeWhile_append2) auto
qed

lemma last_show_int: "last (show_int i) \<noteq> CHR '')''"
  using show_int_chars [of "last (show_int i)" i] by (auto simp: isdigit_code)

lemma status_digits_of: "status_digits (Status2String sy ver status) = show_int status"
proof -
  let ?str = "(if local_status_code sy \<le> status then ''local'' else ''remote'') @ '', status '' @ show_int status"
  obtain r where r: "rev ?str = rev (show_int status) @ CHR '' '' # r" by auto
  have "status_digits ?str = show_int status"
    using r takeWhile_number [of status r] last_show_int [of status] by (simp add: status_digits_def)
  moreover have "status_digits (e @ '' ('' @ ?str @ '')'') = show_int status" for e
    using takeWhile_number [of status "r @ rev (e @ '' ('')"] r
    by (simp add: status_digits_def butlast_append)
  ultimately show ?thesis unfolding Status2String_def Let_def by presburger
qed

text \<open>
  Descriptions of status codes are unambiguous. Whatever the values of the error codes of the
  engine and the version of the program are, two status codes with the same description are equal.
\<close>

lemma Status2String_unambiguous:
  "Status2String sy ver status = Status2String sy ver status' \<longleftrightarrow> status = status'"
  by (metis show_int_inj status_digits_of)

end
