(* ===== verification/Sync_Report.thy ===== *)
theory Sync_Report
  imports Kv_Node Sync_Modes
begin

text \<open>
  \<open>SyncSourceReport\<close> and \<open>SyncReport\<close> (src/src/syncevo/SyncML.h, SyncML.cpp): the statistics of
  a sync session, how they are stored in a configuration node or a text dump and read again, and
  the table that is printed for the user. The theorem on storing is proved for all nodes that are
  a \<open>kv_node\<close> and then used for the hash node behind \<open>toString\<close>.
\<close>

section \<open>Statistics\<close>

text \<open>The enumerations index the array of statistics; the last value is the size.\<close>

abbreviation (input) ITEM_LOCAL :: nat where "ITEM_LOCAL \<equiv> 0"
abbreviation (input) ITEM_REMOTE :: nat where "ITEM_REMOTE \<equiv> 1"
abbreviation (input) ITEM_LOCATION_MAX :: nat where "ITEM_LOCATION_MAX \<equiv> 2"
abbreviation (input) ITEM_ADDED :: nat where "ITEM_ADDED \<equiv> 0"
abbreviation (input) ITEM_UPDATED :: nat where "ITEM_UPDATED \<equiv> 1"
abbreviation (input) ITEM_REMOVED :: nat where "ITEM_REMOVED \<equiv> 2"
abbreviation (input) ITEM_ANY :: nat where "ITEM_ANY \<equiv> 3"
abbreviation (input) ITEM_STATE_MAX :: nat where "ITEM_STATE_MAX \<equiv> 4"
abbreviation (input) ITEM_TOTAL :: nat where "ITEM_TOTAL \<equiv> 0"
abbreviation (input) ITEM_REJECT :: nat where "ITEM_REJECT \<equiv> 1"
abbreviation (input) ITEM_MATCH :: nat where "ITEM_MATCH \<equiv> 2"
abbreviation (input) ITEM_CONFLICT_SERVER_WON :: nat where "ITEM_CONFLICT_SERVER_WON \<equiv> 3"
abbreviation (input) ITEM_CONFLICT_CLIENT_WON :: nat where "ITEM_CONFLICT_CLIENT_WON \<equiv> 4"
abbreviation (input) ITEM_CONFLICT_DUPLICATED :: nat where "ITEM_CONFLICT_DUPLICATED \<equiv> 5"
abbreviation (input) ITEM_SENT_BYTES :: nat where "ITEM_SENT_BYTES \<equiv> 6"
abbreviation (input) ITEM_RECEIVED_BYTES :: nat where "ITEM_RECEIVED_BYTES \<equiv> 7"
abbreviation (input) ITEM_RESULT_MAX :: nat where "ITEM_RESULT_MAX \<equiv> 8"

definition locNames :: "string list" where
  "locNames = [''local'', ''remote'']"

definition stateNames :: "string list" where
  "stateNames = [''added'', ''updated'', ''removed'', ''any'']"

definition resultNames :: "string list" where
  "resultNames = [''total'', ''reject'', ''match'', ''conflict_server_won'', ''conflict_client_won'',
     ''conflict_duplicated'', ''sent'', ''received'']"

fun toIndex :: "string list \<Rightarrow> string \<Rightarrow> nat" where
  "toIndex [] name = 0"
| "toIndex (n # names) name = (if name \<noteq> n then Suc (toIndex names name) else 0)"

definition toString :: "string list \<Rightarrow> nat \<Rightarrow> string" where
  "toString names index = (if index < length names then names ! index else ''unknown'')"

definition StatTupleToString :: "nat \<Rightarrow> nat \<Rightarrow> nat \<Rightarrow> string" where
  "StatTupleToString location state result =
     toString locNames location @ ''-'' @ toString stateNames state @ ''-'' @ toString resultNames result"

definition StringToStatTuple :: "string \<Rightarrow> nat \<times> nat \<times> nat" where
  "StringToStatTuple str =
     (let tokens = split_at (\<lambda>c. c = CHR ''-'') str
      in (if length tokens > 0 then toIndex locNames (tokens ! 0) else ITEM_LOCATION_MAX,
          if length tokens > 1 then toIndex stateNames (tokens ! 1) else ITEM_STATE_MAX,
          if length tokens > 2 then toIndex resultNames (tokens ! 2) else ITEM_RESULT_MAX))"

record source_report =
  sr_stat :: "nat \<Rightarrow> nat \<Rightarrow> nat \<Rightarrow> int"
  sr_received :: int
  sr_sent :: int
  sr_mode :: SyncMode
  sr_restarts :: int
  sr_first :: bool
  sr_resume :: bool
  sr_status :: int
  sr_virtualSource :: string
  sr_backupBefore :: int
  sr_backupAfter :: int

definition SyncSourceReport :: source_report where
  "SyncSourceReport =
     \<lparr>sr_stat = (\<lambda>_ _ _. 0), sr_received = 0, sr_sent = 0, sr_mode = SYNC_NONE, sr_restarts = 0, sr_first = False,
      sr_resume = False, sr_status = 0, sr_virtualSource = [], sr_backupBefore = -1, sr_backupAfter = -1\<rparr>"

definition setItemStat :: "nat \<Rightarrow> nat \<Rightarrow> nat \<Rightarrow> int \<Rightarrow> source_report \<Rightarrow> source_report" where
  "setItemStat location state success count s =
     s\<lparr>sr_stat := (sr_stat s)(location := (sr_stat s location)(state := (sr_stat s location state)(success := count)))\<rparr>"

definition incrementItemStat :: "nat \<Rightarrow> nat \<Rightarrow> nat \<Rightarrow> source_report \<Rightarrow> source_report" where
  "incrementItemStat location state success s =
     setItemStat location state success (sr_stat s location state success + 1) s"

definition wasChanged :: "nat \<Rightarrow> source_report \<Rightarrow> bool" where
  "wasChanged location s \<longleftrightarrow> (\<exists>i \<in> set [ITEM_ADDED..<ITEM_ANY]. sr_stat s location i ITEM_TOTAL > 0)"

definition backup_available :: "int \<Rightarrow> bool" where
  "backup_available numItems \<longleftrightarrow> numItems \<ge> 0"

section \<open>Reports\<close>

record sync_report =
  rp_sources :: "(string \<times> source_report) list"
  rp_start :: int
  rp_end :: int
  rp_status :: int
  rp_error :: string
  rp_localName :: string
  rp_remoteName :: string

definition SyncReport :: sync_report where
  "SyncReport =
     \<lparr>rp_sources = [], rp_start = 0, rp_end = 0, rp_status = 0, rp_error = [], rp_localName = ''LOCAL'',
      rp_remoteName = ''REMOTE''\<rparr>"

definition addSyncSourceReport :: "string \<Rightarrow> source_report \<Rightarrow> sync_report \<Rightarrow> sync_report" where
  "addSyncSourceReport name s r = r\<lparr>rp_sources := kput id name s (rp_sources r)\<rparr>"

text \<open>\<open>getSyncSourceReport\<close> is a reference to the entry, which is created if needed.\<close>

definition getSyncSourceReport :: "string \<Rightarrow> sync_report \<Rightarrow> source_report" where
  "getSyncSourceReport name r = (case kfind id name (rp_sources r) of Some s \<Rightarrow> s | None \<Rightarrow> SyncSourceReport)"

definition findSyncSourceReport :: "string \<Rightarrow> sync_report \<Rightarrow> source_report option" where
  "findSyncSourceReport name r = kfind id name (rp_sources r)"

definition report_clear :: "sync_report \<Rightarrow> sync_report" where
  "report_clear r = r\<lparr>rp_sources := [], rp_start := 0, rp_end := 0, rp_error := [], rp_status := 0\<rparr>"

section \<open>Storing\<close>

text \<open>\<open>boost::replace_all\<close> with a non-empty pattern.\<close>

function replace_all :: "string \<Rightarrow> string \<Rightarrow> string \<Rightarrow> string" where
  "replace_all pat rep [] = []"
| "replace_all pat rep (c # s) =
     (if pat \<noteq> [] \<and> starts_with (c # s) pat then rep @ replace_all pat rep (drop (length pat) (c # s))
      else c # replace_all pat rep s)"
  by pat_completeness auto

termination replace_all
  by (relation "measure (\<lambda>(pat, rep, s). length s)") auto

definition source_prefix :: "string \<Rightarrow> string" where
  "source_prefix name = ''source-'' @ replace_all ''-'' ''_+'' (replace_all ''_'' ''__'' name)"

text \<open>The names and values that are written for one source, in this order.\<close>

definition stat_props :: "string \<Rightarrow> source_report \<Rightarrow> (string \<times> string) list" where
  "stat_props prefix s =
     [(prefix @ ''-stat-'' @ StatTupleToString location state result, show_int (sr_stat s location state result)).
        location \<leftarrow> [0..<ITEM_LOCATION_MAX], state \<leftarrow> [0..<ITEM_STATE_MAX], result \<leftarrow> [0..<ITEM_RESULT_MAX],
        sr_stat s location state result \<noteq> 0]"

definition bool_text :: "bool \<Rightarrow> string" where
  "bool_text b = (if b then ''true'' else ''false'')"

definition source_props :: "string \<Rightarrow> source_report \<Rightarrow> (string \<times> string) list" where
  "source_props name s =
     (let prefix = source_prefix name
      in [(prefix @ ''-mode'', PrettyPrintSyncMode (sr_mode s) True)] @
         (if sr_restarts s \<noteq> 0 then [(prefix @ ''-restarts'', show_int (sr_restarts s))] else []) @
         [(prefix @ ''-first'', bool_text (sr_first s)),
          (prefix @ ''-resume'', bool_text (sr_resume s)),
          (prefix @ ''-status'', show_int (sr_status s))] @
         (if sr_virtualSource s \<noteq> [] then [(prefix @ ''-virtualsource'', sr_virtualSource s)] else []) @
         [(prefix @ ''-backup-before'', show_int (sr_backupBefore s)),
          (prefix @ ''-backup-after'', show_int (sr_backupAfter s))] @
         stat_props prefix s)"

fun setProperties :: "'n node_ops \<Rightarrow> 'n \<Rightarrow> (string \<times> string) list \<Rightarrow> 'n step" where
  "setProperties ops n [] = return n"
| "setProperties ops n ((key, value) # props) =
     andThen (setProperty ops n key (explicit value)) (\<lambda>n. setProperties ops n props)"

text \<open>\<open>operator <<\<close> into a node.\<close>

definition report_to_node :: "'n node_ops \<Rightarrow> 'n \<Rightarrow> sync_report \<Rightarrow> 'n step" where
  "report_to_node ops n report =
     andThen (setProperty_int ops n ''start'' (rp_start report))
       (\<lambda>n. andThen (setProperty_int ops n ''end'' (rp_end report))
       (\<lambda>n. andThen (setProperty_int ops n ''status'' (rp_status report))
       (\<lambda>n. andThen (if rp_error report \<noteq> [] then setProperty ops n ''error'' (explicit (rp_error report))
                     else op_removeProperty ops n ''error'')
       (\<lambda>n. setProperties ops n (concat (map (\<lambda>(name, s). source_props name s) (rp_sources report)))))))"

section \<open>Reading\<close>

definition setting :: "('v \<Rightarrow> 's \<Rightarrow> 's) \<Rightarrow> 'v option \<Rightarrow> 's \<Rightarrow> 's" where
  "setting f v s = (case v of Some x \<Rightarrow> f x s | None \<Rightarrow> s)"

text \<open>One property of a source; \<open>key\<close> is what follows the name of the source.\<close>

definition read_field ::
  "'n node_ops \<Rightarrow> 'n \<Rightarrow> string \<Rightarrow> string \<Rightarrow> string \<Rightarrow> source_report \<Rightarrow> source_report" where
  "read_field ops n prop value key s =
     (if starts_with key ''stat-''
      then (let (location, state, result) = StringToStatTuple (drop (length ''stat-'') key)
            in setItemStat location state result (stream_int (- (2 ^ 31)) (2 ^ 31 - 1) value) s)
      else if key = ''mode'' then s\<lparr>sr_mode := StringToSyncMode value False\<rparr>
      else if key = ''restarts'' then setting (\<lambda>v. sr_restarts_update (\<lambda>_. v)) (getProperty_int32 ops n prop) s
      else if key = ''first'' then setting (\<lambda>v. sr_first_update (\<lambda>_. v)) (getProperty_bool ops n prop) s
      else if key = ''resume'' then setting (\<lambda>v. sr_resume_update (\<lambda>_. v)) (getProperty_bool ops n prop) s
      else if key = ''status'' then setting (\<lambda>v. sr_status_update (\<lambda>_. v)) (getProperty_int64 ops n prop) s
      else if key = ''virtualsource'' then s\<lparr>sr_virtualSource := fst (op_readProperty ops n prop)\<rparr>
      else if key = ''backup-before'' then setting (\<lambda>v. sr_backupBefore_update (\<lambda>_. v)) (getProperty_int64 ops n prop) s
      else if key = ''backup-after'' then setting (\<lambda>v. sr_backupAfter_update (\<lambda>_. v)) (getProperty_int64 ops n prop) s
      else s)"

definition read_prop :: "'n node_ops \<Rightarrow> 'n \<Rightarrow> string \<times> init_string \<Rightarrow> sync_report \<Rightarrow> sync_report" where
  "read_prop ops n prop report =
     (if starts_with (fst prop) ''source-''
      then (let key = drop (length ''source-'') (fst prop)
            in case find_char CHR ''-'' key of
                 None \<Rightarrow> report
               | Some off \<Rightarrow>
                   (let sourcename = replace_all ''__'' ''_'' (replace_all ''_+'' ''-'' (take off key))
                    in addSyncSourceReport sourcename
                         (read_field ops n (fst prop) (fst (snd prop)) (drop (off + 1) key)
                            (getSyncSourceReport sourcename report)) report))
      else report)"

text \<open>\<open>operator >>\<close> from a node.\<close>

definition report_from_node :: "'n node_ops \<Rightarrow> 'n \<Rightarrow> sync_report \<Rightarrow> sync_report" where
  "report_from_node ops n report =
     (let report = setting (\<lambda>v. rp_start_update (\<lambda>_. v)) (getProperty_int64 ops n ''start'') report;
          report = setting (\<lambda>v. rp_end_update (\<lambda>_. v)) (getProperty_int64 ops n ''end'') report;
          report = setting (\<lambda>v. rp_status_update (\<lambda>_. v)) (getProperty_int32 ops n ''status'') report;
          report = setting (\<lambda>v. rp_error_update (\<lambda>_. v)) (getProperty ops n ''error'') report
      in fold (read_prop ops n) (op_readProperties ops n []) report)"

text \<open>
  The text dump of a report. The constructor from a dump does not initialize the times and the
  status: their values, if the dump does not contain any, are arguments here.
\<close>

definition SyncReport_toString :: "sync_report \<Rightarrow> string" where
  "SyncReport_toString report =
     (let (e, n) = report_to_node ini_hash_ops (IniHashConfigNode (StringDataBlob ''sync report'' (Some []) False)) report;
          (e, n) = op_flush ini_hash_ops n
      in blob_read (m_data n))"

definition SyncReport_dump :: "int \<Rightarrow> int \<Rightarrow> int \<Rightarrow> string \<Rightarrow> sync_report" where
  "SyncReport_dump start end status dump =
     report_from_node ini_hash_ops (IniHashConfigNode (StringDataBlob ''sync report'' (Some dump) True))
       \<lparr>rp_sources = [], rp_start = start, rp_end = end, rp_status = status, rp_error = [], rp_localName = [],
        rp_remoteName = []\<rparr>"

section \<open>Names of sources\<close>

text \<open>Names without an underscore in front of a plus sign, which the encoding confuses.\<close>

fun no_pair :: "string \<Rightarrow> bool" where
  "no_pair (c # d # s) = (\<not> (c = CHR ''_'' \<and> d = CHR ''+'') \<and> no_pair (d # s))"
| "no_pair s = True"

definition encode_char :: "char \<Rightarrow> string" where
  "encode_char c = (if c = CHR ''_'' then ''__'' else if c = CHR ''-'' then ''_+'' else [c])"

lemma encode_char_simps:
  "encode_char CHR ''_'' = ''__''" "encode_char CHR ''-'' = ''_+''"
  "c \<noteq> CHR ''_'' \<Longrightarrow> c \<noteq> CHR ''-'' \<Longrightarrow> encode_char c = [c]"
  by (simp_all add: encode_char_def)

lemma replace_char: "replace_all [x] rep s = concat (map (\<lambda>c. if c = x then rep else [c]) s)"
  by (induction s) (simp_all add: starts_with_def)

lemma source_prefix_concat: "source_prefix name = ''source-'' @ concat (map encode_char name)"
  unfolding source_prefix_def replace_char by (induction name) (simp_all add: encode_char_def)

lemma encoded_no_dash: "CHR ''-'' \<notin> set (concat (map encode_char name))"
  by (induction name) (auto simp: encode_char_def)

lemma encoded_hd: "starts_with (concat (map encode_char s)) ''+'' \<longleftrightarrow> starts_with s ''+''"
  by (cases s) (auto simp: encode_char_def starts_with_def)

lemma replace_dash_steps:
  "\<not> starts_with r ''+'' \<Longrightarrow> replace_all ''_+'' ''-'' (CHR ''_'' # r) = CHR ''_'' # replace_all ''_+'' ''-'' r"
  "replace_all ''_+'' ''-'' (CHR ''_'' # CHR ''+'' # r) = CHR ''-'' # replace_all ''_+'' ''-'' r"
  "c \<noteq> CHR ''_'' \<Longrightarrow> replace_all ''_+'' ''-'' (c # r) = c # replace_all ''_+'' ''-'' r"
  by (simp_all add: starts_with_def)

lemma decode_dashes:
  "no_pair name \<Longrightarrow> replace_all ''_+'' ''-'' (concat (map encode_char name)) =
     concat (map (\<lambda>c. if c = CHR ''_'' then ''__'' else [c]) name)"
proof (induction name)
  case (Cons c s)
  have IH: "replace_all ''_+'' ''-'' (concat (map encode_char s)) =
      concat (map (\<lambda>c. if c = CHR ''_'' then ''__'' else [c]) s)"
    using Cons by (cases s) auto
  have "\<not> starts_with (concat (map encode_char s)) ''+''" if "c = CHR ''_''"
    using Cons.prems that unfolding encoded_hd by (cases s) (auto simp: starts_with_def)
  then have "replace_all ''_+'' ''-'' (CHR ''_'' # CHR ''_'' # concat (map encode_char s)) =
      CHR ''_'' # CHR ''_'' # replace_all ''_+'' ''-'' (concat (map encode_char s))" if "c = CHR ''_''"
    using that replace_dash_steps(1) [of "CHR ''_'' # concat (map encode_char s)"]
      replace_dash_steps(1) [of "concat (map encode_char s)"] by (simp add: starts_with_def)
  then show ?case
    using IH replace_dash_steps(2) [of "concat (map encode_char s)"]
      replace_dash_steps(3) [of c "concat (map encode_char s)"]
    by (cases "c = CHR ''_''"; cases "c = CHR ''-''") (simp_all add: encode_char_simps del: replace_all.simps)
qed simp

lemma decode_underscores:
  "replace_all ''__'' ''_'' (concat (map (\<lambda>c. if c = CHR ''_'' then ''__'' else [c]) name)) = name"
  by (induction name) (auto simp: starts_with_def)

lemma decode_name:
  "no_pair name \<Longrightarrow>
   replace_all ''__'' ''_'' (replace_all ''_+'' ''-'' (concat (map encode_char name))) = name"
  by (simp add: decode_dashes decode_underscores)

lemma tolower_special: "tolower c = x \<longleftrightarrow> c = x" if "x \<in> {CHR ''_'', CHR ''-'', CHR ''+''}"
proof -
  have "ccode x \<in> {95, 45, 43}" using that by (auto simp: ccode_def)
  then have "ccode (tolower c) = ccode x \<longleftrightarrow> ccode c = ccode x"
    by (auto simp: ccode_tolower isupper_def)
  then show ?thesis by simp
qed

lemma tolower_encode_char: "map tolower (encode_char c) = encode_char (tolower c)"
  using tolower_special [of "CHR ''_''" c] tolower_special [of "CHR ''-''" c]
  by (auto simp: encode_char_def tolower_literals)

lemma tolower_encoded: "map tolower (concat (map encode_char name)) = concat (map encode_char (map tolower name))"
  by (induction name) (simp_all add: tolower_encode_char)

lemma no_pair_tolower: "no_pair (map tolower name) = no_pair name"
  using tolower_special by (induction name rule: no_pair.induct) simp_all

section \<open>Properties of a source as fields\<close>

datatype field =
  F_mode | F_restarts | F_first | F_resume | F_status | F_virtualsource | F_before | F_after | F_stat nat nat nat

primrec field_key :: "field \<Rightarrow> string" where
  "field_key F_mode = ''mode''"
| "field_key F_restarts = ''restarts''"
| "field_key F_first = ''first''"
| "field_key F_resume = ''resume''"
| "field_key F_status = ''status''"
| "field_key F_virtualsource = ''virtualsource''"
| "field_key F_before = ''backup-before''"
| "field_key F_after = ''backup-after''"
| "field_key (F_stat l t r) = ''stat-'' @ StatTupleToString l t r"

primrec field_value :: "source_report \<Rightarrow> field \<Rightarrow> string" where
  "field_value s F_mode = PrettyPrintSyncMode (sr_mode s) True"
| "field_value s F_restarts = show_int (sr_restarts s)"
| "field_value s F_first = bool_text (sr_first s)"
| "field_value s F_resume = bool_text (sr_resume s)"
| "field_value s F_status = show_int (sr_status s)"
| "field_value s F_virtualsource = sr_virtualSource s"
| "field_value s F_before = show_int (sr_backupBefore s)"
| "field_value s F_after = show_int (sr_backupAfter s)"
| "field_value s (F_stat l t r) = show_int (sr_stat s l t r)"

primrec valid_field :: "field \<Rightarrow> bool" where
  "valid_field F_mode = True"
| "valid_field F_restarts = True"
| "valid_field F_first = True"
| "valid_field F_resume = True"
| "valid_field F_status = True"
| "valid_field F_virtualsource = True"
| "valid_field F_before = True"
| "valid_field F_after = True"
| "valid_field (F_stat l t r) = (l < ITEM_LOCATION_MAX \<and> t < ITEM_STATE_MAX \<and> r < ITEM_RESULT_MAX)"

definition source_fields :: "source_report \<Rightarrow> field list" where
  "source_fields s =
     [F_mode] @ (if sr_restarts s \<noteq> 0 then [F_restarts] else []) @ [F_first, F_resume, F_status] @
     (if sr_virtualSource s \<noteq> [] then [F_virtualsource] else []) @ [F_before, F_after] @
     [F_stat l t r. l \<leftarrow> [0..<ITEM_LOCATION_MAX], t \<leftarrow> [0..<ITEM_STATE_MAX], r \<leftarrow> [0..<ITEM_RESULT_MAX],
        sr_stat s l t r \<noteq> 0]"

definition source_key :: "string \<Rightarrow> field \<Rightarrow> string" where
  "source_key name f = source_prefix name @ ''-'' @ field_key f"

lemma source_props_fields:
  "source_props name s = map (\<lambda>f. (source_key name f, field_value s f)) (source_fields s)"
  by (simp add: source_props_def source_fields_def source_key_def stat_props_def Let_def map_concat comp_def
      if_distrib [of "map _"] cong: if_cong)

lemma valid_fields: "f \<in> set (source_fields s) \<Longrightarrow> valid_field f"
  by (auto simp: source_fields_def split: if_splits)

text \<open>The names of the statistics have no dash and differ.\<close>

lemma toIndex_nth: "distinct names \<Longrightarrow> i < length names \<Longrightarrow> toIndex names (names ! i) = i"
  by (induction names arbitrary: i) (auto simp: nth_Cons' split: if_splits)

lemma stat_names:
  "distinct locNames" "distinct stateNames" "distinct resultNames"
  "length locNames = ITEM_LOCATION_MAX" "length stateNames = ITEM_STATE_MAX" "length resultNames = ITEM_RESULT_MAX"
  by (simp_all add: locNames_def stateNames_def resultNames_def)

lemma stat_name_chars:
  assumes "name \<in> set (locNames @ stateNames @ resultNames)"
  shows "CHR ''-'' \<notin> set name" and "map tolower name = name" and "\<forall>c \<in> set name. \<not> isspace c"
  using assms by (auto simp: locNames_def stateNames_def resultNames_def tolower_literals isspace_def)

lemma split_at_char: "d \<notin> set a \<Longrightarrow> split_at (\<lambda>c. c = d) (a @ d # s) = a # split_at (\<lambda>c. c = d) s"
  by (rule split_at_append) auto

lemma split_at_last: "d \<notin> set a \<Longrightarrow> split_at (\<lambda>c. c = d) a = [a]"
  by (rule split_at_none) auto

lemma stat_tuple_roundtrip:
  assumes "l < ITEM_LOCATION_MAX" and "t < ITEM_STATE_MAX" and "r < ITEM_RESULT_MAX"
  shows "StringToStatTuple (StatTupleToString l t r) = (l, t, r)"
proof -
  have n: "locNames ! l \<in> set locNames" "stateNames ! t \<in> set stateNames" "resultNames ! r \<in> set resultNames"
    using assms stat_names by simp_all
  then have "split_at (\<lambda>c. c = CHR ''-'') (StatTupleToString l t r) = [locNames ! l, stateNames ! t, resultNames ! r]"
    using assms stat_names stat_name_chars(1)
    by (simp add: StatTupleToString_def toString_def split_at_char split_at_last)
  then show ?thesis
    using assms by (simp add: StringToStatTuple_def Let_def toIndex_nth stat_names)
qed

lemma field_key_lower: "valid_field f \<Longrightarrow> map tolower (field_key f) = field_key f"
  using stat_name_chars(2) stat_names
  by (cases f) (simp_all add: tolower_literals StatTupleToString_def toString_def)

lemma field_key_space:
  assumes "valid_field f" and "c \<in> set (field_key f)"
  shows "\<not> isspace c"
proof (cases f)
  case (F_stat l t r)
  then have "locNames ! l \<in> set locNames" "stateNames ! t \<in> set stateNames" "resultNames ! r \<in> set resultNames"
    using assms(1) stat_names by simp_all
  then have names: "\<not> isspace d" if "d \<in> set (locNames ! l) \<union> set (stateNames ! t) \<union> set (resultNames ! r)" for d
    using that stat_name_chars(3) [of "locNames ! l"] stat_name_chars(3) [of "stateNames ! t"]
      stat_name_chars(3) [of "resultNames ! r"] by auto
  have "field_key f = ''stat-'' @ locNames ! l @ ''-'' @ stateNames ! t @ ''-'' @ resultNames ! r"
    using assms(1) stat_names by (simp add: F_stat StatTupleToString_def toString_def)
  then have "c \<in> set ''stat-'' \<or> c \<in> set (locNames ! l) \<union> set (stateNames ! t) \<union> set (resultNames ! r)"
    using assms(2) by (simp only: set_append Un_iff) auto
  then show ?thesis using names by (elim disjE) (auto simp: isspace_def)
qed (use assms(2) in \<open>auto simp: isspace_def\<close>)

lemma field_key_inj:
  assumes "valid_field f" and "valid_field g" and "field_key f = field_key g"
  shows "f = g"
proof (cases "\<exists>l t r l' t' r'. f = F_stat l t r \<and> g = F_stat l' t' r'")
  case True
  then show ?thesis
    using assms stat_tuple_roundtrip by (metis append_same_eq field.inject field_key.simps(9) prod.inject
        same_append_eq valid_field.simps(9))
next
  case False
  then show ?thesis using assms(3) by (cases f; cases g) simp_all
qed

lemma source_key_parts:
  "source_key name f = ''source-'' @ concat (map encode_char name) @ CHR ''-'' # field_key f"
  by (simp add: source_key_def source_prefix_concat)

lemma append_first_eq:
  "d \<notin> set a \<Longrightarrow> d \<notin> set b \<Longrightarrow> a @ d # s = b @ d # t \<Longrightarrow> a = b \<and> s = t"
  by (induction a arbitrary: b) (auto simp: Cons_eq_append_conv)

text \<open>Keys of different sources or fields differ in more than case.\<close>

lemma source_key_nocase:
  assumes "no_pair name" and "no_pair name'" and "valid_field f" and "valid_field f'"
    and "nocase_key (source_key name f) = nocase_key (source_key name' f')"
  shows "nocase_key name = nocase_key name' \<and> f = f'"
proof -
  let ?e = "\<lambda>name. concat (map encode_char (map tolower name))"
  have low: "map tolower (source_key name f) = ''source-'' @ ?e name @ CHR ''-'' # field_key f"
    if "valid_field f" for name f
    using field_key_lower [OF that] tolower_encoded [of name] by (simp add: source_key_parts tolower_literals)
  have "?e name @ CHR ''-'' # field_key f = ?e name' @ CHR ''-'' # field_key f'"
    using assms(3-5) low by (simp add: nocase_key_eq_iff iequals_def)
  then have "?e name = ?e name' \<and> field_key f = field_key f'"
    by (intro append_first_eq [of "CHR ''-''"] encoded_no_dash)
  moreover have "map tolower name = map tolower name'" if "?e name = ?e name'"
    using that assms(1,2) decode_name [of "map tolower name"] decode_name [of "map tolower name'"]
    by (simp add: no_pair_tolower)
  ultimately show ?thesis
    using field_key_inj assms(3,4) by (simp only: nocase_key_eq_iff iequals_def)
qed

lemma read_prop_source:
  assumes "no_pair name"
  shows "read_prop ops n (source_key name f, v) report =
    addSyncSourceReport name (read_field ops n (source_key name f) (fst v) (field_key f) (getSyncSourceReport name report)) report"
proof -
  let ?e = "concat (map encode_char name)"
  have key: "starts_with (source_key name f) ''source-''"
    "drop (length ''source-'') (source_key name f) = ?e @ CHR ''-'' # field_key f"
    by (simp_all add: source_key_parts starts_with_def)
  have "find_char CHR ''-'' (?e @ CHR ''-'' # field_key f) = Some (length ?e)"
    by (rule find_char_split) (rule encoded_no_dash)
  then show ?thesis
    using key decode_name [OF assms] by (simp add: read_prop_def Let_def)
qed

section \<open>Reading what was written\<close>

definition int32 :: "int \<Rightarrow> bool" where
  "int32 i \<longleftrightarrow> - (2 ^ 31) \<le> i \<and> i \<le> 2 ^ 31 - 1"

definition int64 :: "int \<Rightarrow> bool" where
  "int64 i \<longleftrightarrow> - (2 ^ 63) \<le> i \<and> i \<le> 2 ^ 63 - 1"

text \<open>
  Reports of a source that can be stored: a mode that is printed and parsed, numbers in the range
  of their types, and no statistics outside of what is saved.
\<close>

definition source_ok :: "source_report \<Rightarrow> bool" where
  "source_ok s \<longleftrightarrow>
     sr_mode s \<notin> {SYNC_RESTORE_FROM_BACKUP, SYNC_LAST, SYNC_INVALID} \<and> plain_mode (sr_mode s) = sr_mode s \<and>
     int32 (sr_restarts s) \<and> int32 (sr_status s) \<and> int64 (sr_backupBefore s) \<and> int64 (sr_backupAfter s) \<and>
     sr_received s = 0 \<and> sr_sent s = 0 \<and>
     (\<forall>l t r. int32 (sr_stat s l t r) \<and> (\<not> valid_field (F_stat l t r) \<longrightarrow> sr_stat s l t r = 0))"

text \<open>The report that has the given fields only.\<close>

definition restrict_report :: "field set \<Rightarrow> source_report \<Rightarrow> source_report" where
  "restrict_report F s =
     \<lparr>sr_stat = (\<lambda>l t r. if F_stat l t r \<in> F then sr_stat s l t r else 0), sr_received = 0, sr_sent = 0,
      sr_mode = (if F_mode \<in> F then sr_mode s else SYNC_NONE),
      sr_restarts = (if F_restarts \<in> F then sr_restarts s else 0),
      sr_first = (F_first \<in> F \<and> sr_first s), sr_resume = (F_resume \<in> F \<and> sr_resume s),
      sr_status = (if F_status \<in> F then sr_status s else 0),
      sr_virtualSource = (if F_virtualsource \<in> F then sr_virtualSource s else []),
      sr_backupBefore = (if F_before \<in> F then sr_backupBefore s else -1),
      sr_backupAfter = (if F_after \<in> F then sr_backupAfter s else -1)\<rparr>"

lemma restrict_report_empty: "restrict_report {} s = SyncSourceReport"
  by (simp add: restrict_report_def SyncSourceReport_def)

lemma restrict_report_all:
  assumes "source_ok s"
  shows "restrict_report (set (source_fields s)) s = s"
proof -
  have "(\<lambda>l t r. if F_stat l t r \<in> set (source_fields s) then sr_stat s l t r else 0) = sr_stat s"
    using assms by (fastforce simp: source_fields_def source_ok_def fun_eq_iff)
  then show ?thesis
    using assms by (cases s) (auto simp: restrict_report_def source_fields_def source_ok_def)
qed

lemma getProperty_bool_text:
  "op_readProperty ops n k = explicit (bool_text b) \<Longrightarrow> getProperty_bool ops n k = Some b"
  by (cases b) (simp_all add: getProperty_bool_def bool_text_def iequals_def tolower_literals)

lemma getProperty_int_show:
  "op_readProperty ops n k = explicit (show_int i) \<Longrightarrow> lo \<le> i \<Longrightarrow> i \<le> hi \<Longrightarrow>
   getProperty_int lo hi ops n k = Some i"
  by (simp add: getProperty_int_def stream_int_show_int)

lemma int32_int64: "int32 i \<Longrightarrow> int64 i"
  by (simp add: int32_def int64_def)

lemma read_field_step:
  assumes "source_ok s" and "valid_field f" and "op_readProperty ops n k = explicit (field_value s f)"
  shows "read_field ops n k (field_value s f) (field_key f) (restrict_report F s) = restrict_report (insert f F) s"
proof (cases f)
  case F_mode
  then show ?thesis
    using assms(1) sync_mode_roundtrip [of "sr_mode s" False]
    by (simp add: read_field_def starts_with_def source_ok_def restrict_report_def)
next
  case (F_stat l t r)
  have "stream_int (- (2 ^ 31)) (2 ^ 31 - 1) (show_int (sr_stat s l t r)) = sr_stat s l t r"
    using assms(1) by (intro stream_int_show_int) (auto simp: source_ok_def int32_def)
  then show ?thesis
    using F_stat assms(2) stat_tuple_roundtrip [of l t r]
    by (auto simp: read_field_def starts_with_def setItemStat_def restrict_report_def fun_eq_iff)
next
  case F_first
  then show ?thesis
    using getProperty_bool_text [of ops n k "sr_first s"] assms(3)
    by (simp add: read_field_def starts_with_def setting_def restrict_report_def)
next
  case F_resume
  then show ?thesis
    using getProperty_bool_text [of ops n k "sr_resume s"] assms(3)
    by (simp add: read_field_def starts_with_def setting_def restrict_report_def)
qed (use assms int32_int64 in \<open>simp_all add: read_field_def starts_with_def setting_def restrict_report_def
    getProperty_int_show source_ok_def int32_def int64_def\<close>)

text \<open>All properties that are written for a report.\<close>

definition report_props :: "sync_report \<Rightarrow> (string \<times> string) list" where
  "report_props r =
     [(''start'', show_int (rp_start r)), (''end'', show_int (rp_end r)), (''status'', show_int (rp_status r))] @
     (if rp_error r \<noteq> [] then [(''error'', rp_error r)] else []) @
     concat (map (\<lambda>(name, s). source_props name s) (rp_sources r))"

definition report_ok :: "sync_report \<Rightarrow> bool" where
  "report_ok r \<longleftrightarrow> int64 (rp_start r) \<and> int64 (rp_end r) \<and> int32 (rp_status r) \<and> ksorted id (rp_sources r) \<and>
     (\<forall>(name, s) \<in> set (rp_sources r). no_pair name \<and> source_ok s) \<and> case_distinct (fst ` set (rp_sources r))"

lemma source_prop_iff:
  "(k, v) \<in> set (concat (map (\<lambda>(name, s). source_props name s) sources)) \<longleftrightarrow>
   (\<exists>name s f. (name, s) \<in> set sources \<and> f \<in> set (source_fields s) \<and> k = source_key name f \<and> v = field_value s f)"
  by (auto simp: source_props_fields)

lemma not_source_key: "k \<in> {''start'', ''end'', ''status'', ''error''} \<Longrightarrow> nocase_key k \<noteq> nocase_key (source_key name f)"
  by (auto simp: nocase_key_eq_iff iequals_def source_key_parts tolower_literals)

lemma global_keys_nocase:
  "k \<in> {''start'', ''end'', ''status'', ''error''} \<Longrightarrow> k' \<in> {''start'', ''end'', ''status'', ''error''} \<Longrightarrow>
   nocase_key k = nocase_key k' \<Longrightarrow> k = k'"
  by (auto simp: nocase_key_eq_iff iequals_def tolower_literals)

lemma report_prop_cases:
  assumes "(k, v) \<in> set (report_props r)"
  obtains "k \<in> {''start'', ''end'', ''status'', ''error''}"
    "(k, v) \<in> {(''start'', show_int (rp_start r)), (''end'', show_int (rp_end r)), (''status'', show_int (rp_status r)),
       (''error'', rp_error r)}"
  | name s f where "(name, s) \<in> set (rp_sources r)" "f \<in> set (source_fields s)" "k = source_key name f" "v = field_value s f"
  using assms unfolding report_props_def set_append Un_iff source_prop_iff by (auto split: if_splits)

text \<open>A key belongs to one property, also when case is ignored.\<close>

lemma report_props_unique:
  assumes "report_ok r" and "(k, v) \<in> set (report_props r)" and "(k', v') \<in> set (report_props r)"
    and "nocase_key k = nocase_key k'"
  shows "k = k' \<and> v = v'"
  using assms(2)
proof (cases rule: report_prop_cases)
  case 1
  note k = this
  show ?thesis using assms(3)
  proof (cases rule: report_prop_cases)
    case 1
    then have "k = k'" using global_keys_nocase [OF k(1)] assms(4) by blast
    then show ?thesis using k(2) 1(2) by auto
  next
    case (2 name s f)
    then show ?thesis using not_source_key [OF k(1), of name f] assms(4) by simp
  qed
next
  case (2 name s f)
  note k = this
  show ?thesis using assms(3)
  proof (cases rule: report_prop_cases)
    case 1
    then show ?thesis using not_source_key [OF 1(1)] assms(4) k(3) by metis
  next
    case (2 name' s' f')
    have ok: "no_pair name" "no_pair name'" using assms(1) k(1) 2(1) by (auto simp: report_ok_def)
    have same: "nocase_key name = nocase_key name'" "f = f'"
      using source_key_nocase [OF ok] valid_fields k 2 assms(4) by blast+
    moreover have "name \<in> fst ` set (rp_sources r)" "name' \<in> fst ` set (rp_sources r)"
      using k(1) 2(1) by force+
    ultimately have "name = name'"
      using assms(1) by (intro inj_onD [of nocase_key "fst ` set (rp_sources r)"]) (simp_all add: report_ok_def)
    moreover have "s = s'"
      using k(1) 2(1) assms(1) \<open>name = name'\<close> by (simp add: report_ok_def ksorted_mem_iff)
    ultimately show ?thesis using k 2 same by simp
  qed
qed

lemma map_of_unique:
  assumes "\<And>v v'. (k, v) \<in> set ps \<Longrightarrow> (k, v') \<in> set ps \<Longrightarrow> v = v'"
  shows "map_of (rev ps) k = Some v \<longleftrightarrow> (k, v) \<in> set ps"
proof
  assume "(k, v) \<in> set ps"
  then obtain w where w: "map_of (rev ps) k = Some w"
    by (metis map_of_eq_None_iff not_None_eq fst_conv image_eqI set_rev)
  then show "map_of (rev ps) k = Some v"
    using assms [of w v] \<open>(k, v) \<in> set ps\<close> map_of_SomeD [OF w] by simp
qed (auto dest: map_of_SomeD)

lemma report_props_content:
  assumes "report_ok r"
  shows "map_of (rev (report_props r)) k = Some v \<longleftrightarrow> (k, v) \<in> set (report_props r)"
  by (rule map_of_unique) (use report_props_unique [OF assms] in blast)

lemma report_props_distinct:
  assumes "report_ok r"
  shows "case_distinct (fst ` set (report_props r))"
  using report_props_unique [OF assms] by (force simp: inj_on_def)

context kv_node
begin

lemma setProperties_ok:
  assumes "ninv n" and "\<forall>(k, v) \<in> set ps. key k \<and> val v" and "case_distinct (dom (content n) \<union> fst ` set ps)"
  shows "\<exists>n'. setProperties ops n ps = (None, n') \<and> ninv n' \<and> content n' = content n ++ map_of (rev ps)"
  using assms
proof (induction ps arbitrary: n)
  case (Cons p ps)
  obtain k v where p: "p = (k, v)" by (cases p)
  have "case_fresh k (dom (content n))"
    using Cons.prems(3) by (auto simp: p case_fresh_def inj_on_def)
  then obtain n1 where n1: "op_writeProperty ops n k (explicit v) [] = (None, n1)" "ninv n1"
      "content n1 = (content n)(k \<mapsto> v)"
    using write_ok [OF Cons.prems(1), of k v "[]"] Cons.prems(2) by (auto simp: p)
  have "case_distinct (dom (content n1) \<union> fst ` set ps)"
    using Cons.prems(3) by (rule case_distinct_subset) (auto simp: p n1(3))
  then obtain n2 where "setProperties ops n1 ps = (None, n2)" "ninv n2" "content n2 = content n1 ++ map_of (rev ps)"
    using Cons.IH [OF n1(2)] Cons.prems(2) by auto
  then show ?case
    using n1 by (auto simp: p setProperty_def map_add_def fun_eq_iff split: option.splits)
qed simp

lemma setProperties_append:
  "setProperties ops n (ps @ qs) = andThen (setProperties ops n ps) (\<lambda>n. setProperties ops n qs)"
proof (induction ps arbitrary: n)
  case (Cons p ps)
  obtain k v where p: "p = (k, v)" by (cases p)
  show ?case
    by (cases "setProperty ops n k (explicit v)"; cases "fst (setProperty ops n k (explicit v))")
      (simp_all add: p Cons.IH)
qed simp

text \<open>Writing a report to an empty node stores exactly its properties.\<close>

lemma report_written:
  assumes "ninv n" and "content n = Map.empty" and "report_ok r"
    and "\<forall>(k, v) \<in> set (report_props r). key k \<and> val v" and "key ''error''"
  shows "\<exists>n'. report_to_node ops n r = (None, n') \<and> ninv n' \<and> content n' = map_of (rev (report_props r))"
proof -
  let ?a = "[(''start'', show_int (rp_start r)), (''end'', show_int (rp_end r)), (''status'', show_int (rp_status r))]"
  let ?b = "if rp_error r \<noteq> [] then [(''error'', rp_error r)] else []"
  let ?c = "concat (map (\<lambda>(name, s). source_props name s) (rp_sources r))"
  have props: "report_props r = ?a @ ?b @ ?c" by (simp add: report_props_def)
  note dist = report_props_distinct [OF assms(3)]
  have node: "report_to_node ops n r = andThen (setProperties ops n ?a)
      (\<lambda>n. andThen (if rp_error r \<noteq> [] then setProperties ops n ?b else op_removeProperty ops n ''error'')
        (\<lambda>n. setProperties ops n ?c))"
    by (auto simp: report_to_node_def setProperty_int_def andThen_def split: option.splits)
  show ?thesis
  proof (cases "rp_error r = []")
    case False
    then have "report_to_node ops n r = setProperties ops n (report_props r)"
      by (simp only: node props setProperties_append if_True not_False_eq_True)
    then show ?thesis
      using setProperties_ok [OF assms(1,4)] dist assms(2) by simp
  next
    case True
    have "case_distinct (dom (content n) \<union> fst ` set ?a)"
      using dist by (rule case_distinct_subset) (auto simp: assms(2) props)
    then obtain n1 where n1: "setProperties ops n ?a = (None, n1)" "ninv n1" "content n1 = map_of (rev ?a)"
      using setProperties_ok [OF assms(1), of ?a] assms(2,4) by (auto simp: props)
    obtain n2 where n2: "op_removeProperty ops n1 ''error'' = (None, n2)" "ninv n2"
        "content n2 = (content n1)(''error'' := None)"
      using remove_ok [OF n1(2) assms(5)] by blast
    have same: "content n2 = map_of (rev ?a)" by (auto simp: n2(3) n1(3))
    have "case_distinct (dom (content n2) \<union> fst ` set ?c)"
      using dist by (rule case_distinct_subset) (auto simp: same props split: if_splits)
    then obtain n3 where n3: "setProperties ops n2 ?c = (None, n3)" "ninv n3"
        "content n3 = content n2 ++ map_of (rev ?c)"
      using setProperties_ok [OF n2(2), of ?c] assms(4) by (auto simp: props)
    have "map_of (rev (report_props r)) = map_of (rev ?a) ++ map_of (rev ?c)"
      using True by (simp only: props rev_append map_of_append) simp
    then show ?thesis
      using True n1(1) n2(1) n3 same by (simp add: node)
  qed
qed

end

text \<open>
  The state of reading when the properties with the keys \<open>D\<close> have been read: every source of the
  report has the fields whose properties were read.
\<close>

definition reading :: "sync_report \<Rightarrow> string set \<Rightarrow> sync_report \<Rightarrow> bool" where
  "reading r D t \<longleftrightarrow> ksorted id (rp_sources t) \<and>
     (\<forall>name. map_of (rp_sources t) name =
        (case map_of (rp_sources r) name of
           None \<Rightarrow> None
         | Some s \<Rightarrow> (let F = {f \<in> set (source_fields s). source_key name f \<in> D}
                     in if F = {} then None else Some (restrict_report F s))))"

lemma source_key_eq:
  assumes "report_ok r" and "map_of (rp_sources r) name = Some s" and "map_of (rp_sources r) name' = Some s'"
    and "f \<in> set (source_fields s)" and "g \<in> set (source_fields s')"
  shows "source_key name f = source_key name' g \<longleftrightarrow> name = name' \<and> f = g"
proof
  assume eq: "source_key name f = source_key name' g"
  have mem: "(name, s) \<in> set (rp_sources r)" "(name', s') \<in> set (rp_sources r)"
    using assms(2,3) by (auto dest: map_of_SomeD)
  then have "no_pair name" "no_pair name'" using assms(1) by (auto simp: report_ok_def)
  then have "nocase_key name = nocase_key name'" "f = g"
    using source_key_nocase [of name name' f g] valid_fields assms(4,5) eq by simp_all
  moreover have "name \<in> fst ` set (rp_sources r)" "name' \<in> fst ` set (rp_sources r)" using mem by force+
  ultimately show "name = name' \<and> f = g"
    using assms(1) inj_onD [of nocase_key "fst ` set (rp_sources r)" name name'] by (simp add: report_ok_def)
qed simp

lemma reading_step:
  assumes "report_ok r" and "reading r D t" and "(k, v) \<in> set (report_props r)"
    and "op_readProperty ops n k = explicit v"
  shows "reading r (insert k D) (read_prop ops n (k, explicit v) t) \<and>
    (read_prop ops n (k, explicit v) t)\<lparr>rp_sources := []\<rparr> = t\<lparr>rp_sources := []\<rparr>"
  using assms(3)
proof (cases rule: report_prop_cases)
  case 1
  then have "read_prop ops n (k, explicit v) t = t"
    by (auto simp: read_prop_def starts_with_def)
  moreover have "source_key name f \<in> insert k D \<longleftrightarrow> source_key name f \<in> D" for name f
    using not_source_key [OF 1(1)] by (metis insert_iff)
  ultimately show ?thesis using assms(2) by (simp add: reading_def Let_def del: insert_iff cong: option.case_cong)
next
  case (2 name s f)
  have s: "map_of (rp_sources r) name = Some s" "no_pair name" "source_ok s"
    using assms(1) 2(1) by (auto simp: report_ok_def ksorted_mem_iff)
  let ?F = "\<lambda>name s D. {f \<in> set (source_fields s). source_key name f \<in> D}"
  have "getSyncSourceReport name t = restrict_report (?F name s D) s"
    using assms(2) s(1) restrict_report_empty [of s]
    by (cases "?F name s D = {}") (simp_all add: reading_def getSyncSourceReport_def kfind_id Let_def del: Collect_empty_eq)
  then have step: "read_prop ops n (k, explicit v) t =
      addSyncSourceReport name (restrict_report (insert f (?F name s D)) s) t"
    using read_field_step [OF s(3), of f ops n k "?F name s D"] valid_fields [OF 2(2)] assms(4) 2(3,4)
      read_prop_source [OF s(2), of ops n f "explicit v" t] by simp
  have F: "?F name' s' (insert k D) = (if name' = name then insert f (?F name s D) else ?F name' s' D)"
    if "map_of (rp_sources r) name' = Some s'" for name' s'
    using that s(1) source_key_eq [OF assms(1) that s(1) _ 2(2)] 2(2,3) by auto
  have "map_of (rp_sources (read_prop ops n (k, explicit v) t)) name' =
        (case map_of (rp_sources r) name' of
           None \<Rightarrow> None
         | Some s \<Rightarrow> (let F = ?F name' s (insert k D) in if F = {} then None else Some (restrict_report F s)))" for name'
    using assms(2) s(1) F
    by (cases "map_of (rp_sources r) name'")
      (auto simp: step addSyncSourceReport_def map_of_kput reading_def Let_def simp del: insert_iff)
  moreover have "ksorted id (rp_sources (read_prop ops n (k, explicit v) t))"
    using assms(2) by (simp add: step addSyncSourceReport_def reading_def)
  moreover have "(read_prop ops n (k, explicit v) t)\<lparr>rp_sources := []\<rparr> = t\<lparr>rp_sources := []\<rparr>"
    by (simp add: step addSyncSourceReport_def)
  ultimately show ?thesis by (simp add: reading_def)
qed

lemma reading_fold:
  assumes "report_ok r" and "reading r D t"
    and "\<And>p. p \<in> set ps \<Longrightarrow> \<exists>k v. p = (k, explicit v) \<and> (k, v) \<in> set (report_props r) \<and> op_readProperty ops n k = explicit v"
  shows "reading r (fst ` set ps \<union> D) (fold (read_prop ops n) ps t) \<and>
    (fold (read_prop ops n) ps t)\<lparr>rp_sources := []\<rparr> = t\<lparr>rp_sources := []\<rparr>"
  using assms(2,3)
proof (induction ps arbitrary: D t)
  case (Cons p ps)
  obtain k v where p: "p = (k, explicit v)" "(k, v) \<in> set (report_props r)" "op_readProperty ops n k = explicit v"
    using Cons.prems(2) [of p] by auto
  note step = reading_step [OF assms(1) Cons.prems(1) p(2,3)]
  then show ?case
    using Cons.IH [of "insert k D" "read_prop ops n p t"] Cons.prems(2) by (simp add: p(1))
qed simp

text \<open>At the end all sources are complete.\<close>

lemma reading_complete:
  assumes "report_ok r" and "reading r D t" and "fst ` set (report_props r) \<subseteq> D"
  shows "rp_sources t = rp_sources r"
proof (rule ksorted_unique)
  show "ksorted id (rp_sources t)" using assms(2) by (simp add: reading_def)
  show "ksorted id (rp_sources r)" using assms(1) by (simp add: report_ok_def)
  show "map_of (rp_sources t) = map_of (rp_sources r)"
  proof
    fix name
    show "map_of (rp_sources t) name = map_of (rp_sources r) name"
    proof (cases "map_of (rp_sources r) name")
      case None
      then show ?thesis using assms(2) by (simp add: reading_def)
    next
      case (Some s)
      then have "source_ok s" using assms(1) by (auto simp: report_ok_def dest!: map_of_SomeD)
      have "source_key name f \<in> D" if "f \<in> set (source_fields s)" for f
      proof -
        have "(source_key name f, field_value s f) \<in> set (report_props r)"
          using that map_of_SomeD [OF Some] unfolding report_props_def set_append Un_iff source_prop_iff by blast
        then show ?thesis using assms(3) by force
      qed
      then have "{f \<in> set (source_fields s). source_key name f \<in> D} = set (source_fields s)" by blast
      moreover have "set (source_fields s) \<noteq> {}" by (simp add: source_fields_def)
      ultimately show ?thesis
        using assms(2) Some restrict_report_all [OF \<open>source_ok s\<close>] by (simp add: reading_def)
    qed
  qed
qed

lemma same_but_sources:
  "u\<lparr>rp_sources := []\<rparr> = t\<lparr>rp_sources := []\<rparr> \<Longrightarrow> u = (t :: sync_report)\<lparr>rp_sources := rp_sources u\<rparr>"
  by (cases u; cases t) simp

context kv_node
begin

lemma report_read:
  assumes "ninv n" and "content n = map_of (rev (report_props r))" and "report_ok r"
    and "\<forall>(k, v) \<in> set (report_props r). key k \<and> val v" and "key ''error''"
    and "rp_sources t = []" and "rp_error t = []"
  shows "report_from_node ops n t = r\<lparr>rp_localName := rp_localName t, rp_remoteName := rp_remoteName t\<rparr>"
proof -
  have content: "content n k = Some v \<longleftrightarrow> (k, v) \<in> set (report_props r)" for k v
    by (simp only: assms(2) report_props_content [OF assms(3)])
  have reads: "op_readProperty ops n k = explicit v" if "(k, v) \<in> set (report_props r)" for k v
  proof -
    have "key k" using that assms(4) by blast
    then show ?thesis using read_ok [OF assms(1)] that by (simp add: content [THEN iffD2])
  qed
  have numbers: "getProperty_int64 ops n ''start'' = Some (rp_start r)" "getProperty_int64 ops n ''end'' = Some (rp_end r)"
      "getProperty_int32 ops n ''status'' = Some (rp_status r)"
    using assms(3) by (intro getProperty_int_show reads; simp add: report_props_def report_ok_def int64_def int32_def)+
  have error: "getProperty ops n ''error'' = (if rp_error r = [] then None else Some (rp_error r))"
  proof (cases "rp_error r = []")
    case True
    then have "(''error'', v) \<notin> set (report_props r)" for v
      using not_source_key [of "''error''"] unfolding report_props_def set_append Un_iff source_prop_iff by fastforce
    then have "content n ''error'' = None" using content by (metis not_None_eq)
    then show ?thesis using True read_ok [OF assms(1,5)] by (simp add: getProperty_def)
  next
    case False
    then show ?thesis using reads [of "''error''" "rp_error r"] by (simp add: getProperty_def report_props_def)
  qed
  let ?t = "t\<lparr>rp_start := rp_start r, rp_end := rp_end r, rp_status := rp_status r, rp_error := rp_error r\<rparr>"
  let ?ps = "op_readProperties ops n []"
  note lst = reads_ok [OF assms(1)]
  have start: "report_from_node ops n t = fold (read_prop ops n) ?ps ?t"
    using numbers error assms(7) by (cases t) (simp add: report_from_node_def setting_def)
  have "reading r {} ?t"
    using assms(6) by (simp add: reading_def split: option.splits)
  moreover have "\<exists>k v. p = (k, explicit v) \<and> (k, v) \<in> set (report_props r) \<and> op_readProperty ops n k = explicit v"
    if "p \<in> set ?ps" for p
  proof -
    have "(fst p, fst (snd p)) \<in> set (report_props r)" "snd (snd p)"
      using lists_map_memD [OF lst that] content by simp_all
    then show ?thesis
      using reads by (intro exI [of _ "fst p"] exI [of _ "fst (snd p)"]) (simp add: prod_eq_iff)
  qed
  ultimately have fold: "reading r (fst ` set ?ps) (fold (read_prop ops n) ?ps ?t)"
      "(fold (read_prop ops n) ?ps ?t)\<lparr>rp_sources := []\<rparr> = ?t\<lparr>rp_sources := []\<rparr>"
    using reading_fold [OF assms(3), of "{}" ?t ?ps ops n] by simp_all
  have "fst ` set (report_props r) \<subseteq> fst ` set ?ps"
    using lists_map_dom [OF lst] content by (force simp: dom_def)
  then have "rp_sources (fold (read_prop ops n) ?ps ?t) = rp_sources r"
    by (rule reading_complete [OF assms(3) fold(1)])
  then have "fold (read_prop ops n) ?ps ?t = ?t\<lparr>rp_sources := rp_sources r\<rparr>"
    using same_but_sources [OF fold(2)] by simp
  then show ?thesis by (simp add: start)
qed

end

text \<open>Reading a report depends on the properties of the node only.\<close>

lemma report_from_node_cong:
  assumes "\<And>k. op_readProperty ops n k = op_readProperty ops n' k"
    and "op_readProperties ops n [] = op_readProperties ops n' []"
  shows "report_from_node ops n t = report_from_node ops n' t"
proof -
  have "read_prop ops n = read_prop ops n'"
    by (simp add: fun_eq_iff read_prop_def read_field_def getProperty_int_def getProperty_bool_def assms(1)
        cong: option.case_cong if_cong)
  then show ?thesis
    by (simp add: report_from_node_def getProperty_int_def getProperty_def assms)
qed

text \<open>A report whose names, error text and virtual sources fit into the lines of a text dump.\<close>

definition dump_ok :: "sync_report \<Rightarrow> bool" where
  "dump_ok r \<longleftrightarrow> ini_trimmed (rp_error r) \<and>
     (\<forall>(name, s) \<in> set (rp_sources r). (\<forall>c \<in> set name. \<not> isspace c) \<and> ini_trimmed (sr_virtualSource s))"

lemma trimmed_no_space: "(\<And>c. c \<in> set v \<Longrightarrow> \<not> isspace c) \<Longrightarrow> ini_trimmed v"
  by (auto simp: ini_trimmed_def isspace_def)

lemma encode_char_space: "c \<in> set (encode_char d) \<Longrightarrow> \<not> isspace d \<Longrightarrow> \<not> isspace c"
  by (auto simp: encode_char_def isspace_def split: if_splits)

lemma isspace_prefix: "c \<in> set ''source-'' \<Longrightarrow> \<not> isspace c"
  by (auto simp: isspace_def)

lemma field_value_trimmed:
  assumes "ini_trimmed (sr_virtualSource s)" and "source_ok s"
  shows "ini_trimmed (field_value s f)"
proof (cases f)
  case F_mode
  then show ?thesis
    by (cases "sr_mode s") (use assms(2) in \<open>simp_all add: PrettyPrintSyncMode_def ini_trimmed_def isspace_def source_ok_def\<close>)
qed (use assms(1) show_int_no_space in \<open>auto intro!: trimmed_no_space simp: bool_text_def isspace_def split: if_splits\<close>)

lemma dump_props_ok:
  assumes "report_ok r" and "dump_ok r"
  shows "\<forall>(k, v) \<in> set (report_props r). ini_key k \<and> ini_trimmed v"
proof (clarify, goal_cases)
  case (1 k v)
  then show ?case
  proof (cases rule: report_prop_cases)
    case 1
    then show ?thesis
      using assms(2) show_int_no_space
      by (auto simp: ini_key_def isspace_def dump_ok_def intro!: trimmed_no_space)
  next
    case (2 name s f)
    have name: "\<forall>c \<in> set name. \<not> isspace c" using assms(2) 2(1) by (auto simp: dump_ok_def)
    have "c \<in> set ''source-'' \<or> (\<exists>d \<in> set name. c \<in> set (encode_char d)) \<or> c \<in> set (field_key f)"
      if "c \<in> set (source_key name f)" for c
      using that by (auto simp: source_key_parts)
    then have "\<not> isspace c" if "c \<in> set (source_key name f)" for c
      using that name encode_char_space field_key_space [OF valid_fields [OF 2(2)]]
      by (metis isspace_prefix)
    moreover have "hd (source_key name f) = CHR ''s''" "source_key name f \<noteq> []" by (simp_all add: source_key_parts)
    moreover have "ini_trimmed (sr_virtualSource s)" "source_ok s"
      using 2(1) assms by (auto simp: dump_ok_def report_ok_def)
    ultimately show ?thesis
      using 2(3,4) field_value_trimmed [of s f] by (simp add: ini_key_def)
  qed
qed



end
