(* ===== verification/Log_Dir.thy ===== *)
theory Log_Dir
  imports Sync_Report Config_Names Util_Misc "HOL-Library.Product_Lexorder"
begin

text \<open>
  \<open>LogDir\<close> and \<open>LogDirNames\<close> (src/src/syncevo/SyncContext.cpp): the directories in which sync
  sessions keep their logs, reports and database dumps. Their names contain the peer and the time;
  when a session ends, old directories are removed. The file system is an argument: the entries of
  the log directory, the report in a session directory, and the inodes of the files in a dump.
\<close>

section \<open>Names of session directories\<close>

definition DIR_PREFIX :: string where
  "DIR_PREFIX = ''SyncEvolution-''"

definition trim_slashes :: "string \<Rightarrow> string" where
  "trim_slashes s = rev (dropWhile (\<lambda>c. c = CHR ''/'') (rev s))"

definition parseLogDir :: "string \<Rightarrow> string \<times> string" where
  "parseLogDir fullpath =
     (let iFullpath = trim_slashes fullpath
      in case rfind_char CHR ''/'' iFullpath of
           Some off \<Rightarrow> (take off iFullpath, drop (off + 1) iFullpath)
         | None \<Rightarrow> ([], iFullpath))"

definition escapePeer :: "string \<Rightarrow> string" where
  "escapePeer peer = replace_all ''-'' ''_+'' (replace_all ''_'' ''__'' peer)"

definition unescapePeer :: "string \<Rightarrow> string" where
  "unescapePeer escaped = replace_all ''__'' ''_'' (replace_all ''_+'' ''-'' escaped)"

text \<open>The table of \<open>checkDirName\<close>: a dash, or the largest digit that is allowed.\<close>

definition date_table :: string where
  "date_table = ''-9999-19-39-29-59''"

definition date_char :: "char \<Rightarrow> char \<Rightarrow> bool" where
  "date_char t c =
     (if t = CHR ''-'' then c = CHR ''-''
      else t \<in> set ''12359'' \<and> ccode CHR ''0'' \<le> ccode c \<and> ccode c \<le> ccode t)"

fun check_table :: "string \<Rightarrow> string \<Rightarrow> bool" where
  "check_table [] str = True"
| "check_table (t # table) [] = True"
| "check_table (t # table) (c # str) = (date_char t c \<and> check_table table str)"

definition checkDirName :: "string \<Rightarrow> bool" where
  "checkDirName value = check_table date_table (c_str value)"

text \<open>Prefix, peer and date of a directory name; \<open>None\<close> when it has another format.\<close>

definition parseDirName :: "string \<Rightarrow> (string \<times> string \<times> string) option" where
  "parseDirName dir =
     (let dirPrefix = (if starts_with dir DIR_PREFIX then DIR_PREFIX else []);
          iDir = drop (length dirPrefix) dir
      in case find_char CHR ''-'' iDir of
           None \<Rightarrow> None
         | Some off \<Rightarrow> if checkDirName (drop off iDir) then Some (dirPrefix, take off iDir, drop off iDir) else None)"

text \<open>
  The comparison object sorts by the date, also for names with another format, whose date is what
  follows the first dash.
\<close>

definition dir_date :: "string \<Rightarrow> string" where
  "dir_date path =
     (let dir = snd (parseLogDir path);
          iDir = drop (if starts_with dir DIR_PREFIX then length DIR_PREFIX else 0) dir
      in case find_char CHR ''-'' iDir of None \<Rightarrow> [] | Some off \<Rightarrow> drop off iDir)"

definition date_before :: "string \<Rightarrow> string \<Rightarrow> bool" where
  "date_before str1 str2 \<longleftrightarrow> dir_date str1 < dir_date str2"

interpretation session_dates: strict_weak_order date_before
  by (rule strict_weak_order_key) (rule date_before_def)

definition getPeerNameFromLogdir :: "string \<Rightarrow> string" where
  "getPeerNameFromLogdir dir =
     (case parseDirName (snd (parseLogDir dir)) of
        Some (_, peerName, _) \<Rightarrow> unescapePeer peerName
      | None \<Rightarrow> [])"

section \<open>The log directory\<close>

record log_dir =
  ld_configName :: string
  ld_logdir :: string
  ld_prefix :: string

text \<open>In \<open>setLogdir\<close> the argument \<open>realPath\<close> resolves symbolic links.\<close>

definition iends_with :: "string \<Rightarrow> string \<Rightarrow> bool" where
  "iends_with s p \<longleftrightarrow> ends_with (map tolower s) (map tolower p)"

definition setLogdir :: "env \<Rightarrow> (string \<Rightarrow> string) \<Rightarrow> string \<Rightarrow> log_dir \<Rightarrow> log_dir" where
  "setLogdir env realPath logdir d =
     (if logdir = [] then d
      else (let m_logdir = trim_slashes (SubstEnvironment env logdir)
            in if m_logdir = ''none'' then d\<lparr>ld_logdir := m_logdir\<rparr>
               else (let m_logdir = realPath m_logdir;
                         peer = escapePeer (ld_configName d)
                     in d\<lparr>ld_logdir := m_logdir,
                          ld_prefix := (if iends_with m_logdir ''syncevolution'' then peer else DIR_PREFIX @ peer)\<rparr>)))"

text \<open>
  The entries of the directory are \<open>None\<close> when it does not exist; reading it then throws, which
  happens for the directory \<open>none\<close> only.
\<close>

definition matching_entry :: "log_dir \<Rightarrow> string \<Rightarrow> bool" where
  "matching_entry d entry =
     (let (_, peerName, context) = splitConfigString (ld_configName d)
      in case parseDirName entry of
           None \<Rightarrow> False
         | Some (tmpDirPrefix, tmpPeer, _) \<Rightarrow>
             if peerName \<noteq> [] then ld_prefix d = tmpDirPrefix @ tmpPeer
             else (let (_, _, tmpContext) = splitConfigString (unescapePeer tmpPeer)
                   in context = tmpContext \<and> starts_with (ld_prefix d) tmpDirPrefix))"

definition getLogdirs :: "string list option \<Rightarrow> log_dir \<Rightarrow> se_error + string list" where
  "getLogdirs entries d =
     (case entries of
        None \<Rightarrow> if ld_logdir d \<noteq> ''none'' then Inr [] else Inl (Throw (ld_logdir d))
      | Some es \<Rightarrow>
          (let (_, peerName, _) = splitConfigString (ld_configName d);
               dirs = map (\<lambda>entry. ld_logdir d @ ''/'' @ entry) (filter (matching_entry d) es)
           in Inr (if peerName = [] then sort_key dir_date dirs else sort dirs)))"

definition previousLogdir :: "string list option \<Rightarrow> log_dir \<Rightarrow> string" where
  "previousLogdir entries d =
     (case getLogdirs entries d of Inr dirs \<Rightarrow> if dirs = [] then [] else last dirs | Inl _ \<Rightarrow> [])"

section \<open>Creating a session directory\<close>

text \<open>Position of the dash in front of the sequence letter: the fifth after the first one.\<close>

fun find_from_dash :: "nat \<Rightarrow> string \<Rightarrow> nat \<Rightarrow> nat option" where
  "find_from_dash 0 dateTime off = Some off"
| "find_from_dash (Suc i) dateTime off =
     (case find_char CHR ''-'' (drop (off + 1) dateTime) of
        None \<Rightarrow> None
      | Some k \<Rightarrow> find_from_dash i dateTime (off + 1 + k))"

text \<open>Date without sequence, and the sequence number; the end of the string reads as a zero byte.\<close>

definition split_sequence :: "string \<Rightarrow> string \<times> int" where
  "split_sequence dateTime =
     (case find_from_dash 5 dateTime 0 of
        Some off \<Rightarrow> (take off dateTime,
                     (if off + 1 < length dateTime then schar (dateTime ! (off + 1)) else 0) - schar CHR ''a'')
      | None \<Rightarrow> (dateTime, -1))"

definition note_sequence :: "string \<Rightarrow> (string \<times> int) list \<Rightarrow> (string \<times> int) list" where
  "note_sequence entry seqs =
     (case parseDirName entry of
        None \<Rightarrow> seqs
      | Some (_, _, dateTime) \<Rightarrow>
          (let (dateTime, s) = split_sequence dateTime
           in case kfind id dateTime seqs of
                None \<Rightarrow> kput id dateTime s seqs
              | Some old \<Rightarrow> if s > old then kput id dateTime s seqs else seqs))"

text \<open>A \<open>char\<close> from an integer.\<close>

definition char_of_code :: "int \<Rightarrow> char" where
  "char_of_code i = char_of (nat (i mod 256))"

definition session_date :: "string list option \<Rightarrow> string \<Rightarrow> string" where
  "session_date entries base =
     (let seqs = fold note_sequence (case entries of Some es \<Rightarrow> es | None \<Rightarrow> []) []
      in case kfind id base seqs of
           Some s \<Rightarrow> base @ ''-'' @ [char_of_code (schar CHR ''a'' + s + 1)]
         | None \<Rightarrow> base)"

definition pad :: "nat \<Rightarrow> int \<Rightarrow> string" where
  "pad w i = replicate (w - length (show_int i)) CHR ''0'' @ show_int i"

text \<open>The local time as year, month, day, hour and minute.\<close>

type_synonym local_time = "int \<times> int \<times> int \<times> int \<times> int"

fun base_date :: "local_time \<Rightarrow> string" where
  "base_date (year, mon, day, hour, mins) =
     ''-'' @ pad 4 year @ ''-'' @ pad 2 mon @ ''-'' @ pad 2 day @ ''-'' @ pad 2 hour @ ''-'' @ pad 2 mins"

definition session_path :: "string list option \<Rightarrow> local_time \<Rightarrow> log_dir \<Rightarrow> string" where
  "session_path entries now d = ld_logdir d @ ''/'' @ ld_prefix d @ session_date entries (base_date now)"

section \<open>Expiring old sessions\<close>

datatype Priority =
  NO_DUMPS_NO_ERRORS | NO_DUMPS_WITH_ERRORS | NO_DUMPS_WITH_CHANGES |
  HAS_DUMPS_NO_CHANGES | HAS_DUMPS_NO_CHANGES_WITH_ERRORS | HAS_DUMPS_WITH_CHANGES

primrec priority_code :: "Priority \<Rightarrow> nat" where
  "priority_code NO_DUMPS_NO_ERRORS = 0"
| "priority_code NO_DUMPS_WITH_ERRORS = 1"
| "priority_code NO_DUMPS_WITH_CHANGES = 2"
| "priority_code HAS_DUMPS_NO_CHANGES = 3"
| "priority_code HAS_DUMPS_NO_CHANGES_WITH_ERRORS = 4"
| "priority_code HAS_DUMPS_WITH_CHANGES = 5"

lemma priority_code_inj: "priority_code p = priority_code q \<Longrightarrow> p = q"
  by (cases p; cases q) simp_all

instantiation Priority :: linorder
begin

definition less_eq_Priority :: "Priority \<Rightarrow> Priority \<Rightarrow> bool" where
  "p \<le> q \<longleftrightarrow> priority_code p \<le> priority_code q"

definition less_Priority :: "Priority \<Rightarrow> Priority \<Rightarrow> bool" where
  "p < q \<longleftrightarrow> priority_code p < priority_code q"

instance
  by standard (auto simp: less_eq_Priority_def less_Priority_def intro: priority_code_inj)

end

record dump_info =
  di_dirIndex :: nat
  di_itemsDumpedBefore :: int
  di_itemsDumpedAfter :: int

type_synonym dumps = "(string \<times> dump_info list) list"

text \<open>
  Two dumps are compared by the inodes of their files. \<open>inodes\<close> lists them for a directory,
  \<open>None\<close> when it cannot be read.
\<close>

fun match_inodes :: "nat set \<Rightarrow> nat list \<Rightarrow> bool" where
  "match_inodes first [] \<longleftrightarrow> first \<noteq> {}"
| "match_inodes first (i # second) \<longleftrightarrow> (if i \<notin> first then True else match_inodes (first - {i}) second)"

definition haveDifferentContent ::
  "(string \<Rightarrow> nat list option) \<Rightarrow> string \<Rightarrow> string \<Rightarrow> string \<Rightarrow> string \<Rightarrow> string \<Rightarrow> se_error + bool" where
  "haveDifferentContent inodes sourceName firstDir firstSuffix secondDir secondSuffix =
     (let first = firstDir @ ''/'' @ sourceName @ ''.'' @ firstSuffix;
          second = secondDir @ ''/'' @ sourceName @ ''.'' @ secondSuffix
      in case inodes first of
           None \<Rightarrow> Inl (Throw first)
         | Some fs \<Rightarrow>
             (case inodes second of
                None \<Rightarrow> Inl (Throw second)
              | Some ss \<Rightarrow> Inr (match_inodes (set fs) ss)))"

text \<open>Whether a dump differs from the previous one of its source.\<close>

definition dump_changed ::
  "(string \<Rightarrow> nat list option) \<Rightarrow> string list \<Rightarrow> nat \<Rightarrow> string \<Rightarrow> source_report \<Rightarrow> dump_info list \<Rightarrow> se_error + bool" where
  "dump_changed inodes dirs i sourcename s dumplist =
     (if dumplist = [] then Inr True
      else (let previous = last dumplist
            in if di_itemsDumpedAfter previous \<noteq> sr_backupBefore s \<or> wasChanged ITEM_LOCAL s \<or> wasChanged ITEM_REMOTE s
               then Inr True
               else haveDifferentContent inodes sourcename (dirs ! di_dirIndex previous) ''after'' (dirs ! i) ''before''))"

text \<open>The loop over the sources of one session: changes, whether there are dumps, all dumps so far.\<close>

fun scan_sources ::
  "(string \<Rightarrow> nat list option) \<Rightarrow> string list \<Rightarrow> nat \<Rightarrow> (string \<times> source_report) list \<Rightarrow> bool \<times> bool \<times> dumps \<Rightarrow>
   se_error + (bool \<times> bool \<times> dumps)" where
  "scan_sources inodes dirs i [] st = Inr st"
| "scan_sources inodes dirs i ((sourcename, s) # sources) (changes, havedumps, dumps) =
     (let dumplist = (case kfind id sourcename dumps of Some l \<Rightarrow> l | None \<Rightarrow> []);
          info = \<lparr>di_dirIndex = i, di_itemsDumpedBefore = sr_backupBefore s, di_itemsDumpedAfter = sr_backupAfter s\<rparr>
      in if backup_available (sr_backupBefore s) \<or> backup_available (sr_backupAfter s)
         then (case (if changes then Inr True else dump_changed inodes dirs i sourcename s dumplist) of
                 Inl e \<Rightarrow> Inl e
               | Inr changes \<Rightarrow>
                   scan_sources inodes dirs i sources (changes, True, kput id sourcename (dumplist @ [info]) dumps))
         else scan_sources inodes dirs i sources (changes, havedumps, kput id sourcename dumplist dumps))"

definition session_priority :: "bool \<Rightarrow> bool \<Rightarrow> bool \<Rightarrow> Priority" where
  "session_priority havedumps changes errors =
     (if havedumps
      then (if changes then HAS_DUMPS_WITH_CHANGES
            else if errors then HAS_DUMPS_NO_CHANGES_WITH_ERRORS else HAS_DUMPS_NO_CHANGES)
      else (if changes then NO_DUMPS_WITH_CHANGES
            else if errors then NO_DUMPS_WITH_ERRORS else NO_DUMPS_NO_ERRORS))"

text \<open>The loop over the sessions, whose reports are read from their directories.\<close>

fun scan_sessions ::
  "(string \<Rightarrow> nat list option) \<Rightarrow> (string \<Rightarrow> sync_report) \<Rightarrow> string list \<Rightarrow> nat list \<Rightarrow> dumps \<times> (Priority \<times> nat) list \<Rightarrow>
   se_error + (dumps \<times> (Priority \<times> nat) list)" where
  "scan_sessions inodes readReport dirs [] st = Inr st"
| "scan_sessions inodes readReport dirs (i # is) (dumps, victims) =
     (let report = readReport (dirs ! i);
          errors = (rp_status report \<noteq> 0 \<and> rp_status report \<noteq> 200)
      in case scan_sources inodes dirs i (rp_sources report) (False, False, dumps) of
           Inl e \<Rightarrow> Inl e
         | Inr (changes, havedumps, dumps) \<Rightarrow>
             scan_sessions inodes readReport dirs is
               (dumps, victims @ [(session_priority havedumps changes errors, i)]))"

definition mustkeep :: "dumps \<Rightarrow> nat \<Rightarrow> bool" where
  "mustkeep dumps index \<longleftrightarrow>
     (\<exists>(_, infos) \<in> set dumps. length infos = 1 \<and> di_dirIndex (hd infos) = index)"

text \<open>The loop that removes; the result is the list of removed indices.\<close>

fun expire_loop :: "int \<Rightarrow> nat \<Rightarrow> dumps \<Rightarrow> (Priority \<times> nat) list \<Rightarrow> nat \<Rightarrow> nat list" where
  "expire_loop maxlogdirs n dumps [] deleted = []"
| "expire_loop maxlogdirs n dumps ((p, index) # victims) deleted =
     (if int n - int deleted > maxlogdirs
      then if index \<noteq> n - 1 \<and> \<not> mustkeep dumps index
           then index # expire_loop maxlogdirs n dumps victims (deleted + 1)
           else expire_loop maxlogdirs n dumps victims deleted
      else [])"

definition expire_dirs ::
  "(string \<Rightarrow> nat list option) \<Rightarrow> (string \<Rightarrow> sync_report) \<Rightarrow> int \<Rightarrow> string list \<Rightarrow> se_error + nat list" where
  "expire_dirs inodes readReport maxlogdirs dirs =
     (case scan_sessions inodes readReport dirs [0..<length dirs] ([], []) of
        Inl e \<Rightarrow> Inl e
      | Inr (dumps, victims) \<Rightarrow> Inr (expire_loop maxlogdirs (length dirs) dumps (sort victims) 0))"

definition expire ::
  "(string \<Rightarrow> nat list option) \<Rightarrow> (string \<Rightarrow> sync_report) \<Rightarrow> string list option \<Rightarrow> int \<Rightarrow> log_dir \<Rightarrow> se_error + string list" where
  "expire inodes readReport entries maxlogdirs d =
     (if ld_logdir d \<noteq> [] \<and> maxlogdirs > 0
      then (case getLogdirs entries d of
              Inl e \<Rightarrow> Inl e
            | Inr dirs \<Rightarrow>
                (case expire_dirs inodes readReport maxlogdirs dirs of
                   Inl e \<Rightarrow> Inl e
                 | Inr removed \<Rightarrow> Inr (map (\<lambda>index. dirs ! index) removed)))
      else Inr [])"

section \<open>What is removed\<close>

text \<open>Session \<open>i\<close> has a dump of a source; it has the only one.\<close>

definition available :: "source_report \<Rightarrow> bool" where
  "available s \<longleftrightarrow> backup_available (sr_backupBefore s) \<or> backup_available (sr_backupAfter s)"

definition has_dump :: "(string \<Rightarrow> sync_report) \<Rightarrow> string list \<Rightarrow> string \<Rightarrow> nat \<Rightarrow> bool" where
  "has_dump readReport dirs src i =
     (case map_of (rp_sources (readReport (dirs ! i))) src of Some s \<Rightarrow> available s | None \<Rightarrow> False)"

definition only_dump :: "(string \<Rightarrow> sync_report) \<Rightarrow> string list \<Rightarrow> nat \<Rightarrow> bool" where
  "only_dump readReport dirs i \<longleftrightarrow>
     (\<exists>src. has_dump readReport dirs src i \<and> (\<forall>j < length dirs. has_dump readReport dirs src j \<longrightarrow> j = i))"

definition dump_dirs :: "dumps \<Rightarrow> string \<Rightarrow> nat list" where
  "dump_dirs dumps src = (case map_of dumps src of Some infos \<Rightarrow> map di_dirIndex infos | None \<Rightarrow> [])"

lemma scan_sources_dumps:
  assumes "scan_sources inodes dirs i sources (c, h, dumps) = Inr (c', h', dumps')" and "ksorted id dumps"
    and "distinct (map fst sources)"
  shows "ksorted id dumps' \<and> dump_dirs dumps' src = dump_dirs dumps src @
    (case map_of sources src of Some s \<Rightarrow> if available s then [i] else [] | None \<Rightarrow> [])"
  using assms
proof (induction sources arbitrary: c h dumps)
  case (Cons x sources)
  obtain name s where x: "x = (name, s)" by (cases x)
  let ?l = "case kfind id name dumps of Some l \<Rightarrow> l | None \<Rightarrow> []"
  let ?info = "\<lparr>di_dirIndex = i, di_itemsDumpedBefore = sr_backupBefore s, di_itemsDumpedAfter = sr_backupAfter s\<rparr>"
  obtain c1 h1 where step: "scan_sources inodes dirs i sources
      (c1, h1, kput id name (if available s then ?l @ [?info] else ?l) dumps) = Inr (c', h', dumps')"
    using Cons.prems(1) by (auto simp: x Let_def available_def split: if_splits sum.splits)
  let ?d = "kput id name (if available s then ?l @ [?info] else ?l) dumps"
  have put: "dump_dirs ?d src = dump_dirs dumps src @ (if src = name \<and> available s then [i] else [])"
    by (auto simp: dump_dirs_def map_of_kput kfind_id split: option.splits)
  have sorted: "ksorted id ?d" using Cons.prems(2) by (rule ksorted_kput)
  have IH: "ksorted id dumps' \<and> dump_dirs dumps' src = dump_dirs ?d src @
      (case map_of sources src of Some s \<Rightarrow> if available s then [i] else [] | None \<Rightarrow> [])"
    using Cons.prems(3) by (intro Cons.IH [OF step sorted]) (simp add: x)
  show ?case
  proof (cases "src = name")
    case True
    then have "map_of sources src = None" using Cons.prems(3) by (simp add: x map_of_eq_None_iff)
    then show ?thesis using IH put True by (simp add: x id_def)
  next
    case False
    then show ?thesis using IH put by (simp add: x id_def)
  qed
qed simp

lemma scan_sessions_dumps:
  assumes "scan_sessions inodes readReport dirs is (dumps, victims) = Inr (dumps', victims')" and "ksorted id dumps"
    and "\<And>dir. ksorted id (rp_sources (readReport dir))"
  shows "ksorted id dumps' \<and> map snd victims' = map snd victims @ is \<and>
    dump_dirs dumps' src = dump_dirs dumps src @ filter (has_dump readReport dirs src) is"
  using assms(1,2)
proof (induction "is" arbitrary: dumps victims)
  case (Cons i "is")
  obtain c h d where src: "scan_sources inodes dirs i (rp_sources (readReport (dirs ! i))) (False, False, dumps) = Inr (c, h, d)"
    using Cons.prems(1) by (auto simp: Let_def split: sum.splits)
  obtain p where step: "scan_sessions inodes readReport dirs is (d, victims @ [(p, i)]) = Inr (dumps', victims')"
    using Cons.prems(1) src by (auto simp: Let_def)
  have "distinct (map fst (rp_sources (readReport (dirs ! i))))"
    using ksorted_distinct [OF assms(3)] by simp
  from scan_sources_dumps [OF src Cons.prems(2) this]
  have "ksorted id d" "dump_dirs d src = dump_dirs dumps src @ (if has_dump readReport dirs src i then [i] else [])"
    by (auto simp: has_dump_def split: option.splits)
  then show ?case using Cons.IH [OF step \<open>ksorted id d\<close>] by simp
qed simp

lemma filter_upt_single:
  "filter P [0..<n] = [i] \<longleftrightarrow> i < n \<and> P i \<and> (\<forall>j < n. P j \<longrightarrow> j = i)"
proof
  assume h: "filter P [0..<n] = [i]"
  then have "set (filter P [0..<n]) = {i}" by simp
  then show "i < n \<and> P i \<and> (\<forall>j < n. P j \<longrightarrow> j = i)" by auto
next
  assume h: "i < n \<and> P i \<and> (\<forall>j < n. P j \<longrightarrow> j = i)"
  then have "set (filter P [0..<n]) = set [i]" by auto
  moreover have "distinct (filter P [0..<n])" "sorted (filter P [0..<n])" by (simp_all add: sorted_wrt_filter)
  ultimately show "filter P [0..<n] = [i]" by (intro sorted_distinct_set_unique) auto
qed

lemma mustkeep_only_dump:
  assumes "scan_sessions inodes readReport dirs [0..<length dirs] ([], []) = Inr (dumps, victims)"
    and "\<And>dir. ksorted id (rp_sources (readReport dir))"
  shows "i < length dirs \<Longrightarrow> mustkeep dumps i \<longleftrightarrow> only_dump readReport dirs i" and "map snd victims = [0..<length dirs]"
proof -
  have scan: "ksorted id dumps" "map snd victims = [0..<length dirs]"
      "\<And>src. dump_dirs dumps src = filter (has_dump readReport dirs src) [0..<length dirs]"
    using scan_sessions_dumps [OF assms(1) _ assms(2)] by (simp_all add: dump_dirs_def)
  have "mustkeep dumps i \<longleftrightarrow> (\<exists>src. dump_dirs dumps src = [i])"
  proof
    assume "mustkeep dumps i"
    then obtain src infos where "(src, infos) \<in> set dumps" "length infos = 1" "di_dirIndex (hd infos) = i"
      by (auto simp: mustkeep_def)
    then have "dump_dirs dumps src = [i]"
      using scan(1) by (cases infos) (auto simp: dump_dirs_def ksorted_mem_iff)
    then show "\<exists>src. dump_dirs dumps src = [i]" by blast
  next
    assume "\<exists>src. dump_dirs dumps src = [i]"
    then obtain src infos where "map_of dumps src = Some infos" "map di_dirIndex infos = [i]"
      by (auto simp: dump_dirs_def split: option.splits)
    then have "(src, infos) \<in> set dumps" "length infos = 1" "di_dirIndex (hd infos) = i"
      by (auto dest: map_of_SomeD)
    then show "mustkeep dumps i" unfolding mustkeep_def by blast
  qed
  then show "mustkeep dumps i \<longleftrightarrow> only_dump readReport dirs i" if "i < length dirs"
    using that unfolding scan(3) filter_upt_single only_dump_def by blast
  show "map snd victims = [0..<length dirs]" by (rule scan(2))
qed

text \<open>The loop removes the first sessions in the order of importance that may be removed.\<close>

lemma expire_loop_take:
  "expire_loop maxlogdirs n dumps vs deleted =
   take (nat (int n - int deleted - maxlogdirs)) (map snd (filter (\<lambda>(p, i). i \<noteq> n - 1 \<and> \<not> mustkeep dumps i) vs))"
proof (induction vs arbitrary: deleted)
  case (Cons v vs)
  obtain p i where v: "v = (p, i)" by (cases v)
  show ?case
  proof (cases "int n - int deleted > maxlogdirs")
    case True
    then have "nat (int n - int deleted - maxlogdirs) = Suc (nat (int n - int (deleted + 1) - maxlogdirs))" by simp
    then show ?thesis using True Cons.IH by (simp add: v)
  next
    case False
    then show ?thesis by (simp add: v)
  qed
qed simp

text \<open>Choosing the first \<open>k\<close> of those victims that satisfy a condition.\<close>

definition chosen :: "(nat \<Rightarrow> bool) \<Rightarrow> nat \<Rightarrow> ('a::linorder \<times> nat) list \<Rightarrow> nat list" where
  "chosen Q k victims = take k (map snd (filter (\<lambda>(p, i). Q i) (sort victims)))"

lemma victims_nth:
  assumes "map snd victims = [0..<n]"
  shows "i < n \<Longrightarrow> victims ! i \<in> set victims \<and> snd (victims ! i) = i"
    and "v \<in> set victims \<Longrightarrow> snd v < n \<and> victims ! snd v = v"
proof -
  have len: "length victims = n" using assms by (metis diff_zero length_map length_upt)
  then have nth: "snd (victims ! i) = i" if "i < n" for i
    using that assms by (metis add_0 diff_zero length_upt nth_map nth_upt)
  then show "i < n \<Longrightarrow> victims ! i \<in> set victims \<and> snd (victims ! i) = i" using len by simp
  show "v \<in> set victims \<Longrightarrow> snd v < n \<and> victims ! snd v = v"
    using len nth by (metis in_set_conv_nth)
qed

lemma chosen_set:
  assumes "map snd victims = [0..<n]"
  shows "distinct (chosen Q k victims)" and "set (chosen Q k victims) \<subseteq> {i. i < n \<and> Q i}"
    and "length (chosen Q k victims) < k \<Longrightarrow> set (chosen Q k victims) = {i. i < n \<and> Q i}"
proof -
  let ?xs = "filter (\<lambda>(p, i). Q i) (sort victims)"
  have "distinct (map snd victims)" using assms by simp
  then have "distinct (map snd (sort victims))" by (simp add: distinct_map)
  then have dist: "distinct (map snd ?xs)" by (rule distinct_map_filter)
  then show "distinct (chosen Q k victims)" by (simp add: chosen_def)
  have all: "set (map snd ?xs) = {i. i < n \<and> Q i}"
    using victims_nth [OF assms] by (auto simp: image_iff) (metis split_pairs)
  then show "set (chosen Q k victims) \<subseteq> {i. i < n \<and> Q i}"
    unfolding chosen_def using set_take_subset [of k "map snd ?xs"] by simp
  show "set (chosen Q k victims) = {i. i < n \<and> Q i}" if "length (chosen Q k victims) < k"
  proof -
    have "length (map snd ?xs) \<le> k" using that by (simp add: chosen_def)
    then show ?thesis using all by (simp only: chosen_def take_all)
  qed
qed

lemma chosen_before:
  assumes "map snd victims = [0..<n]" and "i \<in> set (chosen Q k victims)"
    and "j < n" and "Q j" and "j \<notin> set (chosen Q k victims)"
  shows "victims ! i < victims ! j"
proof -
  define xs where "xs = filter (\<lambda>(p, i). Q i) (sort victims)"
  have ch: "chosen Q k victims = map snd (take k xs)" by (simp add: chosen_def xs_def take_map)
  obtain v where v: "v \<in> set (take k xs)" "snd v = i" using assms(2) by (auto simp: ch)
  then have "v \<in> set victims" by (auto simp: xs_def dest: in_set_takeD)
  then have vi: "victims ! i = v" using victims_nth(2) [OF assms(1)] v(2) by blast
  have vj: "victims ! j \<in> set victims" "snd (victims ! j) = j" using victims_nth(1) [OF assms(1,3)] by simp_all
  then have "victims ! j \<in> set xs" using assms(4) by (auto simp: xs_def split_beta)
  moreover have "victims ! j \<notin> set (take k xs)" using vj(2) assms(5) by (metis ch image_eqI set_map)
  ultimately have "victims ! j \<in> set (drop k xs)" by (metis Un_iff append_take_drop_id set_append)
  moreover have "sorted (take k xs @ drop k xs)" by (simp add: xs_def sorted_wrt_filter)
  ultimately have "v \<le> victims ! j" using v(1) unfolding sorted_append by blast
  moreover have "v \<noteq> victims ! j" using v(2) vj(2) assms(2,5) by auto
  ultimately show ?thesis by (simp add: vi)
qed



text \<open>The report of a session with a dump of one source.\<close>

definition dumped_report :: sync_report where
  "dumped_report = addSyncSourceReport ''s'' (SyncSourceReport\<lparr>sr_backupBefore := 1, sr_backupAfter := 1\<rparr>) SyncReport"

text \<open>
  Expiring can remove all dumps of a source. With two sessions that hold dumps of a source and
  a newer one without, and a limit of one session, both dumps are removed although neither is
  protected as the only one at the start: the protection does not consider what is removed
  in the same run.
\<close>

lemma expire_removes_all_dumps:
  "expire_dirs (\<lambda>_. Some [1]) (\<lambda>dir. if dir = ''c'' then SyncReport else dumped_report) 1 [''a'', ''b'', ''c''] = Inr [1, 0]"
  by (simp add: expire_dirs_def SyncReport_def dumped_report_def addSyncSourceReport_def SyncSourceReport_def session_priority_def
      less_eq_Priority_def less_Priority_def numeral_eq_Suc mustkeep_def backup_available_def dump_changed_def haveDifferentContent_def
      wasChanged_def)

section \<open>Names of new sessions\<close>

lemma zero_char: "CHR ''0'' = char_of (48 :: nat)"
  by (rule char_eqI_ccode) (simp add: ccode_def)

lemma pad2:
  assumes "0 \<le> i" and "i < 100"
  shows "pad 2 i = [char_of (48 + nat i div 10), char_of (48 + nat i mod 10)]"
proof -
  obtain n where n: "i = int n" "n < 100" using assms by (metis nat_less_iff zero_le_imp_eq_int of_nat_numeral of_nat_less_iff)
  show ?thesis
  proof (cases "n < 10")
    case True
    then have "show_int i = [char_of (48 + n)]" by (simp add: n show_int_def dec.simps)
    then show ?thesis using True by (simp add: n pad_def zero_char)
  next
    case False
    moreover have "n div 10 < 10" using n(2) by (simp add: less_mult_imp_div_less)
    ultimately have "show_int i = [char_of (48 + n div 10), char_of (48 + n mod 10)]"
      by (simp add: n show_int_def dec.simps [of n] dec.simps [of "n div 10"])
    then show ?thesis by (simp add: n pad_def)
  qed
qed

lemma digit_char: "n < 10 \<Longrightarrow> isdigit (char_of (48 + n)) \<and> ccode (char_of (48 + n)) = 48 + n"
  by (simp add: isdigit_def)

lemma pad_chars: "0 \<le> i \<Longrightarrow> c \<in> set (pad w i) \<Longrightarrow> isdigit c"
  using dec_digits [of c "nat i"] by (auto simp: pad_def show_int_def isdigit_code)

lemma pad4_length:
  assumes "0 \<le> i" and "i < 10000"
  shows "length (pad 4 i) = 4"
proof -
  have "length (dec n) \<le> 4" if "n < 10000" for n
    using that by (simp add: dec.simps [of n] dec.simps [of "n div 10"] dec.simps [of "n div 10 div 10"]
        dec.simps [of "n div 10 div 10 div 10"])
  then show ?thesis using assms by (simp add: pad_def show_int_def)
qed

definition valid_time :: "local_time \<Rightarrow> bool" where
  "valid_time t = (case t of (year, mon, day, hour, mins) \<Rightarrow>
     0 \<le> year \<and> year \<le> 9999 \<and> 1 \<le> mon \<and> mon \<le> 12 \<and> 1 \<le> day \<and> day \<le> 31 \<and> 0 \<le> hour \<and> hour \<le> 23 \<and> 0 \<le> mins \<and> mins \<le> 59)"

lemma date_char_digit: "isdigit c \<Longrightarrow> date_char CHR ''9'' c"
  by (simp add: date_char_def isdigit_def ccode_def)

lemma date_char_first:
  "t \<in> set ''1235'' \<Longrightarrow> 48 + n \<le> ccode t \<Longrightarrow> date_char t (char_of (48 + n))"
  by (auto simp: date_char_def ccode_def)

lemma check_table_digits:
  "list_all isdigit ds \<Longrightarrow> check_table (replicate (length ds) CHR ''9'' @ table) (ds @ str) = check_table table str"
  by (induction ds) (auto simp: date_char_digit)

lemma check_table_pair:
  assumes "t \<in> set ''1235''" and "0 \<le> i" and "i < 100" and "48 + nat i div 10 \<le> ccode t"
  shows "check_table (t # CHR ''9'' # table) (pad 2 i @ str) = check_table table str"
  using date_char_first [OF assms(1,4)] date_char_digit digit_char [of "nat i mod 10"]
  by (simp add: pad2 [OF assms(2,3)])

lemma base_date_parts:
  assumes "valid_time (year, mon, day, hour, mins)"
  shows "check_table date_table (base_date (year, mon, day, hour, mins) @ str)"
proof -
  have y: "list_all isdigit (pad 4 year)" "length (pad 4 year) = 4"
    using assms pad_chars [of year _ 4] pad4_length [of year] by (auto simp: valid_time_def list_all_iff)
  have table: "date_table = CHR ''-'' # replicate (length (pad 4 year)) CHR ''9'' @ CHR ''-'' # CHR ''1'' # CHR ''9'' #
      CHR ''-'' # CHR ''3'' # CHR ''9'' # CHR ''-'' # CHR ''2'' # CHR ''9'' # CHR ''-'' # CHR ''5'' # CHR ''9'' # []"
    unfolding y(2) date_table_def by (simp add: numeral_eq_Suc)
  have dash: "check_table (CHR ''-'' # t) (CHR ''-'' # s) = check_table t s" for t s by (simp add: date_char_def)
  have pairs: "check_table (CHR ''1'' # CHR ''9'' # t) (pad 2 mon @ s) = check_table t s"
      "check_table (CHR ''3'' # CHR ''9'' # t) (pad 2 day @ s) = check_table t s"
      "check_table (CHR ''2'' # CHR ''9'' # t) (pad 2 hour @ s) = check_table t s"
      "check_table (CHR ''5'' # CHR ''9'' # t) (pad 2 mins @ s) = check_table t s" for t s
    using assms by (intro check_table_pair; simp add: valid_time_def ccode_def nat_le_iff div_le_mono; linarith)+
  show ?thesis
    unfolding table by (simp only: base_date.simps append.simps append_assoc dash check_table_digits [OF y(1)] pairs) simp
qed

text \<open>Splitting a date into the part before the sequence letter and the sequence.\<close>

lemma find_from_dash_step:
  "n = Suc i \<Longrightarrow> CHR ''-'' \<notin> set a \<Longrightarrow> drop (off + 1) dt = a @ CHR ''-'' # b \<Longrightarrow> off' = off + 1 + length a \<Longrightarrow>
   find_from_dash n dt off = find_from_dash i dt off'"
  using find_char_split [of "CHR ''-''" a b] by simp

lemma pad_no_dash: "0 \<le> i \<Longrightarrow> CHR ''-'' \<notin> set (pad w i)"
  using pad_chars [of i "CHR ''-''" w] minus_no_digit(1) by blast

lemma base_date_dashes:
  assumes "valid_time t"
  shows "find_from_dash 4 (base_date t @ str) 0 = Some (length (base_date t) - 3)"
    and "length (base_date t) = 17" and "CHR ''-'' \<notin> set (drop (length (base_date t) - 2) (base_date t))"
proof -
  obtain y mo d h mi where t: "t = (y, mo, d, h, mi)" by (cases t)
  have v: "0 \<le> y" "y < 10000" "0 \<le> mo" "mo < 100" "0 \<le> d" "d < 100" "0 \<le> h" "h < 100" "0 \<le> mi" "mi < 100"
    using assms by (simp_all add: valid_time_def t)
  have len: "length (pad 4 y) = 4" "length (pad 2 mo) = 2" "length (pad 2 d) = 2" "length (pad 2 h) = 2" "length (pad 2 mi) = 2"
    using v by (simp_all add: pad4_length pad2)
  then show n: "length (base_date t) = 17" by (simp add: t)
  let ?r4 = "pad 2 mi @ str"
  let ?r3 = "pad 2 h @ CHR ''-'' # ?r4"
  let ?r2 = "pad 2 d @ CHR ''-'' # ?r3"
  let ?r1 = "pad 2 mo @ CHR ''-'' # ?r2"
  have dt: "base_date t @ str = CHR ''-'' # pad 4 y @ CHR ''-'' # ?r1" by (simp add: t)
  have "find_from_dash 4 (base_date t @ str) 0 = find_from_dash 3 (base_date t @ str) 5"
    by (rule find_from_dash_step [of _ _ "pad 4 y" _ _ ?r1]) (use v len in \<open>simp_all add: dt pad_no_dash\<close>)
  also have "\<dots> = find_from_dash 2 (base_date t @ str) 8"
    by (rule find_from_dash_step [of _ _ "pad 2 mo" _ _ ?r2]) (use v len in \<open>simp_all add: dt pad_no_dash\<close>)
  also have "\<dots> = find_from_dash 1 (base_date t @ str) 11"
    by (rule find_from_dash_step [of _ _ "pad 2 d" _ _ ?r3]) (use v len in \<open>simp_all add: dt pad_no_dash\<close>)
  also have "\<dots> = find_from_dash 0 (base_date t @ str) 14"
    by (rule find_from_dash_step [of _ _ "pad 2 h" _ _ ?r4]) (use v len in \<open>simp_all add: dt pad_no_dash\<close>)
  finally show "find_from_dash 4 (base_date t @ str) 0 = Some (length (base_date t) - 3)" by (simp add: n)
  have "drop 15 (base_date t) = pad 2 mi" using len by (simp add: t)
  then show "CHR ''-'' \<notin> set (drop (length (base_date t) - 2) (base_date t))"
    using v by (simp add: n pad_no_dash)
qed

lemma find_from_dash_last:
  "find_from_dash (Suc n) dt off =
     (case find_from_dash n dt off of
        None \<Rightarrow> None
      | Some k \<Rightarrow> map_option (\<lambda>i. k + 1 + i) (find_char CHR ''-'' (drop (k + 1) dt)))"
proof (induction n arbitrary: off)
  case (Suc n)
  let ?f = "find_char CHR ''-'' (drop (off + 1) dt)"
  have "find_from_dash (Suc (Suc n)) dt off = (case ?f of None \<Rightarrow> None | Some k \<Rightarrow> find_from_dash (Suc n) dt (off + 1 + k))"
    and "find_from_dash (Suc n) dt off = (case ?f of None \<Rightarrow> None | Some k \<Rightarrow> find_from_dash n dt (off + 1 + k))"
    by (rule find_from_dash.simps(2))+
  then show ?case by (cases ?f) (simp_all add: Suc.IH del: find_from_dash.simps)
qed (simp split: option.splits)

lemma split_sequence_base:
  assumes "valid_time t"
  shows "split_sequence (base_date t) = (base_date t, -1)"
    and "split_sequence (base_date t @ CHR ''-'' # c # r) = (base_date t, schar c - schar CHR ''a'')"
proof -
  note b = base_date_dashes [OF assms]
  have five: "find_from_dash 5 (base_date t @ str) 0 =
      map_option (\<lambda>i. 15 + i) (find_char CHR ''-'' (drop 15 (base_date t) @ str))" for str
    using find_from_dash_last [of 4 "base_date t @ str" 0] b(1) [of str] by (simp add: b(2))
  have d: "CHR ''-'' \<notin> set (drop 15 (base_date t))" "length (drop 15 (base_date t)) = 2" using b by simp_all
  show "split_sequence (base_date t) = (base_date t, -1)"
    using five [of "[]"] d(1) by (simp add: split_sequence_def)
  have "find_char CHR ''-'' (drop 15 (base_date t) @ CHR ''-'' # c # r) = Some 2"
    using find_char_split [OF d(1), of "c # r"] d(2) by simp
  then have "find_from_dash 5 (base_date t @ CHR ''-'' # c # r) 0 = Some 17" using five by simp
  then show "split_sequence (base_date t @ CHR ''-'' # c # r) = (base_date t, schar c - schar CHR ''a'')"
    by (simp add: split_sequence_def b(2) nth_append)
qed

definition entry_sequence :: "string \<Rightarrow> (string \<times> int) option" where
  "entry_sequence entry = map_option (\<lambda>(_, _, dateTime). split_sequence dateTime) (parseDirName entry)"

lemma map_of_note_sequence:
  "map_of (note_sequence entry seqs) b =
     (case entry_sequence entry of
        None \<Rightarrow> map_of seqs b
      | Some (b', s) \<Rightarrow>
          (if b' \<noteq> b then map_of seqs b
           else Some (case map_of seqs b of None \<Rightarrow> s | Some old \<Rightarrow> max old s)))"
  by (auto simp: note_sequence_def entry_sequence_def kfind_id map_of_kput max_def split: option.splits prod.splits)

text \<open>The map holds the largest sequence of every date.\<close>

lemma noted_sequences:
  "(map_of (fold note_sequence es []) b = None \<longleftrightarrow> (\<forall>e \<in> set es. \<forall>q. entry_sequence e \<noteq> Some (b, q))) \<and>
   (\<forall>m. map_of (fold note_sequence es []) b = Some m \<longrightarrow>
      (\<exists>e \<in> set es. entry_sequence e = Some (b, m)) \<and> (\<forall>e \<in> set es. \<forall>q. entry_sequence e = Some (b, q) \<longrightarrow> q \<le> m))"
proof (induction es rule: rev_induct)
  case (snoc e es)
  have step: "map_of (fold note_sequence (es @ [e]) []) b = map_of (note_sequence e (fold note_sequence es [])) b" by simp
  show ?case
  proof (cases "\<exists>s. entry_sequence e = Some (b, s)")
    case False
    then have "map_of (fold note_sequence (es @ [e]) []) b = map_of (fold note_sequence es []) b"
      unfolding step map_of_note_sequence by (auto split: option.splits)
    then show ?thesis using snoc False by auto
  next
    case True
    then obtain s where s: "entry_sequence e = Some (b, s)" by blast
    then have "map_of (fold note_sequence (es @ [e]) []) b =
        Some (case map_of (fold note_sequence es []) b of None \<Rightarrow> s | Some old \<Rightarrow> max old s)"
      unfolding step map_of_note_sequence by simp
    then show ?thesis
      using snoc s by (cases "map_of (fold note_sequence es []) b") (auto simp: max_def)
  qed
qed simp

lemma escape_peer_encode: "escapePeer peer = concat (map encode_char peer)"
  using source_prefix_concat [of peer] by (simp add: escapePeer_def source_prefix_def)

lemma unescape_peer: "no_pair peer \<Longrightarrow> unescapePeer (escapePeer peer) = peer"
  by (simp only: unescapePeer_def escape_peer_encode decode_name)

lemma parse_session_name:
  assumes "no_pair peer" and "prefix = DIR_PREFIX @ escapePeer peer \<or> prefix = escapePeer peer \<and> peer \<noteq> ''SyncEvolution''"
    and "checkDirName (CHR ''-'' # dt)"
  shows "\<exists>pre. parseDirName (prefix @ CHR ''-'' # dt) = Some (pre, escapePeer peer, CHR ''-'' # dt)"
proof -
  have dash: "CHR ''-'' \<notin> set (escapePeer peer)" unfolding escape_peer_encode by (rule encoded_no_dash)
  have find: "find_char CHR ''-'' (escapePeer peer @ CHR ''-'' # dt) = Some (length (escapePeer peer))"
    by (rule find_char_split [OF dash])
  have "\<not> starts_with (escapePeer peer @ CHR ''-'' # dt) DIR_PREFIX" if "peer \<noteq> ''SyncEvolution''"
  proof
    assume "starts_with (escapePeer peer @ CHR ''-'' # dt) DIR_PREFIX"
    then obtain r where "escapePeer peer @ CHR ''-'' # dt = ''SyncEvolution'' @ CHR ''-'' # r"
      by (auto simp: starts_with_iff DIR_PREFIX_def)
    then have "escapePeer peer = ''SyncEvolution'' \<and> dt = r" by (intro append_first_eq [OF dash]) simp_all
    then have "peer = unescapePeer ''SyncEvolution''" using unescape_peer [OF assms(1)] by simp
    then show False using that by (simp add: unescapePeer_def starts_with_def)
  qed
  then show ?thesis
    using assms(2,3) find by (auto simp: parseDirName_def Let_def)
qed

lemma base_date_chars:
  assumes "valid_time t" and "c \<in> set (base_date t)"
  shows "isdigit c \<or> c = CHR ''-''"
proof -
  obtain y mo d h mi where t: "t = (y, mo, d, h, mi)" by (cases t)
  have "0 \<le> y" "0 \<le> mo" "0 \<le> d" "0 \<le> h" "0 \<le> mi" using assms(1) by (simp_all add: t valid_time_def)
  then show ?thesis using assms(2) pad_chars by (auto simp: t)
qed

lemma base_date_Cons: "\<exists>r. base_date t = CHR ''-'' # r"
  by (cases t) auto

lemma c_str_base: "valid_time t \<Longrightarrow> c_str (base_date t @ str) = base_date t @ c_str str"
  unfolding c_str_def by (rule takeWhile_append2) (use base_date_chars [of t] minus_no_digit(4) in auto)

lemma check_base_date: "valid_time t \<Longrightarrow> checkDirName (base_date t @ str)"
  using base_date_parts by (cases t) (simp only: checkDirName_def c_str_base)

text \<open>
  The settings of a log directory as \<open>setLogdir\<close> makes them, with a configuration name that can be
  part of a file name.
\<close>

definition logdir_ok :: "log_dir \<Rightarrow> bool" where
  "logdir_ok d \<longleftrightarrow> no_pair (ld_configName d) \<and> CHR ''/'' \<notin> set (ld_configName d) \<and>
     (ld_prefix d = DIR_PREFIX @ escapePeer (ld_configName d) \<or>
      ld_prefix d = escapePeer (ld_configName d) \<and> ld_configName d \<noteq> ''SyncEvolution'')"

lemma setLogdir_ok:
  assumes "no_pair (ld_configName d)" and "CHR ''/'' \<notin> set (ld_configName d)" and "ld_configName d \<noteq> ''SyncEvolution''"
    and "logdir \<noteq> []" and "trim_slashes (SubstEnvironment env logdir) \<noteq> ''none''"
  shows "logdir_ok (setLogdir env realPath logdir d)"
  using assms by (simp add: setLogdir_def logdir_ok_def Let_def)

lemma parse_session:
  assumes "logdir_ok d" and "valid_time t"
  shows "\<exists>pre. parseDirName (ld_prefix d @ base_date t @ str) = Some (pre, escapePeer (ld_configName d), base_date t @ str)"
proof -
  obtain r where r: "base_date t = CHR ''-'' # r" using base_date_Cons by blast
  then show ?thesis
    using parse_session_name [of "ld_configName d" "ld_prefix d" "r @ str"] check_base_date [OF assms(2), of str] assms(1)
    by (simp add: logdir_ok_def)
qed

lemma sequence_letter:
  assumes "-1 \<le> m" and "m < 29"
  shows "schar (char_of_code (schar CHR ''a'' + m + 1)) - schar CHR ''a'' = m + 1"
    and "ccode (char_of_code (schar CHR ''a'' + m + 1)) = nat (98 + m)"
proof -
  have a: "schar CHR ''a'' = 97" by (simp add: schar_def ccode_def)
  have "(98 + m) mod 256 = 98 + m" using assms by simp
  then show c: "ccode (char_of_code (schar CHR ''a'' + m + 1)) = nat (98 + m)"
    using assms by (simp add: a char_of_code_def)
  show "schar (char_of_code (schar CHR ''a'' + m + 1)) - schar CHR ''a'' = m + 1"
    unfolding schar_def [of "char_of_code _"] c using assms by (simp add: a)
qed

text \<open>The date of the new session comes after all dates of the same minute.\<close>

lemma session_date_sequence:
  assumes "valid_time t" and "\<forall>e \<in> set es. \<forall>q. entry_sequence e = Some (base_date t, q) \<longrightarrow> -1 \<le> q \<and> q < 29"
  shows "\<exists>suffix q. session_date (Some es) (base_date t) = base_date t @ suffix \<and>
    split_sequence (base_date t @ suffix) = (base_date t, q) \<and>
    (\<forall>e \<in> set es. \<forall>q'. entry_sequence e = Some (base_date t, q') \<longrightarrow> q' < q) \<and>
    (\<forall>c \<in> set suffix. c = CHR ''-'' \<or> 97 \<le> ccode c)"
proof (cases "map_of (fold note_sequence es []) (base_date t)")
  case None
  then show ?thesis
    using split_sequence_base(1) [OF assms(1)] noted_sequences [of es "base_date t"]
    by (intro exI [of _ "[]"] exI [of _ "-1"]) (simp add: session_date_def kfind_id)
next
  case (Some m)
  then have m: "\<exists>e \<in> set es. entry_sequence e = Some (base_date t, m)"
      "\<And>e q. e \<in> set es \<Longrightarrow> entry_sequence e = Some (base_date t, q) \<Longrightarrow> q \<le> m"
    using noted_sequences [of es "base_date t"] by blast+
  then have range: "-1 \<le> m" "m < 29" using assms(2) by blast+
  let ?c = "char_of_code (schar CHR ''a'' + m + 1)"
  have "session_date (Some es) (base_date t) = base_date t @ CHR ''-'' # ?c # []"
    using Some by (simp add: session_date_def kfind_id)
  moreover have "split_sequence (base_date t @ CHR ''-'' # ?c # []) = (base_date t, m + 1)"
    using split_sequence_base(2) [OF assms(1), of ?c "[]"] sequence_letter(1) [OF range] by simp
  moreover have "q' < m + 1" if "e \<in> set es" "entry_sequence e = Some (base_date t, q')" for e q'
    using m(2) [OF that] by simp
  moreover have "97 \<le> ccode ?c" using sequence_letter(2) [OF range] range by simp
  ultimately show ?thesis by (intro exI [of _ "CHR ''-'' # ?c # []"] exI [of _ "m + 1"]) auto
qed

lemma no_slash_parse:
  assumes "CHR ''/'' \<notin> set name" and "name \<noteq> []"
  shows "parseLogDir (dir @ ''/'' @ name) = (dir, name)"
proof -
  have "trim_slashes (dir @ ''/'' @ name) = dir @ ''/'' @ name"
    using assms by (cases name rule: rev_cases) (auto simp: trim_slashes_def)
  then show ?thesis
    using rfind_char_split [OF assms(1), of dir] by (simp add: parseLogDir_def)
qed

text \<open>
  C33: a new session gets a directory of its own. The name that is created for a session is not in
  the log directory yet, whatever peers, sessions of the same minute and other files it contains;
  its sequence number is larger than that of all sessions of the same minute; and the name of the
  peer can be read back from the path. Sequence letters of the same minute must not exceed 28.
\<close>

theorem session_dir_fresh:
  assumes "logdir_ok d" and "valid_time now"
    and "\<forall>e \<in> set es. \<forall>q. entry_sequence e = Some (base_date now, q) \<longrightarrow> -1 \<le> q \<and> q < 29"
  shows "\<exists>name q. session_path (Some es) now d = ld_logdir d @ ''/'' @ name \<and> name \<notin> set es \<and>
    entry_sequence name = Some (base_date now, q) \<and>
    (\<forall>e \<in> set es. \<forall>q'. entry_sequence e = Some (base_date now, q') \<longrightarrow> q' < q) \<and>
    getPeerNameFromLogdir (session_path (Some es) now d) = ld_configName d"
proof -
  obtain suffix q where date: "session_date (Some es) (base_date now) = base_date now @ suffix"
      and q: "split_sequence (base_date now @ suffix) = (base_date now, q)"
      and less: "\<forall>e \<in> set es. \<forall>q'. entry_sequence e = Some (base_date now, q') \<longrightarrow> q' < q"
      and chars: "\<forall>c \<in> set suffix. c = CHR ''-'' \<or> 97 \<le> ccode c"
    using session_date_sequence [OF assms(2,3)] by blast
  let ?name = "ld_prefix d @ base_date now @ suffix"
  obtain pre where parse: "parseDirName ?name = Some (pre, escapePeer (ld_configName d), base_date now @ suffix)"
    using parse_session [OF assms(1,2)] by blast
  then have seq: "entry_sequence ?name = Some (base_date now, q)" by (simp add: entry_sequence_def q)
  then have fresh: "?name \<notin> set es" using less by blast
  have "CHR ''/'' \<notin> set ?name"
  proof -
    have "CHR ''/'' \<notin> set (ld_prefix d)"
      using assms(1) by (auto simp: logdir_ok_def escape_peer_encode DIR_PREFIX_def encode_char_def split: if_splits)
    moreover have "CHR ''/'' \<notin> set suffix"
    proof
      assume "CHR ''/'' \<in> set suffix"
      then have "CHR ''/'' = CHR ''-'' \<or> 97 \<le> ccode CHR ''/''" using chars by blast
      then show False by (simp add: ccode_def)
    qed
    ultimately show ?thesis using base_date_chars [OF assms(2), of "CHR ''/''"] minus_no_digit(3) by auto
  qed
  moreover have "?name \<noteq> []" using base_date_Cons [of now] by auto
  ultimately have dir: "parseLogDir (ld_logdir d @ ''/'' @ ?name) = (ld_logdir d, ?name)"
    by (intro no_slash_parse)
  have peer: "getPeerNameFromLogdir (ld_logdir d @ ''/'' @ ?name) = ld_configName d"
    using assms(1) unfolding getPeerNameFromLogdir_def dir
    by (simp add: parse unescape_peer logdir_ok_def del: append_assoc)
  show ?thesis using fresh peer seq less date by (intro exI [of _ ?name] exI [of _ q]) (simp add: session_path_def)
qed

theorem session_dir_fresh_witness:
  "\<exists>name. session_path (Some [''a@b-2012-01-31-12-00'']) (2012, 1, 31, 12, 0)
     \<lparr>ld_configName = ''a@b'', ld_logdir = ''/logs/syncevolution'', ld_prefix = ''a@b''\<rparr> = ''/logs/syncevolution/'' @ name \<and>
     name \<noteq> ''a@b-2012-01-31-12-00''"
proof -
  let ?d = "\<lparr>ld_configName = ''a@b'', ld_logdir = ''/logs/syncevolution'', ld_prefix = ''a@b''\<rparr>"
  have "logdir_ok ?d" by (simp add: logdir_ok_def escapePeer_def starts_with_def)
  moreover have "entry_sequence ''a@b-2012-01-31-12-00'' = Some (''-2012-01-31-12-00'', -1)" by code_simp
  ultimately show ?thesis
    using session_dir_fresh [of ?d "(2012, 1, 31, 12, 0)" "[''a@b-2012-01-31-12-00'']"]
    by (auto simp: valid_time_def)
qed

end
