(* ===== verification/Config_Property.thy ===== *)
theory Config_Property
  imports Config_Node
begin

text \<open>
  The classes of configuration properties (\<open>ConfigProperty\<close> and the classes derived from it,
  \<open>ConfigPropertyRegistry\<close> and \<open>SourceType\<close>, src/src/syncevo/SyncConfig.h and SyncConfig.cpp): the
  check of a value, how a property is read from a node with its default, how values are normalized.
  The class of a property is a constructor of \<open>property_kind\<close>. Properties of passwords check nothing
  and are read like strings; asking the user for a password is not modelled.

  Shown here: numbers that pass the strict check are read, by the conversion with streams, as the
  value that was checked; values with aliases are accepted exactly if they can be normalized; the
  legacy description of source types survives printing and parsing.
\<close>

section \<open>Properties\<close>

datatype property_kind =
  PlainValue | EnumValue "string list list" |
  IntValue | UIntValue | LongValue | ULongValue | SecondsValue | SafeValue

record config_property =
  cp_obligatory :: bool
  cp_hidden :: bool
  cp_sharing :: Sharing
  cp_names :: "string list"
  cp_comment :: string
  cp_defValue :: string
  cp_descr :: string
  cp_kind :: property_kind

definition ConfigProperty :: "string list \<Rightarrow> string \<Rightarrow> string \<Rightarrow> string \<Rightarrow> property_kind \<Rightarrow> config_property" where
  "ConfigProperty names comment def' descr kind =
     \<lparr>cp_obligatory = False, cp_hidden = False, cp_sharing = NO_SHARING, cp_names = names,
      cp_comment = rstrip comment, cp_defValue = def', cp_descr = descr, cp_kind = kind\<rparr>"

text \<open>The aliases of the two values of a \<open>BoolConfigProperty\<close>.\<close>

definition bool_values :: "string list list" where
  "bool_values = [[''1'', ''T'', ''TRUE''], [''0'', ''F'', ''FALSE'']]"

section \<open>Numbers\<close>

definition INT_MIN :: int where "INT_MIN = - (2 ^ 31)"
definition INT_MAX :: int where "INT_MAX = 2 ^ 31 - 1"
definition UINT_MAX :: int where "UINT_MAX = 2 ^ 32 - 1"
definition LONG_MIN :: int where "LONG_MIN = - (2 ^ 63)"
definition LONG_MAX :: int where "LONG_MAX = 2 ^ 63 - 1"
definition ULONG_MAX :: int where "ULONG_MAX = 2 ^ 64 - 1"

lemmas int_limits = INT_MIN_def INT_MAX_def UINT_MAX_def LONG_MIN_def LONG_MAX_def ULONG_MAX_def

text \<open>Sign and digits of a decimal number at the start of a text, after leading space.\<close>

definition number_sign :: "string \<Rightarrow> bool" where
  "number_sign s = (let t = dropWhile isspace s in t \<noteq> [] \<and> hd t = CHR ''-'')"

definition number_digits :: "string \<Rightarrow> string" where
  "number_digits s = takeWhile isdigit (unsigned_part (dropWhile isspace s))"

text \<open>
  \<open>strtol\<close> and \<open>strtoul\<close> with base ten: the value, whether \<open>errno\<close> is set to \<open>ERANGE\<close>, and the rest
  of the text that \<open>endptr\<close> points to, which is all of it when there is no number.
\<close>

definition strto_rest :: "string \<Rightarrow> string" where
  "strto_rest s = (if number_digits s = [] then s else dropWhile isdigit (unsigned_part (dropWhile isspace s)))"

definition strtol10 :: "string \<Rightarrow> int \<times> bool \<times> string" where
  "strtol10 s =
     (let n = int (dec_value (number_digits s));
          v = (if number_sign s then - n else n)
      in if v < LONG_MIN then (LONG_MIN, True, strto_rest s)
         else if v > LONG_MAX then (LONG_MAX, True, strto_rest s)
         else (v, False, strto_rest s))"

definition strtoul10 :: "string \<Rightarrow> int \<times> bool \<times> string" where
  "strtoul10 s =
     (let n = int (dec_value (number_digits s))
      in if n > ULONG_MAX then (ULONG_MAX, True, strto_rest s)
         else ((if number_sign s then (- n) mod 2 ^ 64 else n), False, strto_rest s))"

text \<open>
  \<open>operator >>\<close> into an integer type: the value and whether the stream has failed. An unsigned
  type accepts a sign and wraps around.
\<close>

definition stream_signed :: "int \<Rightarrow> int \<Rightarrow> string \<Rightarrow> int \<times> bool" where
  "stream_signed lo hi s =
     (let n = int (dec_value (number_digits s));
          v = (if number_sign s then - n else n)
      in if number_digits s = [] then (0, True)
         else if v < lo then (lo, True)
         else if v > hi then (hi, True)
         else (v, False))"

definition stream_unsigned :: "int \<Rightarrow> string \<Rightarrow> int \<times> bool" where
  "stream_unsigned hi s =
     (let n = int (dec_value (number_digits s))
      in if number_digits s = [] then (0, True)
         else if n > hi then (hi, True)
         else ((if number_sign s then (- n) mod (hi + 1) else n), False))"

section \<open>Checking values\<close>

text \<open>\<open>ScalarConfigProperty::checkValue\<close>; the result is the error, \<open>None\<close> if the value is okay.\<close>

definition Scalar_checkValue ::
  "int \<Rightarrow> int \<Rightarrow> int \<Rightarrow> int \<Rightarrow> (string \<Rightarrow> int \<times> bool \<times> string) \<Rightarrow> string \<Rightarrow> string option" where
  "Scalar_checkValue Tmin Tmax Cmin Cmax strto value =
     (let nptr = c_str value;
          (val, erange, endptr) = strto nptr;
          rest = dropWhile isspace endptr
      in if erange \<and> (val = Cmin \<or> val = Cmax) then Some ''range error''
         else if erange \<and> val = 0 then Some ''cannot parse''
         else if length endptr = length nptr then Some ''decimal value expected''
         else if rest \<noteq> [] then Some (''unexpected trailing non-whitespace characters: '' @ rest)
         else if val > Tmax \<or> val < Tmin then Some ''range error''
         else if Tmin = 0 \<and> number_sign nptr then Some ''range error''
         else None)"

definition values_text :: "string list list \<Rightarrow> string" where
  "values_text values =
     join (map (\<lambda>aliases. join (map (\<lambda>a. if a = [] then [CHR 0x22, CHR 0x22] else a) aliases) '' = '') values) '', ''"

definition String_checkValue :: "string list list \<Rightarrow> string \<Rightarrow> string option" where
  "String_checkValue values propValue =
     (if values = [] then None
      else if list_ex (list_ex (iequals propValue)) values then None
      else Some (''not one of the valid values ('' @ values_text values @ '')''))"

fun kind_checkValue :: "property_kind \<Rightarrow> string \<Rightarrow> string option" where
  "kind_checkValue PlainValue value = None"
| "kind_checkValue (EnumValue values) value = String_checkValue values value"
| "kind_checkValue IntValue value = Scalar_checkValue INT_MIN INT_MAX LONG_MIN LONG_MAX strtol10 value"
| "kind_checkValue UIntValue value = Scalar_checkValue 0 UINT_MAX 0 ULONG_MAX strtoul10 value"
| "kind_checkValue LongValue value = Scalar_checkValue LONG_MIN LONG_MAX LONG_MIN LONG_MAX strtol10 value"
| "kind_checkValue ULongValue value = Scalar_checkValue 0 ULONG_MAX 0 ULONG_MAX strtoul10 value"
| "kind_checkValue SecondsValue value = (case parseDuration value of Inl error \<Rightarrow> Some error | Inr _ \<Rightarrow> None)"
| "kind_checkValue SafeValue value = None"

definition checkValue :: "config_property \<Rightarrow> string \<Rightarrow> string option" where
  "checkValue prop value = kind_checkValue (cp_kind prop) value"

text \<open>\<open>StringConfigProperty::normalizeValue\<close>: the result, and the value of the reference argument.\<close>

fun normalizeValue :: "string list list \<Rightarrow> string \<Rightarrow> bool \<times> string" where
  "normalizeValue [] res = (True, res)"
| "normalizeValue (aliases # values) res =
     (if list_ex (iequals res) aliases then (True, hd aliases)
      else (case values of [] \<Rightarrow> (False, res) | _ \<Rightarrow> normalizeValue values res))"

section \<open>Properties in nodes\<close>

definition prop_getName :: "'n node_ops \<Rightarrow> config_property \<Rightarrow> 'n \<Rightarrow> string" where
  "prop_getName ops prop n = ConfigProperty_getName ops (cp_names prop) n"

definition valueError :: "'n node_ops \<Rightarrow> 'n \<Rightarrow> string \<Rightarrow> string \<Rightarrow> string \<Rightarrow> se_error" where
  "valueError ops n name value error = Throw (op_getName ops n @ '': '' @ name @ '' = '' @ value @ '': '' @ error)"

text \<open>\<open>ConfigProperty::getProperty\<close>, with the virtual check of the class.\<close>

definition Base_getProperty :: "'n node_ops \<Rightarrow> config_property \<Rightarrow> 'n \<Rightarrow> se_error + init_string" where
  "Base_getProperty ops prop n =
     (let name = prop_getName ops prop n;
          value = op_readProperty ops n name
      in if wasSet value
         then (case checkValue prop (fst value) of
                 Some error \<Rightarrow> Inl (valueError ops n name (fst value) error)
               | None \<Rightarrow> Inr value)
         else Inr (cp_defValue prop, False))"

text \<open>The virtual \<open>getProperty\<close>: strings are normalized, safe strings are unescaped.\<close>

definition prop_getProperty :: "'n node_ops \<Rightarrow> config_property \<Rightarrow> 'n \<Rightarrow> se_error + init_string" where
  "prop_getProperty ops prop n =
     (case Base_getProperty ops prop n of
        Inl e \<Rightarrow> Inl e
      | Inr res \<Rightarrow>
          Inr (case cp_kind prop of
                 EnumValue values \<Rightarrow> (snd (normalizeValue values (fst res)), snd res)
               | SafeValue \<Rightarrow> (unescape (fst res) CHR ''!'', snd res)
               | _ \<Rightarrow> res))"

definition prop_setProperty :: "'n node_ops \<Rightarrow> config_property \<Rightarrow> 'n \<Rightarrow> init_string \<Rightarrow> 'n step" where
  "prop_setProperty ops prop n value =
     op_writeProperty ops n (prop_getName ops prop n)
       (case cp_kind prop of SafeValue \<Rightarrow> (escape (fst value) CHR ''!'' INI_WORD, snd value) | _ \<Rightarrow> value)
       (cp_comment prop)"

text \<open>Setting a property of a filter node, permanently or as a part of the filter.\<close>

definition prop_setFiltered ::
  "'n node_ops \<Rightarrow> config_property \<Rightarrow> 'n filter_node \<Rightarrow> init_string \<Rightarrow> bool \<Rightarrow> 'n filter_node step" where
  "prop_setFiltered ops prop n value temporarily =
     (let name = prop_getName (filter_ops ops) prop n
      in if temporarily then return (Filter_addFilter n name value)
         else Filter_writeProperty ops n name value (cp_comment prop))"

definition setDefaultProperty :: "'n node_ops \<Rightarrow> config_property \<Rightarrow> 'n \<Rightarrow> bool \<Rightarrow> 'n step" where
  "setDefaultProperty ops prop n force =
     op_writeProperty ops n (prop_getName ops prop n) (cp_defValue prop, force) (cp_comment prop)"

text \<open>\<open>TypedConfigProperty\<close>: numbers are written and read with streams.\<close>

definition Typed_setProperty :: "'n node_ops \<Rightarrow> config_property \<Rightarrow> 'n \<Rightarrow> int \<Rightarrow> 'n step" where
  "Typed_setProperty ops prop n value =
     op_writeProperty ops n (prop_getName ops prop n) (explicit (show_int value)) (cp_comment prop)"

definition Typed_getPropertyValue ::
  "(string \<Rightarrow> int \<times> bool) \<Rightarrow> 'n node_ops \<Rightarrow> config_property \<Rightarrow> 'n \<Rightarrow> se_error + int \<times> bool" where
  "Typed_getPropertyValue stream ops prop n =
     (let name = prop_getName ops prop n;
          value = fst (op_readProperty ops n name)
      in if value = [] then Inr (fst (stream (cp_defValue prop)), False)
         else (case stream value of
                 (res, fail) \<Rightarrow>
                   if fail then Inl (valueError ops n name value ''cannot parse value'') else Inr (res, True)))"

text \<open>The stream of the class.\<close>

fun kind_stream :: "property_kind \<Rightarrow> (string \<Rightarrow> int \<times> bool) option" where
  "kind_stream IntValue = Some (stream_signed INT_MIN INT_MAX)"
| "kind_stream UIntValue = Some (stream_unsigned UINT_MAX)"
| "kind_stream LongValue = Some (stream_signed LONG_MIN LONG_MAX)"
| "kind_stream ULongValue = Some (stream_unsigned ULONG_MAX)"
| "kind_stream _ = None"

definition Seconds_getPropertyValue :: "'n node_ops \<Rightarrow> config_property \<Rightarrow> 'n \<Rightarrow> se_error + 32 word \<times> bool" where
  "Seconds_getPropertyValue ops prop n =
     (let name = prop_getName ops prop n;
          value = fst (op_readProperty ops n name);
          wasSet = (value \<noteq> []);
          value = (if wasSet then value else cp_defValue prop)
      in case parseDuration value of
           Inl error \<Rightarrow> Inl (valueError ops n name value error)
         | Inr seconds \<Rightarrow> Inr (seconds, wasSet))"

definition Bool_setProperty :: "'n node_ops \<Rightarrow> config_property \<Rightarrow> 'n \<Rightarrow> bool \<Rightarrow> 'n step" where
  "Bool_setProperty ops prop n value = prop_setProperty ops prop n (explicit (if value then ''1'' else ''0''))"

text \<open>\<open>atoi\<close>: \<open>strtol\<close>, truncated to an \<open>int\<close>.\<close>

definition atoi_nonzero :: "string \<Rightarrow> bool" where
  "atoi_nonzero s \<longleftrightarrow> fst (strtol10 (c_str s)) mod 2 ^ 32 \<noteq> 0"

definition Bool_getPropertyValue :: "'n node_ops \<Rightarrow> config_property \<Rightarrow> 'n \<Rightarrow> se_error + bool \<times> bool" where
  "Bool_getPropertyValue ops prop n =
     (case Base_getProperty ops prop n of
        Inl e \<Rightarrow> Inl e
      | Inr res \<Rightarrow> Inr (iequals (fst res) ''T'' \<or> iequals (fst res) ''TRUE'' \<or> atoi_nonzero (fst res), snd res))"

section \<open>The registry\<close>

type_synonym registry = "config_property list"

definition registry_find :: "registry \<Rightarrow> string \<Rightarrow> config_property option" where
  "registry_find props propName = find (\<lambda>prop. list_ex (\<lambda>name. iequals name propName) (cp_names prop)) props"

section \<open>Source types\<close>

text \<open>
  \<open>SourceType\<close>: the legacy description of a source. The values of the property \<open>backend\<close>, which
  depend on the installed backends, are an argument.
\<close>

record source_type =
  st_backend :: string
  st_localFormat :: string
  st_format :: string
  st_forceFormat :: bool

definition SourceType :: "string list list \<Rightarrow> string \<Rightarrow> source_type" where
  "SourceType backends type =
     (case find_char CHR '':'' type of
        Some colon \<Rightarrow>
          (let backend = snd (normalizeValue backends (take colon type));
               format = drop (colon + 1) type;
               forceFormat = ends_with format ''!'';
               format = (if forceFormat then take (length format - 1) format else format);
               format = (case find_char CHR '':'' format of Some colon \<Rightarrow> take colon format | None \<Rightarrow> format)
           in \<lparr>st_backend = backend, st_localFormat = format, st_format = format, st_forceFormat = forceFormat\<rparr>)
      | None \<Rightarrow> \<lparr>st_backend = type, st_localFormat = [], st_format = [], st_forceFormat = False\<rparr>)"

definition SourceType_toString :: "source_type \<Rightarrow> string" where
  "SourceType_toString t =
     st_backend t @ (if st_format t \<noteq> [] then '':'' @ st_format t @ (if st_forceFormat t then ''!'' else []) else [])"

section \<open>Numbers that pass the check are read as what was checked\<close>

text \<open>A zero byte ends what the C functions see; the stream stops there as well.\<close>

lemma c_str_Nil [simp]: "c_str [] = []"
  by (simp add: c_str_def)

lemma c_str_Cons: "c_str (c # s) = (if c = CHR 0x00 then [] else c # c_str s)"
  by (simp add: c_str_def)

lemma zero_no_class: "\<not> isspace CHR 0x00" "\<not> isdigit CHR 0x00"
  by code_simp+

lemma dropWhile_space_c_str: "dropWhile isspace (c_str s) = c_str (dropWhile isspace s)"
  using zero_no_class(1) by (induction s) (auto simp: c_str_Cons)

lemma takeWhile_digit_c_str: "takeWhile isdigit (c_str s) = takeWhile isdigit s"
  using zero_no_class(2) by (induction s) (auto simp: c_str_Cons)

lemma c_str_hd: "(c_str t \<noteq> [] \<and> hd (c_str t) = CHR ''-'') = (t \<noteq> [] \<and> hd t = CHR ''-'')"
  by (cases t) (auto simp: c_str_Cons)

lemma number_c_str [simp]: "number_sign (c_str s) = number_sign s" "number_digits (c_str s) = number_digits s"
proof -
  let ?t = "dropWhile isspace s"
  show "number_sign (c_str s) = number_sign s"
    using c_str_hd [of ?t] by (simp add: number_sign_def dropWhile_space_c_str Let_def)
  have "unsigned_part (c_str t) = c_str (unsigned_part t)" for t
    by (cases t) (auto simp: unsigned_part_def c_str_Cons)
  then show "number_digits (c_str s) = number_digits s"
    by (simp add: number_digits_def dropWhile_space_c_str takeWhile_digit_c_str)
qed

text \<open>The number that a text denotes.\<close>

definition number_value :: "string \<Rightarrow> int" where
  "number_value s = (let n = int (dec_value (number_digits s)) in if number_sign s then - n else n)"

definition kind_range :: "property_kind \<Rightarrow> (int \<times> int) option" where
  "kind_range k =
     (case k of IntValue \<Rightarrow> Some (INT_MIN, INT_MAX) | UIntValue \<Rightarrow> Some (0, UINT_MAX)
      | LongValue \<Rightarrow> Some (LONG_MIN, LONG_MAX) | ULongValue \<Rightarrow> Some (0, ULONG_MAX) | _ \<Rightarrow> None)"

lemma signed_check:
  assumes "Scalar_checkValue Tmin Tmax LONG_MIN LONG_MAX strtol10 s = None"
    and "LONG_MIN \<le> Tmin" "Tmax \<le> LONG_MAX"
  shows "number_digits s \<noteq> [] \<and> Tmin \<le> number_value s \<and> number_value s \<le> Tmax \<and>
    stream_signed Tmin Tmax s = (number_value s, False)"
proof -
  have digits: "number_digits s \<noteq> []"
    using assms(1) by (auto simp: Scalar_checkValue_def strtol10_def strto_rest_def Let_def split: if_splits)
  have "Tmin \<le> number_value s \<and> number_value s \<le> Tmax"
    using assms by (auto simp: Scalar_checkValue_def strtol10_def number_value_def Let_def split: if_splits)
  then show ?thesis using digits by (auto simp: stream_signed_def number_value_def Let_def)
qed

lemma unsigned_check:
  assumes "Scalar_checkValue 0 Tmax 0 ULONG_MAX strtoul10 s = None" and "Tmax \<le> ULONG_MAX"
  shows "number_digits s \<noteq> [] \<and> 0 \<le> number_value s \<and> number_value s \<le> Tmax \<and>
    stream_unsigned Tmax s = (number_value s, False)"
proof -
  have digits: "number_digits s \<noteq> []"
    using assms(1) by (auto simp: Scalar_checkValue_def strtoul10_def strto_rest_def Let_def split: if_splits)
  have "\<not> number_sign s"
    using assms(1) by (auto simp: Scalar_checkValue_def Let_def split: if_splits prod.splits)
  then have "\<not> number_sign s \<and> number_value s \<le> Tmax"
    using assms by (auto simp: Scalar_checkValue_def strtoul10_def number_value_def Let_def split: if_splits)
  then show ?thesis using digits by (auto simp: stream_unsigned_def number_value_def Let_def)
qed

lemma kind_check:
  assumes "kind_range k = Some (lo, hi)" and "kind_checkValue k s = None"
  shows "\<exists>stream. kind_stream k = Some stream \<and> stream s = (number_value s, False) \<and>
    lo \<le> number_value s \<and> number_value s \<le> hi \<and> number_digits s \<noteq> []"
  using assms signed_check [of INT_MIN INT_MAX s] signed_check [of LONG_MIN LONG_MAX s]
    unsigned_check [of UINT_MAX s] unsigned_check [of ULONG_MAX s]
  by (cases k) (auto simp: kind_range_def int_limits)

text \<open>
  C30: strict checking and reading agree. When a text that was set for a numeric property passes
  the check of its class, reading the property neither throws nor falls back to the default: the
  result is the number that the text denotes, and it lies within the limits of the type.
\<close>

theorem number_property_reads:
  assumes "kind_range (cp_kind prop) = Some (lo, hi)" and "kind_stream (cp_kind prop) = Some stream"
    and "fst (op_readProperty ops n (prop_getName ops prop n)) = s" and "checkValue prop s = None"
  shows "Typed_getPropertyValue stream ops prop n = Inr (number_value s, True) \<and>
    lo \<le> number_value s \<and> number_value s \<le> hi"
proof -
  have h: "stream s = (number_value s, False)" "lo \<le> number_value s" "number_value s \<le> hi"
      "number_digits s \<noteq> []"
    using kind_check [OF assms(1)] assms(2,4) by (auto simp: checkValue_def)
  then have "s \<noteq> []" by (auto simp: number_digits_def unsigned_part_def)
  then show ?thesis using h assms(3) by (simp add: Typed_getPropertyValue_def Let_def)
qed

text \<open>A number that is written in range passes the check.\<close>

lemma show_int_number: "number_digits (show_int i) = dec (nat \<bar>i\<bar>)" "number_sign (show_int i) = (i < 0)"
    "strto_rest (show_int i) = []" "number_value (show_int i) = i" "c_str (show_int i) = show_int i"
proof -
  have sp: "dropWhile isspace (show_int i) = show_int i"
    using show_int_no_space [of "hd (show_int i)" i] by (intro dropWhile_hd) simp
  have part: "unsigned_part (show_int i) = dec (nat \<bar>i\<bar>)"
    using hd_dec [of "nat i"] digit_not_space [of "hd (dec (nat i))"]
    by (auto simp: show_int_def unsigned_part_def abs_if)
  show digits: "number_digits (show_int i) = dec (nat \<bar>i\<bar>)"
    unfolding number_digits_def sp part by simp
  show sign: "number_sign (show_int i) = (i < 0)"
    unfolding number_sign_def sp Let_def using hd_dec [of "nat i"] digit_not_space [of "hd (dec (nat i))"]
    by (auto simp: show_int_def)
  show "number_value (show_int i) = i" by (simp add: number_value_def digits sign Let_def)
  have "dropWhile isdigit (dec (nat \<bar>i\<bar>)) = []" using dec_digits by (simp add: dropWhile_eq_Nil_conv)
  then show "strto_rest (show_int i) = []" by (simp add: strto_rest_def digits sp part)
  show "c_str (show_int i) = show_int i"
    unfolding c_str_def using show_int_no(3) [of i] by (auto simp: takeWhile_eq_all_conv)
qed

lemma show_int_check:
  assumes "kind_range k = Some (lo, hi)" and "lo \<le> i" and "i \<le> hi"
  shows "kind_checkValue k (show_int i) = None"
proof -
  have "length (show_int i) \<noteq> 0" by simp
  then show ?thesis
    using assms by (cases k)
      (auto simp: kind_range_def Scalar_checkValue_def strtol10_def strtoul10_def show_int_number Let_def int_limits)
qed

theorem number_property_reads_witness:
  "Typed_getPropertyValue (stream_unsigned UINT_MAX) ini_file_ops
     (ConfigProperty [''maxlogdirs''] [] ''10'' [] UIntValue)
     \<lparr>m_data = StringDataBlob [] None False, m_modified = False, m_lines = [''maxLogDirs =  042 '']\<rparr> = Inr (42, True)"
proof -
  let ?p = "ConfigProperty [''maxlogdirs''] [] ''10'' [] UIntValue"
  let ?n = "\<lparr>m_data = StringDataBlob [] None False, m_modified = False, m_lines = [''maxLogDirs =  042 '']\<rparr>"
  have "fst (op_readProperty ini_file_ops ?n (prop_getName ini_file_ops ?p ?n)) = ''042''"
    by code_simp
  moreover have "checkValue ?p ''042'' = None" "number_value ''042'' = 42" by code_simp+
  ultimately show ?thesis
    using number_property_reads [of ?p 0 UINT_MAX "stream_unsigned UINT_MAX" ini_file_ops ?n "''042''"]
    by (simp add: kind_range_def ConfigProperty_def)
qed

section \<open>Values with aliases\<close>

text \<open>No text is an alias of two different values.\<close>

definition aliases_wf :: "string list list \<Rightarrow> bool" where
  "aliases_wf vs \<longleftrightarrow> [] \<notin> set vs \<and>
     (\<forall>a \<in> set vs. \<forall>b \<in> set vs. \<forall>x \<in> set a. \<forall>y \<in> set b. iequals x y \<longrightarrow> a = b)"

lemma normalizeValue_fst: "fst (normalizeValue vs s) \<longleftrightarrow> String_checkValue vs s = None"
proof (induction vs)
  case (Cons a vs)
  then show ?case by (cases vs) (auto simp: String_checkValue_def)
qed (simp add: String_checkValue_def)

lemma normalizeValue_found:
  assumes "a \<in> set vs" and "list_ex (iequals s) a"
  shows "\<exists>b \<in> set vs. normalizeValue vs s = (True, hd b) \<and> list_ex (iequals s) b"
  using assms
proof (induction vs)
  case (Cons c vs)
  then show ?case by (cases vs) auto
qed simp

lemma normalizeValue_alias:
  assumes "aliases_wf vs" and "a \<in> set vs" and "list_ex (iequals s) a"
  shows "normalizeValue vs s = (True, hd a)"
proof -
  obtain b where b: "b \<in> set vs" "normalizeValue vs s = (True, hd b)" "list_ex (iequals s) b"
    using normalizeValue_found [OF assms(2,3)] by blast
  obtain x y where "x \<in> set a" "y \<in> set b" "iequals s x" "iequals s y"
    using assms(3) b(3) by (auto simp: list_ex_iff)
  then have "a = b"
    using assms(1,2) b(1) iequals_trans iequals_sym unfolding aliases_wf_def by meson
  then show ?thesis using b(2) by simp
qed

text \<open>
  A text is a valid value of a property with aliases exactly if it can be normalized; every
  alias of a value, in whatever case, is normalized to the first alias of that value, so that the
  normal form is valid and normalizing again changes nothing.
\<close>

lemma enum_property_normal:
  assumes "aliases_wf vs" and "vs \<noteq> []"
  shows "(kind_checkValue (EnumValue vs) s = None \<longleftrightarrow> fst (normalizeValue vs s)) \<and>
    (\<forall>a \<in> set vs. \<forall>t. list_ex (iequals t) a \<longrightarrow> normalizeValue vs t = (True, hd a)) \<and>
    (fst (normalizeValue vs s) \<longrightarrow> normalizeValue vs (snd (normalizeValue vs s)) = normalizeValue vs s)"
proof (intro conjI ballI allI impI)
  show "kind_checkValue (EnumValue vs) s = None \<longleftrightarrow> fst (normalizeValue vs s)"
    by (simp add: normalizeValue_fst)
  show "normalizeValue vs t = (True, hd a)" if "a \<in> set vs" "list_ex (iequals t) a" for a t
    using that by (rule normalizeValue_alias [OF assms(1)])
  assume "fst (normalizeValue vs s)"
  then obtain a where a: "a \<in> set vs" "list_ex (iequals s) a"
    using assms(2) by (auto simp: normalizeValue_fst String_checkValue_def list_ex_iff split: if_splits)
  have "list_ex (iequals (hd a)) a"
    using assms(1) a(1) by (cases a) (auto simp: aliases_wf_def)
  then show "normalizeValue vs (snd (normalizeValue vs s)) = normalizeValue vs s"
    using normalizeValue_alias [OF assms(1) a] normalizeValue_alias [OF assms(1) a(1), of "hd a"] by simp
qed

text \<open>Reading a flag agrees with its normal form.\<close>

lemma tolower_f: "tolower c = CHR ''f'' \<Longrightarrow> \<not> isspace c \<and> \<not> isdigit c \<and> c \<noteq> CHR ''-'' \<and> c \<noteq> CHR ''+'' \<and> c \<noteq> CHR 0x00"
proof -
  assume "tolower c = CHR ''f''"
  then have "ccode (tolower c) = 102" by (simp add: ccode_def)
  then have "ccode c = 102 \<or> ccode c = 70"
    by (auto simp: ccode_tolower isupper_def split: if_splits)
  then show ?thesis by (auto simp: isspace_def isdigit_def ccode_def)
qed

lemma atoi_no_number:
  assumes "\<not> isspace c \<and> \<not> isdigit c \<and> c \<noteq> CHR ''-'' \<and> c \<noteq> CHR ''+'' \<and> c \<noteq> CHR 0x00"
  shows "\<not> atoi_nonzero (c # s)"
proof -
  have "number_digits (c # s) = []" using assms by (simp add: number_digits_def unsigned_part_def)
  then show ?thesis by (simp add: atoi_nonzero_def strtol10_def dec_value_def Let_def int_limits)
qed

lemma bool_property_normal:
  assumes "String_checkValue bool_values s = None"
  shows "(iequals s ''T'' \<or> iequals s ''TRUE'' \<or> atoi_nonzero s) = (normalizeValue bool_values s = (True, ''1''))"
proof -
  have wf: "aliases_wf bool_values" by code_simp
  let ?t = "[''1'', ''T'', ''TRUE'']" and ?f = "[''0'', ''F'', ''FALSE'']"
  have one: "s = [d]" if h: "iequals s [d]" "isdigit d" for d
  proof -
    obtain c where "s = [c]" "tolower c = tolower d" using h(1) by (auto simp: iequals_def map_eq_Cons_conv)
    moreover have "tolower d = d" using h(2) by (simp add: tolower_def isdigit_def isupper_def)
    moreover have "tolower c \<noteq> d" if "isupper c"
      using that \<open>isdigit d\<close> by (auto simp: isdigit_def isupper_def ccode_tolower dest!: arg_cong [of _ _ ccode])
    ultimately show ?thesis by (auto simp: tolower_def [of c] split: if_splits)
  qed
  have "list_ex (iequals s) ?t \<or> list_ex (iequals s) ?f"
    using assms by (simp add: String_checkValue_def bool_values_def split: if_splits)
  then show ?thesis
  proof
    assume t: "list_ex (iequals s) ?t"
    then have "normalizeValue bool_values s = (True, ''1'')"
      using normalizeValue_alias [OF wf _ t] by (simp add: bool_values_def)
    moreover have "atoi_nonzero s" if "iequals s ''1''"
      using one [OF that] by (simp add: isdigit_code) code_simp
    ultimately show ?thesis using t by auto
  next
    assume f: "list_ex (iequals s) ?f"
    then have "normalizeValue bool_values s = (True, ''0'')"
      using normalizeValue_alias [OF wf _ f] by (simp add: bool_values_def)
    moreover have "\<not> atoi_nonzero s" if "iequals s ''0''"
      using one [OF that] by (simp add: isdigit_code) code_simp
    moreover have "\<not> atoi_nonzero s" if "iequals s ''F'' \<or> iequals s ''FALSE''"
      using that tolower_f atoi_no_number by (cases s) (auto simp: iequals_def tolower_literals)
    moreover have "\<not> iequals s ''T'' \<and> \<not> iequals s ''TRUE''"
      using f by (auto simp: iequals_def tolower_literals)
    ultimately show ?thesis using f by auto
  qed
qed

section \<open>Source types\<close>

text \<open>
  The legacy description of a source type survives printing and parsing, when the name of the
  backend is the normal one and has no colon, the format contains no colon and does not end in an
  exclamation mark, and only a type with a format forces it.
\<close>

lemma SourceType_roundtrip:
  assumes "CHR '':'' \<notin> set (st_backend t)" and "snd (normalizeValue backends (st_backend t)) = st_backend t"
    and "CHR '':'' \<notin> set (st_format t)" and "\<not> ends_with (st_format t) ''!''"
    and "st_localFormat t = st_format t" and "st_format t = [] \<longrightarrow> \<not> st_forceFormat t"
  shows "SourceType backends (SourceType_toString t) = t"
proof (cases "st_format t = []")
  case True
  then show ?thesis using assms by (simp add: SourceType_def SourceType_toString_def)
next
  case False
  have force: "ends_with (st_format t @ ''!'') ''!''" by (simp add: ends_with_iff)
  have "find_char CHR '':'' (st_backend t @ CHR '':'' # r) = Some (length (st_backend t))" for r
    using assms(1) by (rule find_char_split)
  then show ?thesis
    using assms False force
    by (cases t) (simp add: SourceType_def SourceType_toString_def Let_def find_char_None)
qed

end
