(* ===== verification/Cmdline.thy ===== *)
theory Cmdline
  imports Config_Property Path_Util
begin

text \<open>
  \<open>Cmdline\<close> (src/src/syncevo/Cmdline.h and Cmdline.cpp): parsing of the command line. The
  arguments are lists of strings. The member functions that \<open>parse\<close> calls change one record; the
  local variable \<open>operations\<close>, the result \<open>parsed\<close> and the texts that are printed are fields of it,
  too. The registries of properties, the names of the backends, the configurations on disk and
  \<open>relToAbs\<close>, which asks the file system, are arguments.

  Shown here: what \<open>parse\<close> accepts is well-formed (no two operations, valid properties), and the
  arguments it returns, which the command line tool sends to the D-Bus server, are parsed there with
  the same result, unless the separator of options and names is used.
\<close>

section \<open>State\<close>

record cmd_env =
  ce_validSyncProps :: registry
  ce_validSourceProps :: registry
  ce_backends :: "string list list"
  ce_getConfigs :: "(string \<times> string) list"
  ce_relToAbs :: "string \<Rightarrow> string option"

record cmdline =
  cl_quiet :: bool
  cl_dryrun :: bool
  cl_status :: bool
  cl_version :: bool
  cl_usage :: bool
  cl_configure :: bool
  cl_remove :: bool
  cl_run :: bool
  cl_migrate :: bool
  cl_printDatabases :: bool
  cl_createDatabase :: bool
  cl_removeDatabase :: bool
  cl_printServers :: bool
  cl_printTemplates :: bool
  cl_printConfig :: bool
  cl_printSessions :: bool
  cl_dontrun :: bool
  cl_monitor :: bool
  cl_useDaemon :: "bool \<times> bool"
  cl_props :: full_props
  cl_restore :: string
  cl_before :: bool
  cl_after :: bool
  cl_accessItems :: bool
  cl_itemPath :: string
  cl_delimiter :: string
  cl_luids :: "string list"
  cl_printItems :: bool
  cl_update :: bool
  cl_import :: bool
  cl_export :: bool
  cl_deleteItems :: bool
  cl_server :: string
  cl_template :: string
  cl_sources :: "string set"
  cl_operations :: "string list"
  cl_parsed :: "string list"
  cl_shown :: "string list"
  cl_errors :: "string list"

definition Cmdline :: cmdline where
  "Cmdline =
     \<lparr>cl_quiet = False, cl_dryrun = False, cl_status = False, cl_version = False, cl_usage = False,
      cl_configure = False, cl_remove = False, cl_run = False, cl_migrate = False, cl_printDatabases = False,
      cl_createDatabase = False, cl_removeDatabase = False, cl_printServers = False, cl_printTemplates = False,
      cl_printConfig = False, cl_printSessions = False, cl_dontrun = False, cl_monitor = False,
      cl_useDaemon = (False, False), cl_props = [], cl_restore = [], cl_before = False, cl_after = False,
      cl_accessItems = False, cl_itemPath = [], cl_delimiter = [], cl_luids = [], cl_printItems = False,
      cl_update = False, cl_import = False, cl_export = False, cl_deleteItems = False, cl_server = [],
      cl_template = [], cl_sources = {}, cl_operations = [], cl_parsed = [], cl_shown = [], cl_errors = []\<rparr>"

definition push_parsed :: "string \<Rightarrow> cmdline \<Rightarrow> cmdline" where
  "push_parsed arg cl = cl\<lparr>cl_parsed := cl_parsed cl @ [arg]\<rparr>"

definition push_operation :: "string \<Rightarrow> cmdline \<Rightarrow> cmdline" where
  "push_operation arg cl = cl\<lparr>cl_operations := cl_operations cl @ [arg]\<rparr>"

text \<open>The error that \<open>usage\<close> and the log print; the constant synopsis is left out.\<close>

definition usage :: "string \<Rightarrow> cmdline \<Rightarrow> cmdline" where
  "usage error cl = cl\<lparr>cl_errors := cl_errors cl @ [error]\<rparr>"

definition show_text :: "string \<Rightarrow> cmdline \<Rightarrow> cmdline" where
  "show_text text cl = cl\<lparr>cl_shown := cl_shown cl @ [text]\<rparr>"

section \<open>Properties\<close>

definition cmdOpt :: "string option \<Rightarrow> string option \<Rightarrow> string" where
  "cmdOpt opt param =
     (let o' = (case opt of Some s \<Rightarrow> s | None \<Rightarrow> []);
          included = (case (opt, param) of (Some s, Some p) \<Rightarrow> ends_with s (''='' @ p) | _ \<Rightarrow> False)
      in [CHR 0x27] @ o' @
         (if \<not> included \<and> opt \<noteq> None \<and> param \<noteq> None then '' '' else []) @
         (if \<not> included then (case param of Some p \<Rightarrow> p | None \<Rightarrow> []) else []) @ [CHR 0x27])"

definition nl :: string where
  "nl = [CHR 0x0A]"

definition dumpComment :: "string \<Rightarrow> string \<Rightarrow> string" where
  "dumpComment pre comment = concat (map (\<lambda>line. pre @ line @ nl) (splitComment comment))"

definition listPropValues :: "registry \<Rightarrow> string \<Rightarrow> string \<Rightarrow> cmdline \<Rightarrow> bool \<times> cmdline" where
  "listPropValues validProps propName opt cl =
     (case registry_find validProps propName of
        None \<Rightarrow>
          if iequals propName ''type''
          then (True, show_text (opt @ nl @ ''   <backend>[:<format>[:<version][!]]'' @ nl @
                  ''   legacy property, replaced by '' @ [CHR 0x27] @ ''backend'' @ [CHR 0x27] @ '', '' @
                  [CHR 0x27] @ ''databaseFormat'' @ [CHR 0x27] @ '','' @ nl @
                  ''   '' @ [CHR 0x27] @ ''syncFormat'' @ [CHR 0x27] @ '', '' @ [CHR 0x27] @ ''forceSyncFormat'' @ [CHR 0x27]) cl)
          else (False, usage (opt @ '': no such property'') cl)
      | Some prop \<Rightarrow>
          (True, show_text (opt @ nl @
             (if cp_comment prop \<noteq> [] then dumpComment ''   '' (cp_comment prop)
              else ''   no documentation available'' @ nl)) cl))"

text \<open>The loop of \<open>listProperties\<close> with the pending comment and whether a comma is needed.\<close>

fun list_props :: "registry \<Rightarrow> string \<Rightarrow> bool \<Rightarrow> string" where
  "list_props [] comment needComma = nl @ dumpComment ''   '' comment"
| "list_props (prop # props) comment needComma =
     (if cp_hidden prop then list_props props comment needComma
      else (let newComment = cp_comment prop;
                flush = (newComment \<noteq> [] \<and> comment \<noteq> []);
                d = (if cp_defValue prop = [] then ''no default'' else cp_defValue prop)
            in (if flush then nl @ dumpComment ''   '' comment @ nl else []) @
               (if needComma \<and> \<not> flush then '', '' else []) @
               join (cp_names prop) '' = '' @ '' ('' @ d @ '', '' @ sharing2str (cp_sharing prop) @
               (if cp_obligatory prop then '', required'' else []) @ '')'' @
               list_props props (if newComment \<noteq> [] then newComment else comment) True))"

definition listProperties :: "registry \<Rightarrow> string \<Rightarrow> cmdline \<Rightarrow> bool \<times> cmdline" where
  "listProperties validProps opt cl = (True, show_text (list_props validProps [] False) cl)"

datatype PropertyType = SYNC_PROPERTY_TYPE | SOURCE_PROPERTY_TYPE | UNKNOWN_PROPERTY_TYPE

text \<open>\<open>m_props[config]\<close> creates the entry; so does access to the properties of a source.\<close>

definition props_at :: "string \<Rightarrow> full_props \<Rightarrow> context_props" where
  "props_at config props =
     (case nc_find config props of Some p \<Rightarrow> p | None \<Rightarrow> \<lparr>m_syncProps = [], m_sourceProps = []\<rparr>)"

definition set_sync_prop :: "string \<Rightarrow> string \<Rightarrow> init_string \<Rightarrow> cmdline \<Rightarrow> cmdline" where
  "set_sync_prop config property value cl =
     (let p = props_at config (cl_props cl)
      in cl\<lparr>cl_props := nc_put config (p\<lparr>m_syncProps := nc_put property value (m_syncProps p)\<rparr>) (cl_props cl)\<rparr>)"

definition set_source_prop :: "string \<Rightarrow> string \<Rightarrow> string \<Rightarrow> init_string \<Rightarrow> cmdline \<Rightarrow> cmdline" where
  "set_source_prop config source property value cl =
     (let p = props_at config (cl_props cl);
          sp = (case nc_find source (m_sourceProps p) of Some s \<Rightarrow> s | None \<Rightarrow> [])
      in cl\<lparr>cl_props := nc_put config
              (p\<lparr>m_sourceProps := nc_put source (nc_put property value sp) (m_sourceProps p)\<rparr>) (cl_props cl)\<rparr>)"

definition touch_config :: "string \<Rightarrow> cmdline \<Rightarrow> cmdline" where
  "touch_config config cl = cl\<lparr>cl_props := nc_put config (props_at config (cl_props cl)) (cl_props cl)\<rparr>"

text \<open>
  The registry that a property belongs to, as whether it is the one of sync properties, or the error.
\<close>

definition prop_registry :: "cmd_env \<Rightarrow> PropertyType \<Rightarrow> string \<Rightarrow> string \<Rightarrow> string \<Rightarrow> string option \<Rightarrow> string + bool" where
  "prop_registry env propertyType propstr property args propname =
     (case propertyType of
        SYNC_PROPERTY_TYPE \<Rightarrow> Inr True
      | SOURCE_PROPERTY_TYPE \<Rightarrow> Inr False
      | UNKNOWN_PROPERTY_TYPE \<Rightarrow>
          if propstr \<noteq> []
          then (let isSyncProp = (registry_find (ce_validSyncProps env) property \<noteq> None);
                    isSourceProp = (registry_find (ce_validSourceProps env) property \<noteq> None);
                    name = (case propname of Some p \<Rightarrow> p | None \<Rightarrow> ''(null)'')
                in if isSyncProp
                   then if isSourceProp
                        then Inl (''property '' @ [CHR 0x27] @ name @ [CHR 0x27] @ '' in '' @ args @
                               '' could be both a sync and a datastore property, use --sync-property or --datastore-property to disambiguate it'')
                        else Inr True
                   else if isSourceProp \<or> iequals property ''type'' then Inr False
                   else Inl (case propname of
                               Some p \<Rightarrow> ''unrecognized property '' @ [CHR 0x27] @ p @ [CHR 0x27] @ '' in '' @ args
                             | None \<Rightarrow> ''unrecognized property in '' @ args))
          else Inl (''a property name must be given in '' @ args))"

text \<open>The legacy property \<open>type\<close> sets the properties that replaced it.\<close>

definition set_legacy_type :: "string \<Rightarrow> string \<Rightarrow> source_type \<Rightarrow> cmdline \<Rightarrow> cmdline" where
  "set_legacy_type config source t cl =
     set_source_prop config source ''forceSyncFormat'' (if st_forceFormat t then (''1'', True) else (''0'', False))
       (set_source_prop config source ''syncFormat'' (st_format t, st_format t \<noteq> [])
         (set_source_prop config source ''databaseFormat'' (st_localFormat t, st_localFormat t \<noteq> [])
           (set_source_prop config source ''backend'' (st_backend t, st_backend t \<noteq> []) cl)))"

definition set_prop :: "cmd_env \<Rightarrow> bool \<Rightarrow> PropertySpecifier \<Rightarrow> string \<Rightarrow> string \<Rightarrow> cmdline \<Rightarrow> bool \<times> cmdline" where
  "set_prop env isSync spec args paramstr cl =
     (let validProps = (if isSync then ce_validSyncProps env else ce_validSourceProps env)
      in case registry_find validProps (m_property spec) of
           None \<Rightarrow>
             if iequals (m_property spec) ''type''
             then (case registry_find validProps ''backend'' of
                     None \<Rightarrow> (False, usage ''backend: no such property'' cl)
                   | Some prop \<Rightarrow>
                       (let sourceType = SourceType (ce_backends env) paramstr
                        in case checkValue prop (st_backend sourceType) of
                             Some error \<Rightarrow> (False, usage (args @ '': '' @ error) cl)
                           | None \<Rightarrow> (True, set_legacy_type (m_config spec) (m_source spec) sourceType cl)))
             else (False, usage (args @ '': no such property'') cl)
         | Some prop \<Rightarrow>
             (case checkValue prop paramstr of
                Some error \<Rightarrow> (False, usage (args @ '': '' @ error) cl)
              | None \<Rightarrow>
                  if isSync
                  then if m_source spec \<noteq> []
                       then (False, usage (args @ '': datastore name '' @ [CHR 0x27] @ m_source spec @ [CHR 0x27] @
                               '' not allowed in sync property'') (touch_config (m_config spec) cl))
                       else (True, set_sync_prop (m_config spec) (m_property spec) (explicit paramstr) cl)
                  else (True, set_source_prop (m_config spec) (m_source spec) (m_property spec) (explicit paramstr) cl)))"

text \<open>Name and value in the parameter; the error when there is no equal sign.\<close>

definition prop_parts :: "string \<Rightarrow> string option \<Rightarrow> string \<Rightarrow> string + string \<times> string" where
  "prop_parts param propname args =
     (case propname of
        Some name \<Rightarrow> Inr (name, param)
      | None \<Rightarrow>
          if trim param = ''?'' then Inr ([], param)
          else (case find_char CHR ''='' param of
                  None \<Rightarrow> Inl (''the '' @ [CHR 0x27] @ ''=<value>'' @ [CHR 0x27] @ '' part is missing in: '' @ args)
                | Some equal \<Rightarrow> Inr (take equal param, drop (equal + 1) param)))"

definition parseProp ::
  "cmd_env \<Rightarrow> PropertyType \<Rightarrow> string option \<Rightarrow> string option \<Rightarrow> string option \<Rightarrow> cmdline \<Rightarrow> bool \<times> cmdline" where
  "parseProp env propertyType opt param propname cl =
     (let args = cmdOpt opt param; opt' = (case opt of Some s \<Rightarrow> s | None \<Rightarrow> [])
      in case param of
           None \<Rightarrow> (False, usage (''missing parameter for '' @ args) cl)
         | Some param \<Rightarrow>
             (case prop_parts param propname args of
                Inl error \<Rightarrow> (False, usage error cl)
              | Inr (propstr, paramstr) \<Rightarrow>
                  (let propstr = trim propstr;
                       paramstr = dropWhile isspace paramstr;
                       spec = StringToPropSpec (ce_getConfigs env) propstr 3
                   in case prop_registry env propertyType propstr (m_property spec) args propname of
                        Inl error \<Rightarrow> (False, usage error cl)
                      | Inr isSync \<Rightarrow>
                          (let validProps = (if isSync then ce_validSyncProps env else ce_validSourceProps env)
                           in if trim param = ''?''
                              then (if propname \<noteq> None
                                    then listPropValues validProps (m_property spec) opt' (cl\<lparr>cl_dontrun := True\<rparr>)
                                    else listProperties validProps opt' (cl\<lparr>cl_dontrun := True\<rparr>))
                              else if trim paramstr = ''?''
                              then listPropValues validProps (m_property spec) args (cl\<lparr>cl_dontrun := True\<rparr>)
                              else set_prop env isSync spec args paramstr cl))))"

section \<open>Options\<close>

definition istarts_with :: "string \<Rightarrow> string \<Rightarrow> bool" where
  "istarts_with s p \<longleftrightarrow> starts_with (map tolower s) (map tolower p)"

definition IsKeyword :: "string \<Rightarrow> string \<Rightarrow> string \<Rightarrow> bool" where
  "IsKeyword arg longWord shortWord \<longleftrightarrow>
     istarts_with arg (longWord @ ''='') \<or> iequals arg longWord \<or> iequals arg shortWord"

text \<open>
  The result of handling one option: an error that was printed, an exception, or the number of
  further arguments that the option took.
\<close>

datatype option_result = OptFail cmdline | OptThrow se_error cmdline | OptNext cmdline nat

definition opt_of :: "bool \<times> cmdline \<Rightarrow> nat \<Rightarrow> option_result" where
  "opt_of r n = (if fst r then OptNext (snd r) n else OptFail (snd r))"

definition missing :: "string \<Rightarrow> cmdline \<Rightarrow> option_result" where
  "missing opt cl = OptFail (usage (''missing parameter for '' @ cmdOpt (Some opt) None) cl)"

definition parseAssignment ::
  "cmd_env \<Rightarrow> string \<Rightarrow> string list \<Rightarrow> PropertyType \<Rightarrow> string \<Rightarrow> string option \<Rightarrow> cmdline \<Rightarrow> option_result" where
  "parseAssignment env cmdopt rest propertyType propname def' cl =
     (case find_char CHR ''='' cmdopt of
        Some off \<Rightarrow> opt_of (parseProp env propertyType (Some cmdopt) (Some (drop (off + 1) cmdopt)) (Some propname) cl) 0
      | None \<Rightarrow>
          (case def' of
             None \<Rightarrow>
               (case rest of
                  param # _ \<Rightarrow>
                    opt_of (parseProp env propertyType (Some cmdopt) (Some param) (Some propname) (push_parsed param cl)) 1
                | [] \<Rightarrow> opt_of (parseProp env propertyType (Some cmdopt) None (Some propname) cl) 1)
           | Some param \<Rightarrow> opt_of (parseProp env propertyType (Some cmdopt) (Some param) (Some propname) cl) 0))"

text \<open>An option with a property as the following argument.\<close>

definition parsePropOption :: "cmd_env \<Rightarrow> string \<Rightarrow> string list \<Rightarrow> PropertyType \<Rightarrow> cmdline \<Rightarrow> option_result" where
  "parsePropOption env arg rest propertyType cl =
     (case rest of
        [] \<Rightarrow> opt_of (parseProp env propertyType (Some arg) None None cl) 1
      | param # _ \<Rightarrow>
          (case parseProp env propertyType (Some arg) (Some param) None cl of
             (ok, cl) \<Rightarrow> if ok then OptNext (push_parsed param cl) 1 else OptFail cl))"

definition parseBool :: "string \<Rightarrow> string \<Rightarrow> bool \<Rightarrow> (string + bool) option" where
  "parseBool arg longName def' =
     (let (option, param) = (case find_char CHR ''='' arg of
                               Some pos \<Rightarrow> (take pos arg, drop (pos + 1) arg) | None \<Rightarrow> (arg, []))
      in if iequals option longName
         then Some (if param = [] then Inr def'
                    else if list_ex (iequals param) [''t'', ''1'', ''true'', ''yes''] then Inr True
                    else if list_ex (iequals param) [''f'', ''0'', ''false'', ''no''] then Inr False
                    else Inl (''parameter in '' @ [CHR 0x27] @ arg @ [CHR 0x27] @ '' must be 1/t/true/yes or 0/f/false/no''))
         else None)"

text \<open>The options without a parameter.\<close>

definition parse_flag :: "string \<Rightarrow> cmdline \<Rightarrow> cmdline option" where
  "parse_flag arg cl =
     (if iequals arg ''--print-databases'' then Some (push_operation arg cl\<lparr>cl_printDatabases := True\<rparr>)
      else if iequals arg ''--create-database'' then Some (push_operation arg cl\<lparr>cl_createDatabase := True\<rparr>)
      else if iequals arg ''--remove-database'' then Some (push_operation arg cl\<lparr>cl_removeDatabase := True\<rparr>)
      else if iequals arg ''--print-servers'' \<or> iequals arg ''--print-peers'' \<or> iequals arg ''--print-configs''
      then Some (push_operation arg cl\<lparr>cl_printServers := True\<rparr>)
      else if iequals arg ''--print-config'' \<or> iequals arg ''-p'' then Some (push_operation arg cl\<lparr>cl_printConfig := True\<rparr>)
      else if iequals arg ''--print-sessions'' then Some (push_operation arg cl\<lparr>cl_printSessions := True\<rparr>)
      else if iequals arg ''--configure'' \<or> iequals arg ''-c'' then Some (push_operation arg cl\<lparr>cl_configure := True\<rparr>)
      else if iequals arg ''--remove'' then Some (push_operation arg cl\<lparr>cl_remove := True\<rparr>)
      else if iequals arg ''--run'' \<or> iequals arg ''-r'' then Some (push_operation arg cl\<lparr>cl_run := True\<rparr>)
      else if iequals arg ''--before'' then Some (cl\<lparr>cl_before := True\<rparr>)
      else if iequals arg ''--after'' then Some (cl\<lparr>cl_after := True\<rparr>)
      else if iequals arg ''--print-items''
      then Some (push_operation arg cl\<lparr>cl_printItems := True, cl_accessItems := True\<rparr>)
      else if iequals arg ''--delete-items''
      then Some (push_operation arg cl\<lparr>cl_deleteItems := True, cl_accessItems := True\<rparr>)
      else if iequals arg ''--dry-run'' then Some (cl\<lparr>cl_dryrun := True\<rparr>)
      else if iequals arg ''--migrate'' then Some (push_operation arg cl\<lparr>cl_migrate := True\<rparr>)
      else if iequals arg ''--status'' \<or> iequals arg ''-t'' then Some (push_operation arg cl\<lparr>cl_status := True\<rparr>)
      else if iequals arg ''--quiet'' \<or> iequals arg ''-q'' then Some (cl\<lparr>cl_quiet := True\<rparr>)
      else if iequals arg ''--help'' \<or> iequals arg ''-h'' then Some (cl\<lparr>cl_usage := True\<rparr>)
      else if iequals arg ''--version'' then Some (push_operation arg cl\<lparr>cl_version := True\<rparr>)
      else if iequals arg ''--monitor'' \<or> iequals arg ''-m'' then Some (push_operation arg cl\<lparr>cl_monitor := True\<rparr>)
      else None)"

definition parse_template :: "string \<Rightarrow> string list \<Rightarrow> cmdline \<Rightarrow> option_result" where
  "parse_template arg rest cl =
     (case rest of
        [] \<Rightarrow> missing arg cl
      | param # _ \<Rightarrow>
          (let cl = push_parsed param cl\<lparr>cl_template := param, cl_configure := True\<rparr>;
               temp = trim param
           in OptNext (if starts_with temp ''?''
                       then cl\<lparr>cl_printTemplates := True, cl_dontrun := True, cl_template := drop 1 temp\<rparr>
                       else cl) 1))"

definition parse_restore :: "cmd_env \<Rightarrow> string \<Rightarrow> string list \<Rightarrow> cmdline \<Rightarrow> option_result" where
  "parse_restore env arg rest cl =
     (let cl = push_operation arg cl
      in case rest of
           [] \<Rightarrow> missing arg cl
         | param # _ \<Rightarrow>
             if param = [] then missing arg (cl\<lparr>cl_restore := param\<rparr>)
             else (case ce_relToAbs env param of
                     None \<Rightarrow> OptFail (usage (''parameter '' @ [CHR 0x27] @ param @ [CHR 0x27] @ '' for '' @ cmdOpt (Some arg) None @
                               '' must be log directory'') (cl\<lparr>cl_restore := param\<rparr>))
                   | Some restore \<Rightarrow> OptNext (push_parsed restore (cl\<lparr>cl_restore := restore\<rparr>)) 1))"

text \<open>Import, export and update of items: the path is made absolute, except for standard input and output.\<close>

definition item_path :: "cmd_env \<Rightarrow> string \<Rightarrow> se_error + string" where
  "item_path env param =
     (if param = ''-'' then Inr param
      else (let (dir, file) = splitPath param;
                dir = (if dir = [] then ''.'' else dir)
            in case ce_relToAbs env dir of
                 None \<Rightarrow> Inl (Throw dir)
               | Some dir \<Rightarrow> Inr (dir @ ''/'' @ file)))"

definition parse_items :: "cmd_env \<Rightarrow> string \<Rightarrow> string list \<Rightarrow> cmdline \<Rightarrow> option_result" where
  "parse_items env arg rest cl =
     (let cl = push_operation arg cl\<lparr>cl_accessItems := True\<rparr>
      in case rest of
           [] \<Rightarrow> missing arg cl
         | param # _ \<Rightarrow>
             if param = [] then missing arg cl
             else (case item_path env param of
                     Inl e \<Rightarrow> OptThrow e (cl\<lparr>cl_itemPath := param\<rparr>)
                   | Inr path \<Rightarrow> OptNext (push_parsed path (cl\<lparr>cl_itemPath := path\<rparr>)) 1))"

definition toLUID :: "string \<Rightarrow> string" where
  "toLUID encoded = unescape encoded CHR ''%''"

definition fromLUID :: "string \<Rightarrow> string" where
  "fromLUID luid = escape luid CHR ''%'' STRICT"

text \<open>
  One option. The conditions exclude each other, so that the options without a parameter can
  come last; \<open>rest\<close> are the following arguments.
\<close>

definition parse_option :: "cmd_env \<Rightarrow> string \<Rightarrow> string list \<Rightarrow> cmdline \<Rightarrow> option_result" where
  "parse_option env arg rest cl =
     (if IsKeyword arg ''--sync'' ''-s''
      then (case parseAssignment env arg rest SOURCE_PROPERTY_TYPE ''sync'' None cl of
              OptNext cl n \<Rightarrow> OptNext (cl\<lparr>cl_run := True\<rparr>) n | r \<Rightarrow> r)
      else if IsKeyword arg ''--keyring'' ''-k''
      then parseAssignment env arg rest SYNC_PROPERTY_TYPE ''keyring'' (Some ''true'') cl
      else if iequals arg ''--sync-property'' \<or> iequals arg ''-y''
      then parsePropOption env arg rest SYNC_PROPERTY_TYPE cl
      else if iequals arg ''--source-property'' \<or> iequals arg ''--datastore-property'' \<or> iequals arg ''-z''
      then parsePropOption env arg rest SOURCE_PROPERTY_TYPE cl
      else if iequals arg ''--template'' \<or> iequals arg ''-l'' then parse_template arg rest cl
      else if iequals arg ''--restore'' then parse_restore env arg rest cl
      else if iequals arg ''--export'' then parse_items env arg rest (cl\<lparr>cl_export := True\<rparr>)
      else if iequals arg ''--import'' then parse_items env arg rest (cl\<lparr>cl_import := True\<rparr>)
      else if iequals arg ''--update'' then parse_items env arg rest (cl\<lparr>cl_update := True\<rparr>)
      else if iequals arg ''--delimiter''
      then (case rest of
              [] \<Rightarrow> missing arg cl
            | param # _ \<Rightarrow> OptNext (push_parsed param (cl\<lparr>cl_delimiter := param\<rparr>)) 1)
      else (case parseBool arg ''--daemon'' True of
              Some (Inr b) \<Rightarrow> OptNext (cl\<lparr>cl_useDaemon := (b, True)\<rparr>) 0
            | Some (Inl error) \<Rightarrow> OptFail (usage error cl)
            | None \<Rightarrow>
                if iequals arg ''--luids''
                then OptNext (cl\<lparr>cl_parsed := cl_parsed cl @ rest, cl_luids := cl_luids cl @ map toLUID rest\<rparr>) (length rest)
                else (case parse_flag arg cl of
                        Some cl \<Rightarrow> OptNext cl 0
                      | None \<Rightarrow> OptFail (usage (arg @ '': unknown parameter'') cl))))"

section \<open>Parsing\<close>

text \<open>Sources, or for access to items one source and then local IDs.\<close>

fun parse_sources :: "string list \<Rightarrow> cmdline \<Rightarrow> cmdline" where
  "parse_sources [] cl = cl"
| "parse_sources (arg # args) cl =
     (let cl = push_parsed arg cl
      in parse_sources args
           (if cl_sources cl = {} \<or> \<not> cl_accessItems cl
            then cl\<lparr>cl_sources := insert arg (cl_sources cl)\<rparr>
            else cl\<lparr>cl_luids := cl_luids cl @ [toLUID arg]\<rparr>))"

definition parse_names :: "string list \<Rightarrow> cmdline \<Rightarrow> cmdline" where
  "parse_names args cl =
     (case args of [] \<Rightarrow> cl | server # sources \<Rightarrow> parse_sources sources (cl\<lparr>cl_server := server\<rparr>))"

definition parse_end :: "cmdline \<Rightarrow> bool \<times> cmdline" where
  "parse_end cl =
     (if length (cl_operations cl) > 1
      then (False, usage (join (cl_operations cl) '' '' @ '': mutually exclusive operations'') cl)
      else if cl_accessItems cl \<and> (cl_import cl \<or> cl_update cl) \<and> cl_dryrun cl
      then (False, usage (hd (cl_operations cl) @ '': --dry-run not supported'') cl)
      else (True, cl))"

definition parsed_ok :: "bool \<times> cmdline \<Rightarrow> (se_error + bool) \<times> cmdline" where
  "parsed_ok r = (Inr (fst r), snd r)"

fun parse_loop :: "cmd_env \<Rightarrow> string list \<Rightarrow> cmdline \<Rightarrow> (se_error + bool) \<times> cmdline" where
  "parse_loop env [] cl = parsed_ok (parse_end cl)"
| "parse_loop env (arg # rest) cl =
     (let cl = push_parsed arg cl
      in if iequals arg ''--'' then parsed_ok (parse_end (parse_names rest cl))
         else if arg = [] \<or> hd arg \<noteq> CHR ''-''
         then (if CHR ''='' \<in> set arg
               then (case parseProp env UNKNOWN_PROPERTY_TYPE None (Some arg) None cl of
                       (ok, cl) \<Rightarrow> if ok then parse_loop env rest cl else (Inr False, cl))
               else parsed_ok (parse_end (parse_names (arg # rest) cl)))
         else (case parse_option env arg rest cl of
                 OptFail cl \<Rightarrow> (Inr False, cl)
               | OptThrow e cl \<Rightarrow> (Inl e, cl)
               | OptNext cl n \<Rightarrow> parse_loop env (drop n rest) cl))"

text \<open>\<open>argv\<close> contains the name of the program first.\<close>

definition parse :: "cmd_env \<Rightarrow> string list \<Rightarrow> (se_error + bool) \<times> cmdline" where
  "parse env argv =
     (case argv of
        [] \<Rightarrow> parse_loop env [] (Cmdline\<lparr>cl_delimiter := nl @ nl\<rparr>)
      | prog # args \<Rightarrow> parse_loop env args (Cmdline\<lparr>cl_delimiter := nl @ nl, cl_parsed := [prog]\<rparr>))"

text \<open>What the command line asks for; \<open>argc\<close> is the number of arguments.\<close>

definition isSync :: "cmd_env \<Rightarrow> nat \<Rightarrow> cmdline \<Rightarrow> bool" where
  "isSync env argc cl \<longleftrightarrow>
     \<not> (cl_usage cl \<or> cl_version cl \<or> cl_printServers cl \<or> trim (cl_server cl) = ''?'' \<or>
        cl_printTemplates cl \<or> cl_dontrun cl \<or> argc = 1 \<or> (snd (cl_useDaemon cl) \<and> argc = 2) \<or>
        cl_printDatabases cl \<or> cl_createDatabase cl \<or> cl_removeDatabase cl \<or> cl_printConfig cl \<or> cl_remove cl \<or>
        (cl_server cl = [] \<and> argc > 1) \<or> cl_configure cl \<or> cl_migrate cl \<or> cl_status cl \<or> cl_printSessions cl \<or>
        cl_restore cl \<noteq> [] \<or> cl_accessItems cl \<or> cl_dryrun cl \<or>
        (\<not> cl_run cl \<and> FullProps_hasProperties
           (\<lambda>k. map_option cp_sharing (registry_find (ce_validSyncProps env) k)) (cl_props cl) IGNORE_GLOBAL_PROPS))"

definition isRestore :: "cmdline \<Rightarrow> bool" where
  "isRestore cl \<longleftrightarrow> cl_restore cl \<noteq> []"

definition dontRun :: "cmdline \<Rightarrow> bool" where
  "dontRun cl =
     (if cl_usage cl \<or> cl_version cl \<or> cl_printServers cl \<or> trim (cl_server cl) = ''?'' \<or> cl_printTemplates cl
      then False else cl_dontrun cl)"

definition needConfigName :: "cmdline \<Rightarrow> bool \<times> cmdline" where
  "needConfigName cl =
     (if cl_server cl = [] then (False, usage ''No configuration name specified.'' cl) else (True, cl))"

text \<open>
  \<open>checkForPeerProps\<close>: the names of the properties that only a peer configuration has, and the
  exception, except for the two that the legacy property may have set. The names are a \<open>std::set\<close>.
\<close>

definition findPeerProps :: "config_props \<Rightarrow> registry \<Rightarrow> string list \<Rightarrow> string list" where
  "findPeerProps props reg peerProps =
     fold (\<lambda>(k, _) names. case registry_find reg k of
             Some prop \<Rightarrow> if cp_sharing prop = NO_SHARING then insort_insert k names else names
           | None \<Rightarrow> names) props peerProps"

definition checkForPeerProps :: "cmd_env \<Rightarrow> cmdline \<Rightarrow> cmdline step" where
  "checkForPeerProps env cl =
     (let peerProps = fold (\<lambda>(_, props) names.
            fold (\<lambda>(_, ps). findPeerProps ps (ce_validSourceProps env)) (m_sourceProps props)
              (findPeerProps (m_syncProps props) (ce_validSyncProps env) names)) (cl_props cl) [];
          props = join peerProps '', ''
      in if peerProps \<noteq> [] \<and> props \<noteq> ''forceSyncFormat, syncFormat''
         then throw (Throw (''per-peer (unshared) properties not allowed: '' @ props)) cl
         else return cl)"

section \<open>Parsing the returned arguments again\<close>

text \<open>Properties change nothing but the properties, the texts and whether there is something to run.\<close>

definition frame :: "cmdline \<Rightarrow> cmdline" where
  "frame cl = cl\<lparr>cl_props := [], cl_dontrun := False, cl_shown := [], cl_errors := []\<rparr>"

lemma frame_ops [simp]:
  "frame (usage e cl) = frame cl" "frame (show_text e cl) = frame cl" "frame (touch_config c cl) = frame cl"
  "frame (set_sync_prop c p v cl) = frame cl" "frame (set_source_prop c src p v cl) = frame cl"
  "frame (set_legacy_type c src t cl) = frame cl" "frame (cl\<lparr>cl_dontrun := b\<rparr>) = frame cl"
  by (simp_all add: frame_def usage_def show_text_def touch_config_def set_sync_prop_def set_source_prop_def
      set_legacy_type_def Let_def)

lemma frame_list [simp]:
  "frame (snd (listPropValues r p opt cl)) = frame cl" "frame (snd (listProperties r opt cl)) = frame cl"
  by (simp_all add: listPropValues_def listProperties_def split: option.splits)

lemma frame_set_prop [simp]: "frame (snd (set_prop env b spec args s cl)) = frame cl"
proof (cases "registry_find (if b then ce_validSyncProps env else ce_validSourceProps env) (m_property spec)")
  case None
  show ?thesis
  proof (cases "registry_find (if b then ce_validSyncProps env else ce_validSourceProps env) ''backend''")
    case (Some pr)
    then show ?thesis
      using None by (cases "checkValue pr (st_backend (SourceType (ce_backends env) s))") (simp_all add: set_prop_def Let_def)
  qed (simp add: None set_prop_def Let_def)
next
  case (Some pr)
  then show ?thesis by (cases "checkValue pr s") (simp_all add: set_prop_def Let_def)
qed

lemma frame_parseProp: "frame (snd (parseProp env t opt param propname cl)) = frame cl"
proof (cases param)
  case (Some p)
  let ?args = "cmdOpt opt param"
  show ?thesis
  proof (cases "prop_parts p propname ?args")
    case (Inr parts)
    obtain a b where parts: "parts = (a, b)" by (cases parts)
    let ?spec = "StringToPropSpec (ce_getConfigs env) (trim a) 3"
    show ?thesis
      by (cases "prop_registry env t (trim a) (m_property ?spec) ?args propname")
        (simp_all add: parseProp_def Some Inr [unfolded Some] parts Let_def)
  qed (simp add: parseProp_def Some)
qed (simp add: parseProp_def)

lemma frameD:
  assumes "frame cl' = frame cl"
  shows "cl' = cl\<lparr>cl_props := cl_props cl', cl_dontrun := cl_dontrun cl', cl_shown := cl_shown cl', cl_errors := cl_errors cl'\<rparr>"
  using assms by (cases cl; cases cl') (simp add: frame_def)

lemma frame_parsed: "frame cl' = frame cl \<Longrightarrow> cl_parsed cl' = cl_parsed cl"
  by (drule arg_cong [of _ _ cl_parsed]) (simp add: frame_def)

text \<open>
  The documented behaviour of \<open>relToAbs\<close>, that is of \<open>realpath\<close>: the result is an absolute path
  without superfluous parts, which is returned unchanged.
\<close>

definition abs_paths :: "(string \<Rightarrow> string option) \<Rightarrow> bool" where
  "abs_paths f \<longleftrightarrow> (\<forall>p q. f p = Some q \<longrightarrow> f q = Some q \<and> q \<noteq> [] \<and> hd q = CHR ''/'' \<and>
     (\<forall>x. x \<noteq> [] \<and> CHR ''/'' \<notin> set x \<longrightarrow> path_normal (q @ ''/'' @ x)))"

lemma splitPath_file:
  assumes "normalizePath p \<noteq> []"
  shows "snd (splitPath p) \<noteq> [] \<and> CHR ''/'' \<notin> set (snd (splitPath p))"
proof -
  have "path_normal (normalizePath p)" by (rule path_normal_normalizePath)
  then show ?thesis using splitPath_cases [of p] assms by (auto simp: path_normal_def)
qed

lemma no_slash_normal:
  assumes "CHR ''/'' \<notin> set x" and "x \<noteq> []"
  shows "skip_slashes x = x" and "slashes_normal x" and "last x \<noteq> CHR ''/''"
proof -
  have "slashes_normal y" if "CHR ''/'' \<notin> set y" for y using that by (induction y) auto
  then show "slashes_normal x" using assms(1) by blast
  show "last x \<noteq> CHR ''/''" using assms last_in_set by metis
  show "skip_slashes x = x" using assms by (cases x; cases "tl x") (auto simp: skip_slashes_fix)
qed

lemma item_path_again:
  assumes "abs_paths (ce_relToAbs env)" and "item_path env p = Inr path" and "normalizePath p \<noteq> []"
  shows "item_path env path = Inr path \<and> path \<noteq> []"
proof (cases "p = ''-''")
  case True
  then show ?thesis using assms(2) by (auto simp: item_path_def)
next
  case False
  obtain dir fl where sp: "splitPath p = (dir, fl)" by (cases "splitPath p")
  obtain d where d: "ce_relToAbs env (if dir = [] then ''.'' else dir) = Some d" "path = d @ ''/'' @ fl"
    using assms(2) False by (auto simp: item_path_def sp Let_def split: option.splits)
  have f: "fl \<noteq> []" "CHR ''/'' \<notin> set fl" using splitPath_file [OF assms(3)] by (simp_all add: sp)
  have abs: "ce_relToAbs env d = Some d" "d \<noteq> []" "hd d = CHR ''/''" "path_normal (d @ ''/'' @ fl)"
    using assms(1) d(1) f unfolding abs_paths_def by blast+
  have "normalizePath (d @ CHR ''/'' # fl) = d @ CHR ''/'' # fl" using normalizePath_fix [OF abs(4)] by simp
  then have "splitPath path = (d, fl)"
    using rfind_char_split [OF f(2), of d] by (simp add: splitPath_def d(2))
  moreover have "path \<noteq> ''-''" using abs(2,3) by (cases d) (auto simp: d(2))
  ultimately show ?thesis using abs(1,2) by (simp add: item_path_def d(2))
qed

text \<open>
  A file in the root directory is looked for in the current directory: the directory part of its
  path is empty, and that is taken for a path without a directory.
\<close>

lemma item_path_root:
  assumes "CHR ''/'' \<notin> set f" and "f \<noteq> []" and "ce_relToAbs env ''.'' = Some cwd"
  shows "item_path env (''/'' @ f) = Inr (cwd @ ''/'' @ f)"
proof -
  have "path_normal (''/'' @ f)" using no_slash_normal [OF assms(1,2)] assms(2) by (simp add: path_normal_def)
  then have "normalizePath (CHR ''/'' # f) = CHR ''/'' # f" using normalizePath_fix by simp
  then have "splitPath (''/'' @ f) = ([], f)"
    using rfind_char_split [OF assms(1), of "[]"] by (simp add: splitPath_def)
  moreover have "''/'' @ f \<noteq> ''-''" by simp
  ultimately show ?thesis using assms(3) by (simp add: item_path_def)
qed

text \<open>
  What an option returns for the list of parsed arguments makes it do the same again: it takes
  as many arguments, whatever follows them. Local IDs take all of them.
\<close>

definition again :: "(string list \<Rightarrow> cmdline \<Rightarrow> option_result) \<Rightarrow> bool \<Rightarrow> string list \<Rightarrow> cmdline \<Rightarrow> cmdline \<Rightarrow> nat \<Rightarrow> bool" where
  "again opt all rest cl cl' n \<longleftrightarrow>
     (\<exists>Q. n \<le> length rest \<and> length Q = n \<and> cl_parsed cl' = cl_parsed cl @ Q \<and> (all \<longrightarrow> n = length rest) \<and>
          (\<forall>r. (all \<longrightarrow> r = []) \<longrightarrow> opt (Q @ r) cl = OptNext cl' n))"

lemma againI0:
  assumes "cl_parsed cl' = cl_parsed cl" and "\<And>r. opt r cl = OptNext cl' 0"
  shows "again opt False rest cl cl' 0"
  using assms by (auto simp: again_def)

lemma againI1:
  assumes "cl_parsed cl' = cl_parsed cl @ [q]" and "\<And>r. opt (q # r) cl = OptNext cl' (Suc 0)" and "rest \<noteq> []"
  shows "again opt False rest cl cl' (Suc 0)"
  unfolding again_def using assms by (intro exI [of _ "[q]"]) (auto simp: Suc_le_eq)

lemma parsed_simps [simp]:
  "cl_parsed (push_parsed a cl) = cl_parsed cl @ [a]" "cl_parsed (push_operation a cl) = cl_parsed cl"
  "cl_parsed (snd (parseProp env t opt param propname cl)) = cl_parsed cl"
  using frame_parsed [OF frame_parseProp] by (simp_all add: push_parsed_def push_operation_def)

lemma opt_of_Next: "opt_of r n = OptNext cl m \<longleftrightarrow> fst r \<and> cl = snd r \<and> m = n"
  by (auto simp: opt_of_def)

lemma parseProp_None [simp]: "parseProp env t opt None propname cl = (False, usage (''missing parameter for '' @ cmdOpt opt None) cl)"
  by (simp add: parseProp_def)

lemma parseAssignment_again:
  assumes "parseAssignment env arg rest t propname d cl = OptNext cl' n"
  shows "again (\<lambda>rest cl. parseAssignment env arg rest t propname d cl) False rest cl cl' n"
proof (cases "find_char CHR ''='' arg")
  case None
  show ?thesis
  proof (cases d)
    case None': None
    obtain q r where rest: "rest = q # r"
      using assms None None' by (cases rest) (auto simp: parseAssignment_def opt_of_Next)
    then show ?thesis
      using assms None None' by (auto simp: parseAssignment_def opt_of_Next intro!: againI1 [where q = q])
  qed (use assms None in \<open>auto simp: parseAssignment_def opt_of_Next intro!: againI0\<close>)
qed (use assms in \<open>auto simp: parseAssignment_def opt_of_Next intro!: againI0\<close>)

lemma parsePropOption_again:
  assumes "parsePropOption env arg rest t cl = OptNext cl' n"
  shows "again (\<lambda>rest cl. parsePropOption env arg rest t cl) False rest cl cl' n"
proof -
  obtain q r where rest: "rest = q # r"
    using assms by (cases rest) (auto simp: parsePropOption_def opt_of_Next)
  let ?r = "parseProp env t (Some arg) (Some q) None cl"
  have "cl' = push_parsed q (snd ?r)" "n = Suc 0" "fst ?r"
    using assms by (auto simp: parsePropOption_def rest split: prod.splits if_splits)
  then show ?thesis
    by (auto simp: parsePropOption_def rest split: prod.splits intro!: againI1 [where q = q])
qed

lemma parse_template_again:
  assumes "parse_template arg rest cl = OptNext cl' n"
  shows "again (\<lambda>rest cl. parse_template arg rest cl) False rest cl cl' n"
proof -
  obtain q r where rest: "rest = q # r"
    using assms by (cases rest) (auto simp: parse_template_def missing_def)
  then show ?thesis
    using assms by (auto simp: parse_template_def push_parsed_def Let_def intro!: againI1 [where q = q])
qed

lemma parse_restore_again:
  assumes "parse_restore env arg rest cl = OptNext cl' n" and "abs_paths (ce_relToAbs env)"
  shows "again (\<lambda>rest cl. parse_restore env arg rest cl) False rest cl cl' n"
proof -
  obtain q r where rest: "rest = q # r"
    using assms(1) by (cases rest) (auto simp: parse_restore_def missing_def Let_def)
  obtain p where p: "ce_relToAbs env q = Some p" "q \<noteq> []" "n = Suc 0"
      "cl' = push_parsed p (push_operation arg cl\<lparr>cl_restore := p\<rparr>)"
    using assms(1) by (auto simp: parse_restore_def missing_def rest Let_def split: if_splits option.splits)
  have "ce_relToAbs env p = Some p" "p \<noteq> []" using assms(2) p(1) unfolding abs_paths_def by blast+
  then show ?thesis using p by (auto simp: parse_restore_def rest Let_def intro!: againI1 [where q = p])
qed

lemma parse_items_again:
  assumes "parse_items env arg rest cl = OptNext cl' n" and "abs_paths (ce_relToAbs env)"
    and "\<forall>a \<in> set rest. a = [] \<or> normalizePath a \<noteq> []"
  shows "again (\<lambda>rest cl. parse_items env arg rest cl) False rest cl cl' n"
proof -
  obtain q r where rest: "rest = q # r"
    using assms(1) by (cases rest) (auto simp: parse_items_def missing_def Let_def)
  obtain p where p: "item_path env q = Inr p" "q \<noteq> []" "n = Suc 0"
      "cl' = push_parsed p (push_operation arg cl\<lparr>cl_accessItems := True\<rparr>\<lparr>cl_itemPath := p\<rparr>)"
    using assms(1) by (auto simp: parse_items_def missing_def rest Let_def split: if_splits sum.splits)
  have "item_path env p = Inr p" "p \<noteq> []"
    using item_path_again [OF assms(2) p(1)] assms(3) p(2) by (auto simp: rest)
  then show ?thesis using p by (auto simp: parse_items_def rest Let_def intro!: againI1 [where q = p])
qed

lemma again_via:
  assumes "again opt all rest cl0 cl0' n" and "cl_parsed cl0 = cl_parsed cl" and "cl_parsed cl' = cl_parsed cl0'"
    and "\<And>r. opt r cl0 = OptNext cl0' n \<Longrightarrow> opt2 r cl = OptNext cl' n"
  shows "again opt2 all rest cl cl' n"
  using assms unfolding again_def by metis

definition again_ok :: "(string list \<Rightarrow> cmdline \<Rightarrow> option_result) \<Rightarrow> bool" where
  "again_ok opt \<longleftrightarrow>
     (\<forall>rest cl cl' n. (\<forall>a \<in> set rest. a = [] \<or> normalizePath a \<noteq> []) \<longrightarrow> opt rest cl = OptNext cl' n \<longrightarrow>
        (\<exists>all. again opt all rest cl cl' n))"

lemma again_okI:
  assumes "\<And>rest cl cl' n. \<forall>a \<in> set rest. a = [] \<or> normalizePath a \<noteq> [] \<Longrightarrow> opt rest cl = OptNext cl' n \<Longrightarrow>
    again opt False rest cl cl' n"
  shows "again_ok opt"
  using assms unfolding again_ok_def by blast

lemma parse_flag_parsed: "parse_flag arg cl = Some cl' \<Longrightarrow> cl_parsed cl' = cl_parsed cl"
  by (auto simp: parse_flag_def split: if_splits)

lemma last_options_again:
  "again_ok (\<lambda>rest cl. case parseBool arg ''--daemon'' True of
      Some (Inr b) \<Rightarrow> OptNext (cl\<lparr>cl_useDaemon := (b, True)\<rparr>) 0
    | Some (Inl error) \<Rightarrow> OptFail (usage error cl)
    | None \<Rightarrow>
        if iequals arg ''--luids''
        then OptNext (cl\<lparr>cl_parsed := cl_parsed cl @ rest, cl_luids := cl_luids cl @ map toLUID rest\<rparr>) (length rest)
        else (case parse_flag arg cl of
                Some cl \<Rightarrow> OptNext cl 0
              | None \<Rightarrow> OptFail (usage (arg @ '': unknown parameter'') cl)))"
proof (cases "parseBool arg ''--daemon'' True")
  case None
  show ?thesis
  proof (cases "iequals arg ''--luids''")
    case True
    then show ?thesis using None by (auto simp: again_ok_def again_def intro!: exI [of _ True])
  next
    case False
    then show ?thesis
      using None by (auto intro!: again_okI againI0 simp: parse_flag_parsed split: option.splits)
  qed
next
  case (Some r)
  then show ?thesis by (cases r) (auto intro!: again_okI againI0)
qed

lemma parse_option_eq:
  "parse_option env arg =
     (if IsKeyword arg ''--sync'' ''-s''
      then (\<lambda>rest cl. case parseAssignment env arg rest SOURCE_PROPERTY_TYPE ''sync'' None cl of
              OptNext cl n \<Rightarrow> OptNext (cl\<lparr>cl_run := True\<rparr>) n | r \<Rightarrow> r)
      else if IsKeyword arg ''--keyring'' ''-k''
      then (\<lambda>rest cl. parseAssignment env arg rest SYNC_PROPERTY_TYPE ''keyring'' (Some ''true'') cl)
      else if iequals arg ''--sync-property'' \<or> iequals arg ''-y''
      then (\<lambda>rest cl. parsePropOption env arg rest SYNC_PROPERTY_TYPE cl)
      else if iequals arg ''--source-property'' \<or> iequals arg ''--datastore-property'' \<or> iequals arg ''-z''
      then (\<lambda>rest cl. parsePropOption env arg rest SOURCE_PROPERTY_TYPE cl)
      else if iequals arg ''--template'' \<or> iequals arg ''-l'' then (\<lambda>rest cl. parse_template arg rest cl)
      else if iequals arg ''--restore'' then (\<lambda>rest cl. parse_restore env arg rest cl)
      else if iequals arg ''--export'' then (\<lambda>rest cl. parse_items env arg rest (cl\<lparr>cl_export := True\<rparr>))
      else if iequals arg ''--import'' then (\<lambda>rest cl. parse_items env arg rest (cl\<lparr>cl_import := True\<rparr>))
      else if iequals arg ''--update'' then (\<lambda>rest cl. parse_items env arg rest (cl\<lparr>cl_update := True\<rparr>))
      else if iequals arg ''--delimiter''
      then (\<lambda>rest cl. case rest of
              [] \<Rightarrow> missing arg cl
            | param # _ \<Rightarrow> OptNext (push_parsed param (cl\<lparr>cl_delimiter := param\<rparr>)) 1)
      else (\<lambda>rest cl. case parseBool arg ''--daemon'' True of
              Some (Inr b) \<Rightarrow> OptNext (cl\<lparr>cl_useDaemon := (b, True)\<rparr>) 0
            | Some (Inl error) \<Rightarrow> OptFail (usage error cl)
            | None \<Rightarrow>
                if iequals arg ''--luids''
                then OptNext (cl\<lparr>cl_parsed := cl_parsed cl @ rest, cl_luids := cl_luids cl @ map toLUID rest\<rparr>) (length rest)
                else (case parse_flag arg cl of
                        Some cl \<Rightarrow> OptNext cl 0
                      | None \<Rightarrow> OptFail (usage (arg @ '': unknown parameter'') cl))))"
  by (intro ext) (simp only: parse_option_def if_distribR)

lemma sync_option_again:
  "again_ok (\<lambda>rest cl. case parseAssignment env arg rest t p d cl of
      OptNext cl n \<Rightarrow> OptNext (cl\<lparr>cl_run := True\<rparr>) n | r \<Rightarrow> r)"
proof (rule again_okI)
  fix rest cl cl' n
  assume "(case parseAssignment env arg rest t p d cl of OptNext cl n \<Rightarrow> OptNext (cl\<lparr>cl_run := True\<rparr>) n | r \<Rightarrow> r) = OptNext cl' n"
  then obtain c where c: "parseAssignment env arg rest t p d cl = OptNext c n" "cl' = c\<lparr>cl_run := True\<rparr>"
    by (auto split: option_result.splits)
  show "again (\<lambda>rest cl. case parseAssignment env arg rest t p d cl of OptNext cl n \<Rightarrow> OptNext (cl\<lparr>cl_run := True\<rparr>) n | r \<Rightarrow> r)
      False rest cl cl' n"
    using parseAssignment_again [OF c(1)] by (rule again_via) (simp_all add: c(2))
qed

lemma items_option_again:
  assumes "abs_paths (ce_relToAbs env)" and "\<And>cl. cl_parsed (f cl) = cl_parsed cl"
  shows "again_ok (\<lambda>rest cl. parse_items env arg rest (f cl))"
proof (rule again_okI)
  fix rest cl cl' n
  assume h: "\<forall>a \<in> set rest. a = [] \<or> normalizePath a \<noteq> []" "parse_items env arg rest (f cl) = OptNext cl' n"
  show "again (\<lambda>rest cl. parse_items env arg rest (f cl)) False rest cl cl' n"
    using parse_items_again [OF h(2) assms(1) h(1)] by (rule again_via) (simp_all add: assms(2))
qed

lemma simple_options_again:
  "again_ok (\<lambda>rest cl. parseAssignment env arg rest t p d cl)"
  "again_ok (\<lambda>rest cl. parsePropOption env arg rest t cl)"
  "again_ok (\<lambda>rest cl. parse_template arg rest cl)"
  by (rule again_okI, rule parseAssignment_again parsePropOption_again parse_template_again, assumption)+

lemma delimiter_again:
  "again_ok (\<lambda>rest cl. case rest of [] \<Rightarrow> missing arg cl
     | param # _ \<Rightarrow> OptNext (push_parsed param (cl\<lparr>cl_delimiter := param\<rparr>)) 1)"
  by (rule again_okI) (auto simp: missing_def split: list.splits intro!: againI1)

lemma again_ok_if: "again_ok f \<Longrightarrow> again_ok g \<Longrightarrow> again_ok (if b then f else g)"
  by simp

lemma parse_option_again:
  assumes "abs_paths (ce_relToAbs env)"
  shows "again_ok (parse_option env arg)"
proof -
  have "again_ok (\<lambda>rest cl. parse_restore env arg rest cl)"
    by (rule again_okI) (rule parse_restore_again [OF _ assms])
  moreover have "again_ok (\<lambda>rest cl. parse_items env arg rest (cl\<lparr>cl_export := True\<rparr>))"
      "again_ok (\<lambda>rest cl. parse_items env arg rest (cl\<lparr>cl_import := True\<rparr>))"
      "again_ok (\<lambda>rest cl. parse_items env arg rest (cl\<lparr>cl_update := True\<rparr>))"
    by (rule items_option_again [OF assms], simp)+
  ultimately show ?thesis
    unfolding parse_option_eq
    by (intro again_ok_if sync_option_again simple_options_again delimiter_again last_options_again)
qed

lemma parse_end_True: "parse_end cl = (True, cl') \<longleftrightarrow>
    cl' = cl \<and> length (cl_operations cl) \<le> 1 \<and> \<not> (cl_accessItems cl \<and> (cl_import cl \<or> cl_update cl) \<and> cl_dryrun cl)"
  by (auto simp: parse_end_def split: if_splits)

lemma parsed_ok_True: "parsed_ok r = (Inr True, cl) \<longleftrightarrow> r = (True, cl)"
  by (cases r) (simp add: parsed_ok_def)

lemma parse_sources_parsed: "cl_parsed (parse_sources args cl) = cl_parsed cl @ args"
  by (induction args arbitrary: cl) (simp_all add: Let_def)

lemma iequals_separator [simp]: "iequals arg ''--'' \<longleftrightarrow> arg = ''--''"
proof -
  have "tolower c = CHR ''-'' \<longleftrightarrow> c = CHR ''-''" for c
  proof
    assume "tolower c = CHR ''-''"
    then have "ccode (tolower c) = 45" by (simp add: ccode_def)
    then have "\<not> isupper c" by (auto simp: ccode_tolower isupper_def)
    then show "c = CHR ''-''" using \<open>tolower c = CHR ''-''\<close> by (simp add: tolower_def)
  qed (simp add: tolower_literals)
  then show ?thesis by (auto simp: iequals_def map_eq_Cons_conv tolower_literals)
qed

lemma parse_loop_again:
  assumes "abs_paths (ce_relToAbs env)" and "parse_loop env args cl = (Inr True, cl')"
    and "''--'' \<notin> set args" and "\<forall>a \<in> set args. a = [] \<or> normalizePath a \<noteq> []"
  shows "\<exists>Q. length Q = length args \<and> cl_parsed cl' = cl_parsed cl @ Q \<and> parse_loop env Q cl = (Inr True, cl')"
  using assms(2-)
proof (induction "length args" arbitrary: args cl rule: less_induct)
  case less
  show ?case
  proof (cases args)
    case Nil
    then show ?thesis using less.prems(1) by (auto simp: parsed_ok_True parse_end_True)
  next
    case (Cons arg rest)
    let ?cl = "push_parsed arg cl"
    have sep: "arg \<noteq> ''--''" "''--'' \<notin> set rest" "\<forall>a \<in> set rest. a = [] \<or> normalizePath a \<noteq> []"
      using less.prems(2,3) by (auto simp: Cons)
    have IH: "\<exists>Q. length Q = length as \<and> cl_parsed cl' = cl_parsed c @ Q \<and> parse_loop env Q c = (Inr True, cl')"
      if "parse_loop env as c = (Inr True, cl')" "length as \<le> length rest" "set as \<subseteq> set rest" for as c
      using that sep by (intro less.hyps) (auto simp: Cons)
    show ?thesis
    proof (cases "arg = [] \<or> hd arg \<noteq> CHR ''-''")
      case name: True
      show ?thesis
      proof (cases "CHR ''='' \<in> set arg")
        case True
        let ?r = "parseProp env UNKNOWN_PROPERTY_TYPE None (Some arg) None ?cl"
        have run: "fst ?r" "parse_loop env rest (snd ?r) = (Inr True, cl')"
          using less.prems(1) name True sep(1) by (auto simp: Cons Let_def split: prod.splits if_splits)
        obtain Q where Q: "length Q = length rest" "cl_parsed cl' = cl_parsed (snd ?r) @ Q" "parse_loop env Q (snd ?r) = (Inr True, cl')"
          using IH [OF run(2)] by blast
        then show ?thesis
          using name True sep(1) run(1)
          by (intro exI [of _ "arg # Q"]) (auto simp: Cons Let_def split: prod.splits)
      next
        case False
        then show ?thesis
          using less.prems(1) name sep(1)
          by (intro exI [of _ args])
            (auto simp: Cons Let_def parsed_ok_True parse_end_True parse_names_def parse_sources_parsed)
      qed
    next
      case False
      obtain c n where run: "parse_option env arg rest ?cl = OptNext c n" "parse_loop env (drop n rest) c = (Inr True, cl')"
        using less.prems(1) False sep(1) by (auto simp: Cons Let_def split: option_result.splits)
      obtain all P where P: "n \<le> length rest" "length P = n" "cl_parsed c = cl_parsed ?cl @ P" "all \<longrightarrow> n = length rest"
          "\<forall>r. (all \<longrightarrow> r = []) \<longrightarrow> parse_option env arg (P @ r) ?cl = OptNext c n"
        using parse_option_again [OF assms(1), of arg] run(1) sep(3) unfolding again_ok_def again_def by blast
      obtain Q where Q: "length Q = length (drop n rest)" "cl_parsed cl' = cl_parsed c @ Q" "parse_loop env Q c = (Inr True, cl')"
        using IH [OF run(2)] by (auto simp: set_drop_subset)
      have "parse_option env arg (P @ Q) ?cl = OptNext c n" using P(4,5) Q(1) by auto
      then show ?thesis
        using False sep(1) P(1-3) Q by (intro exI [of _ "arg # P @ Q"]) (simp add: Cons Let_def)
    qed
  qed
qed


text \<open>
  With the separator the name of the configuration is missing in the returned arguments. When
  they are parsed again, the first source is taken for the configuration, or there is none.
\<close>

lemma cmdline_separator_loses_config:
  assumes "parse env (prog # ''--'' # server # sources) = (Inr True, cl)"
  shows "cl_server cl = server \<and> cl_parsed cl = prog # ''--'' # sources \<and>
    (sources = [] \<longrightarrow> cl_server (snd (parse env (cl_parsed cl))) = []) \<and>
    (\<forall>s ss. sources = s # ss \<longrightarrow> cl_server (snd (parse env (cl_parsed cl))) = s)"
proof -
  have server: "cl_server (parse_sources as c) = cl_server c" for as c
    by (induction as arbitrary: c) (simp_all add: push_parsed_def Let_def)
  have end': "cl_server (snd (parsed_ok (parse_end c))) = cl_server c" for c
    by (simp add: parsed_ok_def parse_end_def usage_def)
  let ?cl = "push_parsed ''--'' (Cmdline\<lparr>cl_delimiter := nl @ nl, cl_parsed := [prog]\<rparr>)"
  have cl: "cl = parse_sources sources (?cl\<lparr>cl_server := server\<rparr>)"
    using assms by (simp add: parse_def parse_names_def parsed_ok_True parse_end_True)
  then have parsed: "cl_parsed cl = prog # ''--'' # sources" by (simp add: parse_sources_parsed)
  show ?thesis
  proof (intro conjI impI allI)
    show "cl_server cl = server" by (simp add: cl server)
    show "cl_parsed cl = prog # ''--'' # sources" by (rule parsed)
    show "cl_server (snd (parse env (cl_parsed cl))) = []" if "sources = []"
      using that by (simp add: parsed parse_def parse_names_def end' Cmdline_def push_parsed_def)
    show "cl_server (snd (parse env (cl_parsed cl))) = s" if "sources = s # ss" for s ss
      using that by (simp add: parsed parse_def parse_names_def end' server)
  qed
qed

text \<open>An environment for examples: one sync and one source property, and one directory.\<close>

definition demo_env :: cmd_env where
  "demo_env =
     \<lparr>ce_validSyncProps = [ConfigProperty [''logdir''] [] [] [] PlainValue],
      ce_validSourceProps = [ConfigProperty [''sync''] [] ''disabled'' [] (EnumValue [[''two-way''], [''disabled'', ''none'']])],
      ce_backends = [], ce_getConfigs = [], ce_relToAbs = (\<lambda>p. Some ''/home/u'')\<rparr>"

lemma demo_abs_paths: "abs_paths (ce_relToAbs demo_env)"
proof -
  show ?thesis using no_slash_normal by (auto simp: abs_paths_def demo_env_def path_normal_def)
qed


section \<open>Accepted command lines are well-formed\<close>

text \<open>A property that is stored has an entry in its registry, and its value passed the check.\<close>

definition prop_ok :: "registry \<Rightarrow> string \<Rightarrow> init_string \<Rightarrow> bool" where
  "prop_ok reg k v \<longleftrightarrow> (case registry_find reg k of Some pr \<Rightarrow> checkValue pr (fst v) = None | None \<Rightarrow> False)"

definition legacy_prop :: "string \<Rightarrow> bool" where
  "legacy_prop k \<longleftrightarrow> list_ex (iequals k) [''backend'', ''databaseFormat'', ''syncFormat'', ''forceSyncFormat'']"

definition source_prop_ok :: "cmd_env \<Rightarrow> string \<Rightarrow> init_string \<Rightarrow> bool" where
  "source_prop_ok env k v \<longleftrightarrow> prop_ok (ce_validSourceProps env) k v \<or> legacy_prop k"

definition all_props :: "(string \<Rightarrow> 'v \<Rightarrow> bool) \<Rightarrow> (string \<times> 'v) list \<Rightarrow> bool" where
  "all_props P m \<longleftrightarrow> nc_sorted m \<and> list_all (\<lambda>(k, v). P k v) m"

definition context_ok :: "cmd_env \<Rightarrow> context_props \<Rightarrow> bool" where
  "context_ok env c \<longleftrightarrow> all_props (prop_ok (ce_validSyncProps env)) (m_syncProps c) \<and>
     all_props (\<lambda>_ ps. all_props (source_prop_ok env) ps) (m_sourceProps c)"

definition props_ok :: "cmd_env \<Rightarrow> full_props \<Rightarrow> bool" where
  "props_ok env props \<longleftrightarrow> all_props (\<lambda>_ c. context_ok env c) props"

definition operation_flags :: "cmdline \<Rightarrow> bool list" where
  "operation_flags cl =
     [cl_printDatabases cl, cl_createDatabase cl, cl_removeDatabase cl, cl_printServers cl, cl_printConfig cl,
      cl_printSessions cl, cl_remove cl, cl_restore cl \<noteq> [], cl_printItems cl, cl_export cl, cl_import cl, cl_update cl,
      cl_deleteItems cl, cl_migrate cl, cl_status cl, cl_version cl, cl_monitor cl]"

lemma all_props_kput:
  assumes "all_props P m" and "\<And>k'. nocase_key k' = nocase_key k \<Longrightarrow> P k' v"
  shows "all_props P (nc_put k v m)"
proof -
  have "list_all (\<lambda>(k, v). P k v) (nc_put k v m)" if "list_all (\<lambda>(k, v). P k v) m"
    using that assms(2) by (induction m) auto
  then show ?thesis using assms(1) by (simp add: all_props_def)
qed

lemma all_props_find: "all_props P m \<Longrightarrow> nc_find k m = Some v \<Longrightarrow> \<exists>k'. P k' v"
  by (auto simp: all_props_def list_all_iff dest!: kfind_memD)

lemma registry_find_nocase: "nocase_key k = nocase_key k' \<Longrightarrow> registry_find reg k = registry_find reg k'"
  by (simp add: registry_find_def nocase_key_eq_iff iequals_def)

lemma prop_ok_nocase: "nocase_key k = nocase_key k' \<Longrightarrow> prop_ok reg k v = prop_ok reg k' v"
  by (simp add: prop_ok_def registry_find_nocase [of k k'])

lemma legacy_prop_nocase: "nocase_key k = nocase_key k' \<Longrightarrow> legacy_prop k = legacy_prop k'"
  by (simp add: legacy_prop_def nocase_key_eq_iff iequals_def)

lemma context_ok_empty [simp]: "context_ok env \<lparr>m_syncProps = [], m_sourceProps = []\<rparr>"
  by (simp add: context_ok_def all_props_def)

lemma props_at_ok: "props_ok env props \<Longrightarrow> context_ok env (props_at config props)"
  by (auto simp: props_ok_def props_at_def dest: all_props_find split: option.splits)

lemma set_context_ok:
  "props_ok env props \<Longrightarrow> context_ok env c \<Longrightarrow> props_ok env (nc_put config c props)"
  by (simp add: props_ok_def all_props_kput)

lemma touch_config_ok: "props_ok env (cl_props cl) \<Longrightarrow> props_ok env (cl_props (touch_config config cl))"
  by (simp add: touch_config_def set_context_ok props_at_ok)

lemma set_sync_prop_ok:
  assumes "props_ok env (cl_props cl)" and "prop_ok (ce_validSyncProps env) k v"
  shows "props_ok env (cl_props (set_sync_prop config k v cl))"
proof -
  have "prop_ok (ce_validSyncProps env) k' v" if "nocase_key k' = nocase_key k" for k'
    using assms(2) prop_ok_nocase [OF that] by simp
  then have "context_ok env (props_at config (cl_props cl)\<lparr>m_syncProps := nc_put k v (m_syncProps (props_at config (cl_props cl)))\<rparr>)"
    using props_at_ok [OF assms(1), of config] by (simp add: context_ok_def all_props_kput)
  then show ?thesis using assms(1) by (simp add: set_sync_prop_def Let_def set_context_ok)
qed

lemma set_source_prop_ok:
  assumes "props_ok env (cl_props cl)" and "source_prop_ok env k v"
  shows "props_ok env (cl_props (set_source_prop config source k v cl))"
proof -
  let ?p = "props_at config (cl_props cl)"
  let ?sp = "case nc_find source (m_sourceProps ?p) of Some s \<Rightarrow> s | None \<Rightarrow> []"
  have p: "context_ok env ?p" by (rule props_at_ok [OF assms(1)])
  have "all_props (source_prop_ok env) ?sp"
  proof (cases "nc_find source (m_sourceProps ?p)")
    case None
    then show ?thesis by (simp add: all_props_def)
  next
    case (Some ps)
    then show ?thesis using p all_props_find [of _ "m_sourceProps ?p" source ps] by (auto simp: context_ok_def)
  qed
  moreover have "source_prop_ok env k' v" if "nocase_key k' = nocase_key k" for k'
    using assms(2) prop_ok_nocase [OF that] legacy_prop_nocase [OF that] by (simp add: source_prop_ok_def)
  ultimately have "all_props (source_prop_ok env) (nc_put k v ?sp)" by (intro all_props_kput)
  then have "context_ok env (?p\<lparr>m_sourceProps := nc_put source (nc_put k v ?sp) (m_sourceProps ?p)\<rparr>)"
    using p by (simp add: context_ok_def all_props_kput)
  then show ?thesis using assms(1) by (simp add: set_source_prop_def Let_def set_context_ok)
qed

lemma legacy_props: "source_prop_ok env ''backend'' v" "source_prop_ok env ''databaseFormat'' v"
    "source_prop_ok env ''syncFormat'' v" "source_prop_ok env ''forceSyncFormat'' v"
  by (simp_all add: source_prop_ok_def legacy_prop_def)

lemma set_legacy_type_ok:
  "props_ok env (cl_props cl) \<Longrightarrow> props_ok env (cl_props (set_legacy_type config source t cl))"
  by (simp add: set_legacy_type_def set_source_prop_ok legacy_props)

lemma text_props [simp]: "cl_props (usage e cl) = cl_props cl" "cl_props (show_text e cl) = cl_props cl"
  by (simp_all add: usage_def show_text_def)

lemma set_prop_ok:
  assumes "props_ok env (cl_props cl)"
  shows "props_ok env (cl_props (snd (set_prop env b spec args s cl)))"
proof (cases "registry_find (if b then ce_validSyncProps env else ce_validSourceProps env) (m_property spec)")
  case None
  show ?thesis
  proof (cases "registry_find (if b then ce_validSyncProps env else ce_validSourceProps env) ''backend''")
    case (Some pr)
    then show ?thesis
      using None assms by (cases "checkValue pr (st_backend (SourceType (ce_backends env) s))")
        (simp_all add: set_prop_def Let_def set_legacy_type_ok)
  qed (simp add: None assms set_prop_def Let_def)
next
  case (Some pr)
  then show ?thesis
    using assms by (cases b; cases "checkValue pr s")
      (simp_all add: set_prop_def Let_def touch_config_ok set_sync_prop_ok set_source_prop_ok prop_ok_def source_prop_ok_def)
qed

lemma list_props_ok [simp]:
  "cl_props (snd (listPropValues r k opt cl)) = cl_props cl" "cl_props (snd (listProperties r opt cl)) = cl_props cl"
  by (simp_all add: listPropValues_def listProperties_def split: option.splits)

lemma parseProp_ok:
  assumes "props_ok env (cl_props cl)"
  shows "props_ok env (cl_props (snd (parseProp env t opt param propname cl)))"
proof (cases param)
  case (Some p)
  let ?args = "cmdOpt opt param"
  show ?thesis
  proof (cases "prop_parts p propname ?args")
    case (Inr parts)
    obtain a b where parts: "parts = (a, b)" by (cases parts)
    let ?spec = "StringToPropSpec (ce_getConfigs env) (trim a) 3"
    show ?thesis
      using assms by (cases "prop_registry env t (trim a) (m_property ?spec) ?args propname")
        (simp_all add: parseProp_def Some Inr [unfolded Some] parts Let_def set_prop_ok)
  qed (simp add: parseProp_def Some assms)
qed (simp add: assms)

text \<open>
  Every operation that is requested adds to the list of operations and sets at most one flag;
  items are accessed exactly by the operations on items.
\<close>

definition flags_ok :: "cmdline \<Rightarrow> bool" where
  "flags_ok cl \<longleftrightarrow> sum_list (map of_bool (operation_flags cl)) \<le> length (cl_operations cl) \<and>
     (cl_accessItems cl \<longleftrightarrow> cl_printItems cl \<or> cl_export cl \<or> cl_import cl \<or> cl_update cl \<or> cl_deleteItems cl)"

definition cmd_inv :: "cmd_env \<Rightarrow> cmdline \<Rightarrow> bool" where
  "cmd_inv env cl \<longleftrightarrow> props_ok env (cl_props cl) \<and> flags_ok cl"

definition keeps :: "cmd_env \<Rightarrow> (string list \<Rightarrow> cmdline \<Rightarrow> option_result) \<Rightarrow> bool" where
  "keeps env opt \<longleftrightarrow> (\<forall>rest cl cl' n. cmd_inv env cl \<longrightarrow> opt rest cl = OptNext cl' n \<longrightarrow> cmd_inv env cl')"

lemma keepsI: "(\<And>rest cl cl' n. cmd_inv env cl \<Longrightarrow> opt rest cl = OptNext cl' n \<Longrightarrow> cmd_inv env cl') \<Longrightarrow> keeps env opt"
  by (auto simp: keeps_def)

lemma keeps_if: "keeps env f \<Longrightarrow> keeps env g \<Longrightarrow> keeps env (if b then f else g)"
  by simp

lemma flags_frame: "frame cl' = frame cl \<Longrightarrow> flags_ok cl' = flags_ok cl"
proof -
  assume "frame cl' = frame cl"
  then have "flags_ok (frame cl') = flags_ok (frame cl)" by simp
  then show ?thesis by (simp add: flags_ok_def operation_flags_def frame_def)
qed

lemma cmd_inv_parseProp: "cmd_inv env cl \<Longrightarrow> cmd_inv env (snd (parseProp env t opt param propname cl))"
  by (simp add: cmd_inv_def parseProp_ok flags_frame [OF frame_parseProp])

lemma cmd_inv_simple [simp]:
  "cmd_inv env (push_parsed a cl) = cmd_inv env cl" "cmd_inv env (cl\<lparr>cl_run := b\<rparr>) = cmd_inv env cl"
  "cmd_inv env (cl\<lparr>cl_server := x\<rparr>) = cmd_inv env cl" "cmd_inv env (cl\<lparr>cl_sources := y\<rparr>) = cmd_inv env cl"
  "cmd_inv env (cl\<lparr>cl_luids := z\<rparr>) = cmd_inv env cl" "cmd_inv env (cl\<lparr>cl_parsed := z\<rparr>) = cmd_inv env cl"
  "cmd_inv env (cl\<lparr>cl_delimiter := x\<rparr>) = cmd_inv env cl" "cmd_inv env (cl\<lparr>cl_useDaemon := d\<rparr>) = cmd_inv env cl"
  "cmd_inv env (cl\<lparr>cl_template := x\<rparr>) = cmd_inv env cl" "cmd_inv env (cl\<lparr>cl_configure := b\<rparr>) = cmd_inv env cl"
  "cmd_inv env (cl\<lparr>cl_printTemplates := b\<rparr>) = cmd_inv env cl" "cmd_inv env (cl\<lparr>cl_dontrun := b\<rparr>) = cmd_inv env cl"
  "cmd_inv env (cl\<lparr>cl_itemPath := x\<rparr>) = cmd_inv env cl"
  by (simp_all add: cmd_inv_def flags_ok_def operation_flags_def push_parsed_def)

lemma parseAssignment_keeps: "keeps env (\<lambda>rest cl. parseAssignment env arg rest t p d cl)"
  by (rule keepsI) (auto simp: parseAssignment_def opt_of_Next cmd_inv_parseProp split: option.splits list.splits)

lemma parsePropOption_keeps: "keeps env (\<lambda>rest cl. parsePropOption env arg rest t cl)"
proof (rule keepsI)
  fix rest cl cl' n
  assume inv: "cmd_inv env cl" and run: "parsePropOption env arg rest t cl = OptNext cl' n"
  obtain q r where rest: "rest = q # r"
    using run by (cases rest) (auto simp: parsePropOption_def opt_of_Next)
  then show "cmd_inv env cl'"
    using run cmd_inv_parseProp [OF inv, of t "Some arg" "Some q" None]
    by (auto simp: parsePropOption_def split: prod.splits if_splits)
qed

lemma parse_template_keeps: "keeps env (\<lambda>rest cl. parse_template arg rest cl)"
  by (rule keepsI) (auto simp: parse_template_def missing_def Let_def split: list.splits if_splits)

lemmas flag_defs = operation_flags_def push_operation_def push_parsed_def cmd_inv_def flags_ok_def

lemma push_operation_keeps: "cmd_inv env cl \<Longrightarrow> cmd_inv env (push_operation a cl)"
  by (simp add: flag_defs)

lemma restore_keeps: "cmd_inv env cl \<Longrightarrow> cmd_inv env (push_operation a cl\<lparr>cl_restore := q\<rparr>)"
  by (cases "q = []") (simp_all add: flag_defs)

lemma parse_restore_keeps: "keeps env (\<lambda>rest cl. parse_restore env arg rest cl)"
proof (rule keepsI)
  fix rest cl cl' n
  assume inv: "cmd_inv env cl" and run: "parse_restore env arg rest cl = OptNext cl' n"
  obtain q where "cl' = push_parsed q (push_operation arg cl\<lparr>cl_restore := q\<rparr>)"
    using run by (auto simp: parse_restore_def missing_def Let_def split: list.splits if_splits option.splits)
  then show "cmd_inv env cl'" using restore_keeps [OF inv] by simp
qed

lemma parse_items_keeps:
  assumes "\<And>cl. cmd_inv env cl \<Longrightarrow> cmd_inv env (push_operation arg (f cl)\<lparr>cl_accessItems := True\<rparr>)"
  shows "keeps env (\<lambda>rest cl. parse_items env arg rest (f cl))"
proof (rule keepsI)
  fix rest cl cl' n
  assume inv: "cmd_inv env cl" and run: "parse_items env arg rest (f cl) = OptNext cl' n"
  obtain q where "cl' = push_parsed q (push_operation arg (f cl)\<lparr>cl_accessItems := True\<rparr>\<lparr>cl_itemPath := q\<rparr>)"
    using run by (auto simp: parse_items_def missing_def Let_def split: list.splits if_splits sum.splits)
  then show "cmd_inv env cl'" using assms [OF inv] by simp
qed

lemma operation_keeps:
  assumes "cmd_inv env cl"
  shows "cmd_inv env (push_operation a cl\<lparr>cl_printDatabases := True\<rparr>)" "cmd_inv env (push_operation a cl\<lparr>cl_createDatabase := True\<rparr>)"
    "cmd_inv env (push_operation a cl\<lparr>cl_removeDatabase := True\<rparr>)" "cmd_inv env (push_operation a cl\<lparr>cl_printServers := True\<rparr>)"
    "cmd_inv env (push_operation a cl\<lparr>cl_printConfig := True\<rparr>)" "cmd_inv env (push_operation a cl\<lparr>cl_printSessions := True\<rparr>)"
    "cmd_inv env (push_operation a cl\<lparr>cl_configure := True\<rparr>)" "cmd_inv env (push_operation a cl\<lparr>cl_remove := True\<rparr>)"
    "cmd_inv env (push_operation a cl\<lparr>cl_run := True\<rparr>)" "cmd_inv env (push_operation a cl\<lparr>cl_migrate := True\<rparr>)"
    "cmd_inv env (push_operation a cl\<lparr>cl_status := True\<rparr>)" "cmd_inv env (push_operation a cl\<lparr>cl_version := True\<rparr>)"
    "cmd_inv env (push_operation a cl\<lparr>cl_monitor := True\<rparr>)"
    "cmd_inv env (push_operation a cl\<lparr>cl_printItems := True, cl_accessItems := True\<rparr>)"
    "cmd_inv env (push_operation a cl\<lparr>cl_deleteItems := True, cl_accessItems := True\<rparr>)"
    "cmd_inv env (push_operation a (cl\<lparr>cl_export := True\<rparr>)\<lparr>cl_accessItems := True\<rparr>)"
    "cmd_inv env (push_operation a (cl\<lparr>cl_import := True\<rparr>)\<lparr>cl_accessItems := True\<rparr>)"
    "cmd_inv env (push_operation a (cl\<lparr>cl_update := True\<rparr>)\<lparr>cl_accessItems := True\<rparr>)"
    "cmd_inv env (cl\<lparr>cl_before := True\<rparr>)" "cmd_inv env (cl\<lparr>cl_after := True\<rparr>)" "cmd_inv env (cl\<lparr>cl_dryrun := True\<rparr>)"
    "cmd_inv env (cl\<lparr>cl_quiet := True\<rparr>)" "cmd_inv env (cl\<lparr>cl_usage := True\<rparr>)"
  using assms by (simp_all add: flag_defs)

lemma parse_flag_keeps: "cmd_inv env cl \<Longrightarrow> parse_flag arg cl = Some cl' \<Longrightarrow> cmd_inv env cl'"
  unfolding parse_flag_def by (simp only: option.inject split: if_splits) (auto simp: operation_keeps push_operation_keeps)

lemma last_options_keep:
  "keeps env (\<lambda>rest cl. case parseBool arg ''--daemon'' True of
      Some (Inr b) \<Rightarrow> OptNext (cl\<lparr>cl_useDaemon := (b, True)\<rparr>) 0
    | Some (Inl error) \<Rightarrow> OptFail (usage error cl)
    | None \<Rightarrow>
        if iequals arg ''--luids''
        then OptNext (cl\<lparr>cl_parsed := cl_parsed cl @ rest, cl_luids := cl_luids cl @ map toLUID rest\<rparr>) (length rest)
        else (case parse_flag arg cl of
                Some cl \<Rightarrow> OptNext cl 0
              | None \<Rightarrow> OptFail (usage (arg @ '': unknown parameter'') cl)))"
  by (rule keepsI) (auto split: option.splits sum.splits if_splits dest: parse_flag_keeps)

lemma parse_option_keeps: "keeps env (parse_option env arg)"
proof -
  have "keeps env (\<lambda>rest cl. case parseAssignment env arg rest SOURCE_PROPERTY_TYPE ''sync'' None cl of
      OptNext cl n \<Rightarrow> OptNext (cl\<lparr>cl_run := True\<rparr>) n | r \<Rightarrow> r)"
    using parseAssignment_keeps [of env arg SOURCE_PROPERTY_TYPE "''sync''" None]
    unfolding keeps_def by (auto split: option_result.splits)
  moreover have "keeps env (\<lambda>rest cl. case rest of [] \<Rightarrow> missing arg cl
      | param # _ \<Rightarrow> OptNext (push_parsed param (cl\<lparr>cl_delimiter := param\<rparr>)) 1)"
    by (rule keepsI) (auto simp: missing_def split: list.splits)
  moreover have "keeps env (\<lambda>rest cl. parse_items env arg rest (cl\<lparr>cl_export := True\<rparr>))"
      "keeps env (\<lambda>rest cl. parse_items env arg rest (cl\<lparr>cl_import := True\<rparr>))"
      "keeps env (\<lambda>rest cl. parse_items env arg rest (cl\<lparr>cl_update := True\<rparr>))"
    by (intro parse_items_keeps operation_keeps; assumption)+
  ultimately show ?thesis
    unfolding parse_option_eq
    by (intro keeps_if parseAssignment_keeps parsePropOption_keeps parse_template_keeps parse_restore_keeps
        last_options_keep)
qed

lemma parse_sources_keep: "cmd_inv env cl \<Longrightarrow> cmd_inv env (parse_sources args cl)"
  by (induction args arbitrary: cl) (auto simp: Let_def)

lemma parse_names_keep: "cmd_inv env cl \<Longrightarrow> cmd_inv env (parse_names args cl)"
  by (simp add: parse_names_def parse_sources_keep split: list.splits)

lemma parse_loop_keeps:
  assumes "parse_loop env args cl = (Inr True, cl')" and "cmd_inv env cl"
  shows "cmd_inv env cl' \<and> length (cl_operations cl') \<le> 1 \<and>
    \<not> (cl_accessItems cl' \<and> (cl_import cl' \<or> cl_update cl') \<and> cl_dryrun cl')"
  using assms
proof (induction "length args" arbitrary: args cl rule: less_induct)
  case less
  show ?case
  proof (cases args)
    case Nil
    then show ?thesis using less.prems by (auto simp: parsed_ok_True parse_end_True)
  next
    case (Cons arg rest)
    let ?cl = "push_parsed arg cl"
    have inv: "cmd_inv env ?cl" using less.prems(2) by simp
    have names: ?thesis if "parsed_ok (parse_end (parse_names as ?cl)) = (Inr True, cl')" for as
      using that parse_names_keep [OF inv, of as] by (auto simp: parsed_ok_True parse_end_True)
    let ?r = "parseProp env UNKNOWN_PROPERTY_TYPE None (Some arg) None ?cl"
    have assignment: ?thesis if "parse_loop env rest (snd ?r) = (Inr True, cl')"
      using less.hyps [OF _ that cmd_inv_parseProp [OF inv]] by (simp add: Cons)
    have opt: ?thesis if "parse_option env arg rest ?cl = OptNext c n" "parse_loop env (drop n rest) c = (Inr True, cl')" for c n
    proof -
      have "cmd_inv env c" using parse_option_keeps [of env arg] inv that(1) unfolding keeps_def by blast
      then show ?thesis using less.hyps [OF _ that(2)] by (simp add: Cons)
    qed
    show ?thesis
      using less.prems(1) names [of rest] names [of "arg # rest"] assignment opt
      by (auto simp: Cons Let_def split: if_splits prod.splits option_result.splits)
  qed
qed



end
