(* ===== verification/Cmdline_Items.thy ===== *)
theory Cmdline_Items
  imports Cmdline
begin

text \<open>
  Export and import of items by the command line (\<open>ExportLUID\<close>, \<open>FindDelimiter\<close> and the import and
  update branch of \<open>Cmdline::run\<close>, src/src/syncevo/Cmdline.cpp). Several items are written to one
  file, separated by a delimiter, and read back by splitting the file.

  Shown here: what the default delimiter makes of a list of items that is exported and imported again,
  and that an update pairs every item with the local ID that was given for it.
\<close>

section \<open>Export\<close>

record export_state =
  ex_haveItem :: bool
  ex_haveNewline :: bool
  ex_out :: string

definition export_init :: export_state where
  "export_init = \<lparr>ex_haveItem = False, ex_haveNewline = False, ex_out = []\<rparr>"

text \<open>\<open>ExportLUID\<close> with a file as output; \<open>item\<close> is what was read for the local ID.\<close>

definition export_delimiter :: "string \<Rightarrow> export_state \<Rightarrow> string" where
  "export_delimiter defDelimiter st =
     (if ex_haveItem st
      then (if length defDelimiter > 1 \<and> ex_haveNewline st \<and> hd defDelimiter = CHR 0x0A then drop 1 defDelimiter
            else defDelimiter)
      else [])"

definition ExportLUID :: "string \<Rightarrow> string \<Rightarrow> export_state \<Rightarrow> export_state" where
  "ExportLUID defDelimiter item st =
     st\<lparr>ex_out := ex_out st @ export_delimiter defDelimiter st @ item,
        ex_haveNewline := ends_with item nl, ex_haveItem := True\<rparr>"

definition export_items :: "string \<Rightarrow> string list \<Rightarrow> string" where
  "export_items delimiter items = ex_out (fold (ExportLUID delimiter) items export_init)"

section \<open>Import\<close>

text \<open>Position and length of the first empty line, with or without carriage return.\<close>

fun find_blank :: "string \<Rightarrow> (nat \<times> nat) option" where
  "find_blank (x # y # s) =
     (if x = CHR 0x0A \<and> y = CHR 0x0A then Some (0, 2)
      else if x = CHR 0x0A \<and> y = CHR 0x0D \<and> s \<noteq> [] \<and> hd s = CHR 0x0A then Some (0, 3)
      else map_option (\<lambda>(i, n). (Suc i, n)) (find_blank (y # s)))"
| "find_blank s = None"

text \<open>\<open>boost::find_first\<close>: an empty text is never found.\<close>

fun find_sub :: "string \<Rightarrow> string \<Rightarrow> nat option" where
  "find_sub p [] = None"
| "find_sub p (x # s) =
     (if p \<noteq> [] \<and> starts_with (x # s) p then Some 0 else map_option Suc (find_sub p s))"

definition FindDelimiter :: "string \<Rightarrow> string \<Rightarrow> (nat \<times> nat) option" where
  "FindDelimiter delimiter s =
     (if delimiter = nl @ nl then find_blank s
      else map_option (\<lambda>i. (i, length delimiter)) (find_sub delimiter s))"

lemma find_blank_bound: "find_blank s = Some (i, n) \<Longrightarrow> 0 < n \<and> i + n \<le> length s"
  by (induction s arbitrary: i n rule: find_blank.induct) (auto split: if_splits, (case_tac s; auto)+)

lemma find_sub_bound: "find_sub p s = Some i \<Longrightarrow> 0 < length p \<and> i + length p \<le> length s"
proof (induction p s arbitrary: i rule: find_sub.induct)
  case (2 p x s)
  have "length p \<le> length (x # s)" if "starts_with (x # s) p"
    using that unfolding starts_with_iff by (metis length_append le_add1)
  then show ?case using 2 by (auto split: if_splits)
qed simp

lemma FindDelimiter_bound: "FindDelimiter d s = Some (i, n) \<Longrightarrow> 0 < n \<and> i + n \<le> length s"
  using find_blank_bound [of s i n] find_sub_bound [of d s i] by (auto simp: FindDelimiter_def split: if_splits)

text \<open>The pieces of \<open>boost::split_iterator\<close>; there is always at least one.\<close>

function split_items :: "string \<Rightarrow> string \<Rightarrow> string list" where
  "split_items delimiter s =
     (case FindDelimiter delimiter s of
        None \<Rightarrow> [s]
      | Some (i, n) \<Rightarrow> take i s # split_items delimiter (drop (i + n) s))"
  by auto
termination
  by (relation "measure (length \<circ> snd)") (auto dest!: FindDelimiter_bound)

declare split_items.simps [simp del]

text \<open>
  Import or update from a file or standard input: the local IDs and items that are inserted. The
  local ID of an item that is imported is empty.
\<close>

definition import_items :: "string \<Rightarrow> bool \<Rightarrow> string list \<Rightarrow> string \<Rightarrow> se_error + (string \<times> string) list" where
  "import_items delimiter update luids content =
     (if delimiter = ''none''
      then (if update
            then (if length luids \<noteq> 1 then Inl (Throw ''need exactly one LUID parameter'')
                  else Inr [(hd luids, content)])
            else Inr [([], content)])
      else (let items = split_items delimiter content
            in if update
               then (if length items \<noteq> length luids
                     then Inl (Throw (dec (length items) @ '' items != '' @ dec (length luids) @ '' luids, must match => aborting''))
                     else Inr (zip luids items))
               else Inr (map (\<lambda>item. ([], item)) items)))"

section \<open>Round trip\<close>

text \<open>A text in which no empty line starts, also if more text follows.\<close>

definition no_blank :: "string \<Rightarrow> bool" where
  "no_blank s \<longleftrightarrow> find_blank s = None \<and> \<not> ends_with s [CHR 0x0A, CHR 0x0D]"

text \<open>The item without the newline at its end.\<close>

definition chop_nl :: "string \<Rightarrow> string" where
  "chop_nl s = (if ends_with s nl then butlast s else s)"

lemma ends_with_Cons: "ends_with s p \<Longrightarrow> ends_with (x # s) p"
  unfolding ends_with_iff by (metis append_Cons)

lemma find_blank_append:
  assumes "find_blank c = None" and "\<not> ends_with c nl" and "\<not> ends_with c [CHR 0x0A, CHR 0x0D]"
  shows "find_blank (c @ nl @ nl @ t) = Some (length c, 2)"
  using assms
proof (induction c rule: find_blank.induct)
  case (1 x y s)
  have no: "\<not> (x = CHR 0x0A \<and> y = CHR 0x0A)" "\<not> (x = CHR 0x0A \<and> y = CHR 0x0D \<and> s \<noteq> [] \<and> hd s = CHR 0x0A)"
      "find_blank (y # s) = None"
    using "1.prems"(1) by (auto split: if_splits)
  have "\<not> (x = CHR 0x0A \<and> y = CHR 0x0D \<and> s = [])" using "1.prems"(3) by (auto simp: ends_with_def)
  moreover have "find_blank ((y # s) @ nl @ nl @ t) = Some (length (y # s), 2)"
    using "1.prems"(2,3) ends_with_Cons no by (intro "1.IH") auto
  ultimately show ?case using no by (cases s) auto
qed (auto simp: ends_with_def nl_def)

lemma find_blank_prefix: "find_blank c = Some r \<Longrightarrow> find_blank (c @ t) = Some r"
proof (induction c arbitrary: r rule: find_blank.induct)
  case (1 x y s)
  then show ?case by (cases s) (auto split: if_splits)
qed simp_all

lemma find_blank_later: "find_blank v \<noteq> None \<Longrightarrow> find_blank (u @ v) \<noteq> None"
proof (induction u)
  case (Cons x u)
  then show ?case by (cases "u @ v") auto
qed simp

lemma chop_nl_ok:
  assumes "no_blank s"
  shows "find_blank (chop_nl s @ nl @ nl @ t) = Some (length (chop_nl s), 2)"
proof (cases "ends_with s nl")
  case False
  then show ?thesis using assms by (auto simp: chop_nl_def no_blank_def intro!: find_blank_append)
next
  case True
  then obtain c where s: "s = c @ nl" by (auto simp: ends_with_iff)
  have c: "find_blank (c @ nl) = None" using assms by (simp add: no_blank_def s)
  have "find_blank c = None" using find_blank_prefix [of c _ nl] c by (cases "find_blank c") auto
  moreover have "\<not> ends_with c w" if "find_blank (w @ nl) \<noteq> None" for w
    using c find_blank_later [OF that] unfolding ends_with_iff by (metis append.assoc)
  ultimately have "find_blank (c @ nl @ nl @ t) = Some (length c, 2)"
    by (intro find_blank_append) (simp_all add: nl_def)
  moreover have "chop_nl s = c" using True by (simp add: chop_nl_def s nl_def)
  ultimately show ?thesis by simp
qed

text \<open>The file that is written, item by item.\<close>

fun joined :: "string list \<Rightarrow> string" where
  "joined [] = []"
| "joined [i] = i"
| "joined (i # is) = chop_nl i @ nl @ nl @ joined is"

lemma chop_nl_join: "i @ (if ends_with i nl then nl else nl @ nl) = chop_nl i @ nl @ nl"
  by (auto simp: chop_nl_def ends_with_iff nl_def)

lemma export_joined: "export_items (nl @ nl) items = joined items"
proof -
  have step: "ex_out (fold (ExportLUID (nl @ nl)) items st) =
      ex_out st @ (if items = [] then [] else (if ex_haveNewline st then nl else nl @ nl) @ joined items)"
    if "ex_haveItem st" for st items
    using that
  proof (induction items arbitrary: st)
    case (Cons i items)
    have delim: "export_delimiter (nl @ nl) st = (if ex_haveNewline st then nl else nl @ nl)"
      using Cons.prems by (simp add: export_delimiter_def nl_def)
    show ?case
      using Cons.IH [of "ExportLUID (nl @ nl) i st"] chop_nl_join [of i]
      by (cases items) (auto simp: ExportLUID_def delim)
  qed simp
  show ?thesis
  proof (cases items)
    case (Cons i items')
    then show ?thesis
      using step [of "ExportLUID (nl @ nl) i export_init" items'] chop_nl_join [of i]
      by (cases items') (auto simp: export_items_def ExportLUID_def export_init_def export_delimiter_def)
  qed (simp add: export_items_def export_init_def)
qed

text \<open>
  C29: items that are exported to one file are imported again. With the default delimiter the items
  are found in their order, each as it was written except for a newline at its end, which the
  delimiter replaces (the last item keeps it). The items must not contain an empty line.
\<close>

theorem export_import_roundtrip:
  assumes "items \<noteq> []" and "\<forall>i \<in> set (butlast items). no_blank i" and "find_blank (last items) = None"
  shows "import_items (nl @ nl) False [] (export_items (nl @ nl) items) =
    Inr (map (\<lambda>item. ([], item)) (map chop_nl (butlast items) @ [last items]))"
proof -
  have "split_items (nl @ nl) (joined items) = map chop_nl (butlast items) @ [last items]"
    using assms
  proof (induction items rule: joined.induct)
    case (2 i)
    then show ?case by (subst split_items.simps) (simp add: FindDelimiter_def)
  next
    case (3 i j "is")
    have "FindDelimiter (nl @ nl) (joined (i # j # is)) = Some (length (chop_nl i), 2)"
      using chop_nl_ok [of i "joined (j # is)"] 3 by (simp add: FindDelimiter_def)
    then show ?case using 3 by (subst split_items.simps) (simp add: nl_def)
  qed simp
  moreover have "nl @ nl \<noteq> ''none''" by (simp add: nl_def)
  ultimately show ?thesis by (simp add: import_items_def export_joined)
qed

theorem export_import_roundtrip_witness:
  "import_items (nl @ nl) False [] (export_items (nl @ nl) [''a'' @ nl @ ''b'' @ nl, ''c'' @ nl]) =
    Inr [([], ''a'' @ nl @ ''b''), ([], ''c'' @ nl)]"
proof -
  have "no_blank (''a'' @ nl @ ''b'' @ nl)" "find_blank (''c'' @ nl) = None" by code_simp+
  then show ?thesis
    using export_import_roundtrip [of "[''a'' @ nl @ ''b'' @ nl, ''c'' @ nl]"] by (simp add: chop_nl_def ends_with_def nl_def)
qed

text \<open>An update pairs the items with the local IDs, or changes nothing.\<close>

lemma update_pairs:
  assumes "delimiter \<noteq> ''none''"
  shows "import_items delimiter True luids content =
    (if length (split_items delimiter content) = length luids then Inr (zip luids (split_items delimiter content))
     else Inl (Throw (dec (length (split_items delimiter content)) @ '' items != '' @ dec (length luids) @
       '' luids, must match => aborting'')))"
  using assms by (simp add: import_items_def Let_def)

text \<open>Local IDs in file names and on the command line are read back.\<close>

lemma toLUID_fromLUID: "toLUID (fromLUID luid) = luid"
  by (simp add: toLUID_def fromLUID_def unescape_escape_static)

end
