(* ===== verification/Server_Queue.thy ===== *)
theory Server_Queue
  imports Prelude Timespec "HOL-Library.Sublist"
begin

text \<open>
  The sessions of the D-Bus server (src/src/dbus/server/server.cpp, session.cpp and client.cpp):
  how sessions are created for clients, connections and automatic syncs, wait in the work queue,
  become the active session, run one operation as the sync session, and end.

  Objects are numbers, handed out in the order of creation. A shared pointer to a session is an
  entry of a table of references with its owner; the server's own \<open>m_syncSession\<close> is separate, as
  in the code. A weak pointer is a number that can be locked as long as a reference exists. When
  the last reference goes away, the destructor of the session runs.

  Signals are recorded as events. The functions that are connected to them, and the replies of the
  helper process, are separate steps, which the theorems allow in any order.
\<close>

section \<open>State\<close>

datatype SessionStatus = SESSION_IDLE | SESSION_ACTIVE | SESSION_RUNNING | SESSION_DONE

datatype SyncStatus = SYNC_QUEUEING | SYNC_IDLE | SYNC_RUNNING | SYNC_ABORT | SYNC_SUSPEND | SYNC_DONE

datatype RunOperation = OP_SYNC | OP_RESTORE | OP_CMDLINE | OP_NULL

primrec runOpToString :: "RunOperation \<Rightarrow> string" where
  "runOpToString OP_SYNC = ''sync''"
| "runOpToString OP_RESTORE = ''restore''"
| "runOpToString OP_CMDLINE = ''cmdline''"
| "runOpToString OP_NULL = ''''"

primrec syncStatusToString :: "SyncStatus \<Rightarrow> string" where
  "syncStatusToString SYNC_QUEUEING = ''queueing''"
| "syncStatusToString SYNC_IDLE = ''idle''"
| "syncStatusToString SYNC_RUNNING = ''running''"
| "syncStatusToString SYNC_ABORT = ''aborting''"
| "syncStatusToString SYNC_SUSPEND = ''suspending''"
| "syncStatusToString SYNC_DONE = ''done''"

definition PRI_DEFAULT :: int where
  "PRI_DEFAULT = 0"

definition PRI_CONNECTION :: int where
  "PRI_CONNECTION = 10"

text \<open>
  \<open>ss_helper\<close> says whether the helper process was created (\<open>m_forkExecParent\<close>), \<open>ss_connection\<close> is the
  weak pointer to the connection that asked for the session.
\<close>

record session =
  ss_configName :: string
  ss_flags :: "string list"
  ss_peerDeviceID :: string
  ss_priority :: int
  ss_status :: SessionStatus
  ss_syncStatus :: SyncStatus
  ss_runOperation :: RunOperation
  ss_error :: int
  ss_wasAborted :: bool
  ss_setConfig :: bool
  ss_helper :: bool
  ss_connection :: "nat option"

definition Session :: "string \<Rightarrow> string \<Rightarrow> string list \<Rightarrow> session" where
  "Session peerDeviceID config_name flags =
     \<lparr>ss_configName = config_name, ss_flags = flags, ss_peerDeviceID = peerDeviceID, ss_priority = PRI_DEFAULT,
      ss_status = SESSION_IDLE, ss_syncStatus = SYNC_QUEUEING, ss_runOperation = OP_NULL, ss_error = 0,
      ss_wasAborted = False, ss_setConfig = False, ss_helper = False, ss_connection = None\<rparr>"

datatype owner = Client string | Connection nat | Delayed | Internal | AutoSync

datatype server_event =
    SessionChanged nat bool
  | IdleChange bool
  | NewSyncSession "nat option"
  | StatusChanged nat string int
  | SessionActive nat
  | ConnectionReady nat
  | ConnectionShutdown nat
  | ConfigChanged string
  | SessionDone nat int
  | HelperStart nat
  | HelperStop nat nat

record server =
  sv_workQueue :: "nat list"
  sv_activeSession :: "nat option"
  sv_activeSessionRef :: "nat option"
  sv_syncSession :: "nat option"
  sv_shutdownRequested :: bool
  sv_lastFileMod :: timespec
  sv_shutdownTimer :: "int option"
  sv_quit :: bool
  sv_restart :: bool
  sv_clients :: "string list"
  sv_sessions :: "nat \<Rightarrow> session option"
  sv_refs :: "(owner \<times> nat) list"
  sv_next :: nat
  sv_out :: "server_event list"

definition Server :: server where
  "Server =
     \<lparr>sv_workQueue = [], sv_activeSession = None, sv_activeSessionRef = None, sv_syncSession = None,
      sv_shutdownRequested = False, sv_lastFileMod = Timespec 0 0, sv_shutdownTimer = None,
      sv_quit = False, sv_restart = False, sv_clients = [], sv_sessions = (\<lambda>_. None), sv_refs = [],
      sv_next = 0, sv_out = []\<rparr>"

definition SHUTDOWN_QUIESENCE_SECONDS :: int where
  "SHUTDOWN_QUIESENCE_SECONDS = 10"

abbreviation SIGTERM :: nat where "SIGTERM \<equiv> 15"
abbreviation SIGINT :: nat where "SIGINT \<equiv> 2"
abbreviation SIGURG :: nat where "SIGURG \<equiv> 23"

text \<open>Error codes of the engine: the internal problem and the abort by the user.\<close>

record status_codes =
  sc_fatal :: int
  sc_userabort :: int

subsection \<open>Pointers and events\<close>

definition use_count :: "server \<Rightarrow> nat \<Rightarrow> nat" where
  "use_count s sid = length (filter (\<lambda>r. snd r = sid) (sv_refs s)) + (if sv_syncSession s = Some sid then 1 else 0)"

definition alive :: "server \<Rightarrow> nat \<Rightarrow> bool" where
  "alive s sid \<longleftrightarrow> use_count s sid > 0"

definition lock :: "server \<Rightarrow> nat option \<Rightarrow> nat option" where
  "lock s w = (case w of Some sid \<Rightarrow> if alive s sid then Some sid else None | None \<Rightarrow> None)"

definition emit :: "server_event \<Rightarrow> server \<Rightarrow> server" where
  "emit e s = s\<lparr>sv_out := sv_out s @ [e]\<rparr>"

definition with_session :: "nat \<Rightarrow> (session \<Rightarrow> session) \<Rightarrow> server \<Rightarrow> server" where
  "with_session sid f s = s\<lparr>sv_sessions := (sv_sessions s)(sid := map_option f (sv_sessions s sid))\<rparr>"

text \<open>The connection of a session exists as long as it holds its reference to the session.\<close>

definition connection_lock :: "server \<Rightarrow> nat \<Rightarrow> nat option" where
  "connection_lock s sid =
     (case sv_sessions s sid of
        None \<Rightarrow> None
      | Some ss \<Rightarrow> (case ss_connection ss of
            None \<Rightarrow> None
          | Some c \<Rightarrow> if (Connection c, sid) \<in> set (sv_refs s) then Some c else None))"

definition fireStatus :: "nat \<Rightarrow> server \<Rightarrow> server" where
  "fireStatus sid s =
     (case sv_sessions s sid of
        None \<Rightarrow> s
      | Some ss \<Rightarrow> emit (StatusChanged sid (syncStatusToString (ss_syncStatus ss)) (ss_error ss)) s)"

definition isIdle :: "server \<Rightarrow> bool" where
  "isIdle s \<longleftrightarrow> sv_activeSession s = None \<and> sv_workQueue s = []"

definition delaySessionDestruction :: "nat \<Rightarrow> server \<Rightarrow> server" where
  "delaySessionDestruction sid s = s\<lparr>sv_refs := sv_refs s @ [(Delayed, sid)]\<rparr>"

section \<open>The work queue\<close>

definition activateSession :: "nat \<Rightarrow> server \<Rightarrow> server step" where
  "activateSession sid s =
     (case sv_sessions s sid of
        None \<Rightarrow> throw NullDeref s
      | Some ss \<Rightarrow>
          if ss_status ss \<noteq> SESSION_IDLE
          then throw (Throw ''internal error, session changing from non-idle to active'') s
          else (let s = with_session sid (\<lambda>ss. ss\<lparr>ss_status := SESSION_ACTIVE\<rparr>) s;
                    s = (if ss_syncStatus ss = SYNC_QUEUEING
                         then fireStatus sid (with_session sid (\<lambda>ss. ss\<lparr>ss_syncStatus := SYNC_IDLE\<rparr>) s)
                         else s);
                    s = (case connection_lock s sid of Some c \<Rightarrow> emit (ConnectionReady c) s | None \<Rightarrow> s)
                in return (emit (SessionActive sid) s)))"

text \<open>The loop over the queue: the first session that still exists, and the entries after it.\<close>

fun next_session :: "server \<Rightarrow> nat list \<Rightarrow> (nat \<times> nat list) option" where
  "next_session s [] = None"
| "next_session s (front # queue) = (if alive s front then Some (front, queue) else next_session s queue)"

definition checkQueue :: "server \<Rightarrow> server step" where
  "checkQueue s =
     (if sv_activeSession s \<noteq> None then return s
      else if sv_shutdownRequested s
      then return (if sv_shutdownTimer s = None then s\<lparr>sv_quit := True\<rparr> else s)
      else (case next_session s (sv_workQueue s) of
              None \<Rightarrow> return (s\<lparr>sv_workQueue := []\<rparr>)
            | Some (sid, queue) \<Rightarrow>
                andThen (activateSession sid (s\<lparr>sv_workQueue := queue, sv_activeSession := Some sid, sv_activeSessionRef := Some sid\<rparr>))
                  (\<lambda>s. return (emit (SessionChanged sid True) s))))"

text \<open>
  The position of a new session is searched from the end of the queue, so that the recursion is over
  the reversed list. Both sides of the comparison are the priority of the session that is already
  in the queue, because the local variable hides the parameter of the same name.
\<close>

definition getPriority :: "server \<Rightarrow> nat \<Rightarrow> int" where
  "getPriority s sid = (case sv_sessions s sid of Some ss \<Rightarrow> ss_priority ss | None \<Rightarrow> 0)"

fun insert_from_end :: "server \<Rightarrow> nat \<Rightarrow> nat list \<Rightarrow> nat list" where
  "insert_from_end s new [] = [new]"
| "insert_from_end s new (it # before) =
     (case lock s (Some it) of
        Some session \<Rightarrow>
          if getPriority s session \<le> getPriority s session then new # it # before
          else it # insert_from_end s new before
      | None \<Rightarrow> it # insert_from_end s new before)"

definition enqueue :: "nat \<Rightarrow> server \<Rightarrow> server step" where
  "enqueue sid s =
     (let idle = isIdle s;
          s = s\<lparr>sv_workQueue := rev (insert_from_end s sid (rev (sv_workQueue s)))\<rparr>
      in andThen (checkQueue s)
           (\<lambda>s. return (if idle then emit (IdleChange False) s else s)))"

definition release_lock :: "timespec \<Rightarrow> nat \<Rightarrow> server \<Rightarrow> server" where
  "release_lock now sid s =
     (let s = emit (SessionChanged sid False) s;
          s = s\<lparr>sv_activeSession := None, sv_activeSessionRef := None\<rparr>
      in if ts_bool (sv_lastFileMod s) \<and> sv_shutdownTimer s = None
         then (let shutdown = ts_plus_seconds (sv_lastFileMod s) SHUTDOWN_QUIESENCE_SECONDS
               in if \<not> ts_less shutdown now then s\<lparr>sv_shutdownTimer := Some (tv_sec (ts_minus shutdown now))\<rparr> else s)
         else s)"

definition dequeue :: "timespec \<Rightarrow> nat \<Rightarrow> server \<Rightarrow> server step" where
  "dequeue now sid s =
     (if sv_syncSession s = Some sid then return s
      else let idle = isIdle s;
               s = (if alive s sid then s\<lparr>sv_workQueue := remove1 sid (sv_workQueue s)\<rparr> else s)
           in andThen (if sv_activeSession s = Some sid then checkQueue (release_lock now sid s) else return s)
                (\<lambda>s. return (if \<not> idle \<and> isIdle s then emit (IdleChange True) s else s)))"

definition addSyncSession :: "nat \<Rightarrow> server \<Rightarrow> server step" where
  "addSyncSession sid s =
     (case sv_syncSession s of
        Some sync \<Rightarrow> if sync \<noteq> sid then throw (Throw ''already have a sync session'') s else return s
      | None \<Rightarrow>
          (let s = s\<lparr>sv_syncSession := lock s (sv_activeSessionRef s)\<rparr>;
               s = emit (NewSyncSession (sv_syncSession s)) s
           in case sv_syncSession s of
                None \<Rightarrow> throw (Throw ''session should not start a sync, all clients already detached'') s
              | Some sync \<Rightarrow>
                  if sync \<noteq> sid
                  then throw (Throw ''inactive session asked to become sync session'') (s\<lparr>sv_syncSession := None\<rparr>)
                  else return s))"

definition removeSyncSession :: "nat \<Rightarrow> server \<Rightarrow> server" where
  "removeSyncSession sid s =
     (if sv_syncSession s = Some sid then (delaySessionDestruction sid s)\<lparr>sv_syncSession := None\<rparr> else s)"

section \<open>Operations of a session\<close>

definition runOperationAsync :: "RunOperation \<Rightarrow> nat \<Rightarrow> server \<Rightarrow> server step" where
  "runOperationAsync op sid s =
     andThen (addSyncSession sid s)
       (\<lambda>s. let s = with_session sid (\<lambda>ss. ss\<lparr>ss_runOperation := op, ss_status := SESSION_RUNNING,
                                        ss_syncStatus := SYNC_RUNNING\<rparr>) s;
                s = fireStatus sid s
            in return (emit (HelperStart sid) (with_session sid (\<lambda>ss. ss\<lparr>ss_helper := True\<rparr>) s)))"

text \<open>The messages of \<open>syncExtended\<close>, \<open>restore\<close> and \<open>execute\<close> when an operation was started before.\<close>

definition started_message :: "RunOperation \<Rightarrow> RunOperation \<Rightarrow> string" where
  "started_message op current =
     (if op = current
      then (if op = OP_RESTORE then ''restore started, cannot restore again''
            else runOpToString current @ '' started, cannot start again'')
      else runOpToString current @
        (if op = OP_RESTORE then '' started, cannot restore'' else '' started, cannot start '' @ runOpToString op))"

definition start_operation :: "RunOperation \<Rightarrow> nat \<Rightarrow> server \<Rightarrow> server step" where
  "start_operation op sid s =
     (case sv_sessions s sid of
        None \<Rightarrow> throw NullDeref s
      | Some ss \<Rightarrow>
          if ss_runOperation ss \<noteq> OP_NULL then throw (Throw (started_message op (ss_runOperation ss))) s
          else if ss_status ss \<noteq> SESSION_ACTIVE
          then throw (Throw ''session is not active, call not allowed at this time'') s
          else runOperationAsync op sid s)"

definition syncExtended :: "nat \<Rightarrow> server \<Rightarrow> server step" where
  "syncExtended = start_operation OP_SYNC"

definition restore_data :: "nat \<Rightarrow> server \<Rightarrow> server step" where
  "restore_data = start_operation OP_RESTORE"

definition execute :: "nat \<Rightarrow> server \<Rightarrow> server step" where
  "execute = start_operation OP_CMDLINE"

text \<open>
  The checks of \<open>setNamedConfig\<close>. What the configuration code does afterwards is an argument: whether it
  fails and whether it has changed a stored configuration.
\<close>

definition setNamedConfig :: "se_error option \<times> bool \<Rightarrow> string \<Rightarrow> bool \<Rightarrow> nat \<Rightarrow> server \<Rightarrow> server step" where
  "setNamedConfig outcome configName temporary sid s =
     (case sv_sessions s sid of
        None \<Rightarrow> throw NullDeref s
      | Some ss \<Rightarrow>
          if ss_runOperation ss \<noteq> OP_NULL
          then throw (Throw (runOpToString (ss_runOperation ss) @ '' started, cannot change configuration at this time'')) s
          else if ss_status ss \<noteq> SESSION_ACTIVE
          then throw (Throw ''session is not active, call not allowed at this time'') s
          else if ss_configName ss \<noteq> configName \<and> \<not> list_ex (\<lambda>flag. iequals flag ''all-configs'') (ss_flags ss)
          then throw (Throw (''SetNameConfig() only allowed in '' @ [CHR 0x27] @ ''all-configs'' @ [CHR 0x27] @ '' sessions'')) s
          else if ss_configName ss \<noteq> configName \<and> temporary
          then throw (Throw ''SetNameConfig() with temporary config change only supported for config named when starting the session'') s
          else (fst outcome, with_session sid (\<lambda>ss. ss\<lparr>ss_setConfig := ss_setConfig ss \<or> snd outcome\<rparr>) s))"

definition stop_helper :: "nat \<Rightarrow> nat \<Rightarrow> server \<Rightarrow> server" where
  "stop_helper sig sid s = emit (HelperStop sid sig) s"

definition Session_abort :: "nat \<Rightarrow> server \<Rightarrow> server step" where
  "Session_abort sid s =
     (case sv_sessions s sid of
        None \<Rightarrow> throw NullDeref s
      | Some ss \<Rightarrow>
          if ss_runOperation ss \<noteq> OP_SYNC \<and> ss_runOperation ss \<noteq> OP_CMDLINE
          then throw (Throw ''sync not started, cannot abort at this time'') s
          else (let s = (if ss_helper ss
                         then stop_helper SIGTERM sid (with_session sid (\<lambda>ss. ss\<lparr>ss_wasAborted := True\<rparr>) s) else s)
                in return (if ss_syncStatus ss = SYNC_RUNNING \<or> ss_syncStatus ss = SYNC_SUSPEND
                           then fireStatus sid (with_session sid (\<lambda>ss. ss\<lparr>ss_syncStatus := SYNC_ABORT\<rparr>) s)
                           else s)))"

definition Session_suspend :: "nat \<Rightarrow> server \<Rightarrow> server step" where
  "Session_suspend sid s =
     (case sv_sessions s sid of
        None \<Rightarrow> throw NullDeref s
      | Some ss \<Rightarrow>
          if ss_runOperation ss \<noteq> OP_SYNC \<and> ss_runOperation ss \<noteq> OP_CMDLINE
          then throw (Throw ''sync not started, cannot suspend at this time'') s
          else (let s = (if ss_helper ss
                         then stop_helper SIGINT sid (with_session sid (\<lambda>ss. ss\<lparr>ss_wasAborted := True\<rparr>) s) else s)
                in return (if ss_syncStatus ss = SYNC_RUNNING
                           then fireStatus sid (with_session sid (\<lambda>ss. ss\<lparr>ss_syncStatus := SYNC_SUSPEND\<rparr>) s)
                           else s)))"

definition abortAsync :: "nat \<Rightarrow> server \<Rightarrow> server" where
  "abortAsync sid s =
     (case sv_sessions s sid of
        Some ss \<Rightarrow> if ss_helper ss then stop_helper SIGTERM sid s else s
      | None \<Rightarrow> s)"

text \<open>The end of a session. The exceptions of the last steps are caught.\<close>

definition mark_done :: "status_codes \<Rightarrow> bool \<Rightarrow> session \<Rightarrow> session" where
  "mark_done sc success ss =
     ss\<lparr>ss_status := SESSION_DONE, ss_syncStatus := SYNC_DONE,
        ss_error := (if \<not> success \<and> ss_error ss = 0 then sc_fatal sc else ss_error ss)\<rparr>"

definition done_signals :: "nat \<Rightarrow> session \<Rightarrow> server \<Rightarrow> server" where
  "done_signals sid ss s =
     (let s = fireStatus sid s;
          s = (case connection_lock s sid of Some c \<Rightarrow> emit (ConnectionShutdown c) s | None \<Rightarrow> s);
          s = (if ss_setConfig ss then emit (ConfigChanged (ss_configName ss)) s else s);
          s = emit (SessionDone sid (ss_error ss)) s
      in if ss_helper ss then stop_helper SIGURG sid (stop_helper SIGTERM sid s) else s)"

definition doneCb :: "status_codes \<Rightarrow> timespec \<Rightarrow> bool \<Rightarrow> nat \<Rightarrow> server \<Rightarrow> server" where
  "doneCb sc now success sid s =
     (case sv_sessions s sid of
        None \<Rightarrow> s
      | Some ss \<Rightarrow>
          if ss_status ss = SESSION_DONE then s
          else (let s = with_session sid (mark_done sc success) s;
                    s = done_signals sid (mark_done sc success ss) s
                in snd (dequeue now sid (removeSyncSession sid s))))"

definition set_error :: "int \<Rightarrow> session \<Rightarrow> session" where
  "set_error error ss = (if ss_error ss = 0 then ss\<lparr>ss_error := error\<rparr> else ss)"

definition failureCb :: "status_codes \<Rightarrow> timespec \<Rightarrow> int \<Rightarrow> nat \<Rightarrow> server \<Rightarrow> server" where
  "failureCb sc now error sid s =
     (case sv_sessions s sid of
        None \<Rightarrow> s
      | Some ss \<Rightarrow>
          if ss_status ss = SESSION_DONE then s
          else doneCb sc now False sid (with_session sid (set_error error) s))"

text \<open>The reply of the helper: success or failure of the operation, or an error of the call.\<close>

definition dbusResultCb :: "status_codes \<Rightarrow> timespec \<Rightarrow> bool \<Rightarrow> int option \<Rightarrow> nat \<Rightarrow> server \<Rightarrow> server" where
  "dbusResultCb sc now success error sid s =
     (case error of None \<Rightarrow> doneCb sc now success sid s | Some e \<Rightarrow> failureCb sc now e sid s)"

text \<open>The helper has quit; the session is closed by a timer one second later.\<close>

definition onQuit :: "status_codes \<Rightarrow> bool \<Rightarrow> nat \<Rightarrow> server \<Rightarrow> server" where
  "onQuit sc expected sid s =
     (case sv_sessions s sid of
        None \<Rightarrow> s
      | Some ss \<Rightarrow>
          if ss_status ss = SESSION_DONE then s
          else if ss_wasAborted ss \<and> expected then with_session sid (set_error (sc_userabort sc)) s
          else s)"

definition Session_destruct :: "status_codes \<Rightarrow> timespec \<Rightarrow> nat \<Rightarrow> server \<Rightarrow> server" where
  "Session_destruct sc now sid s =
     (let s = doneCb sc now False sid s in s\<lparr>sv_sessions := (sv_sessions s)(sid := None)\<rparr>)"

text \<open>An owner gives up its reference.\<close>

definition unref_session :: "status_codes \<Rightarrow> timespec \<Rightarrow> owner \<Rightarrow> nat \<Rightarrow> server \<Rightarrow> server" where
  "unref_session sc now owner sid s =
     (let s = s\<lparr>sv_refs := remove1 (owner, sid) (sv_refs s)\<rparr>
      in if alive s sid then s else Session_destruct sc now sid s)"

section \<open>Clients\<close>

definition Client_detach :: "status_codes \<Rightarrow> timespec \<Rightarrow> string \<Rightarrow> nat \<Rightarrow> server \<Rightarrow> server step" where
  "Client_detach sc now client sid s =
     (if (Client client, sid) \<in> set (sv_refs s)
      then (let s = (if use_count s sid = 1 then doneCb sc now False sid (delaySessionDestruction sid s) else s)
            in return (unref_session sc now (Client client) sid s))
      else throw (Throw ''cannot detach from resource that client is not attached to'') s)"

definition resources :: "server \<Rightarrow> string \<Rightarrow> nat list" where
  "resources s client = map snd (filter (\<lambda>r. fst r = Client client) (sv_refs s))"

text \<open>
  A client has disconnected. The destructor detaches from the first resource until none is left;
  ending a session does not change the resources of clients.
\<close>

definition clientGone :: "status_codes \<Rightarrow> timespec \<Rightarrow> string \<Rightarrow> server \<Rightarrow> server" where
  "clientGone sc now client s =
     (if client \<in> set (sv_clients s)
      then fold (\<lambda>sid s. snd (Client_detach sc now client sid s)) (resources s client)
             (s\<lparr>sv_clients := filter (\<lambda>c. c \<noteq> client) (sv_clients s)\<rparr>)
      else s)"

definition addClient :: "string \<Rightarrow> server \<Rightarrow> server" where
  "addClient client s =
     (if client \<in> set (sv_clients s) then s else s\<lparr>sv_clients := sv_clients s @ [client]\<rparr>)"

definition Session_attach :: "string \<Rightarrow> nat \<Rightarrow> server \<Rightarrow> server step" where
  "Session_attach client sid s =
     (if client \<notin> set (sv_clients s) then throw (Throw ''unknown client'') s
      else if \<not> alive s sid then throw (Throw ''session already deleted?!'') s
      else return (s\<lparr>sv_refs := sv_refs s @ [(Client client, sid)]\<rparr>))"

definition Session_detach :: "status_codes \<Rightarrow> timespec \<Rightarrow> string \<Rightarrow> nat \<Rightarrow> server \<Rightarrow> server step" where
  "Session_detach sc now client sid s =
     (if client \<notin> set (sv_clients s) then throw (Throw ''unknown client'') s
      else Client_detach sc now client sid s)"

section \<open>Operations of the server\<close>

definition createSession :: "owner \<Rightarrow> session \<Rightarrow> server \<Rightarrow> server" where
  "createSession owner ss s =
     s\<lparr>sv_next := sv_next s + 1, sv_sessions := (sv_sessions s)(sv_next s \<mapsto> ss),
       sv_refs := sv_refs s @ [(owner, sv_next s)]\<rparr>"

definition startSessionWithFlags :: "string \<Rightarrow> string \<Rightarrow> string list \<Rightarrow> server \<Rightarrow> server step" where
  "startSessionWithFlags client config flags s =
     (if sv_shutdownRequested s then throw (Throw ''server shutting down'') s
      else (let s = addClient client s
            in enqueue (sv_next s)
                 (createSession (Client client) (Session ''is this a client or server session?'' config flags) s)))"

definition startInternalSession :: "string \<Rightarrow> bool \<Rightarrow> bool \<Rightarrow> server \<Rightarrow> server step" where
  "startInternalSession config no_sync all_configs s =
     (if sv_shutdownRequested s then throw (Throw ''server shutting down'') s
      else enqueue (sv_next s)
             (createSession Internal
                (Session ''is this a client or server session?'' config
                   ((if no_sync then [''no-sync''] else []) @ (if all_configs then [''all-configs''] else []))) s))"

text \<open>The session that \<open>AutoSyncManager::schedule\<close> creates and keeps.\<close>

definition startAutoSession :: "string \<Rightarrow> string \<Rightarrow> server \<Rightarrow> server step" where
  "startAutoSession remoteDeviceId config s =
     enqueue (sv_next s) (createSession AutoSync (Session remoteDeviceId config []) s)"

fun kill_loop :: "string \<Rightarrow> nat list \<Rightarrow> server \<Rightarrow> nat list \<times> server" where
  "kill_loop peerDeviceID [] s = ([], s)"
| "kill_loop peerDeviceID (it # queue) s =
     (if alive s it \<and> map_option ss_peerDeviceID (sv_sessions s it) = Some peerDeviceID
      then kill_loop peerDeviceID queue
             (case connection_lock s it of Some c \<Rightarrow> emit (ConnectionShutdown c) s | None \<Rightarrow> s)
      else (let (kept, s) = kill_loop peerDeviceID queue s in (it # kept, s)))"

definition killSessionsAsync :: "string \<Rightarrow> server \<Rightarrow> server" where
  "killSessionsAsync peerDeviceID s =
     (let (kept, s) = kill_loop peerDeviceID (sv_workQueue s) s;
          s = s\<lparr>sv_workQueue := kept\<rparr>
      in case lock s (sv_activeSessionRef s) of
           Some active \<Rightarrow>
             if map_option ss_peerDeviceID (sv_sessions s active) = Some peerDeviceID then abortAsync active s else s
         | None \<Rightarrow> s)"

text \<open>The part of \<open>Connection::process\<close> that starts a session for the first message of a peer.\<close>

definition startConnectionSession :: "nat \<Rightarrow> string \<Rightarrow> string \<Rightarrow> server \<Rightarrow> server step" where
  "startConnectionSession connection peerDeviceID config s =
     (let sid = sv_next s;
          s = createSession (Connection connection)
                ((Session peerDeviceID config [])\<lparr>ss_priority := PRI_CONNECTION, ss_connection := Some connection\<rparr>) s;
          s = (if peerDeviceID \<noteq> [] then killSessionsAsync peerDeviceID s else s)
      in enqueue sid s)"

definition fileModified :: "timespec \<Rightarrow> server \<Rightarrow> server" where
  "fileModified now s =
     (let s = s\<lparr>sv_lastFileMod := now\<rparr>;
          s = (if sv_activeSession s = None then s\<lparr>sv_shutdownTimer := Some SHUTDOWN_QUIESENCE_SECONDS\<rparr> else s)
      in s\<lparr>sv_shutdownRequested := True\<rparr>)"

text \<open>The callback of the shutdown timer, which is not repeated.\<close>

definition Server_shutdown :: "bool \<Rightarrow> server \<Rightarrow> server" where
  "Server_shutdown autosync s =
     (let s = s\<lparr>sv_shutdownTimer := None\<rparr>
      in if autosync then s\<lparr>sv_restart := True\<rparr> else s\<lparr>sv_quit := True\<rparr>)"

text \<open>A signal was received (\<open>onSuspendFlagsChange\<close>), or the server was idle for long enough.\<close>

definition request_shutdown :: "server \<Rightarrow> server" where
  "request_shutdown s = s\<lparr>sv_shutdownRequested := True, sv_quit := True\<rparr>"

definition getSessions :: "server \<Rightarrow> nat list" where
  "getSessions s =
     (case sv_activeSession s of Some sid \<Rightarrow> [sid] | None \<Rightarrow> []) @ filter (alive s) (sv_workQueue s)"

section \<open>Histories\<close>

text \<open>
  Everything that can happen to the server: calls of clients, peers and the automatic sync, replies and
  the end of helper processes, timers, and owners that drop their reference. Clients drop theirs only by
  detaching, the automatic sync in its own functions.
\<close>

datatype server_call =
    Start_Session string string "string list"
  | Start_Internal string bool bool
  | Start_Auto string string
  | Start_Connection nat string string
  | Attach string nat
  | Detach timespec string nat
  | Client_Gone timespec string
  | Set_Config "se_error option \<times> bool" string bool nat
  | Start_Operation RunOperation nat
  | Abort nat
  | Suspend nat
  | Kill_Sessions string
  | Helper_Reply timespec bool "int option" nat
  | Helper_Quit bool nat
  | Quit_Timer timespec nat
  | Drop timespec owner nat
  | File_Modified timespec
  | Shutdown_Timer bool
  | Request_Shutdown

primrec drops_alone :: "owner \<Rightarrow> bool" where
  "drops_alone (Client c) = False"
| "drops_alone (Connection c) = True"
| "drops_alone Delayed = True"
| "drops_alone Internal = True"
| "drops_alone AutoSync = False"

primrec server_do :: "status_codes \<Rightarrow> server_call \<Rightarrow> server \<Rightarrow> server step" where
  "server_do sc (Start_Session client config flags) s = startSessionWithFlags client config flags s"
| "server_do sc (Start_Internal config no_sync all_configs) s = startInternalSession config no_sync all_configs s"
| "server_do sc (Start_Auto remoteDeviceId config) s = startAutoSession remoteDeviceId config s"
| "server_do sc (Start_Connection connection peer config) s = startConnectionSession connection peer config s"
| "server_do sc (Attach client sid) s = Session_attach client sid s"
| "server_do sc (Detach now client sid) s = Session_detach sc now client sid s"
| "server_do sc (Client_Gone now client) s = return (clientGone sc now client s)"
| "server_do sc (Set_Config outcome config temporary sid) s = setNamedConfig outcome config temporary sid s"
| "server_do sc (Start_Operation op sid) s =
     (case op of OP_SYNC \<Rightarrow> syncExtended sid s | OP_RESTORE \<Rightarrow> restore_data sid s | OP_CMDLINE \<Rightarrow> execute sid s
      | OP_NULL \<Rightarrow> return s)"
| "server_do sc (Abort sid) s = Session_abort sid s"
| "server_do sc (Suspend sid) s = Session_suspend sid s"
| "server_do sc (Kill_Sessions peer) s = return (killSessionsAsync peer s)"
| "server_do sc (Helper_Reply now success error sid) s = return (dbusResultCb sc now success error sid s)"
| "server_do sc (Helper_Quit expected sid) s = return (onQuit sc expected sid s)"
| "server_do sc (Quit_Timer now sid) s = return (doneCb sc now False sid s)"
| "server_do sc (Drop now owner sid) s =
     return (if drops_alone owner then unref_session sc now owner sid s else s)"
| "server_do sc (File_Modified now) s = return (fileModified now s)"
| "server_do sc (Shutdown_Timer autosync) s =
     return (if sv_shutdownTimer s = None then s else Server_shutdown autosync s)"
| "server_do sc Request_Shutdown s = return (request_shutdown s)"

definition server_run :: "status_codes \<Rightarrow> server_call list \<Rightarrow> server" where
  "server_run sc calls = fold (\<lambda>call s. snd (server_do sc call s)) calls Server"

text \<open>The sessions that became active so far, in this order, and the pending references of the idle signal.\<close>

fun active_id :: "server_event \<Rightarrow> nat list" where
  "active_id (SessionActive i) = [i]"
| "active_id _ = []"

definition activated :: "server_event list \<Rightarrow> nat list" where
  "activated es = concat (map active_id es)"

definition busy_count :: "server_event list \<Rightarrow> int" where
  "busy_count es = (\<Sum>e\<leftarrow>es. if e = IdleChange False then 1 else if e = IdleChange True then -1 else 0)"

lemma activated_simps [simp]:
  "activated [] = []"
  "activated (es @ es') = activated es @ activated es'"
  "activated (e # es) = active_id e @ activated es"
  by (simp_all add: activated_def)

lemma busy_count_simps [simp]:
  "busy_count [] = 0"
  "busy_count (es @ es') = busy_count es + busy_count es'"
  "busy_count (e # es) = (if e = IdleChange False then 1 else if e = IdleChange True then -1 else 0) + busy_count es"
  by (simp_all add: busy_count_def)

section \<open>The invariant\<close>

lemma alive_iff: "alive s i \<longleftrightarrow> sv_syncSession s = Some i \<or> i \<in> snd ` set (sv_refs s)"
  by (auto simp: alive_def use_count_def filter_empty_conv image_iff)

lemma alive_cong: "sv_refs s = sv_refs t \<Longrightarrow> sv_syncSession s = sv_syncSession t \<Longrightarrow> alive s = alive t"
  by (auto simp: alive_iff fun_eq_iff)

lemma alive_update [simp]:
  "alive (s\<lparr>sv_workQueue := q\<rparr>) = alive s"
  "alive (s\<lparr>sv_activeSession := a\<rparr>) = alive s"
  "alive (s\<lparr>sv_activeSessionRef := a\<rparr>) = alive s"
  "alive (s\<lparr>sv_shutdownRequested := b\<rparr>) = alive s"
  "alive (s\<lparr>sv_lastFileMod := t\<rparr>) = alive s"
  "alive (s\<lparr>sv_shutdownTimer := ti\<rparr>) = alive s"
  "alive (s\<lparr>sv_quit := b\<rparr>) = alive s"
  "alive (s\<lparr>sv_restart := b\<rparr>) = alive s"
  "alive (s\<lparr>sv_clients := cl\<rparr>) = alive s"
  "alive (s\<lparr>sv_sessions := ses\<rparr>) = alive s"
  "alive (s\<lparr>sv_next := n\<rparr>) = alive s"
  "alive (s\<lparr>sv_out := out\<rparr>) = alive s"
  by (rule alive_cong; simp)+

text \<open>What holds for every session object, given the pointers of the server.\<close>

definition session_ok :: "server \<Rightarrow> nat \<Rightarrow> session \<Rightarrow> bool" where
  "session_ok s i ss \<longleftrightarrow>
     (sv_activeSession s = Some i \<longleftrightarrow> ss_status ss = SESSION_ACTIVE \<or> ss_status ss = SESSION_RUNNING) \<and>
     (sv_syncSession s = Some i \<longleftrightarrow> ss_status ss = SESSION_RUNNING) \<and>
     (ss_status ss = SESSION_IDLE \<or> ss_status ss = SESSION_ACTIVE \<longrightarrow> ss_runOperation ss = OP_NULL) \<and>
     (ss_status ss = SESSION_RUNNING \<longrightarrow> ss_runOperation ss \<noteq> OP_NULL) \<and>
     (i \<in> set (sv_workQueue s) \<and> alive s i \<longrightarrow> ss_status ss = SESSION_IDLE)"

text \<open>
  The pointers of the server. \<open>X\<close> is the set of sessions whose destructor is running: they have no
  references any more.
\<close>

definition server_inv :: "nat set \<Rightarrow> server \<Rightarrow> bool" where
  "server_inv X s \<longleftrightarrow>
     (\<forall>i. alive s i \<longrightarrow> sv_sessions s i \<noteq> None) \<and>
     (\<forall>i ss. sv_sessions s i = Some ss \<longrightarrow> session_ok s i ss \<and> i < sv_next s \<and> (alive s i \<or> i \<in> X)) \<and>
     sv_activeSessionRef s = sv_activeSession s \<and>
     (\<forall>i. sv_activeSession s = Some i \<longrightarrow> sv_sessions s i \<noteq> None \<and> i \<in> set (activated (sv_out s))) \<and>
     (\<forall>i\<in>set (sv_workQueue s) \<union> set (activated (sv_out s)). i < sv_next s) \<and>
     sorted_wrt (<) (activated (sv_out s) @ filter (alive s) (sv_workQueue s))"

text \<open>Progress: sessions wait only while another one is active, and a requested shutdown happens.\<close>

definition server_progress :: "server \<Rightarrow> bool" where
  "server_progress s \<longleftrightarrow>
     (sv_activeSession s = None \<longrightarrow>
        (if sv_shutdownRequested s then sv_shutdownTimer s \<noteq> None \<or> sv_quit s \<or> sv_restart s else sv_workQueue s = []))"

definition server_idle :: "server \<Rightarrow> bool" where
  "server_idle s \<longleftrightarrow> sv_shutdownRequested s \<or> busy_count (sv_out s) = (if isIdle s then 0 else 1)"

subsection \<open>Events and updates of one session\<close>

text \<open>Most steps change one session object and record events without changing the life cycle.\<close>

definition quiet :: "server_event list \<Rightarrow> bool" where
  "quiet es \<longleftrightarrow> activated es = [] \<and> busy_count es = 0"

definition same_life :: "session \<Rightarrow> session \<Rightarrow> bool" where
  "same_life ss ss' \<longleftrightarrow> ss_status ss' = ss_status ss \<and> ss_runOperation ss' = ss_runOperation ss"

definition session_step :: "nat \<Rightarrow> server \<Rightarrow> server \<Rightarrow> bool" where
  "session_step sid s t \<longleftrightarrow>
     (\<exists>ses es. t = s\<lparr>sv_sessions := ses, sv_out := sv_out s @ es\<rparr> \<and> quiet es \<and>
        rel_option same_life (sv_sessions s sid) (ses sid) \<and> (\<forall>i. i \<noteq> sid \<longrightarrow> ses i = sv_sessions s i))"

lemma quiet_simps [simp]:
  "quiet []"
  "quiet (es @ es') \<longleftrightarrow> activated es = [] \<and> activated es' = [] \<and> busy_count es + busy_count es' = 0"
  "quiet [e] \<longleftrightarrow> active_id e = [] \<and> (\<forall>b. e \<noteq> IdleChange b)"
  by (auto simp: quiet_def split: if_splits)

lemma same_life_refl [simp]: "same_life ss ss"
  by (simp add: same_life_def)

lemma rel_option_same_life_refl [simp]: "rel_option same_life x x"
  by (cases x) auto

lemma session_step_refl [simp]: "session_step sid s s"
  unfolding session_step_def by (rule exI [of _ "sv_sessions s"], rule exI [of _ "[]"]) simp

lemma session_step_trans:
  assumes "session_step sid s t" and "session_step sid t u"
  shows "session_step sid s u"
proof -
  obtain ses es where t: "t = s\<lparr>sv_sessions := ses, sv_out := sv_out s @ es\<rparr>" and es: "quiet es"
    and r: "rel_option same_life (sv_sessions s sid) (ses sid)" and o: "\<forall>i. i \<noteq> sid \<longrightarrow> ses i = sv_sessions s i"
    using assms(1) by (auto simp: session_step_def)
  obtain ses' es' where u: "u = t\<lparr>sv_sessions := ses', sv_out := sv_out t @ es'\<rparr>" and es': "quiet es'"
    and r': "rel_option same_life (sv_sessions t sid) (ses' sid)" and o': "\<forall>i. i \<noteq> sid \<longrightarrow> ses' i = sv_sessions t i"
    using assms(2) by (auto simp: session_step_def)
  have "rel_option same_life (sv_sessions s sid) (ses' sid)"
    using r r' by (auto simp: t same_life_def option_rel_Some1 option_rel_Some2 elim!: option.rel_cases)
  then show ?thesis
    unfolding session_step_def
    by (intro exI [of _ ses'] exI [of _ "es @ es'"]) (use o o' es es' in \<open>auto simp: t u quiet_def\<close>)
qed

lemma session_step_emit:
  "active_id e = [] \<Longrightarrow> \<forall>b. e \<noteq> IdleChange b \<Longrightarrow> session_step sid s (emit e s)"
  unfolding session_step_def emit_def
  by (intro exI [of _ "sv_sessions s"] exI [of _ "[e]"]) auto

lemma session_step_with_session:
  "(\<And>ss. same_life ss (f ss)) \<Longrightarrow> session_step sid s (with_session sid f s)"
  unfolding session_step_def with_session_def
  by (intro exI [of _ "(sv_sessions s)(sid := map_option f (sv_sessions s sid))"] exI [of _ "[]"])
    (auto simp: option.rel_map intro: option.rel_refl)

lemma session_step_fireStatus: "session_step sid s (fireStatus sid s)"
  by (auto simp: fireStatus_def intro: session_step_emit split: option.split)

lemma session_step_inv:
  assumes step: "session_step sid s t" and inv: "server_inv X s"
  shows "server_inv X t"
proof -
  obtain ses es where t: "t = s\<lparr>sv_sessions := ses, sv_out := sv_out s @ es\<rparr>" and es: "quiet es"
    and r: "rel_option same_life (sv_sessions s sid) (ses sid)" and o: "\<forall>i. i \<noteq> sid \<longrightarrow> ses i = sv_sessions s i"
    using step by (auto simp: session_step_def)
  have same: "\<exists>ss. sv_sessions s i = Some ss \<and> same_life ss ss'" if "ses i = Some ss'" for i ss'
    using r o that by (cases "i = sid") (auto simp: option_rel_Some2)
  have none: "ses i = None \<longleftrightarrow> sv_sessions s i = None" for i
    using r o by (cases "i = sid") (auto elim: option.rel_cases)
  have "session_ok t i ss'" if "ses i = Some ss'" and "session_ok s i ss" and "same_life ss ss'" for i ss ss'
    using that by (simp add: session_ok_def same_life_def t)
  then show ?thesis
    using inv es same unfolding server_inv_def t by (fastforce simp: none quiet_def)
qed

lemma session_step_rest:
  assumes "session_step sid s t"
  shows "server_progress t = server_progress s" and "server_idle t = server_idle s"
    and "sv_refs t = sv_refs s" and "sv_syncSession t = sv_syncSession s"
    and "sv_activeSession t = sv_activeSession s" and "sv_workQueue t = sv_workQueue s"
    and "sv_next t = sv_next s" and "sv_activeSessionRef t = sv_activeSessionRef s"
    and "sv_shutdownRequested t = sv_shutdownRequested s"
    and "alive t = alive s"
  using assms by (auto simp: session_step_def server_progress_def server_idle_def isIdle_def quiet_def intro!: alive_cong)

lemma server_inv_session:
  "server_inv X s \<Longrightarrow> sv_sessions s i = Some ss \<Longrightarrow> session_ok s i ss \<and> i < sv_next s"
  by (simp add: server_inv_def)

lemma server_inv_active:
  assumes "server_inv X s" and "sv_activeSession s = Some i"
  shows "\<exists>ss. sv_sessions s i = Some ss \<and> i < sv_next s \<and> (ss_status ss = SESSION_ACTIVE \<or> ss_status ss = SESSION_RUNNING)"
proof -
  obtain ss where "sv_sessions s i = Some ss"
    using assms by (auto simp: server_inv_def)
  then show ?thesis
    using server_inv_session [OF assms(1)] assms(2) by (auto simp: session_ok_def)
qed

lemma progress_update [simp]:
  "server_progress (s\<lparr>sv_sessions := ses\<rparr>) = server_progress s" "server_idle (s\<lparr>sv_sessions := ses\<rparr>) = server_idle s"
  "server_progress (s\<lparr>sv_refs := r\<rparr>) = server_progress s" "server_idle (s\<lparr>sv_refs := r\<rparr>) = server_idle s"
  "server_progress (s\<lparr>sv_clients := cl\<rparr>) = server_progress s" "server_idle (s\<lparr>sv_clients := cl\<rparr>) = server_idle s"
  "server_progress (s\<lparr>sv_next := n\<rparr>) = server_progress s" "server_idle (s\<lparr>sv_next := n\<rparr>) = server_idle s"
  by (simp_all add: server_progress_def server_idle_def isIdle_def)

subsection \<open>The queue\<close>

lemma insert_from_end_set: "set (insert_from_end s new q) = insert new (set q)"
  by (induction q) (auto split: option.splits)

text \<open>A new session is placed after all sessions that exist, whatever the priorities are.\<close>

lemma insert_from_end_alive:
  "alive s new \<Longrightarrow> filter (alive s) (insert_from_end s new q) = new # filter (alive s) q"
  by (induction q) (auto simp: lock_def)

lemma insert_from_end_fifo:
  "alive s new \<Longrightarrow> filter (alive s) (rev (insert_from_end s new (rev q))) = filter (alive s) q @ [new]"
  by (simp add: insert_from_end_alive rev_filter [symmetric])

lemma next_session_spec:
  "(case next_session s q of
      None \<Rightarrow> filter (alive s) q = []
    | Some (i, q') \<Rightarrow> alive s i \<and> filter (alive s) q = i # filter (alive s) q' \<and> set (i # q') \<subseteq> set q)"
  by (induction q) (auto split: option.splits)

lemma activateSession_ok:
  assumes "sv_sessions s sid = Some ss" and "ss_status ss = SESSION_IDLE"
  shows "\<exists>ss' es. activateSession sid s = (None, s\<lparr>sv_sessions := (sv_sessions s)(sid \<mapsto> ss'), sv_out := sv_out s @ es\<rparr>) \<and>
           ss_status ss' = SESSION_ACTIVE \<and> ss_runOperation ss' = ss_runOperation ss \<and>
           activated es = [sid] \<and> busy_count es = 0"
proof -
  let ?q = "ss_syncStatus ss = SYNC_QUEUEING"
  let ?ss = "if ?q then ss\<lparr>ss_status := SESSION_ACTIVE, ss_syncStatus := SYNC_IDLE\<rparr> else ss\<lparr>ss_status := SESSION_ACTIVE\<rparr>"
  let ?es = "(if ?q then [StatusChanged sid ''idle'' (ss_error ss)] else []) @
     (case connection_lock s sid of Some c \<Rightarrow> [ConnectionReady c] | None \<Rightarrow> []) @ [SessionActive sid]"
  show ?thesis
    by (rule exI [of _ ?ss], rule exI [of _ ?es])
      (use assms in \<open>auto simp: activateSession_def Let_def with_session_def fireStatus_def emit_def connection_lock_def
          split: option.split\<close>)
qed

text \<open>What a step leaves alone that only activates waiting sessions.\<close>

definition queue_step :: "server \<Rightarrow> server \<Rightarrow> bool" where
  "queue_step s t \<longleftrightarrow>
     sv_refs t = sv_refs s \<and> sv_syncSession t = sv_syncSession s \<and> sv_next t = sv_next s \<and>
     sv_shutdownRequested t = sv_shutdownRequested s \<and> busy_count (sv_out t) = busy_count (sv_out s) \<and>
     (\<forall>i. sv_sessions t i = None \<longleftrightarrow> sv_sessions s i = None) \<and>
     (\<forall>i ss. sv_sessions s i = Some ss \<and> ss_status ss \<noteq> SESSION_IDLE \<longrightarrow> sv_sessions t i = Some ss)"

lemma activate_inv:
  assumes inv: "server_inv X s" and idle: "sv_activeSession s = None"
    and i: "alive s i" and q: "filter (alive s) (sv_workQueue s) = i # filter (alive s) q'"
    and sub: "set (i # q') \<subseteq> set (sv_workQueue s)"
    and ss: "sv_sessions s i = Some ss" and ss': "ss_status ss' = SESSION_ACTIVE" "ss_runOperation ss' = ss_runOperation ss"
    and es: "activated es = [i]"
  shows "server_inv X (s\<lparr>sv_workQueue := q', sv_activeSession := Some i, sv_activeSessionRef := Some i,
     sv_sessions := (sv_sessions s)(i \<mapsto> ss'), sv_out := sv_out s @ es\<rparr>)"
proof -
  let ?t = "s\<lparr>sv_workQueue := q', sv_activeSession := Some i, sv_activeSessionRef := Some i,
     sv_sessions := (sv_sessions s)(i \<mapsto> ss'), sv_out := sv_out s @ es\<rparr>"
  have ok: "session_ok s j sj" if "sv_sessions s j = Some sj" for j sj
    using inv that by (auto simp: server_inv_def)
  have sorted: "sorted_wrt (<) (activated (sv_out s) @ i # filter (alive s) q')"
    using inv by (simp add: server_inv_def q)
  have notin: "i \<notin> set q'"
    using sorted i by (fastforce simp: sorted_wrt_append)
  have st: "ss_status ss = SESSION_IDLE"
    using ok [OF ss] i sub by (auto simp: session_ok_def)
  have "session_ok ?t j sj" if "sv_sessions ?t j = Some sj" for j sj
  proof (cases "j = i")
    case True
    then show ?thesis
      using that ok [OF ss] st ss' notin by (auto simp: session_ok_def)
  next
    case False
    then have "session_ok s j sj"
      using that ok by auto
    then show ?thesis
      using False idle sub by (auto simp: session_ok_def)
  qed
  moreover have "\<forall>j\<in>set q'. j < sv_next s" and "i < sv_next s"
    using inv sub by (auto simp: server_inv_def)
  ultimately show ?thesis
    using inv sorted ss es unfolding server_inv_def by (auto split: if_splits)
qed

lemma server_inv_irrelevant [simp]:
  "server_inv X (s\<lparr>sv_shutdownRequested := b\<rparr>) = server_inv X s"
  "server_inv X (s\<lparr>sv_lastFileMod := now\<rparr>) = server_inv X s"
  "server_inv X (s\<lparr>sv_shutdownTimer := ti\<rparr>) = server_inv X s"
  "server_inv X (s\<lparr>sv_quit := b\<rparr>) = server_inv X s"
  "server_inv X (s\<lparr>sv_restart := b\<rparr>) = server_inv X s"
  "server_inv X (s\<lparr>sv_clients := cl\<rparr>) = server_inv X s"
  by (simp_all add: server_inv_def session_ok_def)

lemma subseq_set_subset: "subseq xs ys \<Longrightarrow> set xs \<subseteq> set ys"
  by (induction rule: list_emb.induct) auto

lemma sorted_wrt_subseq: "subseq xs ys \<Longrightarrow> sorted_wrt P ys \<Longrightarrow> sorted_wrt P xs"
  by (induction rule: list_emb.induct) (auto dest: subseq_set_subset)

lemma server_inv_shrink:
  assumes inv: "server_inv X s" and q: "subseq q (sv_workQueue s)"
  shows "server_inv X (s\<lparr>sv_workQueue := q\<rparr>)"
proof -
  have sub: "set q \<subseteq> set (sv_workQueue s)"
    using q by (rule subseq_set_subset)
  have "subseq (activated (sv_out s) @ filter (alive s) q) (activated (sv_out s) @ filter (alive s) (sv_workQueue s))"
    using q by (simp add: subseq_append')
  moreover have "sorted_wrt (<) (activated (sv_out s) @ filter (alive s) (sv_workQueue s))"
    using inv by (simp add: server_inv_def)
  ultimately have "sorted_wrt (<) (activated (sv_out s) @ filter (alive s) q)"
    by (rule sorted_wrt_subseq)
  moreover have "session_ok (s\<lparr>sv_workQueue := q\<rparr>) i ss" if "session_ok s i ss" for i ss
    using that sub by (auto simp: session_ok_def)
  ultimately show ?thesis
    using inv sub unfolding server_inv_def by (simp add: subset_iff Ball_def)
qed

lemma checkQueue_inv:
  assumes inv: "server_inv X s"
  obtains t where "checkQueue s = (None, t)" and "server_inv X t" and "queue_step s t"
    and "sv_activeSession s \<noteq> None \<Longrightarrow> t = s" and "sv_activeSession s = None \<Longrightarrow> server_progress t"
    and "isIdle t \<longleftrightarrow> sv_activeSession s = None \<and>
           (if sv_shutdownRequested s then sv_workQueue s = [] else filter (alive s) (sv_workQueue s) = [])"
proof (cases "sv_activeSession s = None \<and> \<not> sv_shutdownRequested s")
  case False
  let ?t = "if sv_activeSession s = None \<and> sv_shutdownTimer s = None then s\<lparr>sv_quit := True\<rparr> else s"
  show ?thesis
  proof (rule that [of ?t])
    show "checkQueue s = (None, ?t)"
      using False by (auto simp: checkQueue_def)
    show "server_inv X ?t"
      using inv by simp
  qed (use False in \<open>auto simp: queue_step_def server_progress_def isIdle_def\<close>)
next
  case True
  show ?thesis
  proof (cases "next_session s (sv_workQueue s)")
    case None
    show ?thesis
    proof (rule that [of "s\<lparr>sv_workQueue := []\<rparr>"])
      show "checkQueue s = (None, s\<lparr>sv_workQueue := []\<rparr>)"
        using True None by (simp add: checkQueue_def)
      show "server_inv X (s\<lparr>sv_workQueue := []\<rparr>)"
        by (rule server_inv_shrink [OF inv]) simp
    qed (use True None next_session_spec [of s "sv_workQueue s"] in \<open>auto simp: queue_step_def server_progress_def isIdle_def\<close>)
  next
    case (Some r)
    obtain i q' where n: "next_session s (sv_workQueue s) = Some (i, q')"
      using Some by (cases r) auto
    have i: "alive s i" and q: "filter (alive s) (sv_workQueue s) = i # filter (alive s) q'"
      and sub: "set (i # q') \<subseteq> set (sv_workQueue s)"
      using next_session_spec [of s "sv_workQueue s"] n by auto
    obtain ss where ss: "sv_sessions s i = Some ss"
      using inv i by (auto simp: server_inv_def)
    have st: "ss_status ss = SESSION_IDLE"
      using inv ss i sub by (auto simp: server_inv_def session_ok_def)
    let ?s = "s\<lparr>sv_workQueue := q', sv_activeSession := Some i, sv_activeSessionRef := Some i\<rparr>"
    obtain ss' es where a: "activateSession i ?s = (None, ?s\<lparr>sv_sessions := (sv_sessions ?s)(i \<mapsto> ss'), sv_out := sv_out ?s @ es\<rparr>)"
      and ss': "ss_status ss' = SESSION_ACTIVE" "ss_runOperation ss' = ss_runOperation ss"
      and es: "activated es = [i]" "busy_count es = 0"
      using activateSession_ok [of ?s i ss] ss st by auto
    let ?es = "es @ [SessionChanged i True]"
    have c: "checkQueue s = (None, s\<lparr>sv_workQueue := q', sv_activeSession := Some i, sv_activeSessionRef := Some i,
       sv_sessions := (sv_sessions s)(i \<mapsto> ss'), sv_out := sv_out s @ ?es\<rparr>)"
      using True n a by (simp add: checkQueue_def emit_def)
    show ?thesis
    proof (rule that [OF c])
      show "server_inv X (s\<lparr>sv_workQueue := q', sv_activeSession := Some i, sv_activeSessionRef := Some i,
         sv_sessions := (sv_sessions s)(i \<mapsto> ss'), sv_out := sv_out s @ ?es\<rparr>)"
        by (rule activate_inv [OF inv _ i q sub ss ss']) (use True es in auto)
    qed (use True ss st es q in \<open>auto simp: queue_step_def server_progress_def isIdle_def\<close>)
  qed
qed

subsection \<open>The end of a session\<close>

lemma subseq_remove1: "subseq (remove1 x xs) xs"
  by (induction xs) auto

lemma remove1_distinct_filter: "distinct (filter P xs) \<Longrightarrow> P x \<Longrightarrow> x \<notin> set (remove1 x xs)"
  by (induction xs) (auto split: if_splits)

lemma close_inv:
  assumes inv: "server_inv X s" and ss: "sv_sessions s sid = Some ss" and d: "ss_status ss' = SESSION_DONE"
    and t: "sv_sessions t = (sv_sessions s)(sid \<mapsto> ss')"
      "sv_syncSession t = (if sv_syncSession s = Some sid then None else sv_syncSession s)"
      "sv_activeSession t = (if sv_activeSession s = Some sid then None else sv_activeSession s)"
      "sv_activeSessionRef t = sv_activeSession t"
      "sv_workQueue t = (if alive s sid then remove1 sid (sv_workQueue s) else sv_workQueue s)"
      "sv_next t = sv_next s" "activated (sv_out t) = activated (sv_out s)" and al: "alive t = alive s"
  shows "server_inv X t"
proof -
  have sub: "subseq (sv_workQueue t) (sv_workQueue s)"
    by (simp add: t subseq_remove1)
  have sorted: "sorted_wrt (<) (activated (sv_out s) @ filter (alive s) (sv_workQueue s))"
    using inv by (simp add: server_inv_def)
  then have "distinct (filter (alive s) (sv_workQueue s))"
    by (auto simp: sorted_wrt_append strict_sorted_iff)
  then have notin: "sid \<notin> set (sv_workQueue t)" if "alive s sid"
    using that by (simp add: t remove1_distinct_filter)
  have "session_ok t j sj" if "sv_sessions t j = Some sj" for j sj
  proof (cases "j = sid")
    case True
    then show ?thesis
      using that d notin by (auto simp: session_ok_def t(1-4) al)
  next
    case False
    then have "session_ok s j sj"
      using that inv by (auto simp: server_inv_def t(1))
    then show ?thesis
      using False subseq_set_subset [OF sub] by (auto simp: session_ok_def t(1-4) al)
  qed
  moreover have "sorted_wrt (<) (activated (sv_out t) @ filter (alive t) (sv_workQueue t))"
    by (rule sorted_wrt_subseq [OF _ sorted]) (use sub in \<open>simp add: t(7) al subseq_append'\<close>)
  moreover have "\<forall>j\<in>set (sv_workQueue t) \<union> set (activated (sv_out t)). j < sv_next t"
    using inv subseq_set_subset [OF sub] by (auto simp: server_inv_def t(6,7))
  moreover have "alive s j \<or> j \<in> X" "j < sv_next s" if "sv_sessions t j \<noteq> None" for j
    using that inv ss by (auto simp: server_inv_def t(1) split: if_splits)
  ultimately show ?thesis
    using inv ss unfolding server_inv_def by (simp add: t(1-4,6,7) al)
qed

lemma done_signals_quiet:
  obtains es where "done_signals sid ss s = s\<lparr>sv_out := sv_out s @ es\<rparr>" and "quiet es"
proof -
  let ?es = "(case sv_sessions s sid of None \<Rightarrow> [] | Some ss \<Rightarrow> [StatusChanged sid (syncStatusToString (ss_syncStatus ss)) (ss_error ss)]) @
     (case connection_lock s sid of Some c \<Rightarrow> [ConnectionShutdown c] | None \<Rightarrow> []) @
     (if ss_setConfig ss then [ConfigChanged (ss_configName ss)] else []) @ [SessionDone sid (ss_error ss)] @
     (if ss_helper ss then [HelperStop sid SIGTERM, HelperStop sid SIGURG] else [])"
  show ?thesis
    by (rule that [of ?es])
      (auto simp: done_signals_def Let_def fireStatus_def emit_def stop_helper_def connection_lock_def quiet_def split: option.split)
qed

lemma alive_removeSyncSession [simp]: "alive (removeSyncSession sid s) = alive s"
  by (auto simp: removeSyncSession_def delaySessionDestruction_def alive_iff fun_eq_iff)

text \<open>All effects of the end of a session that the other proofs need.\<close>

definition session_closed :: "nat \<Rightarrow> server \<Rightarrow> server \<Rightarrow> bool" where
  "session_closed sid s t \<longleftrightarrow>
     (\<forall>ss. sv_sessions t sid = Some ss \<longrightarrow> ss_status ss = SESSION_DONE) \<and> alive t = alive s \<and>
     (\<forall>r. fst r \<noteq> Delayed \<longrightarrow> (r \<in> set (sv_refs t) \<longleftrightarrow> r \<in> set (sv_refs s))) \<and>
     sv_syncSession t \<noteq> Some sid \<and>
     (\<forall>i. sv_sessions t i = None \<longleftrightarrow> sv_sessions s i = None) \<and>
     sv_next t = sv_next s \<and> (server_progress s \<longrightarrow> server_progress t) \<and> (server_idle s \<longrightarrow> server_idle t)"

lemma server_inv_out: "activated es = [] \<Longrightarrow> server_inv X (s\<lparr>sv_out := sv_out s @ es\<rparr>) = server_inv X s"
  by (simp add: server_inv_def session_ok_def)

lemma server_inv_emit [simp]: "active_id e = [] \<Longrightarrow> server_inv X (emit e s) = server_inv X s"
  by (simp add: server_inv_def session_ok_def emit_def)

lemma emit_rest [simp]:
  "alive (emit e s) = alive s" "server_progress (emit e s) = server_progress s" "isIdle (emit e s) = isIdle s"
  "sv_sessions (emit e s) = sv_sessions s" "sv_refs (emit e s) = sv_refs s" "sv_next (emit e s) = sv_next s"
  "sv_syncSession (emit e s) = sv_syncSession s" "sv_activeSession (emit e s) = sv_activeSession s"
  "sv_activeSessionRef (emit e s) = sv_activeSessionRef s" "sv_workQueue (emit e s) = sv_workQueue s"
  "sv_shutdownRequested (emit e s) = sv_shutdownRequested s" "sv_shutdownTimer (emit e s) = sv_shutdownTimer s"
  "sv_lastFileMod (emit e s) = sv_lastFileMod s" "sv_clients (emit e s) = sv_clients s"
  "sv_quit (emit e s) = sv_quit s" "sv_restart (emit e s) = sv_restart s"
  "sv_out (emit e s) = sv_out s @ [e]"
  by (simp_all add: emit_def server_progress_def isIdle_def)

lemma removeSyncSession_rest [simp]:
  "sv_sessions (removeSyncSession sid s) = sv_sessions s" "sv_next (removeSyncSession sid s) = sv_next s"
  "sv_activeSession (removeSyncSession sid s) = sv_activeSession s"
  "sv_activeSessionRef (removeSyncSession sid s) = sv_activeSessionRef s"
  "sv_workQueue (removeSyncSession sid s) = sv_workQueue s"
  "sv_syncSession (removeSyncSession sid s) = (if sv_syncSession s = Some sid then None else sv_syncSession s)"
  "sv_shutdownRequested (removeSyncSession sid s) = sv_shutdownRequested s"
  "sv_shutdownTimer (removeSyncSession sid s) = sv_shutdownTimer s" "sv_quit (removeSyncSession sid s) = sv_quit s"
  "sv_restart (removeSyncSession sid s) = sv_restart s" "sv_out (removeSyncSession sid s) = sv_out s"
  "sv_refs (removeSyncSession sid s) = sv_refs s @ (if sv_syncSession s = Some sid then [(Delayed, sid)] else [])"
  by (simp_all add: removeSyncSession_def delaySessionDestruction_def)

lemma release_lock_rest [simp]:
  "sv_activeSession (release_lock now sid s) = None" "sv_activeSessionRef (release_lock now sid s) = None"
  "sv_sessions (release_lock now sid s) = sv_sessions s" "sv_refs (release_lock now sid s) = sv_refs s"
  "sv_next (release_lock now sid s) = sv_next s" "sv_syncSession (release_lock now sid s) = sv_syncSession s"
  "sv_workQueue (release_lock now sid s) = sv_workQueue s" "alive (release_lock now sid s) = alive s"
  "sv_shutdownRequested (release_lock now sid s) = sv_shutdownRequested s"
  "activated (sv_out (release_lock now sid s)) = activated (sv_out s)"
  "busy_count (sv_out (release_lock now sid s)) = busy_count (sv_out s)"
  by (auto simp: release_lock_def Let_def)

text \<open>The signal at the end of \<open>dequeue\<close> keeps the references of the idle signal in step.\<close>

lemma idle_signal:
  assumes "server_idle s" and "sv_shutdownRequested t = sv_shutdownRequested s"
    and "busy_count (sv_out t) = busy_count (sv_out s)" and "isIdle s \<longrightarrow> isIdle t"
  shows "server_idle (if \<not> isIdle s \<and> isIdle t then emit (IdleChange True) t else t)"
  using assms by (auto simp: server_idle_def)

lemma dequeue_closed:
  assumes inv: "server_inv X s" and ss: "sv_sessions s sid = Some ss" and d: "ss_status ss' = SESSION_DONE"
    and u: "u = s\<lparr>sv_sessions := (sv_sessions s)(sid \<mapsto> ss'), sv_out := sv_out s @ es\<rparr>" and es: "quiet es"
  shows "server_inv X (snd (dequeue now sid (removeSyncSession sid u)))"
    and "session_closed sid s (snd (dequeue now sid (removeSyncSession sid u)))"
proof -
  let ?r = "removeSyncSession sid u"
  define v where "v = ?r\<lparr>sv_workQueue := if alive s sid then remove1 sid (sv_workQueue s) else sv_workQueue s\<rparr>"
  have v: "sv_sessions v = (sv_sessions s)(sid \<mapsto> ss')" "sv_next v = sv_next s"
    "sv_activeSession v = sv_activeSession s" "sv_activeSessionRef v = sv_activeSessionRef s"
    "sv_workQueue v = (if alive s sid then remove1 sid (sv_workQueue s) else sv_workQueue s)"
    "sv_syncSession v = (if sv_syncSession s = Some sid then None else sv_syncSession s)"
    "alive v = alive s" "sv_shutdownRequested v = sv_shutdownRequested s"
    "sv_shutdownTimer v = sv_shutdownTimer s" "sv_quit v = sv_quit s" "sv_restart v = sv_restart s"
    "activated (sv_out v) = activated (sv_out s)" "busy_count (sv_out v) = busy_count (sv_out s)"
    "\<forall>r. fst r \<noteq> Delayed \<longrightarrow> (r \<in> set (sv_refs v) \<longleftrightarrow> r \<in> set (sv_refs s))"
    using es by (simp_all add: v_def u quiet_def)
  have idle: "isIdle ?r = isIdle s"
    by (simp add: isIdle_def u)
  let ?f = "\<lambda>t. if \<not> isIdle s \<and> isIdle t then emit (IdleChange True) t else t"
  have d: "dequeue now sid ?r =
     andThen (if sv_activeSession s = Some sid then checkQueue (release_lock now sid v) else return v) (\<lambda>t. return (?f t))"
  proof -
    have "(if alive ?r sid then ?r\<lparr>sv_workQueue := remove1 sid (sv_workQueue ?r)\<rparr> else ?r) = v"
      by (simp add: v_def u)
    moreover have "sv_syncSession ?r \<noteq> Some sid"
      by simp
    ultimately show ?thesis
      by (simp add: dequeue_def Let_def idle v(3))
  qed
  have f: "server_inv X (?f t)" "server_progress (?f t) = server_progress t"
    "sv_sessions (?f t) = sv_sessions t" "sv_refs (?f t) = sv_refs t" "sv_next (?f t) = sv_next t"
    "sv_syncSession (?f t) = sv_syncSession t" "alive (?f t) = alive t" if "server_inv X t" for t
    using that by simp_all
  have closed: "session_closed sid s (?f t)"
    if t: "server_inv X t" "server_progress s \<longrightarrow> server_progress t" "sv_sessions t sid = Some ss'"
      "\<forall>i. sv_sessions t i = None \<longleftrightarrow> sv_sessions v i = None" "sv_refs t = sv_refs v" "sv_next t = sv_next v"
      "sv_syncSession t = sv_syncSession v" "sv_shutdownRequested t = sv_shutdownRequested s"
      "busy_count (sv_out t) = busy_count (sv_out s)" "isIdle s \<longrightarrow> isIdle t" for t
    unfolding session_closed_def f [OF t(1)]
    using t idle_signal [OF _ t(8-10)] alive_cong [OF t(5,7)] v assms(3) ss by auto
  show "server_inv X (snd (dequeue now sid ?r))" "session_closed sid s (snd (dequeue now sid ?r))"
    unfolding d
  proof (atomize (full), cases "sv_activeSession s = Some sid")
    case True
    have "server_inv X (release_lock now sid v)"
      by (rule close_inv [OF inv ss assms(3)]) (use True v in auto)
    then obtain t where t: "checkQueue (release_lock now sid v) = (None, t)" "server_inv X t"
      "queue_step (release_lock now sid v) t" "server_progress t"
      by (rule checkQueue_inv) auto
    have "session_closed sid s (?f t)"
      by (rule closed) (use t True v assms(3) in \<open>auto simp: queue_step_def isIdle_def\<close>)
    then show "server_inv X (snd (andThen (if sv_activeSession s = Some sid then checkQueue (release_lock now sid v) else return v) (\<lambda>t. return (?f t)))) \<and>
      session_closed sid s (snd (andThen (if sv_activeSession s = Some sid then checkQueue (release_lock now sid v) else return v) (\<lambda>t. return (?f t))))"
      using True t f by simp
  next
    case False
    have i: "server_inv X v"
      by (rule close_inv [OF inv ss assms(3)]) (use False v inv in \<open>auto simp: server_inv_def\<close>)
    have "session_closed sid s (?f v)"
      by (rule closed [OF i]) (use v False in \<open>auto simp: isIdle_def server_progress_def\<close>)
    then show "server_inv X (snd (andThen (if sv_activeSession s = Some sid then checkQueue (release_lock now sid v) else return v) (\<lambda>t. return (?f t)))) \<and>
      session_closed sid s (snd (andThen (if sv_activeSession s = Some sid then checkQueue (release_lock now sid v) else return v) (\<lambda>t. return (?f t))))"
      using False i f by simp
  qed
qed

lemma doneCb_inv:
  assumes inv: "server_inv X s"
  shows "server_inv X (doneCb sc now success sid s)" and "session_closed sid s (doneCb sc now success sid s)"
proof (atomize (full), cases "sv_sessions s sid")
  case None
  then have "sv_syncSession s \<noteq> Some sid"
    using inv by (auto simp: server_inv_def alive_iff)
  then show "server_inv X (doneCb sc now success sid s) \<and> session_closed sid s (doneCb sc now success sid s)"
    using None inv by (simp add: doneCb_def session_closed_def)
next
  case (Some ss)
  show "server_inv X (doneCb sc now success sid s) \<and> session_closed sid s (doneCb sc now success sid s)"
  proof (cases "ss_status ss = SESSION_DONE")
    case True
    then have "sv_syncSession s \<noteq> Some sid"
      using inv Some by (auto simp: server_inv_def session_ok_def)
    then show ?thesis
      using True Some inv by (simp add: doneCb_def session_closed_def)
  next
    case False
    let ?ss = "mark_done sc success ss"
    let ?s = "with_session sid (mark_done sc success) s"
    obtain es where es: "done_signals sid ?ss ?s = ?s\<lparr>sv_out := sv_out ?s @ es\<rparr>" "quiet es"
      by (rule done_signals_quiet)
    have u: "done_signals sid ?ss ?s = s\<lparr>sv_sessions := (sv_sessions s)(sid \<mapsto> ?ss), sv_out := sv_out s @ es\<rparr>"
      unfolding es(1) using Some by (simp add: with_session_def)
    have d: "ss_status ?ss = SESSION_DONE"
      by (simp add: mark_done_def)
    show ?thesis
      using dequeue_closed [OF inv Some d u es(2)] Some False by (simp add: doneCb_def Let_def)
  qed
qed

definition server_ok :: "server \<Rightarrow> bool" where
  "server_ok s \<longleftrightarrow> server_inv {} s \<and> server_progress s \<and> server_idle s"

lemma session_step_ok: "session_step sid s t \<Longrightarrow> server_ok s \<Longrightarrow> server_ok t"
  by (simp add: server_ok_def session_step_inv session_step_rest)

lemma doneCb_ok: "server_ok s \<Longrightarrow> server_ok (doneCb sc now success sid s)"
  using doneCb_inv [of "{}" s] by (simp add: server_ok_def session_closed_def)

lemma failureCb_ok: "server_ok s \<Longrightarrow> server_ok (failureCb sc now error sid s)"
  by (auto simp: failureCb_def set_error_def same_life_def split: option.split
      intro!: doneCb_ok session_step_ok [OF session_step_with_session])

text \<open>References are dropped.\<close>

lemma server_inv_unref:
  assumes inv: "server_inv {} s" and t: "t = s\<lparr>sv_refs := r\<rparr>"
    and al: "\<And>i. alive t i \<Longrightarrow> alive s i" "\<And>i. alive s i \<Longrightarrow> \<not> alive t i \<Longrightarrow> i \<in> X"
  shows "server_inv X t"
proof -
  have "subseq (filter (alive t) q) (filter (alive s) q)" for q
    using al(1) by (induction q) auto
  then have "subseq (activated (sv_out t) @ filter (alive t) (sv_workQueue t)) (activated (sv_out s) @ filter (alive s) (sv_workQueue s))"
    by (simp add: t subseq_append')
  then have "sorted_wrt (<) (activated (sv_out t) @ filter (alive t) (sv_workQueue t))"
    by (rule sorted_wrt_subseq) (use inv in \<open>simp add: server_inv_def\<close>)
  moreover have "session_ok t i ss" if "session_ok s i ss" for i ss
    using that al(1) by (auto simp: session_ok_def t)
  ultimately show ?thesis
    using inv al unfolding server_inv_def t by auto
qed

lemma Session_destruct_inv:
  assumes inv: "server_inv {sid} s" and dead: "\<not> alive s sid"
  shows "server_inv {} (Session_destruct sc now sid s)"
proof -
  let ?t = "doneCb sc now False sid s"
  have t: "server_inv {sid} ?t" "session_closed sid s ?t"
    using doneCb_inv [OF inv] by auto
  have "sv_activeSession ?t \<noteq> Some sid"
    using server_inv_active [OF t(1)] t(2) by (auto simp: session_closed_def)
  moreover have "\<not> alive ?t sid"
    using t(2) dead by (simp add: session_closed_def)
  moreover have "session_ok (?t\<lparr>sv_sessions := ses\<rparr>) i ss = session_ok ?t i ss" for ses i ss
    by (simp add: session_ok_def)
  ultimately show ?thesis
    using t(1) unfolding server_inv_def Session_destruct_def Let_def by (auto split: if_splits)
qed

lemma unref_session_ok:
  assumes ok: "server_ok s"
  shows "server_ok (unref_session sc now owner sid s)"
proof -
  let ?t = "s\<lparr>sv_refs := remove1 (owner, sid) (sv_refs s)\<rparr>"
  have sub: "alive s i" if "alive ?t i" for i
    using that set_remove1_subset [of "(owner, sid)" "sv_refs s"] by (auto simp: alive_iff)
  have other: "alive ?t i" if "alive s i" "i \<noteq> sid" for i
    using that by (auto simp: alive_iff image_iff in_set_remove1)
  have p: "server_progress ?t" "server_idle ?t"
    using ok by (simp_all add: server_ok_def)
  show ?thesis
  proof (cases "alive ?t sid")
    case True
    have "server_inv {} ?t"
      by (rule server_inv_unref [OF _ refl]) (use ok sub other True in \<open>auto simp: server_ok_def\<close>)
    then show ?thesis
      using True p by (simp add: unref_session_def server_ok_def)
  next
    case False
    have inv: "server_inv {sid} ?t"
      by (rule server_inv_unref [OF _ refl]) (use ok sub other False in \<open>auto simp: server_ok_def\<close>)
    have "session_closed sid ?t (doneCb sc now False sid ?t)"
      by (rule doneCb_inv [OF inv])
    then have "server_progress (Session_destruct sc now sid ?t)" "server_idle (Session_destruct sc now sid ?t)"
      using p by (simp_all add: Session_destruct_def Let_def session_closed_def)
    then show ?thesis
      using False Session_destruct_inv [OF inv False] by (simp add: unref_session_def server_ok_def)
  qed
qed

lemma Client_detach_ok:
  assumes ok: "server_ok s"
  shows "server_ok (snd (Client_detach sc now client sid s))"
proof (cases "(Client client, sid) \<in> set (sv_refs s)")
  case True
  then have "sid \<in> snd ` set (sv_refs s)"
    by force
  then have al: "alive (delaySessionDestruction sid s) i = alive s i" for i
    by (auto simp: delaySessionDestruction_def alive_iff)
  have "server_inv {} (delaySessionDestruction sid s)"
    by (rule server_inv_unref [OF _ delaySessionDestruction_def]) (use ok in \<open>simp_all add: al server_ok_def\<close>)
  then have "server_ok (delaySessionDestruction sid s)"
    using ok by (simp add: server_ok_def delaySessionDestruction_def)
  then show ?thesis
    using True ok by (simp add: Client_detach_def unref_session_ok doneCb_ok)
qed (use ok in \<open>simp add: Client_detach_def\<close>)

lemma clientGone_ok:
  assumes "server_ok s"
  shows "server_ok (clientGone sc now client s)"
proof -
  have "server_ok (fold (\<lambda>sid s. snd (Client_detach sc now client sid s)) sids t)" if "server_ok t" for sids t
    using that by (induction sids arbitrary: t) (simp_all add: Client_detach_ok)
  then show ?thesis
    using assms by (simp add: clientGone_def server_ok_def)
qed

subsection \<open>New sessions\<close>

lemma createSession_inv:
  assumes inv: "server_inv {} s" and ss: "ss_status ss = SESSION_IDLE" "ss_runOperation ss = OP_NULL"
  shows "server_inv {} (createSession owner ss s)"
proof -
  let ?t = "createSession owner ss s"
  have al: "alive ?t i \<longleftrightarrow> alive s i \<or> i = sv_next s" for i
    by (auto simp: createSession_def alive_iff)
  have dead: "sv_sessions s (sv_next s) = None"
    using server_inv_session [OF inv, of "sv_next s"] by (cases "sv_sessions s (sv_next s)") auto
  then have "\<not> alive s (sv_next s)" and q: "sv_next s \<notin> set (sv_workQueue s)"
    using inv by (auto simp: server_inv_def)
  then have fresh: "sv_activeSession s \<noteq> Some (sv_next s)" "sv_syncSession s \<noteq> Some (sv_next s)"
    "sv_next s \<notin> set (sv_workQueue s)"
    using server_inv_active [OF inv, of "sv_next s"] dead by (auto simp: alive_iff)
  have "filter (alive ?t) (sv_workQueue s) = filter (alive s) (sv_workQueue s)"
    by (rule filter_cong) (use fresh al in auto)
  moreover have "session_ok ?t i si" if "sv_sessions ?t i = Some si" for i si
  proof (cases "i = sv_next s")
    case True
    then show ?thesis
      using that ss fresh by (auto simp: session_ok_def createSession_def)
  next
    case False
    then show ?thesis
      using that server_inv_session [OF inv, of i si] al by (auto simp: session_ok_def createSession_def)
  qed
  ultimately show ?thesis
    using inv al dead unfolding server_inv_def by (auto simp: createSession_def split: if_splits intro: less_SucI)
qed

text \<open>A session can be put into the queue when it is newer than all others that were there before.\<close>

definition newest :: "nat \<Rightarrow> server \<Rightarrow> bool" where
  "newest sid s \<longleftrightarrow> alive s sid \<and> sid < sv_next s \<and>
     (\<exists>ss. sv_sessions s sid = Some ss \<and> ss_status ss = SESSION_IDLE) \<and>
     (\<forall>i\<in>set (sv_workQueue s) \<union> set (activated (sv_out s)). i < sid)"

lemma enqueue_ok:
  assumes inv: "server_inv {} s" and idle: "server_idle s" and new: "newest sid s"
  shows "fst (enqueue sid s) = None" and "server_ok (snd (enqueue sid s))" and "sv_refs (snd (enqueue sid s)) = sv_refs s"
    and "\<not> isIdle (snd (enqueue sid s))"
proof -
  let ?q = "rev (insert_from_end s sid (rev (sv_workQueue s)))"
  let ?s = "s\<lparr>sv_workQueue := ?q\<rparr>"
  have al: "alive s sid"
    using new by (simp add: newest_def)
  have fifo: "filter (alive s) ?q = filter (alive s) (sv_workQueue s) @ [sid]"
    using al by (rule insert_from_end_fifo)
  have setq: "set ?q = insert sid (set (sv_workQueue s))"
    by (simp add: insert_from_end_set)
  have "session_ok ?s i ss" if "sv_sessions s i = Some ss" for i ss
    using server_inv_session [OF inv that] new that setq by (auto simp: session_ok_def newest_def)
  moreover have "sorted_wrt (<) (activated (sv_out s) @ filter (alive s) ?q)"
    using inv new unfolding fifo by (auto simp: server_inv_def newest_def sorted_wrt_append)
  ultimately have "server_inv {} ?s"
    using inv new unfolding server_inv_def by (simp add: insert_from_end_set newest_def)
  then obtain t where c: "checkQueue ?s = (None, t)" and t: "server_inv {} t" "queue_step ?s t"
    and p: "sv_activeSession ?s \<noteq> None \<Longrightarrow> t = ?s" "sv_activeSession ?s = None \<Longrightarrow> server_progress t"
    and i: "isIdle t \<longleftrightarrow> sv_activeSession ?s = None \<and>
       (if sv_shutdownRequested ?s then sv_workQueue ?s = [] else filter (alive ?s) (sv_workQueue ?s) = [])"
    using checkQueue_inv [of "{}" ?s thesis] by blast
  have "server_progress t"
    using p by (cases "sv_activeSession s") (auto simp: server_progress_def)
  moreover have n: "\<not> isIdle t"
    using i fifo setq by auto
  then have "server_idle (if isIdle s then emit (IdleChange False) t else t)"
    using idle t(2) by (auto simp: server_idle_def queue_step_def)
  ultimately show "fst (enqueue sid s) = None" and "server_ok (snd (enqueue sid s))" and "sv_refs (snd (enqueue sid s)) = sv_refs s"
    and "\<not> isIdle (snd (enqueue sid s))"
    using c t n by (simp_all add: enqueue_def server_ok_def queue_step_def)
qed

lemma createSession_newest:
  assumes inv: "server_inv {} s" and ss: "ss_status ss = SESSION_IDLE"
  shows "newest (sv_next s) (createSession owner ss s)"
  using inv ss by (auto simp: newest_def server_inv_def createSession_def alive_iff)

lemma start_session_ok:
  assumes ok: "server_ok s" and ss: "ss_status ss = SESSION_IDLE" "ss_runOperation ss = OP_NULL"
  shows "fst (enqueue (sv_next s) (createSession owner ss s)) = None"
    and "server_ok (snd (enqueue (sv_next s) (createSession owner ss s)))"
    and "sv_refs (snd (enqueue (sv_next s) (createSession owner ss s))) = sv_refs s @ [(owner, sv_next s)]"
    and "\<not> isIdle (snd (enqueue (sv_next s) (createSession owner ss s)))"
proof -
  have inv: "server_inv {} s" and idle: "server_idle (createSession owner ss s)"
    using ok by (auto simp: server_ok_def createSession_def)
  note e = enqueue_ok [OF createSession_inv [OF inv ss] idle createSession_newest [OF inv ss(1)]]
  show "fst (enqueue (sv_next s) (createSession owner ss s)) = None"
    and "server_ok (snd (enqueue (sv_next s) (createSession owner ss s)))"
    and "sv_refs (snd (enqueue (sv_next s) (createSession owner ss s))) = sv_refs s @ [(owner, sv_next s)]"
    and "\<not> isIdle (snd (enqueue (sv_next s) (createSession owner ss s)))"
    using e by (auto simp: createSession_def)
qed

lemma Session_idle [simp]: "ss_status (Session dev config flags) = SESSION_IDLE" "ss_runOperation (Session dev config flags) = OP_NULL"
  by (simp_all add: Session_def)

lemma addClient_ok: "server_ok s \<Longrightarrow> server_ok (addClient client s)"
  by (simp add: addClient_def server_ok_def)

text \<open>Removing sessions of a peer from the queue.\<close>

lemma kill_loop_spec:
  "\<exists>es. snd (kill_loop peer q s) = s\<lparr>sv_out := sv_out s @ es\<rparr> \<and> quiet es \<and> subseq (fst (kill_loop peer q s)) q"
proof (induction peer q s rule: kill_loop.induct)
  case (1 peer s)
  show ?case
    by (intro exI [of _ "[]"]) simp
next
  case (2 peer it queue s)
  let ?kill = "alive s it \<and> map_option ss_peerDeviceID (sv_sessions s it) = Some peer"
  let ?e = "case connection_lock s it of Some c \<Rightarrow> [ConnectionShutdown c] | None \<Rightarrow> []"
  show ?case
  proof (cases ?kill)
    case True
    have s: "(case connection_lock s it of Some c \<Rightarrow> emit (ConnectionShutdown c) s | None \<Rightarrow> s) = s\<lparr>sv_out := sv_out s @ ?e\<rparr>"
      by (simp add: emit_def split: option.split)
    obtain es where es: "snd (kill_loop peer queue (s\<lparr>sv_out := sv_out s @ ?e\<rparr>)) = s\<lparr>sv_out := sv_out s @ ?e @ es\<rparr>" "quiet es"
      "subseq (fst (kill_loop peer queue (s\<lparr>sv_out := sv_out s @ ?e\<rparr>))) queue"
      using "2.IH"(1) [OF True] unfolding s by auto
    have "quiet (?e @ es)"
      using es(2) by (auto simp: quiet_def split: option.split)
    then show ?thesis
      using True es(1,3) by (intro exI [of _ "?e @ es"]) (auto simp: s)
  next
    case False
    then show ?thesis
      using "2.IH"(2) [OF False] by (auto simp: case_prod_beta Let_def)
  qed
qed

lemma killSessionsAsync_spec:
  obtains es q where "killSessionsAsync peer s = s\<lparr>sv_workQueue := q, sv_out := sv_out s @ es\<rparr>"
    and "quiet es" and "subseq q (sv_workQueue s)"
proof -
  let ?k = "kill_loop peer (sv_workQueue s) s"
  obtain es where k: "snd ?k = s\<lparr>sv_out := sv_out s @ es\<rparr>" "quiet es" "subseq (fst ?k) (sv_workQueue s)"
    using kill_loop_spec [of peer "sv_workQueue s" s] by blast
  let ?t = "s\<lparr>sv_out := sv_out s @ es, sv_workQueue := fst ?k\<rparr>"
  have a: "killSessionsAsync peer s = ?t \<or> (\<exists>i. killSessionsAsync peer s = emit (HelperStop i SIGTERM) ?t)"
    by (auto simp: killSessionsAsync_def k(1) case_prod_beta Let_def abortAsync_def stop_helper_def split: option.splits)
  then show ?thesis
  proof
    assume "killSessionsAsync peer s = ?t"
    then show ?thesis
      by (intro that [of es "fst ?k"]) (use k in simp_all)
  next
    assume "\<exists>i. killSessionsAsync peer s = emit (HelperStop i SIGTERM) ?t"
    then obtain i where "killSessionsAsync peer s = emit (HelperStop i SIGTERM) ?t" by blast
    then show ?thesis
      by (intro that [of "es @ [HelperStop i SIGTERM]" "fst ?k"]) (use k in \<open>auto simp: emit_def quiet_def\<close>)
  qed
qed

lemma killSessionsAsync_ok:
  assumes ok: "server_inv {} s" "server_idle s" and p: "server_progress s"
  shows "server_ok (killSessionsAsync peer s)"
proof -
  obtain es q where k: "killSessionsAsync peer s = s\<lparr>sv_workQueue := q, sv_out := sv_out s @ es\<rparr>" "quiet es"
    "subseq q (sv_workQueue s)"
    by (rule killSessionsAsync_spec)
  have "server_inv {} (s\<lparr>sv_workQueue := q\<rparr>)"
    by (rule server_inv_shrink [OF ok(1) k(3)])
  then have "server_inv {} (killSessionsAsync peer s)"
    using k(2) server_inv_out [of es "{}" "s\<lparr>sv_workQueue := q\<rparr>"] by (simp add: k(1) quiet_def)
  moreover have q: "sv_workQueue s = [] \<Longrightarrow> q = []"
    using k(3) by simp
  then have "server_progress (killSessionsAsync peer s)"
    using p by (auto simp: k(1) server_progress_def)
  moreover have "isIdle (killSessionsAsync peer s) = isIdle s" if "\<not> sv_shutdownRequested s"
  proof (cases "sv_activeSession s")
    case None
    then have "sv_workQueue s = []"
      using p that by (simp add: server_progress_def)
    then show ?thesis
      using q None by (simp add: k(1) isIdle_def)
  qed (simp add: k(1) isIdle_def)
  then have "server_idle (killSessionsAsync peer s)"
    using ok(2) k(2) by (auto simp: k(1) server_idle_def quiet_def split: if_splits)
  ultimately show ?thesis
    by (simp add: server_ok_def)
qed

lemma startConnectionSession_ok:
  assumes ok: "server_ok s"
  shows "fst (startConnectionSession c peer config s) = None" and "server_ok (snd (startConnectionSession c peer config s))"
    and "sv_refs (snd (startConnectionSession c peer config s)) = sv_refs s @ [(Connection c, sv_next s)]"
proof -
  let ?ss = "(Session peer config [])\<lparr>ss_priority := PRI_CONNECTION, ss_connection := Some c\<rparr>"
  let ?c = "createSession (Connection c) ?ss s"
  let ?k = "if peer \<noteq> [] then killSessionsAsync peer ?c else ?c"
  have c: "server_inv {} ?c" "server_idle ?c" "server_progress ?c" "newest (sv_next s) ?c"
    using ok createSession_inv [of s ?ss] createSession_newest [of s ?ss]
    by (auto simp: server_ok_def createSession_def)
  have "server_inv {} ?k \<and> server_idle ?k"
    using c killSessionsAsync_ok [of ?c peer] by (cases "peer = []") (simp_all add: server_ok_def)
  moreover have "newest (sv_next s) ?k"
  proof -
    obtain es q where "killSessionsAsync peer ?c = ?c\<lparr>sv_workQueue := q, sv_out := sv_out ?c @ es\<rparr>" "quiet es"
      "subseq q (sv_workQueue ?c)"
      by (rule killSessionsAsync_spec)
    then show ?thesis
      using c(4) by (auto simp: newest_def quiet_def dest!: subseq_set_subset)
  qed
  ultimately have "fst (enqueue (sv_next s) ?k) = None" "server_ok (snd (enqueue (sv_next s) ?k))"
    "sv_refs (snd (enqueue (sv_next s) ?k)) = sv_refs ?k"
    using enqueue_ok [of ?k "sv_next s"] by auto
  moreover have "sv_refs ?k = sv_refs ?c"
    by (rule killSessionsAsync_spec [of peer ?c]) auto
  moreover have "sv_refs ?c = sv_refs s @ [(Connection c, sv_next s)]"
    by (simp add: createSession_def)
  ultimately show "fst (startConnectionSession c peer config s) = None" and "server_ok (snd (startConnectionSession c peer config s))"
    and "sv_refs (snd (startConnectionSession c peer config s)) = sv_refs s @ [(Connection c, sv_next s)]"
    unfolding startConnectionSession_def Let_def by simp_all
qed

subsection \<open>Operations\<close>

lemma start_operation_active:
  assumes inv: "server_inv {} s" and ss: "sv_sessions s sid = Some ss" and st: "ss_status ss = SESSION_ACTIVE"
  obtains es where "start_operation op sid s =
     (None, s\<lparr>sv_syncSession := Some sid,
        sv_sessions := (sv_sessions s)(sid \<mapsto> ss\<lparr>ss_runOperation := op, ss_status := SESSION_RUNNING,
                                            ss_syncStatus := SYNC_RUNNING, ss_helper := True\<rparr>),
        sv_out := sv_out s @ es\<rparr>)" and "quiet es"
proof -
  have ok: "session_ok s sid ss"
    using server_inv_session [OF inv ss] by simp
  then have a: "sv_activeSession s = Some sid" and op: "ss_runOperation ss = OP_NULL"
    using st by (auto simp: session_ok_def)
  have al: "alive s sid" and ref: "sv_activeSessionRef s = Some sid"
    using inv ss a by (auto simp: server_inv_def)
  have sync: "sv_syncSession s = None"
  proof (rule ccontr)
    assume "sv_syncSession s \<noteq> None"
    then obtain j where j: "sv_syncSession s = Some j" by auto
    then obtain sj where "sv_sessions s j = Some sj"
      using inv by (auto simp: server_inv_def alive_iff)
    then have "j = sid"
      using server_inv_session [OF inv] j a by (auto simp: session_ok_def)
    then show False
      using ok st j by (simp add: session_ok_def)
  qed
  let ?es = "[NewSyncSession (Some sid), StatusChanged sid ''running'' (ss_error ss), HelperStart sid]"
  show ?thesis
    by (rule that [of ?es])
      (use ss st op sync ref al in \<open>auto simp: start_operation_def runOperationAsync_def addSyncSession_def lock_def Let_def
        with_session_def fireStatus_def emit_def quiet_def\<close>)
qed

lemma start_operation_error:
  "sv_sessions s sid = Some ss \<Longrightarrow> ss_status ss \<noteq> SESSION_ACTIVE \<Longrightarrow>
   start_operation op sid s =
     throw (if ss_runOperation ss \<noteq> OP_NULL then Throw (started_message op (ss_runOperation ss))
            else Throw ''session is not active, call not allowed at this time'') s"
  by (simp add: start_operation_def)

lemma start_operation_ok:
  assumes ok: "server_ok s" and op: "op \<noteq> OP_NULL"
  shows "server_ok (snd (start_operation op sid s))"
proof (cases "\<exists>ss. sv_sessions s sid = Some ss \<and> ss_status ss = SESSION_ACTIVE")
  case False
  then show ?thesis
    using ok by (cases "sv_sessions s sid") (auto simp: start_operation_def)
next
  case True
  then obtain ss where ss: "sv_sessions s sid = Some ss" "ss_status ss = SESSION_ACTIVE" by auto
  have inv: "server_inv {} s"
    using ok by (simp add: server_ok_def)
  let ?ss = "ss\<lparr>ss_runOperation := op, ss_status := SESSION_RUNNING, ss_syncStatus := SYNC_RUNNING, ss_helper := True\<rparr>"
  obtain es where r: "start_operation op sid s =
     (None, s\<lparr>sv_syncSession := Some sid, sv_sessions := (sv_sessions s)(sid \<mapsto> ?ss), sv_out := sv_out s @ es\<rparr>)" "quiet es"
    by (rule start_operation_active [OF inv ss])
  let ?t = "s\<lparr>sv_syncSession := Some sid, sv_sessions := (sv_sessions s)(sid \<mapsto> ?ss), sv_out := sv_out s @ es\<rparr>"
  have o: "session_ok s sid ss" and al': "alive s sid"
    using inv ss(1) unfolding server_inv_def by auto
  have a: "sv_activeSession s = Some sid"
    using o ss(2) by (simp add: session_ok_def)
  have sync: "j = sid" if j: "sv_syncSession s = Some j" for j
  proof -
    obtain sj where "sv_sessions s j = Some sj"
      using inv j by (auto simp: server_inv_def alive_iff)
    then show ?thesis
      using server_inv_session [OF inv] j a by (auto simp: session_ok_def)
  qed
  have al: "alive (s\<lparr>sv_syncSession := Some sid\<rparr>) = alive s"
    using al' sync by (auto simp: alive_iff fun_eq_iff)
  have "session_ok ?t j sj" if h: "sv_sessions ?t j = Some sj" for j sj
  proof (cases "j = sid")
    case True
    then show ?thesis
      using h a o op al' by (auto simp: session_ok_def al ss(2))
  next
    case False
    then show ?thesis
      using h server_inv_session [OF inv, of j sj] sync by (auto simp: session_ok_def al)
  qed
  then have "server_inv {} ?t"
    using inv ss(1) r(2) unfolding server_inv_def by (auto simp: al quiet_def split: if_splits)
  moreover have "server_progress ?t" "server_idle ?t"
    using ok r(2) by (auto simp: server_ok_def server_progress_def server_idle_def isIdle_def quiet_def)
  ultimately show ?thesis
    by (simp add: r(1) server_ok_def)
qed

lemma Session_abort_step: "session_step sid s (snd (Session_abort sid s))"
  by (auto simp: Session_abort_def Let_def stop_helper_def same_life_def split: option.split
      intro!: session_step_trans [OF _ session_step_fireStatus] session_step_trans [OF _ session_step_with_session]
        session_step_trans [OF _ session_step_emit] session_step_with_session session_step_fireStatus session_step_emit)

lemma Session_suspend_step: "session_step sid s (snd (Session_suspend sid s))"
  by (auto simp: Session_suspend_def Let_def stop_helper_def same_life_def split: option.split
      intro!: session_step_trans [OF _ session_step_fireStatus] session_step_trans [OF _ session_step_with_session]
        session_step_trans [OF _ session_step_emit] session_step_with_session session_step_fireStatus session_step_emit)

lemma setNamedConfig_step: "session_step sid s (snd (setNamedConfig outcome config temporary sid s))"
  by (auto simp: setNamedConfig_def same_life_def split: option.split intro!: session_step_with_session)

lemma onQuit_step: "session_step sid s (onQuit sc expected sid s)"
  by (auto simp: onQuit_def same_life_def set_error_def split: option.split intro!: session_step_with_session)

lemma Session_attach_ok:
  assumes ok: "server_ok s"
  shows "server_ok (snd (Session_attach client sid s))"
proof (cases "alive s sid")
  case True
  let ?t = "s\<lparr>sv_refs := sv_refs s @ [(Client client, sid)]\<rparr>"
  have al: "alive ?t i = alive s i" for i
    using True by (auto simp: alive_iff)
  have "server_inv {} ?t"
    by (rule server_inv_unref [OF _ refl]) (use ok in \<open>simp_all add: al server_ok_def\<close>)
  then show ?thesis
    using ok by (simp add: Session_attach_def server_ok_def)
qed (use ok in \<open>simp add: Session_attach_def\<close>)

text \<open>Every call keeps the invariants.\<close>

lemma server_do_ok: "server_ok s \<Longrightarrow> server_ok (snd (server_do sc call s))"
proof (induction call)
  case (Start_Session client config flags)
  then show ?case
    using start_session_ok(2) [OF addClient_ok [OF Start_Session]]
    by (simp add: startSessionWithFlags_def Let_def)
next
  case (Start_Operation op sid)
  then show ?case
    using start_operation_ok [OF Start_Operation] by (cases op) (simp_all add: syncExtended_def restore_data_def execute_def)
next
  case (Kill_Sessions peer)
  then have "server_ok (killSessionsAsync peer s)"
    by (intro killSessionsAsync_ok) (simp_all add: server_ok_def)
  then show ?case
    by simp
next
  case (Helper_Reply now success error sid)
  then show ?case
    by (cases error) (simp_all add: dbusResultCb_def doneCb_ok failureCb_ok)
next
  case (File_Modified now)
  then show ?case
    by (auto simp: fileModified_def Let_def server_ok_def server_progress_def server_idle_def)
next
  case (Shutdown_Timer autosync)
  then show ?case
    by (auto simp: Server_shutdown_def Let_def server_ok_def server_progress_def server_idle_def isIdle_def)
next
  case Request_Shutdown
  then show ?case
    by (auto simp: request_shutdown_def server_ok_def server_progress_def server_idle_def)
qed (simp_all add: startInternalSession_def startAutoSession_def start_session_ok(2) startConnectionSession_ok(2)
      Session_attach_ok Session_detach_def Client_detach_ok clientGone_ok killSessionsAsync_ok doneCb_ok unref_session_ok
      session_step_ok [OF setNamedConfig_step] session_step_ok [OF Session_abort_step]
      session_step_ok [OF Session_suspend_step] session_step_ok [OF onQuit_step])

text \<open>The references of the automatic sync are dropped only by itself.\<close>

definition keeps_auto :: "server \<Rightarrow> server \<Rightarrow> bool" where
  "keeps_auto s t \<longleftrightarrow> (\<forall>i. (AutoSync, i) \<in> set (sv_refs s) \<longrightarrow> (AutoSync, i) \<in> set (sv_refs t))"

lemma keeps_auto_eq: "sv_refs t = sv_refs s \<Longrightarrow> keeps_auto s t"
  by (simp add: keeps_auto_def)

lemma keeps_auto_append: "sv_refs t = sv_refs s @ r \<Longrightarrow> keeps_auto s t"
  by (simp add: keeps_auto_def)

lemma keeps_auto_trans: "keeps_auto s t \<Longrightarrow> keeps_auto t u \<Longrightarrow> keeps_auto s u"
  by (simp add: keeps_auto_def)

lemma doneCb_auto: "server_inv X s \<Longrightarrow> keeps_auto s (doneCb sc now success sid s)"
  using doneCb_inv(2) [of X s] by (simp add: session_closed_def keeps_auto_def)

lemma unref_session_auto:
  assumes ok: "server_ok s" and o: "owner \<noteq> AutoSync"
  shows "keeps_auto s (unref_session sc now owner sid s)"
proof -
  let ?t = "s\<lparr>sv_refs := remove1 (owner, sid) (sv_refs s)\<rparr>"
  have "server_inv {sid} ?t"
  proof (rule server_inv_unref [OF _ refl])
    show "server_inv {} s"
      using ok by (simp add: server_ok_def)
    show "alive s i" if "alive ?t i" for i
      using that set_remove1_subset [of "(owner, sid)" "sv_refs s"] by (auto simp: alive_iff)
    have other: "alive ?t i" if "alive s i" "i \<noteq> sid" for i
      using that by (auto simp: alive_iff image_iff in_set_remove1)
    show "i \<in> {sid}" if "alive s i" "\<not> alive ?t i" for i
      using that other by auto
  qed
  then have "keeps_auto ?t (Session_destruct sc now sid ?t)"
    using doneCb_auto [of "{sid}" ?t] by (simp add: Session_destruct_def Let_def keeps_auto_def)
  moreover have "keeps_auto s ?t"
    using o by (simp add: keeps_auto_def in_set_remove1)
  ultimately show ?thesis
    by (auto simp: unref_session_def Let_def keeps_auto_def)
qed

lemma Client_detach_auto:
  assumes ok: "server_ok s"
  shows "keeps_auto s (snd (Client_detach sc now client sid s))"
proof (cases "(Client client, sid) \<in> set (sv_refs s)")
  case True
  then have "sid \<in> snd ` set (sv_refs s)"
    by force
  then have al: "alive (delaySessionDestruction sid s) i = alive s i" for i
    by (auto simp: delaySessionDestruction_def alive_iff)
  have "server_inv {} (delaySessionDestruction sid s)"
    by (rule server_inv_unref [OF _ delaySessionDestruction_def]) (use ok in \<open>simp_all add: al server_ok_def\<close>)
  moreover from this have d: "server_ok (delaySessionDestruction sid s)"
    using ok by (simp add: server_ok_def delaySessionDestruction_def)
  moreover have "keeps_auto s (delaySessionDestruction sid s)"
    by (simp add: keeps_auto_def delaySessionDestruction_def)
  ultimately have "keeps_auto s (doneCb sc now False sid (delaySessionDestruction sid s))"
    using doneCb_auto keeps_auto_trans by blast
  then show ?thesis
    using True ok d keeps_auto_trans [OF _ unref_session_auto [OF doneCb_ok [OF d]]]
      unref_session_auto [OF ok] by (auto simp: Client_detach_def)
qed (simp add: Client_detach_def keeps_auto_def)

lemma clientGone_auto:
  assumes ok: "server_ok s"
  shows "keeps_auto s (clientGone sc now client s)"
proof -
  have "keeps_auto t (fold (\<lambda>sid s. snd (Client_detach sc now client sid s)) sids t)" if "server_ok t" for sids t
    using that
  proof (induction sids arbitrary: t)
    case (Cons sid sids)
    show ?case
      using keeps_auto_trans [OF Client_detach_auto [OF Cons.prems] Cons.IH [OF Client_detach_ok [OF Cons.prems]]] by simp
  qed (simp add: keeps_auto_def)
  then show ?thesis
    using ok by (simp add: clientGone_def server_ok_def keeps_auto_def)
qed

lemma start_operation_auto:
  assumes ok: "server_ok s"
  shows "keeps_auto s (snd (start_operation op sid s))"
proof (cases "\<exists>ss. sv_sessions s sid = Some ss \<and> ss_status ss = SESSION_ACTIVE")
  case False
  then show ?thesis
    by (cases "sv_sessions s sid") (auto simp: start_operation_def keeps_auto_def)
next
  case True
  then obtain ss where ss: "sv_sessions s sid = Some ss" "ss_status ss = SESSION_ACTIVE" by auto
  have inv: "server_inv {} s"
    using ok by (simp add: server_ok_def)
  obtain es where "start_operation op sid s = (None, s\<lparr>sv_syncSession := Some sid,
        sv_sessions := (sv_sessions s)(sid \<mapsto> ss\<lparr>ss_runOperation := op, ss_status := SESSION_RUNNING,
                                            ss_syncStatus := SYNC_RUNNING, ss_helper := True\<rparr>),
        sv_out := sv_out s @ es\<rparr>)"
    by (rule start_operation_active [OF inv ss])
  then show ?thesis
    by (simp add: keeps_auto_def)
qed

lemma failureCb_auto:
  assumes ok: "server_ok s"
  shows "keeps_auto s (failureCb sc now error sid s)"
proof -
  let ?t = "with_session sid (set_error error) s"
  have st: "session_step sid s ?t"
    by (rule session_step_with_session) (simp add: set_error_def same_life_def)
  have "server_inv {} ?t"
    using session_step_ok [OF st ok] by (simp add: server_ok_def)
  then have "keeps_auto s (doneCb sc now False sid ?t)"
    using keeps_auto_trans [OF keeps_auto_eq [OF session_step_rest(3) [OF st]] doneCb_auto] by blast
  then show ?thesis
    by (simp add: failureCb_def keeps_auto_def split: option.split)
qed

lemma server_do_auto: "server_ok s \<Longrightarrow> keeps_auto s (snd (server_do sc call s))"
proof (induction call)
  case (Start_Session client config flags)
  then show ?case
    using start_session_ok(3) [OF addClient_ok [OF Start_Session]]
    by (auto simp: startSessionWithFlags_def Let_def keeps_auto_def addClient_def)
next
  case (Start_Operation op sid)
  then show ?case
    using start_operation_auto [OF Start_Operation]
    by (cases op) (simp_all add: syncExtended_def restore_data_def execute_def keeps_auto_def)
next
  case (Kill_Sessions peer)
  have "sv_refs (killSessionsAsync peer s) = sv_refs s"
    by (rule killSessionsAsync_spec [of peer s]) auto
  then show ?case
    by (simp add: keeps_auto_def)
next
  case (Helper_Reply now success error sid)
  then show ?case
    using failureCb_auto [OF Helper_Reply] doneCb_auto [of "{}" s]
    by (cases error) (simp_all add: dbusResultCb_def server_ok_def)
next
  case (Quit_Timer now sid)
  then show ?case
    using doneCb_auto [of "{}" s] by (simp add: server_ok_def)
next
  case (Drop now owner sid)
  then show ?case
    using unref_session_auto [OF Drop] by (cases owner) (auto simp: keeps_auto_def)
next
  case (Start_Internal config no_sync all_configs)
  then show ?case
    by (simp add: startInternalSession_def keeps_auto_def start_session_ok(3))
next
  case (Start_Auto dev config)
  then show ?case
    by (simp add: startAutoSession_def keeps_auto_def start_session_ok(3))
next
  case (Start_Connection connection peer config)
  then show ?case
    by (simp add: keeps_auto_def startConnectionSession_ok(3))
next
  case (Attach client sid)
  show ?case
    by (simp add: Session_attach_def keeps_auto_def)
next
  case (Detach now client sid)
  then show ?case
    using Client_detach_auto [OF Detach] by (simp add: Session_detach_def keeps_auto_def)
next
  case (Client_Gone now client)
  then show ?case
    by (simp add: clientGone_auto)
next
  case (Set_Config outcome config temporary sid)
  show ?case
    by (simp add: keeps_auto_eq [OF session_step_rest(3) [OF setNamedConfig_step]])
next
  case (Abort sid)
  show ?case
    by (simp add: keeps_auto_eq [OF session_step_rest(3) [OF Session_abort_step]])
next
  case (Suspend sid)
  show ?case
    by (simp add: keeps_auto_eq [OF session_step_rest(3) [OF Session_suspend_step]])
next
  case (Helper_Quit expected sid)
  show ?case
    by (simp add: keeps_auto_eq [OF session_step_rest(3) [OF onQuit_step]])
next
  case (File_Modified now)
  show ?case
    by (simp add: fileModified_def Let_def keeps_auto_def)
next
  case (Shutdown_Timer autosync)
  show ?case
    by (simp add: Server_shutdown_def Let_def keeps_auto_def)
next
  case Request_Shutdown
  show ?case
    by (simp add: request_shutdown_def keeps_auto_def)
qed

lemma server_run_ok: "server_ok (server_run sc calls)"
proof -
  have "server_ok (fold (\<lambda>call s. snd (server_do sc call s)) calls s)" if "server_ok s" for s
    using that by (induction calls arbitrary: s) (simp_all add: server_do_ok)
  moreover have "server_ok Server"
    by (simp add: Server_def server_ok_def server_inv_def server_progress_def server_idle_def isIdle_def alive_iff)
  ultimately show ?thesis
    by (simp add: server_run_def)
qed

lemmas server_run_inv = server_run_ok [unfolded server_ok_def, THEN conjunct1]

section \<open>Theorems\<close>

text \<open>
  C11: In every history, a session object exists exactly as long as something refers to it. The active
  session of the server is the one whose status is active or running, the sync session the one that
  runs an operation, and sessions in the queue are idle: at most one session runs at any time.
\<close>

theorem server_sessions_safe:
  assumes s: "s = server_run sc calls"
  shows "case sv_sessions s i of
      None \<Rightarrow> \<not> alive s i \<and> sv_activeSession s \<noteq> Some i \<and> sv_syncSession s \<noteq> Some i
    | Some ss \<Rightarrow> alive s i \<and>
        (sv_activeSession s = Some i \<longleftrightarrow> ss_status ss = SESSION_ACTIVE \<or> ss_status ss = SESSION_RUNNING) \<and>
        (sv_syncSession s = Some i \<longleftrightarrow> ss_status ss = SESSION_RUNNING) \<and>
        (ss_status ss = SESSION_RUNNING \<longrightarrow> ss_runOperation ss \<noteq> OP_NULL) \<and>
        (i \<in> set (sv_workQueue s) \<longrightarrow> ss_status ss = SESSION_IDLE)"
proof -
  have inv: "server_inv {} s"
    unfolding s by (rule server_run_inv)
  show ?thesis
  proof (cases "sv_sessions s i")
    case None
    have "\<not> alive s i"
      using inv None by (auto simp: server_inv_def)
    then show ?thesis
      using server_inv_active [OF inv, of i] None by (auto simp: alive_iff)
  next
    case (Some ss)
    have "alive s i"
      using inv Some by (auto simp: server_inv_def)
    then show ?thesis
      using server_inv_session [OF inv Some] Some by (simp add: session_ok_def)
  qed
qed

theorem server_sessions_safe_witness:
  "let s = server_run \<lparr>sc_fatal = 10500, sc_userabort = 20017\<rparr>
       [Start_Session ''c'' ''foo'' [], Start_Session ''d'' ''bar'' [], Start_Operation OP_SYNC 0]
   in map_option ss_status (sv_sessions s 0) = Some SESSION_RUNNING \<and> sv_syncSession s = Some 0"
proof -
  let ?s = "server_run \<lparr>sc_fatal = 10500, sc_userabort = 20017\<rparr>
       [Start_Session ''c'' ''foo'' [], Start_Session ''d'' ''bar'' [], Start_Operation OP_SYNC 0]"
  have st: "map_option ss_status (sv_sessions ?s 0) = Some SESSION_RUNNING"
    by code_simp
  then obtain ss where "sv_sessions ?s 0 = Some ss" "ss_status ss = SESSION_RUNNING" by auto
  then have "sv_syncSession ?s = Some 0"
    using server_sessions_safe [of ?s "\<lparr>sc_fatal = 10500, sc_userabort = 20017\<rparr>" _ 0, OF refl] by simp
  then show ?thesis
    unfolding Let_def using st by simp
qed




lemma checkQueue_active:
  assumes "sv_activeSession s = None" and "\<not> sv_shutdownRequested s" and "filter (alive s) (sv_workQueue s) = j # rest"
  shows "sv_activeSession (snd (checkQueue s)) = Some j"
proof -
  obtain q' where n: "next_session s (sv_workQueue s) = Some (j, q')"
    using next_session_spec [of s "sv_workQueue s"] assms(3) by (cases "next_session s (sv_workQueue s)") auto
  have "sv_activeSession (snd (activateSession j t)) = sv_activeSession t" for t
    by (auto simp: activateSession_def Let_def with_session_def fireStatus_def split: option.splits)
  then show ?thesis
    using assms(1,2) n by (auto simp: checkQueue_def andThen_def split: option.splits)
qed

text \<open>On an idle server a new session becomes active at once.\<close>

lemma enqueue_idle:
  assumes idle: "isIdle s" and up: "\<not> sv_shutdownRequested s" and al: "alive s sid"
  shows "sv_activeSession (snd (enqueue sid s)) = Some sid"
proof -
  have q: "sv_workQueue s = []" "sv_activeSession s = None"
    using idle by (simp_all add: isIdle_def)
  let ?s = "s\<lparr>sv_workQueue := [sid]\<rparr>"
  have "sv_activeSession (snd (checkQueue ?s)) = Some sid"
    by (rule checkQueue_active [where rest = "[]"]) (use q up al in simp_all)
  then show ?thesis
    using idle q by (cases "checkQueue ?s") (auto simp: enqueue_def Let_def andThen_def split: option.splits)
qed

lemma checkQueue_sessions:
  "map_option ss_configName (sv_sessions (snd (checkQueue s)) i) = map_option ss_configName (sv_sessions s i)"
  "sv_next (snd (checkQueue s)) = sv_next s"
  by (auto simp: checkQueue_def activateSession_def with_session_def fireStatus_def Let_def andThen_def emit_def
      option.map_comp comp_def split: option.splits)

lemma enqueue_sessions:
  "map_option ss_configName (sv_sessions (snd (enqueue sid s)) i) = map_option ss_configName (sv_sessions s i)"
  "sv_next (snd (enqueue sid s)) = sv_next s"
  using checkQueue_sessions [of "s\<lparr>sv_workQueue := rev (insert_from_end s sid (rev (sv_workQueue s)))\<rparr>"]
  by (auto simp: enqueue_def Let_def andThen_def split: option.splits)



text \<open>
  C15: An operation can be started exactly when the session is active; it then is the sync session
  and runs. The exceptions of \<open>addSyncSession\<close> are never seen. All other sessions get the message for the
  operation that was started before, or the one for sessions that are not active.
\<close>

theorem start_operation_result:
  assumes s: "s = server_run sc calls" and ss: "sv_sessions s sid = Some ss"
  shows "if ss_status ss = SESSION_ACTIVE
     then fst (start_operation op sid s) = None \<and>
          sv_syncSession (snd (start_operation op sid s)) = Some sid \<and>
          map_option ss_status (sv_sessions (snd (start_operation op sid s)) sid) = Some SESSION_RUNNING
     else start_operation op sid s =
          throw (if ss_runOperation ss \<noteq> OP_NULL then Throw (started_message op (ss_runOperation ss))
                 else Throw ''session is not active, call not allowed at this time'') s"
proof (cases "ss_status ss = SESSION_ACTIVE")
  case True
  have inv: "server_inv {} s"
    unfolding s by (rule server_run_inv)
  show ?thesis
    using start_operation_active [OF inv ss True, of op "?thesis"] True by auto
next
  case False
  then show ?thesis
    using start_operation_error [OF ss False] by simp
qed

theorem start_operation_result_witness:
  "let s = server_run \<lparr>sc_fatal = 10500, sc_userabort = 20017\<rparr> [Start_Session ''c'' ''foo'' []];
       t = snd (start_operation OP_SYNC 0 s)
   in fst (start_operation OP_SYNC 0 s) = None \<and> sv_syncSession t = Some 0"
proof -
  let ?s = "server_run \<lparr>sc_fatal = 10500, sc_userabort = 20017\<rparr> [Start_Session ''c'' ''foo'' []]"
  have "map_option ss_status (sv_sessions ?s 0) = Some SESSION_ACTIVE"
    by code_simp
  then obtain ss where "sv_sessions ?s 0 = Some ss" "ss_status ss = SESSION_ACTIVE" by auto
  then show ?thesis
    using start_operation_result [OF refl, of _ _ 0 ss OP_SYNC] by (simp add: Let_def)
qed

text \<open>
  The queue is not sorted by priority, as its documentation says: a session that a client asks for waits
  behind an earlier one of a connection, although its priority is higher (a lower number).
\<close>

lemma server_priority_ignored:
  "let s = server_run \<lparr>sc_fatal = 10500, sc_userabort = 20017\<rparr>
       [Start_Session ''c'' ''foo'' [], Start_Connection 1 ''phone'' ''bar'', Start_Session ''d'' ''foo'' []]
   in sv_workQueue s = [1, 2] \<and> getPriority s 1 = 10 \<and> getPriority s 2 = 0"
  by code_simp

end
