(* ===== verification/Auto_Sync.thy ===== *)
theory Auto_Sync
  imports Server_Queue
begin

text \<open>
  Automatic syncing: class \<open>AutoSyncManager\<close> of the D-Bus server
  (src/src/dbus/server/auto-sync-manager.h and auto-sync-manager.cpp) on top of the sessions of
  theory Server_Queue. The manager keeps a task for every configuration that it has seen. Method
  \<open>schedule\<close> looks for a task that may run now and starts its session, or arranges for being
  called again: by a timer, by the presence signal of a transport, or by the idle signal of the
  server.

  At startup the manager looks at every configuration and then notes which transports are present; this is
  the history of these calls from the empty manager. The properties of a configuration are an argument of \<open>initConfig\<close>. A timer is the number of
  seconds that it was started with, a signal the number of functions connected to it.
\<close>

section \<open>State\<close>

datatype Transport = NEEDS_HTTP | NEEDS_BT | NEEDS_OTHER

datatype NotifyLevel = NOTIFY_NONE | NOTIFY_ERROR | NOTIFY_CHANGES | NOTIFY_ALL

primrec notify_code :: "NotifyLevel \<Rightarrow> nat" where
  "notify_code NOTIFY_NONE = 0"
| "notify_code NOTIFY_ERROR = 1"
| "notify_code NOTIFY_CHANGES = 2"
| "notify_code NOTIFY_ALL = 3"

record auto_task =
  at_peerName :: string
  at_remoteDeviceId :: string
  at_notifyLevel :: NotifyLevel
  at_syncSuccessStart :: bool
  at_permanentFailure :: bool
  at_delay :: int
  at_interval :: int
  at_lastSyncTime :: timespec
  at_urls :: "(Transport \<times> string) list"
  at_intervalTimeout :: "int option"
  at_btTimeout :: "int option"
  at_httpTimeout :: "int option"

text \<open>\<open>am_sessionURL\<close> is the URL that the session of the manager
  uses once it is active. \<open>am_doneSlots\<close> are the functions connected to the end of sessions: the task, and whether it is the session
  that the manager has started. \<open>am_autoTermRefs\<close> counts the references that prevent the termination of the server.\<close>

record auto_sync =
  am_autoTermLocked :: bool
  am_autoTermRefs :: int
  am_session :: "nat option"
  am_sessionURL :: string
  am_idleConnected :: bool
  am_btStartTime :: timespec
  am_httpStartTime :: timespec
  am_btSlots :: nat
  am_httpSlots :: nat
  am_peerMap :: "(string \<times> auto_task) list"
  am_doneSlots :: "(nat \<times> string \<times> bool) list"
  am_published :: "(string \<times> string) list"

definition AutoSyncTask :: auto_task where
  "AutoSyncTask =
     \<lparr>at_peerName = [], at_remoteDeviceId = [], at_notifyLevel = NOTIFY_NONE, at_syncSuccessStart = False,
      at_permanentFailure = False, at_delay = 0, at_interval = 0, at_lastSyncTime = Timespec 0 0,
      at_urls = [], at_intervalTimeout = None, at_btTimeout = None, at_httpTimeout = None\<rparr>"

definition AutoSyncManager :: auto_sync where
  "AutoSyncManager =
     \<lparr>am_autoTermLocked = False, am_autoTermRefs = 0, am_session = None, am_sessionURL = [], am_idleConnected = False,
      am_btStartTime = Timespec 0 0, am_httpStartTime = Timespec 0 0, am_btSlots = 0, am_httpSlots = 0,
      am_peerMap = [], am_doneSlots = [], am_published = []\<rparr>"

text \<open>The properties of a configuration that exists.\<close>

record auto_config =
  ac_syncURL :: string
  ac_autoSync :: string
  ac_peerName :: string
  ac_interval :: int
  ac_delay :: int
  ac_remoteDevID :: string
  ac_notifyLevel :: NotifyLevel

definition with_task :: "string \<Rightarrow> (auto_task \<Rightarrow> auto_task) \<Rightarrow> auto_sync \<Rightarrow> auto_sync" where
  "with_task config f am =
     am\<lparr>am_peerMap := map (\<lambda>(c, t). (c, if c = config then f t else t)) (am_peerMap am)\<rparr>"

text \<open>Conversion of a wider integer to \<open>int\<close>.\<close>

definition to_int :: "int \<Rightarrow> int" where
  "to_int i = (i + 2 ^ 31) mod 2 ^ 32 - 2 ^ 31"

section \<open>Scheduling\<close>

definition preventTerm :: "auto_sync \<Rightarrow> bool" where
  "preventTerm am \<longleftrightarrow>
     list_ex (\<lambda>(_, task). at_interval task > 0 \<and> \<not> at_permanentFailure task \<and> at_urls task \<noteq> []) (am_peerMap am)"

definition connectIdle :: "auto_sync \<Rightarrow> auto_sync" where
  "connectIdle am = am\<lparr>am_idleConnected := True\<rparr>"

definition starttime :: "auto_sync \<Rightarrow> Transport \<Rightarrow> timespec option" where
  "starttime am transport =
     (case transport of
        NEEDS_HTTP \<Rightarrow> Some (am_httpStartTime am)
      | NEEDS_BT \<Rightarrow> Some (am_btStartTime am)
      | NEEDS_OTHER \<Rightarrow> None)"

definition connect_presence :: "Transport \<Rightarrow> auto_sync \<Rightarrow> auto_sync" where
  "connect_presence transport am =
     (if transport = NEEDS_HTTP then am\<lparr>am_httpSlots := am_httpSlots am + 1\<rparr>
      else am\<lparr>am_btSlots := am_btSlots am + 1\<rparr>)"

definition run_transport_timer :: "Transport \<Rightarrow> int \<Rightarrow> auto_task \<Rightarrow> auto_task" where
  "run_transport_timer transport seconds task =
     (if transport = NEEDS_HTTP then task\<lparr>at_httpTimeout := Some seconds\<rparr> else task\<lparr>at_btTimeout := Some seconds\<rparr>)"

text \<open>The transport is unknown and assumed to be online, or present and present for long enough.\<close>

definition transport_ready :: "timespec \<Rightarrow> auto_sync \<Rightarrow> auto_task \<Rightarrow> Transport \<Rightarrow> bool" where
  "transport_ready now am task transport \<longleftrightarrow>
     (case starttime am transport of
        None \<Rightarrow> True
      | Some start \<Rightarrow> ts_bool start \<and> (at_delay task \<le> 0 \<or> \<not> ts_greater (ts_plus_seconds start (at_delay task)) now))"

text \<open>The loop over the URLs of a task: the URL that is ready (empty if there is none), the task and the manager.\<close>

fun url_loop :: "timespec \<Rightarrow> (Transport \<times> string) list \<Rightarrow> auto_task \<Rightarrow> auto_sync \<Rightarrow> string \<times> auto_task \<times> auto_sync" where
  "url_loop now [] task am = ([], task, am)"
| "url_loop now ((transport, url) # urls) task am =
     (if transport_ready now am task transport then (url, task, am)
      else (case starttime am transport of
              None \<Rightarrow> ([], task, am)
            | Some start \<Rightarrow>
                if \<not> ts_bool start then url_loop now urls task (connect_presence transport am)
                else url_loop now urls
                       (run_transport_timer transport
                          (to_int (tv_sec (ts_minus (ts_plus_seconds start (at_delay task)) now) + 2)) task) am))"

text \<open>The loop over the tasks: the tasks, the manager, and the configuration and the URL that can run.\<close>

fun task_loop ::
  "timespec \<Rightarrow> (string \<times> auto_task) list \<Rightarrow> auto_sync \<Rightarrow>
   (string \<times> auto_task) list \<times> auto_sync \<times> (string \<times> auto_task \<times> string) option" where
  "task_loop now [] am = ([], am, None)"
| "task_loop now ((configName, task) # tasks) am =
     (if at_interval task \<le> 0 \<or> at_permanentFailure task
      then (let (rest, am, found) = task_loop now tasks am in ((configName, task) # rest, am, found))
      else let next_time = ts_plus_seconds (at_lastSyncTime task) (at_interval task)
           in if ts_greater next_time now
              then (let task = task\<lparr>at_intervalTimeout := Some (to_int (tv_sec (ts_minus next_time now) + 2))\<rparr>;
                        (rest, am, found) = task_loop now tasks am
                    in ((configName, task) # rest, am, found))
              else (let (readyURL, task, am) = url_loop now (at_urls task) task am
                    in if readyURL \<noteq> []
                       then ((configName, task\<lparr>at_syncSuccessStart := False\<rparr>) # tasks, am, Some (configName, task, readyURL))
                       else (let (rest, am, found) = task_loop now tasks am in ((configName, task) # rest, am, found))))"

definition delay_session :: "auto_sync \<Rightarrow> server \<Rightarrow> server" where
  "delay_session am sv = (case am_session am of Some sid \<Rightarrow> delaySessionDestruction sid sv | None \<Rightarrow> sv)"

definition drop_session :: "status_codes \<Rightarrow> timespec \<Rightarrow> auto_sync \<Rightarrow> server \<Rightarrow> server" where
  "drop_session sc now am sv =
     (case am_session am of Some sid \<Rightarrow> unref_session sc now AutoSync sid sv | None \<Rightarrow> sv)"

definition schedule :: "status_codes \<Rightarrow> timespec \<Rightarrow> auto_sync \<times> server \<Rightarrow> auto_sync \<times> server" where
  "schedule sc now st =
     (let (am, sv) = st;
          am = am\<lparr>am_idleConnected := False\<rparr>
      in if \<not> preventTerm am then (am, sv)
         else if \<not> isIdle sv then (connectIdle am, sv)
         else (case task_loop now (am_peerMap am) am of
                 (tasks, am, None) \<Rightarrow> (am\<lparr>am_peerMap := tasks\<rparr>, sv)
               | (tasks, am, Some (configName, task, readyURL)) \<Rightarrow>
                   (let sv = drop_session sc now am (delay_session am sv);
                        am = am\<lparr>am_peerMap := tasks, am_session := Some (sv_next sv), am_sessionURL := readyURL\<rparr>
                    in (connectIdle am, snd (startAutoSession (at_remoteDeviceId task) configName sv)))))"

section \<open>Configurations\<close>

definition getSyncURL :: "string \<Rightarrow> string list" where
  "getSyncURL s = (if s = [] then [] else split_at (\<lambda>c. c \<in> set [CHR '' '', CHR 0x09]) s)"

text \<open>The transports that the property enables: HTTP, Bluetooth and any other.\<close>

definition auto_modes :: "string \<Rightarrow> bool \<times> bool \<times> bool" where
  "auto_modes autoSync =
     (if autoSync = [] \<or> iequals autoSync ''0'' \<or> iequals autoSync ''f'' then (False, False, False)
      else if iequals autoSync ''1'' \<or> iequals autoSync ''t'' then (True, True, True)
      else (let ops = split_at (\<lambda>c. c = CHR '','') autoSync
            in (list_ex (\<lambda>op. iequals op ''http'') ops, list_ex (\<lambda>op. iequals op ''obex-bt'') ops, False)))"

definition url_transport :: "string \<Rightarrow> Transport" where
  "url_transport url =
     (let istarts = (\<lambda>p. starts_with (map tolower url) p)
      in if istarts ''http'' then NEEDS_HTTP
         else if istarts ''local'' then NEEDS_HTTP
         else if istarts ''obex-bt'' then NEEDS_BT
         else NEEDS_OTHER)"

definition enabled_urls :: "string \<Rightarrow> string list \<Rightarrow> (Transport \<times> string) list" where
  "enabled_urls autoSync urls =
     (let (http, bt, any) = auto_modes autoSync
      in filter (\<lambda>(transport, _).
             transport = NEEDS_HTTP \<and> http \<or> transport = NEEDS_BT \<and> bt \<or> transport = NEEDS_OTHER \<and> any)
           (map (\<lambda>url. (url_transport url, url)) urls))"

definition update_task :: "string \<Rightarrow> auto_config option \<Rightarrow> auto_task \<Rightarrow> auto_task" where
  "update_task configName config task =
     (case config of
        Some c \<Rightarrow>
          task\<lparr>at_peerName := (if ac_peerName c = [] then configName else ac_peerName c),
               at_interval := ac_interval c, at_delay := ac_delay c, at_remoteDeviceId := ac_remoteDevID c,
               at_notifyLevel := ac_notifyLevel c, at_permanentFailure := False,
               at_urls := enabled_urls (ac_autoSync c) (getSyncURL (ac_syncURL c))\<rparr>
      | None \<Rightarrow> task\<lparr>at_urls := []\<rparr>)"

definition update_lock :: "auto_sync \<Rightarrow> auto_sync" where
  "update_lock am =
     (let lock = preventTerm am
      in if am_autoTermLocked am \<and> \<not> lock
         then am\<lparr>am_autoTermRefs := am_autoTermRefs am - 1, am_autoTermLocked := False\<rparr>
         else if \<not> am_autoTermLocked am \<and> lock
         then am\<lparr>am_autoTermRefs := am_autoTermRefs am + 1, am_autoTermLocked := True\<rparr>
         else am)"

definition init_task :: "timespec \<Rightarrow> string \<Rightarrow> auto_config option \<Rightarrow> auto_sync \<Rightarrow> auto_sync" where
  "init_task now configName config am =
     (let task = (case kfind id configName (am_peerMap am) of
                    Some task \<Rightarrow> task
                  | None \<Rightarrow> AutoSyncTask\<lparr>at_lastSyncTime := now\<rparr>)
      in update_lock (am\<lparr>am_peerMap := kput id configName (update_task configName config task) (am_peerMap am)\<rparr>))"

definition init_one ::
  "status_codes \<Rightarrow> timespec \<Rightarrow> (string \<Rightarrow> auto_config option) \<Rightarrow> string \<Rightarrow> auto_sync \<times> server \<Rightarrow> auto_sync \<times> server" where
  "init_one sc now configs configName st =
     schedule sc now (init_task now configName (configs configName) (fst st), snd st)"

text \<open>
  For the empty name all known and all existing configurations are updated first. The function goes on
  after the loop, also with the empty name.
\<close>

definition initConfig ::
  "status_codes \<Rightarrow> timespec \<Rightarrow> string list \<Rightarrow> (string \<Rightarrow> auto_config option) \<Rightarrow> string \<Rightarrow> auto_sync \<times> server \<Rightarrow> auto_sync \<times> server" where
  "initConfig sc now existing configs configName st =
     (let st = (if configName = []
                then fold (init_one sc now configs)
                       (filter (\<lambda>name. name \<noteq> []) (sorted_list_of_set (set (map fst (am_peerMap (fst st)) @ existing)))) st
                else st)
      in init_one sc now configs configName st)"

section \<open>Sessions and presence\<close>

definition updatePresence :: "timespec \<Rightarrow> bool \<Rightarrow> timespec" where
  "updatePresence now present = (if present then now else Timespec 0 0)"

text \<open>The presence signals: the time is updated first, then all connected functions run.\<close>

definition http_presence :: "status_codes \<Rightarrow> timespec \<Rightarrow> bool \<Rightarrow> auto_sync \<times> server \<Rightarrow> auto_sync \<times> server" where
  "http_presence sc now present st =
     (let am = (fst st)\<lparr>am_httpStartTime := updatePresence now present\<rparr>
      in (schedule sc now ^^ am_httpSlots am) (am, snd st))"

definition bt_presence :: "status_codes \<Rightarrow> timespec \<Rightarrow> bool \<Rightarrow> auto_sync \<times> server \<Rightarrow> auto_sync \<times> server" where
  "bt_presence sc now present st =
     (let am = (fst st)\<lparr>am_btStartTime := updatePresence now present\<rparr>
      in (schedule sc now ^^ am_btSlots am) (am, snd st))"

definition sessionStarted :: "timespec \<Rightarrow> nat \<Rightarrow> string \<Rightarrow> auto_sync \<Rightarrow> auto_sync" where
  "sessionStarted now sid configName am =
     (if configName \<in> fst ` set (am_peerMap am)
      then (with_task configName (\<lambda>task. task\<lparr>at_lastSyncTime := now\<rparr>) am)
             \<lparr>am_doneSlots := am_doneSlots am @ [(sid, configName, am_session am = Some sid)]\<rparr>
      else am)"

text \<open>The status of a transport failure is the only temporary error.\<close>

definition STATUS_OK :: int where
  "STATUS_OK = 0"

definition STATUS_TRANSPORT_FAILURE :: int where
  "STATUS_TRANSPORT_FAILURE = 20043"

definition ErrorIsTemporary :: "int \<Rightarrow> bool" where
  "ErrorIsTemporary status \<longleftrightarrow> status = STATUS_TRANSPORT_FAILURE"

definition anySyncDone :: "string \<Rightarrow> int \<Rightarrow> auto_sync \<Rightarrow> auto_sync" where
  "anySyncDone configName status am =
     with_task configName (\<lambda>task. task\<lparr>at_permanentFailure := status \<noteq> STATUS_OK \<and> \<not> ErrorIsTemporary status\<rparr>) am"

definition publish :: "string \<Rightarrow> string \<Rightarrow> auto_sync \<Rightarrow> auto_sync" where
  "publish summary body am = am\<lparr>am_published := am_published am @ [(summary, body)]\<rparr>"

definition autoSyncSuccessStart :: "bool \<Rightarrow> string \<Rightarrow> auto_sync \<Rightarrow> auto_sync" where
  "autoSyncSuccessStart notificationsEnabled configName am =
     (case kfind id configName (am_peerMap am) of
        None \<Rightarrow> am
      | Some task \<Rightarrow>
          (let am = with_task configName (\<lambda>task. task\<lparr>at_syncSuccessStart := True\<rparr>) am
           in if notificationsEnabled \<and> notify_code (at_notifyLevel task) \<ge> notify_code NOTIFY_ALL
              then publish (at_peerName task @ '' is syncing'')
                     (''We have just started to sync your computer with the '' @ at_peerName task @ '' sync service.'') am
              else am))"

definition done_notification :: "auto_task \<Rightarrow> int \<Rightarrow> (string \<times> string) option" where
  "done_notification task status =
     (if at_syncSuccessStart task \<and> status = STATUS_OK
      then (if notify_code (at_notifyLevel task) \<ge> notify_code NOTIFY_ALL
            then Some (at_peerName task @ '' sync complete'',
                   ''We have just finished syncing your computer with the '' @ at_peerName task @ '' sync service.'')
            else None)
      else if at_syncSuccessStart task \<or> \<not> ErrorIsTemporary status
      then (if notify_code (at_notifyLevel task) \<ge> notify_code NOTIFY_ERROR
            then Some (''Sync problem.'',
                   ''Sorry, there'' @ [CHR 0x27] @ ''s a problem with your sync that you need to attend to.'')
            else None)
      else None)"

definition autoSyncDone ::
  "status_codes \<Rightarrow> timespec \<Rightarrow> bool \<Rightarrow> string \<Rightarrow> int \<Rightarrow> auto_sync \<times> server \<Rightarrow> auto_sync \<times> server" where
  "autoSyncDone sc now notificationsEnabled configName status st =
     (let (am, sv) = st;
          am = (if notificationsEnabled
                then (case kfind id configName (am_peerMap am) of
                        None \<Rightarrow> am
                      | Some task \<Rightarrow> (case done_notification task status of
                            Some (summary, body) \<Rightarrow> publish summary body am
                          | None \<Rightarrow> am))
                else am)
      in (am\<lparr>am_session := None\<rparr>, drop_session sc now am (delay_session am sv)))"

text \<open>The end of a session calls the functions that are connected to it.\<close>

definition session_done ::
  "status_codes \<Rightarrow> timespec \<Rightarrow> bool \<Rightarrow> nat \<Rightarrow> int \<Rightarrow> auto_sync \<times> server \<Rightarrow> auto_sync \<times> server" where
  "session_done sc now notificationsEnabled sid status st =
     fold (\<lambda>(i, configName, own) st.
         if i = sid
         then (let st = (anySyncDone configName status (fst st), snd st)
               in if own then autoSyncDone sc now notificationsEnabled configName status st else st)
         else st)
       (am_doneSlots (fst st)) st"

datatype auto_timer = Interval_Timer | Http_Timer | Bt_Timer

text \<open>A timer of a task runs out; \<open>schedule\<close> may start it again.\<close>

definition timer_task :: "auto_timer \<Rightarrow> auto_task \<Rightarrow> int option" where
  "timer_task kind task =
     (case kind of Interval_Timer \<Rightarrow> at_intervalTimeout task | Http_Timer \<Rightarrow> at_httpTimeout task
      | Bt_Timer \<Rightarrow> at_btTimeout task)"

definition stop_timer :: "auto_timer \<Rightarrow> auto_task \<Rightarrow> auto_task" where
  "stop_timer kind task =
     (case kind of Interval_Timer \<Rightarrow> task\<lparr>at_intervalTimeout := None\<rparr> | Http_Timer \<Rightarrow> task\<lparr>at_httpTimeout := None\<rparr>
      | Bt_Timer \<Rightarrow> task\<lparr>at_btTimeout := None\<rparr>)"

definition timer_triggered :: "status_codes \<Rightarrow> timespec \<Rightarrow> auto_timer \<Rightarrow> string \<Rightarrow> auto_sync \<times> server \<Rightarrow> auto_sync \<times> server" where
  "timer_triggered sc now kind configName st =
     (case kfind id configName (am_peerMap (fst st)) of
        Some task \<Rightarrow>
          if timer_task kind task = None then st
          else schedule sc now (with_task configName (stop_timer kind) (fst st), snd st)
      | None \<Rightarrow> st)"

definition idle_signal_received :: "status_codes \<Rightarrow> timespec \<Rightarrow> auto_sync \<times> server \<Rightarrow> auto_sync \<times> server" where
  "idle_signal_received sc now st = (if am_idleConnected (fst st) then schedule sc now st else st)"

section \<open>The loops\<close>

text \<open>The loops start timers of tasks and connect functions to signals, and leave everything else as it is.\<close>

definition task_le :: "auto_task \<Rightarrow> auto_task \<Rightarrow> bool" where
  "task_le t t' \<longleftrightarrow> (\<exists>i h b. t' = t\<lparr>at_intervalTimeout := i, at_httpTimeout := h, at_btTimeout := b\<rparr> \<and>
     (at_intervalTimeout t \<noteq> None \<longrightarrow> i \<noteq> None) \<and> (at_httpTimeout t \<noteq> None \<longrightarrow> h \<noteq> None) \<and>
     (at_btTimeout t \<noteq> None \<longrightarrow> b \<noteq> None))"

definition slots_le :: "auto_sync \<Rightarrow> auto_sync \<Rightarrow> bool" where
  "slots_le am am' \<longleftrightarrow> (\<exists>h b. am' = am\<lparr>am_httpSlots := h, am_btSlots := b\<rparr> \<and> am_httpSlots am \<le> h \<and> am_btSlots am \<le> b)"

lemma task_le_refl [simp]: "task_le t t"
  unfolding task_le_def by (intro exI [of _ "at_intervalTimeout t"] exI [of _ "at_httpTimeout t"] exI [of _ "at_btTimeout t"]) simp

lemma slots_le_refl [simp]: "slots_le am am"
  unfolding slots_le_def by (intro exI [of _ "am_httpSlots am"] exI [of _ "am_btSlots am"]) simp

lemma task_le_trans: "task_le t t' \<Longrightarrow> task_le t' t'' \<Longrightarrow> task_le t t''"
  unfolding task_le_def by fastforce

lemma slots_le_trans: "slots_le am am' \<Longrightarrow> slots_le am' am'' \<Longrightarrow> slots_le am am''"
  unfolding slots_le_def by fastforce

lemma task_le_timer: "task_le t (run_transport_timer transport seconds t)"
  unfolding task_le_def run_transport_timer_def
  by (cases "transport = NEEDS_HTTP")
    (intro exI [of _ "at_intervalTimeout t"] exI [of _ "at_btTimeout t"] exI [of _ "at_httpTimeout t"] exI [of _ "Some seconds"], simp)+

lemma slots_le_connect: "slots_le am (connect_presence transport am)"
  unfolding slots_le_def connect_presence_def
  by (cases "transport = NEEDS_HTTP")
    (intro exI [of _ "am_httpSlots am + 1"] exI [of _ "am_btSlots am + 1"] exI [of _ "am_httpSlots am"] exI [of _ "am_btSlots am"], simp)+

lemma task_leD:
  assumes "task_le t t'"
  shows "at_urls t' = at_urls t" "at_interval t' = at_interval t" "at_permanentFailure t' = at_permanentFailure t"
    "at_delay t' = at_delay t" "at_remoteDeviceId t' = at_remoteDeviceId t" "at_lastSyncTime t' = at_lastSyncTime t"
  using assms by (auto simp: task_le_def)

lemma slots_leD:
  assumes "slots_le am am'"
  shows "am_httpStartTime am' = am_httpStartTime am" "am_btStartTime am' = am_btStartTime am"
    "am_peerMap am' = am_peerMap am" "am_session am' = am_session am" "am_idleConnected am' = am_idleConnected am"
    "starttime am' = starttime am"
  using assms by (auto simp: slots_le_def starttime_def fun_eq_iff split: Transport.split)

lemma transport_ready_le:
  assumes "slots_le am am'" and "task_le t t'"
  shows "transport_ready now am' t' = transport_ready now am t"
  by (rule ext) (simp add: transport_ready_def slots_leD [OF assms(1)] task_leD [OF assms(2)] split: option.split)

lemma url_loop_le:
  "url_loop now urls t am = (url, t', am') \<Longrightarrow> task_le t t' \<and> slots_le am am'"
proof (induction now urls t am rule: url_loop.induct)
  case (2 now transport u urls t am)
  then show ?case
    by (auto split: if_splits option.splits intro: task_le_trans [OF task_le_timer] slots_le_trans [OF slots_le_connect])
qed simp

lemma url_loop_ready:
  "url_loop now urls t am = (url, t', am') \<Longrightarrow> url \<noteq> [] \<Longrightarrow>
   \<exists>transport. (transport, url) \<in> set urls \<and> transport_ready now am t transport"
proof (induction now urls t am rule: url_loop.induct)
  case (2 now transport u urls t am)
  show ?case
  proof (cases "transport_ready now am t transport")
    case True
    then show ?thesis
      using "2.prems" by auto
  next
    case False
    then obtain start where "starttime am transport = Some start"
      using "2.prems" by (cases "starttime am transport") auto
    then show ?thesis
      using "2.IH" "2.prems" False
        transport_ready_le [OF slots_le_connect [of am transport] task_le_refl [of t]]
        transport_ready_le [OF slots_le_refl [of am] task_le_timer [of t transport]]
      by (cases "ts_bool start") fastforce+
  qed
qed simp

text \<open>How a task waits for the transport of a URL: with a timer, or for the presence signal.\<close>

definition url_waits :: "auto_sync \<Rightarrow> auto_task \<Rightarrow> Transport \<Rightarrow> bool" where
  "url_waits am t transport \<longleftrightarrow>
     (case transport of
        NEEDS_HTTP \<Rightarrow> at_httpTimeout t \<noteq> None \<or> (am_httpSlots am > 0 \<and> \<not> ts_bool (am_httpStartTime am))
      | NEEDS_BT \<Rightarrow> at_btTimeout t \<noteq> None \<or> (am_btSlots am > 0 \<and> \<not> ts_bool (am_btStartTime am))
      | NEEDS_OTHER \<Rightarrow> False)"

definition enabled_task :: "auto_task \<Rightarrow> bool" where
  "enabled_task t \<longleftrightarrow> at_interval t > 0 \<and> \<not> at_permanentFailure t \<and> at_urls t \<noteq> [] \<and> [] \<notin> snd ` set (at_urls t)"

definition task_waits :: "auto_sync \<Rightarrow> auto_task \<Rightarrow> bool" where
  "task_waits am t \<longleftrightarrow> at_intervalTimeout t \<noteq> None \<or> (\<forall>(transport, _)\<in>set (at_urls t). url_waits am t transport)"

lemma url_waits_le: "url_waits am t transport \<Longrightarrow> slots_le am am' \<Longrightarrow> task_le t t' \<Longrightarrow> url_waits am' t' transport"
  by (auto simp: url_waits_def slots_le_def task_le_def split: Transport.splits)

lemma task_waits_le:
  assumes w: "task_waits am t" and le: "slots_le am am'" "task_le t t'"
  shows "task_waits am' t'"
proof (cases "at_intervalTimeout t = None")
  case True
  then have "\<forall>(transport, _)\<in>set (at_urls t'). url_waits am' t' transport"
    using w url_waits_le [OF _ le] by (auto simp: task_waits_def task_leD(1) [OF le(2)])
  then show ?thesis
    by (simp add: task_waits_def)
next
  case False
  then show ?thesis
    using le(2) by (auto simp: task_waits_def task_le_def)
qed

lemma url_loop_waits:
  "url_loop now urls t am = ([], t', am') \<Longrightarrow> [] \<notin> snd ` set urls \<Longrightarrow>
   \<forall>(transport, _)\<in>set urls. url_waits am' t' transport"
proof (induction now urls t am rule: url_loop.induct)
  case (2 now transport u urls t am)
  have nr: "\<not> transport_ready now am t transport"
    using "2.prems" by (auto split: if_splits)
  then obtain start where st: "starttime am transport = Some start"
    by (cases "starttime am transport") (auto simp: transport_ready_def)
  show ?case
  proof (cases "ts_bool start")
    case False
    let ?am = "connect_presence transport am"
    have l: "url_loop now urls t ?am = ([], t', am')"
      using "2.prems"(1) nr st False by simp
    have "url_waits ?am t transport"
      using st False by (auto simp: url_waits_def connect_presence_def starttime_def split: Transport.splits)
    then have "url_waits am' t' transport"
      using url_loop_le [OF l] url_waits_le by blast
    then show ?thesis
      using "2.IH"(1) [OF nr st False l] "2.prems"(2) by auto
  next
    case True
    let ?t = "run_transport_timer transport (to_int (tv_sec (ts_minus (ts_plus_seconds start (at_delay t)) now) + 2)) t"
    have l: "url_loop now urls ?t am = ([], t', am')"
      using "2.prems"(1) nr st True by simp
    have "url_waits am ?t transport"
      using st by (auto simp: url_waits_def run_transport_timer_def starttime_def split: Transport.splits)
    then have "url_waits am' t' transport"
      using url_loop_le [OF l] url_waits_le by blast
    then show ?thesis
      using "2.IH"(2) [OF nr st _ l] True "2.prems"(2) by auto
  qed
qed simp

text \<open>
  The cases of the loop over the tasks: a task that is not enabled, one whose interval has not expired, one
  that is ready, and one that waits for a transport.
\<close>

lemma task_loop_cases:
  assumes r: "task_loop now ((configName, task) # tasks) am = (tasks', am', found)"
  obtains
    (skip) task' rest am2 where "tasks' = (configName, task') # rest" "task_loop now tasks am2 = (rest, am', found)"
      "slots_le am am2" "enabled_task task' \<Longrightarrow> task_waits am2 task'"
  | (run) task' url where "found = Some (configName, task', url)" "slots_le am am'" "url \<noteq> []" "at_interval task > 0"
      "\<not> at_permanentFailure task" "\<not> ts_greater (ts_plus_seconds (at_lastSyncTime task) (at_interval task)) now"
      "\<exists>transport. (transport, url) \<in> set (at_urls task) \<and> transport_ready now am task transport"
proof (cases "at_interval task \<le> 0 \<or> at_permanentFailure task")
  case True
  obtain rest am2 f where l: "task_loop now tasks am = (rest, am2, f)"
    by (metis prod_cases3)
  show ?thesis
    by (rule skip [of task rest am]) (use r l True in \<open>auto simp: enabled_task_def\<close>)
next
  case False
  let ?next = "ts_plus_seconds (at_lastSyncTime task) (at_interval task)"
  show ?thesis
  proof (cases "ts_greater ?next now")
    case True
    let ?t = "task\<lparr>at_intervalTimeout := Some (to_int (tv_sec (ts_minus ?next now) + 2))\<rparr>"
    obtain rest am2 f where l: "task_loop now tasks am = (rest, am2, f)"
      by (metis prod_cases3)
    show ?thesis
      by (rule skip [of ?t rest am]) (use r l True False in \<open>auto simp: Let_def task_waits_def\<close>)
  next
    case due: False
    obtain url t2 am2 where u: "url_loop now (at_urls task) task am = (url, t2, am2)"
      by (metis prod_cases3)
    have le: "task_le task t2" "slots_le am am2"
      using url_loop_le [OF u] by auto
    show ?thesis
    proof (cases "url = []")
      case True
      obtain rest am3 f where l: "task_loop now tasks am2 = (rest, am3, f)"
        by (metis prod_cases3)
      have "task_waits am2 t2" if "enabled_task t2"
      proof -
        have "[] \<notin> snd ` set (at_urls task)"
          using that by (simp add: enabled_task_def task_leD [OF le(1)])
        then show ?thesis
          using url_loop_waits [OF u [unfolded True]] by (simp add: task_waits_def task_leD [OF le(1)])
      qed
      then show ?thesis
        by (intro skip [of t2 rest am2]) (use r l True u due False le in \<open>auto simp: Let_def\<close>)
    next
      case ready: False
      show ?thesis
        by (rule run [of t2 url]) (use r u due False ready le url_loop_ready [OF u] in \<open>auto simp: Let_def\<close>)
    qed
  qed
qed

lemma task_loop_none:
  "task_loop now tasks am = (tasks', am', None) \<Longrightarrow>
   slots_le am am' \<and> (\<forall>(c, t)\<in>set tasks'. enabled_task t \<longrightarrow> task_waits am' t)"
proof (induction tasks arbitrary: am tasks')
  case (Cons entry tasks)
  obtain c t where e: "entry = (c, t)" by (cases entry)
  from Cons.prems [unfolded e] show ?case
  proof (cases rule: task_loop_cases)
    case (skip t' rest am2)
    note IH = Cons.IH [OF skip(2)]
    have "task_waits am' t'" if "enabled_task t'"
      using skip(4) [OF that] IH task_waits_le by auto
    then show ?thesis
      using IH skip(1) slots_le_trans [OF skip(3)] by auto
  qed simp
qed simp

text \<open>A task that may run now through a URL.\<close>

definition task_ready :: "timespec \<Rightarrow> auto_sync \<Rightarrow> auto_task \<Rightarrow> string \<Rightarrow> bool" where
  "task_ready now am task url \<longleftrightarrow> at_interval task > 0 \<and> \<not> at_permanentFailure task \<and>
     \<not> ts_greater (ts_plus_seconds (at_lastSyncTime task) (at_interval task)) now \<and> url \<noteq> [] \<and>
     (\<exists>transport. (transport, url) \<in> set (at_urls task) \<and> transport_ready now am task transport)"

lemma task_ready_slots: "slots_le am am' \<Longrightarrow> task_ready now am' = task_ready now am"
  using transport_ready_le [OF _ task_le_refl] by (auto simp: task_ready_def fun_eq_iff)

lemma task_loop_slots:
  "task_loop now tasks am = (tasks', am', found) \<Longrightarrow> slots_le am am'"
proof (induction tasks arbitrary: am tasks')
  case (Cons entry tasks)
  obtain c t where e: "entry = (c, t)" by (cases entry)
  from Cons.prems [unfolded e] show ?case
  proof (cases rule: task_loop_cases)
    case (skip t' rest am2)
    then show ?thesis
      using Cons.IH [OF skip(2)] slots_le_trans by blast
  qed simp
qed simp

lemma task_loop_some:
  "task_loop now tasks am = (tasks', am', Some (c, t', url)) \<Longrightarrow>
   \<exists>t. (c, t) \<in> set tasks \<and> task_ready now am t url"
proof (induction tasks arbitrary: am tasks')
  case (Cons entry tasks)
  obtain c0 t where e: "entry = (c0, t)" by (cases entry)
  from Cons.prems [unfolded e] show ?case
  proof (cases rule: task_loop_cases)
    case (skip t'' rest am2)
    then show ?thesis
      using Cons.IH [OF skip(2)] task_ready_slots [OF skip(3)] by auto
  next
    case (run t'' u)
    then show ?thesis
      by (auto simp: e task_ready_def)
  qed
qed simp

section \<open>Scheduling starts only what is ready\<close>

lemma drop_delayed:
  obtains r where "drop_session sc now am (delay_session am sv) = sv\<lparr>sv_refs := r\<rparr>"
    and "\<And>i. alive (sv\<lparr>sv_refs := r\<rparr>) i \<Longrightarrow> alive sv i \<or> am_session am = Some i"
    and "\<And>i. alive sv i \<Longrightarrow> alive (sv\<lparr>sv_refs := r\<rparr>) i"
proof (cases "am_session am")
  case None
  show ?thesis
    by (rule that [of "sv_refs sv"]) (use None in \<open>auto simp: drop_session_def delay_session_def\<close>)
next
  case (Some sid)
  let ?r = "remove1 (AutoSync, sid) (sv_refs sv @ [(Delayed, sid)])"
  have "(Delayed, sid) \<in> set ?r"
    by (simp add: in_set_remove1)
  then have m: "sid \<in> snd ` set ?r"
    by (rule image_eqI [rotated]) simp
  have other: "i \<in> snd ` set ?r" if "i \<in> snd ` set (sv_refs sv)" for i
    using that m by (cases "i = sid") (auto simp: image_iff in_set_remove1)
  have "alive (sv\<lparr>sv_refs := ?r\<rparr>) sid"
    using m by (simp add: alive_iff)
  then have d: "drop_session sc now am (delay_session am sv) = sv\<lparr>sv_refs := ?r\<rparr>"
    using Some by (simp add: drop_session_def delay_session_def delaySessionDestruction_def unref_session_def)
  show ?thesis
  proof (rule that [OF d])
    show "alive sv i \<or> am_session am = Some i" if "alive (sv\<lparr>sv_refs := ?r\<rparr>) i" for i
      using that Some set_remove1_subset [of "(AutoSync, sid)" "sv_refs sv @ [(Delayed, sid)]"]
      by (auto simp: alive_iff)
    show "alive (sv\<lparr>sv_refs := ?r\<rparr>) i" if "alive sv i" for i
      using that other by (auto simp: alive_iff)
  qed
qed

lemma isIdle_refs [simp]: "isIdle (sv\<lparr>sv_refs := r\<rparr>) = isIdle sv"
  by (simp add: isIdle_def)

lemma startAuto_active:
  assumes "isIdle sv"
  shows "sv_next (snd (startAutoSession dev config sv)) = sv_next sv + 1"
    and "map_option ss_configName (sv_sessions (snd (startAutoSession dev config sv)) (sv_next sv)) = Some config"
    and "\<not> sv_shutdownRequested sv \<Longrightarrow> sv_activeSession (snd (startAutoSession dev config sv)) = Some (sv_next sv)"
proof -
  let ?c = "createSession AutoSync (Session dev config []) sv"
  have "isIdle ?c" "alive ?c (sv_next sv)" "sv_shutdownRequested ?c = sv_shutdownRequested sv"
    using assms by (auto simp: createSession_def isIdle_def alive_iff)
  then show "sv_next (snd (startAutoSession dev config sv)) = sv_next sv + 1"
    and "map_option ss_configName (sv_sessions (snd (startAutoSession dev config sv)) (sv_next sv)) = Some config"
    and "\<not> sv_shutdownRequested sv \<Longrightarrow> sv_activeSession (snd (startAutoSession dev config sv)) = Some (sv_next sv)"
    using enqueue_idle [of ?c "sv_next sv"] enqueue_sessions [of "sv_next sv" ?c]
    by (simp_all add: startAutoSession_def createSession_def Session_def)
qed

text \<open>The cases of \<open>schedule\<close>.\<close>

lemma schedule_cases:
  assumes r: "schedule sc now (am, sv) = (am', sv')"
  obtains
    (disabled) "\<not> preventTerm am" "am' = am\<lparr>am_idleConnected := False\<rparr>" "sv' = sv"
  | (busy) "\<not> isIdle sv" "am' = am\<lparr>am_idleConnected := True\<rparr>" "sv' = sv"
  | (wait) tasks am2 where "task_loop now (am_peerMap am) (am\<lparr>am_idleConnected := False\<rparr>) = (tasks, am2, None)"
      "am' = am2\<lparr>am_peerMap := tasks\<rparr>" "sv' = sv" "isIdle sv"
  | (start) tasks am2 c t url sv1 where
      "task_loop now (am_peerMap am) (am\<lparr>am_idleConnected := False\<rparr>) = (tasks, am2, Some (c, t, url))" "isIdle sv"
      "sv1 = drop_session sc now am2 (delay_session am2 sv)"
      "am' = am2\<lparr>am_peerMap := tasks, am_session := Some (sv_next sv1), am_sessionURL := url, am_idleConnected := True\<rparr>"
      "sv' = snd (startAutoSession (at_remoteDeviceId t) c sv1)"
proof -
  let ?am = "am\<lparr>am_idleConnected := False\<rparr>"
  have p: "preventTerm ?am = preventTerm am"
    by (simp add: preventTerm_def)
  obtain tasks am2 f where l: "task_loop now (am_peerMap am) ?am = (tasks, am2, f)"
    by (metis prod_cases3)
  consider "\<not> preventTerm am" | "preventTerm am" "\<not> isIdle sv" | "preventTerm am" "isIdle sv" "f = None"
    | c t url where "preventTerm am" "isIdle sv" "f = Some (c, t, url)"
    by (metis option.exhaust prod_cases3)
  then show ?thesis
  proof cases
    case 1
    show ?thesis by (rule disabled) (use 1 r p in \<open>simp_all add: schedule_def Let_def\<close>)
  next
    case 2
    show ?thesis by (rule busy) (use 2 r p in \<open>simp_all add: schedule_def Let_def connectIdle_def\<close>)
  next
    case 3
    show ?thesis by (rule wait [OF l [unfolded 3(3)]]) (use 3 r p l in \<open>simp_all add: schedule_def Let_def\<close>)
  next
    case 4
    show ?thesis
      by (rule start [OF l [unfolded 4(3)] _ refl]) (use 4 r p l in \<open>simp_all add: schedule_def Let_def connectIdle_def\<close>)
  qed
qed

lemma task_ready_idle [simp]: "task_ready now (am\<lparr>am_idleConnected := b\<rparr>) = task_ready now am"
  by (simp add: task_ready_def transport_ready_def starttime_def fun_eq_iff cong: Transport.case_cong)


section \<open>Histories\<close>

datatype auto_call =
    Config_Changed timespec "string list" "string \<Rightarrow> auto_config option" string
  | Http_Presence timespec bool
  | Bt_Presence timespec bool
  | Timer timespec auto_timer string
  | Idle_Signal timespec
  | Sync_Started timespec nat string
  | Sync_Success bool string
  | Sync_Done timespec bool nat int
  | Server_Call server_call

primrec auto_do :: "status_codes \<Rightarrow> auto_call \<Rightarrow> auto_sync \<times> server \<Rightarrow> auto_sync \<times> server" where
  "auto_do sc (Config_Changed now existing configs configName) st = initConfig sc now existing configs configName st"
| "auto_do sc (Http_Presence now present) st = http_presence sc now present st"
| "auto_do sc (Bt_Presence now present) st = bt_presence sc now present st"
| "auto_do sc (Timer now kind configName) st = timer_triggered sc now kind configName st"
| "auto_do sc (Idle_Signal now) st = idle_signal_received sc now st"
| "auto_do sc (Sync_Started now sid configName) st = (sessionStarted now sid configName (fst st), snd st)"
| "auto_do sc (Sync_Success notify configName) st = (autoSyncSuccessStart notify configName (fst st), snd st)"
| "auto_do sc (Sync_Done now notify sid status) st = session_done sc now notify sid status st"
| "auto_do sc (Server_Call call) st = (fst st, snd (server_do sc call (snd st)))"

definition auto_run :: "status_codes \<Rightarrow> auto_call list \<Rightarrow> auto_sync \<times> server" where
  "auto_run sc calls = fold (auto_do sc) calls (AutoSyncManager, Server)"

subsection \<open>The server stays consistent\<close>

definition auto_ok :: "auto_sync \<times> server \<Rightarrow> bool" where
  "auto_ok st \<longleftrightarrow> server_ok (snd st) \<and>
     (\<forall>sid. am_session (fst st) = Some sid \<longrightarrow> (AutoSync, sid) \<in> set (sv_refs (snd st)))"

lemma auto_ok_am: "auto_ok (am, sv) \<Longrightarrow> am_session am' = am_session am \<Longrightarrow> auto_ok (am', sv)"
  by (simp add: auto_ok_def)

lemma drop_delayed_ok:
  assumes ok: "auto_ok (am, sv)"
  shows "server_ok (drop_session sc now am (delay_session am sv))"
proof -
  obtain r where r: "drop_session sc now am (delay_session am sv) = sv\<lparr>sv_refs := r\<rparr>"
    and sub: "\<And>i. alive (sv\<lparr>sv_refs := r\<rparr>) i \<Longrightarrow> alive sv i \<or> am_session am = Some i"
    and sup: "\<And>i. alive sv i \<Longrightarrow> alive (sv\<lparr>sv_refs := r\<rparr>) i"
    by (rule drop_delayed [of sc now am sv thesis]) blast
  have "alive sv i" if h: "am_session am = Some i" for i
  proof -
    have "(AutoSync, i) \<in> set (sv_refs sv)"
      using ok h by (simp add: auto_ok_def)
    then have "i \<in> snd ` set (sv_refs sv)"
      by (rule image_eqI [rotated]) simp
    then show ?thesis
      by (simp add: alive_iff)
  qed
  then have "server_inv {} (sv\<lparr>sv_refs := r\<rparr>)"
    using ok sub sup by (intro server_inv_unref [OF _ refl]) (auto simp: auto_ok_def server_ok_def)
  then show ?thesis
    using ok by (simp add: r auto_ok_def server_ok_def)
qed

lemma schedule_ok:
  assumes ok: "auto_ok st"
  shows "auto_ok (schedule sc now st)"
proof -
  obtain am sv am' sv' where st: "st = (am, sv)" and r: "schedule sc now (am, sv) = (am', sv')"
    by (metis surj_pair)
  from r have "auto_ok (am', sv')"
  proof (cases rule: schedule_cases)
    case (wait tasks am2)
    then show ?thesis
      using ok task_loop_none [OF wait(1)] by (auto simp: st auto_ok_def dest: slots_leD)
  next
    case (start tasks am2 c t url sv1)
    have "am_session am2 = am_session am"
      using task_loop_slots [OF start(1)] by (simp add: slots_leD)
    then have ok1: "server_ok sv1"
      using ok drop_delayed_ok [of am2 sv sc now] by (simp add: st start(3) auto_ok_def)
    show ?thesis
      using start_session_ok(2,3) [OF ok1, of "Session (at_remoteDeviceId t) c []" AutoSync]
      by (simp add: start auto_ok_def startAutoSession_def)
  qed (use ok in \<open>auto simp: st auto_ok_def\<close>)
  then show ?thesis
    by (simp add: st r)
qed

lemma init_one_ok: "auto_ok st \<Longrightarrow> auto_ok (init_one sc now configs configName st)"
  unfolding init_one_def
  by (rule schedule_ok [OF auto_ok_am [of "fst st"]]) (simp_all add: init_task_def update_lock_def Let_def)

lemma funpow_schedule_ok: "auto_ok st \<Longrightarrow> auto_ok ((schedule sc now ^^ n) st)"
  by (induction n) (simp_all add: schedule_ok)

lemma with_task_session [simp]: "am_session (with_task c f am) = am_session am"
  by (simp add: with_task_def)

lemma autoSyncDone_ok:
  assumes "auto_ok st"
  shows "auto_ok (autoSyncDone sc now notify c status st)"
proof -
  obtain am sv where st: "st = (am, sv)" by (cases st)
  have "server_ok (drop_session sc now am' (delay_session am' sv))" if "am_session am' = am_session am" for am'
    by (rule drop_delayed_ok [OF auto_ok_am [of am]]) (use assms that in \<open>simp_all add: st\<close>)
  then show ?thesis
    by (simp add: st autoSyncDone_def auto_ok_def publish_def Let_def split: option.split)
qed

lemma session_done_ok:
  assumes "auto_ok st"
  shows "auto_ok (session_done sc now notify sid status st)"
proof -
  have "auto_ok (fold (\<lambda>(i, c, own) st.
         if i = sid
         then (let st = (anySyncDone c status (fst st), snd st)
               in if own then autoSyncDone sc now notify c status st else st)
         else st) slots st)" if "auto_ok st" for slots st
    using that
  proof (induction slots arbitrary: st)
    case (Cons slot slots)
    have "auto_ok (anySyncDone c status (fst st), snd st)" for c
      by (rule auto_ok_am [of "fst st"]) (use Cons.prems in \<open>simp_all add: anySyncDone_def\<close>)
    then show ?case
      using Cons by (cases slot) (simp add: autoSyncDone_ok Let_def)
  qed simp
  then show ?thesis
    using assms by (simp add: session_done_def)
qed

lemma auto_do_ok:
  assumes ok: "auto_ok st"
  shows "auto_ok (auto_do sc call st)"
proof (cases call)
  case (Config_Changed now existing configs configName)
  have "auto_ok (fold (init_one sc now configs) names st)" if "auto_ok st" for names st
    using that by (induction names arbitrary: st) (simp_all add: init_one_ok)
  then show ?thesis
    using ok Config_Changed by (simp add: initConfig_def init_one_ok Let_def)
next
  case (Http_Presence now present)
  show ?thesis
    unfolding Http_Presence auto_do.simps http_presence_def Let_def
    by (rule funpow_schedule_ok [OF auto_ok_am [of "fst st"]]) (use ok in simp_all)
next
  case (Bt_Presence now present)
  show ?thesis
    unfolding Bt_Presence auto_do.simps bt_presence_def Let_def
    by (rule funpow_schedule_ok [OF auto_ok_am [of "fst st"]]) (use ok in simp_all)
next
  case (Timer now kind c)
  have "auto_ok (schedule sc now (with_task c (stop_timer kind) (fst st), snd st))"
    by (rule schedule_ok [OF auto_ok_am [of "fst st"]]) (use ok in simp_all)
  then show ?thesis
    using ok Timer by (simp add: timer_triggered_def split: option.split)
next
  case (Sync_Started now sid c)
  then show ?thesis
    using ok by (simp add: auto_ok_def sessionStarted_def)
next
  case (Sync_Success notify c)
  then show ?thesis
    using ok by (simp add: auto_ok_def autoSyncSuccessStart_def publish_def Let_def split: option.split)
next
  case (Server_Call call)
  then show ?thesis
    using ok server_do_ok server_do_auto [of "snd st" sc call] by (simp add: auto_ok_def keeps_auto_def)
qed (use ok in \<open>simp_all add: idle_signal_received_def schedule_ok session_done_ok\<close>)

lemma auto_run_ok: "auto_ok (auto_run sc calls)"
proof -
  have "auto_ok (fold (auto_do sc) calls st)" if "auto_ok st" for st
    using that by (induction calls arbitrary: st) (simp_all add: auto_do_ok)
  moreover have "auto_ok (AutoSyncManager, Server)"
    using server_run_ok [of sc "[]"] by (simp add: auto_ok_def AutoSyncManager_def server_run_def)
  ultimately show ?thesis
    by (simp add: auto_run_def)
qed

section \<open>Waking up\<close>

text \<open>
  The manager is called again in time: it waits for the idle signal, or every enabled task waits for its
  interval timer or for the transport of each of its URLs.
\<close>

definition auto_wakes :: "auto_sync \<Rightarrow> bool" where
  "auto_wakes am \<longleftrightarrow> am_idleConnected am \<or> (\<forall>(c, t)\<in>set (am_peerMap am). enabled_task t \<longrightarrow> task_waits am t)"

lemma task_waits_cong:
  "am_httpSlots am' = am_httpSlots am \<Longrightarrow> am_btSlots am' = am_btSlots am \<Longrightarrow>
   am_httpStartTime am' = am_httpStartTime am \<Longrightarrow> am_btStartTime am' = am_btStartTime am \<Longrightarrow>
   task_waits am' t = task_waits am t"
  by (simp add: task_waits_def url_waits_def cong: Transport.case_cong)

lemma schedule_wakes:
  assumes r: "schedule sc now (am, sv) = (am', sv')"
  shows "auto_wakes am'"
  using r
proof (cases rule: schedule_cases)
  case disabled
  have "\<not> enabled_task t" if "(c, t) \<in> set (am_peerMap am)" for c t
    using disabled(1) that by (auto simp: preventTerm_def list_ex_iff enabled_task_def)
  then show ?thesis
    using disabled by (auto simp: auto_wakes_def)
next
  case (wait tasks am2)
  have "task_waits (am2\<lparr>am_peerMap := tasks\<rparr>) t = task_waits am2 t" for t
    by (rule task_waits_cong) simp_all
  then show ?thesis
    using task_loop_none [OF wait(1)] wait(2) by (auto simp: auto_wakes_def)
qed (simp_all add: auto_wakes_def)

lemma schedule_wakes_st: "auto_wakes (fst (schedule sc now st))"
  using schedule_wakes [of sc now "fst st" "snd st"] by (metis prod.collapse)

text \<open>When the manager waits for the idle signal, the server is not idle, so that the signal will come.\<close>

lemma schedule_idle_signal:
  assumes ok: "auto_ok (am, sv)" and r: "schedule sc now (am, sv) = (am', sv')" and w: "am_idleConnected am'"
  shows "\<not> isIdle sv'"
  using r
proof (cases rule: schedule_cases)
  case (wait tasks am2)
  then show ?thesis
    using w task_loop_none [OF wait(1)] by (auto dest: slots_leD)
next
  case (start tasks am2 c t url sv1)
  have "am_session am2 = am_session am"
    using task_loop_slots [OF start(1)] by (simp add: slots_leD)
  then have "server_ok sv1"
    using ok drop_delayed_ok [of am2 sv sc now] by (simp add: start(3) auto_ok_def)
  then show ?thesis
    using start_session_ok(4) [of sv1 "Session (at_remoteDeviceId t) c []"] by (simp add: start(5) startAutoSession_def)
qed (use w in simp_all)

text \<open>The end of a successful sync enables a task again that had failed permanently.\<close>

definition permanent :: "int \<Rightarrow> bool" where
  "permanent status \<longleftrightarrow> status \<noteq> STATUS_OK \<and> \<not> ErrorIsTemporary status"

definition failed_task :: "auto_sync \<Rightarrow> string \<Rightarrow> bool" where
  "failed_task am c \<longleftrightarrow> list_ex (\<lambda>(c', t). c' = c \<and> at_permanentFailure t) (am_peerMap am)"

primrec revives :: "auto_sync \<Rightarrow> auto_call \<Rightarrow> bool" where
  "revives am (Config_Changed now existing configs configName) = False"
| "revives am (Http_Presence now present) = False"
| "revives am (Bt_Presence now present) = False"
| "revives am (Timer now kind configName) = False"
| "revives am (Idle_Signal now) = False"
| "revives am (Sync_Started now sid configName) = False"
| "revives am (Sync_Success notify configName) = False"
| "revives am (Sync_Done now notify sid status) =
     (\<not> permanent status \<and> list_ex (\<lambda>(i, c, own). i = sid \<and> failed_task am c) (am_doneSlots am))"
| "revives am (Server_Call call) = False"

fun none_revived :: "status_codes \<Rightarrow> auto_call list \<Rightarrow> auto_sync \<times> server \<Rightarrow> bool" where
  "none_revived sc [] st = True"
| "none_revived sc (call # calls) st = (\<not> revives (fst st) call \<and> none_revived sc calls (auto_do sc call st))"

text \<open>A change of a task that neither enables it nor stops its timers.\<close>

lemma with_task_wakes:
  assumes w: "auto_wakes am"
    and f: "\<And>t. (c, t) \<in> set (am_peerMap am) \<Longrightarrow> (enabled_task (f t) \<longrightarrow> enabled_task t) \<and> task_waits am (f t) = task_waits am t"
  shows "auto_wakes (with_task c f am)"
proof -
  have same: "task_waits (with_task c f am) t = task_waits am t" for t
    by (rule task_waits_cong) (simp_all add: with_task_def)
  show ?thesis
  proof (cases "am_idleConnected am")
    case False
    have "task_waits am t'" if h: "(c', t') \<in> set (am_peerMap (with_task c f am))" and e: "enabled_task t'" for c' t'
    proof -
      obtain t where t: "(c', t) \<in> set (am_peerMap am)" and t': "t' = (if c' = c then f t else t)"
        using h by (auto simp: with_task_def)
      show ?thesis
      proof (cases "c' = c")
        case True
        then have "enabled_task t \<and> task_waits am (f t) = task_waits am t"
          using f [of t] t t' e by simp
        then show ?thesis
          using w False t t' True by (auto simp: auto_wakes_def)
      next
        case False
        then show ?thesis
          using w \<open>\<not> am_idleConnected am\<close> t t' e by (auto simp: auto_wakes_def)
      qed
    qed
    then show ?thesis
      unfolding auto_wakes_def same by blast
  qed (simp add: auto_wakes_def with_task_def)
qed

lemma auto_wakes_cong:
  assumes "auto_wakes am" and "am_peerMap am' = am_peerMap am" and "am_idleConnected am' = am_idleConnected am"
    and "am_httpSlots am' = am_httpSlots am" and "am_btSlots am' = am_btSlots am"
    and "am_httpStartTime am' = am_httpStartTime am" and "am_btStartTime am' = am_btStartTime am"
  shows "auto_wakes am'"
  using assms task_waits_cong [of am' am] by (simp add: auto_wakes_def)

lemma not_failed_update: "\<not> at_permanentFailure t \<Longrightarrow> t\<lparr>at_permanentFailure := False\<rparr> = t"
  by (cases t) simp

lemma anySyncDone_wakes:
  assumes w: "auto_wakes am" and p: "permanent status \<or> \<not> failed_task am c"
  shows "auto_wakes (anySyncDone c status am)" and "\<not> permanent status \<Longrightarrow> anySyncDone c status am = am"
proof -
  let ?f = "\<lambda>t. t\<lparr>at_permanentFailure := permanent status\<rparr>"
  have a: "anySyncDone c status am = with_task c ?f am"
    by (simp add: anySyncDone_def permanent_def)
  show "auto_wakes (anySyncDone c status am)"
    unfolding a
  proof (rule with_task_wakes [OF w])
    fix t assume "(c, t) \<in> set (am_peerMap am)"
    then have "permanent status \<or> \<not> at_permanentFailure t"
      using p by (auto simp: failed_task_def list_ex_iff)
    then show "(enabled_task (?f t) \<longrightarrow> enabled_task t) \<and> task_waits am (?f t) = task_waits am t"
      by (auto simp: enabled_task_def task_waits_def url_waits_def cong: Transport.case_cong)
  qed
  show "anySyncDone c status am = am" if np: "\<not> permanent status"
  proof -
    have "\<not> at_permanentFailure t" if "(c, t) \<in> set (am_peerMap am)" for t
      using p np that by (auto simp: failed_task_def list_ex_iff)
    then have "map (\<lambda>(c', t). (c', if c' = c then ?f t else t)) (am_peerMap am) = am_peerMap am"
      using np by (intro map_idI) (auto simp: not_failed_update)
    then show ?thesis
      unfolding a by (simp add: with_task_def)
  qed
qed

lemma autoSyncDone_am:
  "\<exists>pub. fst (autoSyncDone sc now notify c status st) = (fst st)\<lparr>am_session := None, am_published := pub\<rparr>"
proof -
  obtain am sv where st: "st = (am, sv)" by (cases st)
  have "\<exists>pub. (case x of None \<Rightarrow> am | Some (summary, body) \<Rightarrow> publish summary body am) = am\<lparr>am_published := pub\<rparr>" for x
  proof (cases x)
    case None
    then show ?thesis by (intro exI [of _ "am_published am"]) simp
  qed (auto simp: publish_def)
  moreover have "\<exists>pub. am = am\<lparr>am_published := pub\<rparr>"
    by (intro exI [of _ "am_published am"]) simp
  ultimately have "\<exists>pub. (if notify then (case kfind id c (am_peerMap am) of None \<Rightarrow> am
      | Some task \<Rightarrow> (case done_notification task status of None \<Rightarrow> am | Some (summary, body) \<Rightarrow> publish summary body am)) else am)
      = am\<lparr>am_published := pub\<rparr>"
    by (auto split: option.split)
  then obtain pub where "(if notify then (case kfind id c (am_peerMap am) of None \<Rightarrow> am
      | Some task \<Rightarrow> (case done_notification task status of None \<Rightarrow> am | Some (summary, body) \<Rightarrow> publish summary body am)) else am)
      = am\<lparr>am_published := pub\<rparr>" ..
  then show ?thesis
    by (intro exI [of _ pub]) (simp add: st autoSyncDone_def Let_def)
qed

lemma failed_task_peerMap: "am_peerMap am' = am_peerMap am \<Longrightarrow> failed_task am' = failed_task am"
  by (simp add: failed_task_def fun_eq_iff)

lemma session_done_wakes:
  assumes w: "auto_wakes (fst st)"
    and p: "\<not> revives (fst st) (Sync_Done now notify sid status)"
  shows "auto_wakes (fst (session_done sc now notify sid status st))"
proof -
  let ?f = "\<lambda>(i, c, own) st. if i = sid
     then (let st = (anySyncDone c status (fst st), snd st)
           in if own then autoSyncDone sc now notify c status st else st)
     else st"
  have one: "auto_wakes (fst (?f (i, c, own) u)) \<and> (permanent status \<or> failed_task (fst (?f (i, c, own) u)) = failed_task (fst u))"
    if u: "auto_wakes (fst u)" and h: "i = sid \<longrightarrow> permanent status \<or> \<not> failed_task (fst u) c" for i c own u
  proof (cases "i = sid")
    case True
    let ?a = "anySyncDone c status (fst u)"
    have a: "auto_wakes ?a" "\<not> permanent status \<Longrightarrow> ?a = fst u"
      using anySyncDone_wakes [OF u, of status c] h True by auto
    obtain pub where d: "fst (autoSyncDone sc now notify c status (?a, snd u)) = ?a\<lparr>am_session := None, am_published := pub\<rparr>"
      using autoSyncDone_am [of sc now notify c status "(?a, snd u)"] by auto
    have "auto_wakes (?a\<lparr>am_session := None, am_published := pub\<rparr>)"
      by (rule auto_wakes_cong [OF a(1)]) simp_all
    moreover have "failed_task (?a\<lparr>am_session := None, am_published := pub\<rparr>) = failed_task ?a"
      by (rule failed_task_peerMap) simp
    ultimately show ?thesis
      using a True d by (auto simp: Let_def)
  qed (use u in simp)
  have "auto_wakes (fst (fold ?f slots u))"
    if "auto_wakes (fst u)" and "permanent status \<or> (\<forall>(i, c, own)\<in>set slots. i = sid \<longrightarrow> \<not> failed_task (fst u) c)" for slots u
    using that
  proof (induction slots arbitrary: u)
    case (Cons slot slots)
    obtain i c own where e: "slot = (i, c, own)" by (cases slot)
    have "auto_wakes (fst (?f slot u))" "permanent status \<or> failed_task (fst (?f slot u)) = failed_task (fst u)"
      using one [OF Cons.prems(1), of i c own] Cons.prems(2) unfolding e by auto
    then have "auto_wakes (fst (fold ?f slots (?f slot u)))"
      using Cons.prems(2) by (intro Cons.IH) auto
    then show ?case
      by simp
  qed simp
  then show ?thesis
    using w p by (simp add: session_done_def list_ex_iff case_prod_beta)
qed

lemma url_waits_presence:
  "am_httpSlots am = 0 \<Longrightarrow> task_waits (am\<lparr>am_httpStartTime := start\<rparr>) t = task_waits am t"
  "am_btSlots am = 0 \<Longrightarrow> task_waits (am\<lparr>am_btStartTime := start\<rparr>) t = task_waits am t"
  by (simp_all add: task_waits_def url_waits_def cong: Transport.case_cong)

lemma funpow_schedule_wakes: "auto_wakes (fst ((schedule sc now ^^ n) st))" if "n = 0 \<Longrightarrow> auto_wakes (fst st)"
  using that by (cases n) (simp_all add: schedule_wakes_st)

lemma auto_do_wakes:
  assumes w: "auto_wakes (fst st)" and p: "\<not> revives (fst st) call"
  shows "auto_wakes (fst (auto_do sc call st))"
proof (cases call)
  case (Http_Presence now present)
  show ?thesis
    unfolding Http_Presence auto_do.simps http_presence_def Let_def
    by (rule funpow_schedule_wakes) (use w in \<open>simp add: auto_wakes_def url_waits_presence\<close>)
next
  case (Bt_Presence now present)
  show ?thesis
    unfolding Bt_Presence auto_do.simps bt_presence_def Let_def
    by (rule funpow_schedule_wakes) (use w in \<open>simp add: auto_wakes_def url_waits_presence\<close>)
next
  case (Sync_Started now sid c)
  have "auto_wakes (with_task c (\<lambda>task. task\<lparr>at_lastSyncTime := now\<rparr>) (fst st))"
    by (rule with_task_wakes [OF w]) (simp add: enabled_task_def task_waits_def url_waits_def cong: Transport.case_cong)
  then have "auto_wakes ((with_task c (\<lambda>task. task\<lparr>at_lastSyncTime := now\<rparr>) (fst st))\<lparr>am_doneSlots := slots\<rparr>)" for slots
    by (rule auto_wakes_cong) simp_all
  then show ?thesis
    using w by (simp add: Sync_Started sessionStarted_def)
next
  case (Sync_Success notify c)
  have a: "auto_wakes (with_task c (\<lambda>task. task\<lparr>at_syncSuccessStart := True\<rparr>) (fst st))"
    by (rule with_task_wakes [OF w]) (simp add: enabled_task_def task_waits_def url_waits_def cong: Transport.case_cong)
  have "auto_wakes (publish x y (with_task c (\<lambda>task. task\<lparr>at_syncSuccessStart := True\<rparr>) (fst st)))" for x y
    by (rule auto_wakes_cong [OF a]) (simp_all add: publish_def)
  then show ?thesis
    using w a by (simp add: Sync_Success autoSyncSuccessStart_def Let_def split: option.split)
next
  case (Sync_Done now notify sid status)
  then show ?thesis
    using session_done_wakes [OF w] p by simp
qed (use w in \<open>simp_all add: initConfig_def init_one_def schedule_wakes_st timer_triggered_def idle_signal_received_def Let_def
    split: option.split\<close>)


text \<open>A configuration with automatic syncing every minute, and the codes of the engine.\<close>

definition demo_config :: "string \<Rightarrow> string \<Rightarrow> auto_config option" where
  "demo_config url name =
     (if name = ''foo''
      then Some \<lparr>ac_syncURL = url, ac_autoSync = ''1'', ac_peerName = [], ac_interval = 60, ac_delay = 0,
             ac_remoteDevID = ''dev'', ac_notifyLevel = NOTIFY_ALL\<rparr>
      else None)"

definition demo_codes :: status_codes where
  "demo_codes = \<lparr>sc_fatal = 10500, sc_userabort = 20017\<rparr>"



section \<open>Observations\<close>

text \<open>
  A task that has failed permanently is enabled again by a successful sync that the user starts, but nothing
  calls \<open>schedule\<close> afterwards: no timer runs, no signal is connected, and the server is idle.
\<close>

lemma auto_sync_not_resumed:
  "let calls = [Config_Changed (Timespec 100 0) [] (demo_config ''http://server'') ''foo'', Http_Presence (Timespec 110 0) True,
        Sync_Started (Timespec 120 0) 0 ''foo'', Sync_Done (Timespec 130 0) False 0 10500,
        Timer (Timespec 170 0) Interval_Timer ''foo'',
        Sync_Started (Timespec 180 0) 1 ''foo'', Sync_Done (Timespec 190 0) False 1 0];
       (am, sv) = auto_run demo_codes calls
   in preventTerm am \<and> isIdle sv \<and> \<not> am_idleConnected am \<and> am_httpSlots am = 0 \<and> am_btSlots am = 0 \<and>
      list_all (\<lambda>(c, t). timer_task Interval_Timer t = None \<and> timer_task Http_Timer t = None \<and> timer_task Bt_Timer t = None)
        (am_peerMap am)"
  by code_simp

text \<open>
  A second space in the property \<open>syncURL\<close> gives an empty URL. It counts as a URL for another transport that is
  always ready, but an empty \<open>readyURL\<close> means that none was found: the task never runs and does not wait
  for anything.
\<close>

lemma auto_sync_empty_url:
  "let st = auto_run demo_codes [Config_Changed (Timespec 100 0) [] (demo_config '' http://server'') ''foo'', Http_Presence (Timespec 110 0) True,
        Timer (Timespec 170 0) Interval_Timer ''foo''];
       am = fst st
   in preventTerm am \<and> isIdle (snd st) \<and> \<not> am_idleConnected am \<and> am_httpSlots am = 0 \<and> am_btSlots am = 0 \<and>
      list_all (\<lambda>(c, t). timer_task Interval_Timer t = None \<and> timer_task Http_Timer t = None \<and> timer_task Bt_Timer t = None)
        (am_peerMap am) \<and> sv_next (snd st) = 0"
  by code_simp

text \<open>The level for changes shows the same notifications as the one for errors, not as the one for all.\<close>

lemma notify_changes_is_errors:
  "done_notification (task\<lparr>at_notifyLevel := NOTIFY_CHANGES\<rparr>) status =
   done_notification (task\<lparr>at_notifyLevel := NOTIFY_ERROR\<rparr>) status"
  by (simp add: done_notification_def)

text \<open>An interval of more than 68 years gives a negative number of seconds, which runs the timer at once.\<close>

lemma interval_timer_negative: "to_int (2 ^ 31 + 2) < 0"
  by (simp add: to_int_def)

end
