(* ===== verification/Dbus_Connection.thy ===== *)
theory Dbus_Connection
  imports Sync_Modes
begin

text \<open>
  \<open>Connection\<close> (src/src/dbus/server/connection.h and connection.cpp): the connection of a peer that sends
  messages through a D-Bus client. A connection starts a session for the first message, hands further
  messages to the process that runs the sync, and relays the replies. What it sends (D-Bus signals to
  the client, signals to the session, calls of the session) is recorded in \<open>cn_events\<close>. Stored
  configurations, the parser of notifications and the analysis of SyncML messages by libsynthesis are
  arguments.
\<close>

section \<open>State\<close>

datatype ConnectionState = SETUP | PROCESSING | WAITING | FINAL | DONE | FAILED

primrec ConnectionStateToString :: "ConnectionState \<Rightarrow> string" where
  "ConnectionStateToString SETUP = ''SETUP''"
| "ConnectionStateToString PROCESSING = ''PROCESSING''"
| "ConnectionStateToString WAITING = ''WAITING''"
| "ConnectionStateToString FINAL = ''FINAL''"
| "ConnectionStateToString DONE = ''DONE''"
| "ConnectionStateToString FAILED = ''FAILED''"

type_synonym string_map = "(string \<times> string) list"

text \<open>
  \<open>sendAbort\<close>, \<open>reply\<close>, \<open>m_messageSignal\<close> and \<open>m_statusSignal\<close>, and the calls of the session:
  \<open>SessionCreated\<close> has the ID of the peer, the configuration, the initial message if the session acts as
  server, and whether it was alerted.
\<close>

datatype connection_event =
  Reply string string string_map bool string
| AbortSignal
| MessageSignal string string
| StatusSignal string
| SessionCreated string string "(string \<times> string) option" bool
| StubConnectionError string
| KillSessions string
| SetConfig "(string \<times> string_map) list"
| RemoteInitiated
| SyncStarted string string_map

record san_content =
  sc_syncType :: "string list"
  sc_contentType :: "nat list"
  sc_serverURI :: "string list"

text \<open>
  The references to a connection: \<open>cn_owners\<close> are the clients that hold it, once for each reference,
  \<open>cn_delayed\<close> says that it is in \<open>m_delayDeletion\<close> of the server. \<open>cn_alive\<close> ends with the destructor.
  \<open>cn_session\<close> is the name of the configuration of the session.
\<close>

record connection =
  cn_peer :: string_map
  cn_mustAuthenticate :: bool
  cn_state :: ConnectionState
  cn_failure :: string
  cn_syncMode :: string
  cn_sourceModes :: string_map
  cn_sessionID :: string
  cn_session :: "string option"
  cn_timeoutSeconds :: int
  cn_timeout :: "int option"
  cn_incomingMsg :: string
  cn_incomingMsgType :: string
  cn_SANContent :: "san_content option"
  cn_peerBtAddr :: string
  cn_abortSent :: bool
  cn_description :: string
  cn_owners :: "string list"
  cn_delayed :: bool
  cn_alive :: bool
  cn_events :: "connection_event list"

text \<open>
  A notification as the parser returns it (\<open>sysync::SanPackage\<close>), with the entry for each number, and
  what a connection reads: the list of configurations with their URLs and remote device IDs, the time,
  the parser, the analysis of the first SyncML message.
\<close>

record san_package =
  san_serverID :: string
  san_nSync :: nat
  san_nthSync :: "nat \<Rightarrow> (int \<times> nat \<times> string) option"

record connection_env =
  ce_configs :: string_map
  ce_syncURL :: "string \<Rightarrow> string list"
  ce_remoteDevID :: "string \<Rightarrow> string"
  ce_currentTime :: string
  ce_san :: "string \<Rightarrow> san_package option"
  ce_analyze :: "string \<Rightarrow> string \<Rightarrow> se_error + string"

text \<open>\<open>std::exception::what\<close>.\<close>

fun what :: "se_error \<Rightarrow> string" where
  "what (Throw text) = text"
| "what (StatusThrow text status) = text"
| "what NullDeref = []"

definition send_event :: "connection_event \<Rightarrow> connection \<Rightarrow> connection" where
  "send_event e c = c\<lparr>cn_events := cn_events c @ [e]\<rparr>"

text \<open>Slots of the session are only called when there is a session.\<close>

definition tell_session :: "connection_event \<Rightarrow> connection \<Rightarrow> connection" where
  "tell_session e c = (if cn_session c = None then c else send_event e c)"

section \<open>Starting and ending a connection\<close>

definition buildDescription :: "string_map \<Rightarrow> string" where
  "buildDescription peer =
     (let desc = map_of peer ''description''; sid = map_of peer ''id'';
          trans = map_of peer ''transport''; trans_desc = map_of peer ''transport_description'';
          buffer = (case desc of Some d \<Rightarrow> d | None \<Rightarrow> [])
      in if sid \<noteq> None \<or> trans \<noteq> None then
           buffer @ (if buffer \<noteq> [] then '' '' else []) @ ''('' @
           (case sid of Some i \<Rightarrow> i @ (if trans \<noteq> None then '' via '' else []) | None \<Rightarrow> []) @
           (case trans of
              Some t \<Rightarrow> t @ (case trans_desc of Some d \<Rightarrow> '' '' @ d | None \<Rightarrow> [])
            | None \<Rightarrow> []) @ '')''
         else buffer)"

definition Connection_new :: "string \<Rightarrow> string_map \<Rightarrow> bool \<Rightarrow> connection" where
  "Connection_new sessionID peer must_authenticate =
     \<lparr>cn_peer = peer, cn_mustAuthenticate = must_authenticate, cn_state = SETUP, cn_failure = [],
      cn_syncMode = [], cn_sourceModes = [], cn_sessionID = sessionID, cn_session = None,
      cn_timeoutSeconds = - 1, cn_timeout = None, cn_incomingMsg = [], cn_incomingMsgType = [],
      cn_SANContent = None, cn_peerBtAddr = [], cn_abortSent = False,
      cn_description = buildDescription peer, cn_owners = [], cn_delayed = False, cn_alive = True,
      cn_events = []\<rparr>"

text \<open>\<open>Server::connect\<close>: the client of the caller holds the new connection.\<close>

definition Server_connect ::
  "bool \<Rightarrow> string \<Rightarrow> string \<Rightarrow> string_map \<Rightarrow> bool \<Rightarrow> string \<Rightarrow> se_error + connection" where
  "Server_connect shutdownRequested new_session caller peer must_authenticate session =
     (if shutdownRequested then Inl (Throw ''server shutting down'')
      else if session \<noteq> [] then Inl (Throw ''not implemented'')
      else Inr ((Connection_new new_session peer must_authenticate)\<lparr>cn_owners := [caller]\<rparr>))"

definition Connection_abort :: "connection \<Rightarrow> connection" where
  "Connection_abort c = (if \<not> cn_abortSent c then (send_event AbortSignal c)\<lparr>cn_abortSent := True\<rparr> else c)"

definition failed :: "string \<Rightarrow> connection \<Rightarrow> connection" where
  "failed reason c =
     (let c = (if cn_failure c = [] then tell_session (StubConnectionError reason) (c\<lparr>cn_failure := reason\<rparr>) else c);
          c = (Connection_abort c)\<lparr>cn_state := FAILED\<rparr>;
          c = send_event (StatusSignal reason) c
      in c\<lparr>cn_delayed := True, cn_owners := []\<rparr>)"

definition Connection_destruct :: "connection \<Rightarrow> connection" where
  "Connection_destruct c =
     (let c = (if cn_state c \<noteq> DONE then (Connection_abort c)\<lparr>cn_state := FAILED\<rparr> else c);
          c = send_event (StatusSignal (cn_failure c)) c
      in c\<lparr>cn_session := None, cn_timeout := None, cn_alive := False\<rparr>)"

text \<open>The destructor runs when the last reference is gone.\<close>

definition release :: "connection \<Rightarrow> connection" where
  "release c = (if cn_alive c \<and> cn_owners c = [] \<and> \<not> cn_delayed c then Connection_destruct c else c)"

definition Connection_shutdown :: "connection \<Rightarrow> connection" where
  "Connection_shutdown c = release (c\<lparr>cn_owners := []\<rparr>)"

definition Connection_clientGone :: "string \<Rightarrow> connection \<Rightarrow> connection" where
  "Connection_clientGone client c = release (c\<lparr>cn_owners := filter (\<lambda>owner. owner \<noteq> client) (cn_owners c)\<rparr>)"

definition delayDeletionCb :: "connection \<Rightarrow> connection" where
  "delayDeletionCb c = release (c\<lparr>cn_delayed := False\<rparr>)"

definition Connection_close :: "string list \<Rightarrow> string \<Rightarrow> bool \<Rightarrow> string \<Rightarrow> connection \<Rightarrow> connection step" where
  "Connection_close clients caller normal error c =
     (if caller \<notin> set clients then throw (Throw ''unknown client'') c
      else if caller \<notin> set (cn_owners c)
      then throw (Throw ''cannot detach from resource that client is not attached to'') (c\<lparr>cn_delayed := True\<rparr>)
      else
        let c = c\<lparr>cn_delayed := True, cn_owners := remove1 caller (cn_owners c)\<rparr>
        in if \<not> normal \<or> cn_state c \<noteq> FINAL then
             let err = (if error = [] then ''connection closed unexpectedly'' else error)
             in return (failed err (tell_session (StubConnectionError err) (send_event (StatusSignal err) c)))
           else return (tell_session (StubConnectionError []) (send_event (StatusSignal []) (c\<lparr>cn_state := DONE\<rparr>))))"

definition timeoutCb :: "connection \<Rightarrow> connection" where
  "timeoutCb c =
     failed (''timed out after '' @ show_int (cn_timeoutSeconds c) @ ''s'') (c\<lparr>cn_timeout := None\<rparr>)"

section \<open>Sending\<close>

definition activateTimeout :: "connection \<Rightarrow> connection" where
  "activateTimeout c = c\<lparr>cn_timeout := if 0 \<le> cn_timeoutSeconds c then Some (cn_timeoutSeconds c) else None\<rparr>"

definition Connection_send :: "string \<Rightarrow> string \<Rightarrow> string \<Rightarrow> connection \<Rightarrow> connection step" where
  "Connection_send buffer type url c =
     (if cn_state c \<noteq> PROCESSING then throw (Throw ''cannot send to our D-Bus peer'') c
      else return (send_event (Reply buffer type [(''URL'', url)] False (cn_sessionID c))
        ((activateTimeout (c\<lparr>cn_state := WAITING\<rparr>))\<lparr>cn_incomingMsg := []\<rparr>)))"

definition sendFinalMsg :: "connection \<Rightarrow> connection" where
  "sendFinalMsg c =
     (if cn_state c = PROCESSING
      then send_event (Reply [] [] [] True (cn_sessionID c)) (c\<lparr>cn_state := FINAL\<rparr>)
      else c)"

section \<open>The first message\<close>

definition m_contentTypeSyncML :: string where
  "m_contentTypeSyncML = ''application/vnd.syncml+xml''"

definition m_contentTypeSyncWBXML :: string where
  "m_contentTypeSyncWBXML = ''application/vnd.syncml+wbxml''"

definition m_contentTypeSAN :: string where
  "m_contentTypeSAN = ''application/vnd.syncml.ds.notification''"

definition IsSyncML :: "string \<Rightarrow> bool" where
  "IsSyncML messageType \<longleftrightarrow> messageType = m_contentTypeSyncML \<or> messageType = m_contentTypeSyncWBXML"

text \<open>
  The loops over the configurations: by URL, by Bluetooth address (which starts with the configuration
  found so far), and by name. \<open>before_plus\<close> is \<open>substr(0, find("+"))\<close>.
\<close>

fun match_url :: "connection_env \<Rightarrow> string \<Rightarrow> string list \<Rightarrow> string" where
  "match_url env serverID [] = []"
| "match_url env serverID (server # servers) =
     (let config = (if serverID \<in> set (ce_syncURL env server) then server else [])
      in if config \<noteq> [] then config else match_url env serverID servers)"

definition before_plus :: "string \<Rightarrow> string" where
  "before_plus s = takeWhile (\<lambda>ch. ch \<noteq> CHR ''+'') s"

definition is_bt_url :: "string \<Rightarrow> string \<Rightarrow> bool" where
  "is_bt_url addr url \<longleftrightarrow> starts_with (before_plus url) ''obex-bt://'' \<and> drop (length ''obex-bt://'') (before_plus url) = addr"

fun match_bt :: "connection_env \<Rightarrow> string \<Rightarrow> string \<Rightarrow> string list \<Rightarrow> string" where
  "match_bt env addr config [] = config"
| "match_bt env addr config (server # servers) =
     (let config = (if list_ex (is_bt_url addr) (ce_syncURL env server) then server else config)
      in if config \<noteq> [] then config else match_bt env addr config servers)"

text \<open>The name of a mode that a notification has as number.\<close>

definition all_modes :: "SyncMode list" where
  "all_modes =
     [SYNC_TWO_WAY, SYNC_SLOW, SYNC_ONE_WAY_FROM_CLIENT, SYNC_REFRESH_FROM_CLIENT, SYNC_ONE_WAY_FROM_SERVER,
      SYNC_REFRESH_FROM_SERVER, SA_SYNC_TWO_WAY, SA_SYNC_ONE_WAY_FROM_CLIENT, SA_SYNC_REFRESH_FROM_CLIENT,
      SA_SYNC_ONE_WAY_FROM_SERVER, SA_SYNC_REFRESH_FROM_SERVER, SYNC_RESTORE_FROM_BACKUP, SYNC_ONE_WAY_FROM_LOCAL,
      SYNC_REFRESH_FROM_LOCAL, SYNC_ONE_WAY_FROM_REMOTE, SYNC_REFRESH_FROM_REMOTE, SYNC_LOCAL_CACHE_SLOW,
      SYNC_LOCAL_CACHE_INCREMENTAL, SYNC_LAST]"

definition mode_name :: "int \<Rightarrow> string" where
  "mode_name syncType =
     (case find (\<lambda>m. mode_code m = syncType) all_modes of
        Some m \<Rightarrow> PrettyPrintSyncMode m True
      | None \<Rightarrow> ''sync-mode-'' @ show_int syncType)"

definition valid_type :: "int \<Rightarrow> bool" where
  "valid_type syncType \<longleftrightarrow> 200 \<le> syncType \<and> syncType \<le> 220"

fun san_entries :: "san_package \<Rightarrow> nat list \<Rightarrow> san_content \<Rightarrow> san_content" where
  "san_entries san [] content = content"
| "san_entries san (sync # syncs) content =
     san_entries san syncs
       (case san_nthSync san sync of
          None \<Rightarrow> content
        | Some (syncType, contentType, serverURI) \<Rightarrow>
            if \<not> valid_type syncType then content
            else content\<lparr>sc_syncType := sc_syncType content @ [mode_name syncType],
                         sc_serverURI := sc_serverURI content @ [serverURI],
                         sc_contentType := sc_contentType content @ [contentType]\<rparr>)"

definition obexd :: "string_map \<Rightarrow> string option" where
  "obexd peer =
     (case (map_of peer ''transport'', map_of peer ''id'') of
        (Some transport, Some sid) \<Rightarrow> if transport = ''org.openobex.obexd'' then Some (before_plus sid) else None
      | _ \<Rightarrow> None)"

definition san_config :: "connection_env \<Rightarrow> san_package \<Rightarrow> string option \<Rightarrow> string" where
  "san_config env san bt =
     (let servers = map fst (ce_configs env); serverID = san_serverID san;
          config = match_url env serverID servers;
          config = (case bt of Some addr \<Rightarrow> match_bt env addr config servers | None \<Rightarrow> config);
          config = (if config = [] \<and> serverID \<in> set servers then serverID else config)
      in if config = [] then serverID @ ''_'' @ ce_currentTime env else config)"

definition process_san :: "connection_env \<Rightarrow> string \<Rightarrow> connection \<Rightarrow> connection \<times> string" where
  "process_san env message c =
     (case ce_san env message of
        None \<Rightarrow> (c, ''default'')
      | Some san \<Rightarrow>
          let bt = obexd (cn_peer c);
              c = (case bt of Some addr \<Rightarrow> c\<lparr>cn_peerBtAddr := addr\<rparr> | None \<Rightarrow> c);
              config = san_config env san bt;
              content = \<lparr>sc_syncType = [], sc_contentType = [], sc_serverURI = []\<rparr>;
              c = (if san_nSync san = 0 then
                     (case san_nthSync san 0 of
                        Some (syncType, _, _) \<Rightarrow> if valid_type syncType then c\<lparr>cn_syncMode := mode_name syncType\<rparr> else c
                      | None \<Rightarrow> c)\<lparr>cn_SANContent := Some content\<rparr>
                   else c\<lparr>cn_SANContent := Some (san_entries san [1..<san_nSync san + 1] content)\<rparr>)
          in (c, config))"

text \<open>
  The first SyncML message: the configuration is the first one with the device ID of the message. The
  expression \<open>m_peer["config"]\<close> is evaluated exactly if there is no such key, and adds it.
\<close>

definition process_syncml ::
  "connection_env \<Rightarrow> string \<Rightarrow> string \<Rightarrow> connection \<Rightarrow> connection \<times> (se_error + string \<times> string)" where
  "process_syncml env message message_type c =
     (let c = (if map_of (cn_peer c) ''config'' = None then c\<lparr>cn_peer := kput id ''config'' [] (cn_peer c)\<rparr> else c)
      in (c, case ce_analyze env message message_type of
           Inl e \<Rightarrow> Inl e
         | Inr deviceID \<Rightarrow>
             if deviceID = [] then Inl (Throw ''could not extract LocURI=deviceID from initial message'')
             else (case find (\<lambda>config. ce_remoteDevID env config = deviceID) (map fst (ce_configs env)) of
                     Some config \<Rightarrow> if config = [] then Inl (Throw (''no configuration found for deviceID '' @ deviceID))
                                    else Inr (deviceID, config)
                   | None \<Rightarrow> Inl (Throw (''no configuration found for deviceID '' @ deviceID)))))"

text \<open>
  The start of a session. \<open>enqueue\<close> is what \<open>Server::enqueue\<close> does with the connection: nothing while
  another session is active, otherwise it calls \<open>ready\<close>.
\<close>

definition start_session ::
  "(connection \<Rightarrow> connection step) \<Rightarrow> string \<Rightarrow> string \<Rightarrow> (string \<times> string) option \<Rightarrow> bool \<Rightarrow> connection \<Rightarrow> connection step" where
  "start_session enqueue peerDeviceID config initial serverAlerted c =
     (let c = c\<lparr>cn_state := PROCESSING, cn_session := Some config\<rparr>;
          c = send_event (SessionCreated peerDeviceID config initial serverAlerted) c;
          c = tell_session (StubConnectionError ''closed prematurely'') c;
          c = (if peerDeviceID \<noteq> [] then send_event (KillSessions peerDeviceID) c else c)
      in enqueue c)"

definition process_setup ::
  "connection_env \<Rightarrow> (connection \<Rightarrow> connection step) \<Rightarrow> string \<Rightarrow> string \<Rightarrow> connection \<Rightarrow> connection step" where
  "process_setup env enqueue message message_type c =
     (if message_type = ''HTTP Config'' then start_session enqueue [] message None False c
      else if message_type = m_contentTypeSAN then
        (let (c, config) = process_san env message c in start_session enqueue [] config None True c)
      else if IsSyncML (takeWhile (\<lambda>ch. ch \<noteq> CHR '';'') message_type) then
        (case process_syncml env message message_type c of
           (c, Inl e) \<Rightarrow> throw e c
         | (c, Inr (deviceID, config)) \<Rightarrow> start_session enqueue deviceID config (Some (message, message_type)) False c)
      else throw (Throw (''message type '' @ [CHR 39] @ message_type @ [CHR 39] @ '' not supported for starting a sync'')) c)"

definition process_state ::
  "connection_env \<Rightarrow> (connection \<Rightarrow> connection step) \<Rightarrow> string \<Rightarrow> string \<Rightarrow> connection \<Rightarrow> connection step" where
  "process_state env enqueue message message_type c =
     (case cn_state c of
        SETUP \<Rightarrow> process_setup env enqueue message message_type c
      | PROCESSING \<Rightarrow> throw (Throw ''protocol error: already processing a message'') c
      | WAITING \<Rightarrow>
          return ((send_event (MessageSignal message message_type)
             (c\<lparr>cn_incomingMsg := message, cn_incomingMsgType := message_type\<rparr>))
             \<lparr>cn_state := PROCESSING, cn_timeout := None\<rparr>)
      | FINAL \<Rightarrow> throw (Throw ''protocol error: final reply sent, no further message processing possible'') c
      | DONE \<Rightarrow> throw (Throw ''protocol error: connection closed, no further message processing possible'') c
      | FAILED \<Rightarrow> throw (Throw (cn_failure c)) c)"

definition process ::
  "connection_env \<Rightarrow> (connection \<Rightarrow> connection step) \<Rightarrow> string list \<Rightarrow> string \<Rightarrow> string \<Rightarrow> string \<Rightarrow> connection \<Rightarrow> connection step" where
  "process env enqueue clients caller message message_type c =
     (if caller \<notin> set clients then throw (Throw ''unknown client'') c
      else if caller \<notin> set (cn_owners c) then throw (Throw ''client does not own connection'') c
      else case process_state env enqueue message message_type c of
             (None, c) \<Rightarrow> return c
           | (Some e, c) \<Rightarrow> throw e (failed (what e) c))"

section \<open>The session becomes active\<close>

text \<open>
  What \<open>ready\<close> reads: whether the configuration exists, its retry duration, the template for new
  configurations, the outcome of storing it and of starting the sync, and the sources with their
  URI.
\<close>

record ready_env =
  re_exists :: "string \<Rightarrow> bool"
  re_template :: "se_error + (string \<times> string_map) list"
  re_setConfig :: "se_error option"
  re_retryDuration :: "string \<Rightarrow> int"
  re_sources :: "string \<Rightarrow> string_map"
  re_sync :: "se_error option"

fun san_modes :: "string_map \<Rightarrow> string_map \<Rightarrow> string_map \<Rightarrow> string_map" where
  "san_modes sources [] modes = modes"
| "san_modes sources ((syncMode, serverURI) # entries) modes =
     san_modes sources entries
       (case find (\<lambda>(source, uri). starts_with uri serverURI) sources of
          Some (source, uri) \<Rightarrow> kput id source syncMode modes
        | None \<Rightarrow> modes)"

definition ready_config :: "ready_env \<Rightarrow> string \<Rightarrow> connection \<Rightarrow> connection step" where
  "ready_config env configName c =
     (if \<not> re_exists env configName \<and> cn_SANContent c \<noteq> None then
        (case re_template env of
           Inl e \<Rightarrow> throw e c
         | Inr tmpl \<Rightarrow>
             let main = (case map_of tmpl [] of Some m \<Rightarrow> m | None \<Rightarrow> []);
                 tmpl = (if cn_peerBtAddr c \<noteq> []
                          then kput id [] (kput id ''SyncURL'' (''obex-bt://'' @ cn_peerBtAddr c) main) tmpl else tmpl)
             in (re_setConfig env, send_event (SetConfig tmpl) c))
      else return c)"

definition ready :: "ready_env \<Rightarrow> connection \<Rightarrow> connection step" where
  "ready env c =
     (case cn_session c of
        None \<Rightarrow> throw NullDeref c
      | Some configName \<Rightarrow>
          andThen (ready_config env configName c) (\<lambda>c.
            let c = c\<lparr>cn_timeoutSeconds := re_retryDuration env configName\<rparr>;
                c = (case cn_SANContent c of
                       Some content \<Rightarrow>
                         if sc_syncType content \<noteq> [] then
                           let modes = san_modes (re_sources env configName)
                                         (zip (sc_syncType content) (sc_serverURI content)) (cn_sourceModes c)
                           in c\<lparr>cn_syncMode := (if modes = [] then [] else ''disabled''), cn_sourceModes := modes\<rparr>
                         else c
                     | None \<Rightarrow> c);
                c = (if cn_SANContent c \<noteq> None then send_event RemoteInitiated c else c)
            in (re_sync env, send_event (SyncStarted (cn_syncMode c) (cn_sourceModes c)) c)))"

section \<open>Histories\<close>

text \<open>
  Everything that happens to a connection: calls of clients, clients that leave the bus, the idle time in
  which the server drops delayed references, the timer, and calls of the session. A process call has the
  list of known clients, and the environment of \<open>ready\<close> if the session becomes active at once.
\<close>

datatype connection_call =
  Process connection_env "ready_env option" "string list" string string string
| Close "string list" string bool string
| Client_Gone string
| Idle
| Timed_Out
| Ready ready_env
| Send string string string
| Send_Final
| Shut_Down

fun enqueue_session :: "ready_env option \<Rightarrow> connection \<Rightarrow> connection step" where
  "enqueue_session None c = return c"
| "enqueue_session (Some env) c = ready env c"

text \<open>The session can only call a connection that is alive and that has created it.\<close>

definition by_session :: "(connection \<Rightarrow> connection step) \<Rightarrow> connection \<Rightarrow> connection step" where
  "by_session f c = (if cn_session c = None then return c else f c)"

primrec connection_do :: "connection_call \<Rightarrow> connection \<Rightarrow> connection step" where
  "connection_do (Process env active clients caller message type) c =
     process env (enqueue_session active) clients caller message type c"
| "connection_do (Close clients caller normal error) c = Connection_close clients caller normal error c"
| "connection_do (Client_Gone client) c = return (Connection_clientGone client c)"
| "connection_do Idle c = return (delayDeletionCb c)"
| "connection_do Timed_Out c = return (if cn_timeout c = None then c else timeoutCb c)"
| "connection_do (Ready env) c = by_session (ready env) c"
| "connection_do (Send buffer type url) c = by_session (Connection_send buffer type url) c"
| "connection_do Send_Final c = by_session (\<lambda>c. return (sendFinalMsg c)) c"
| "connection_do Shut_Down c = by_session (\<lambda>c. return (Connection_shutdown c)) c"

definition connection_step :: "connection_call \<Rightarrow> connection \<Rightarrow> connection" where
  "connection_step call c = (if cn_alive c then snd (connection_do call c) else c)"

definition connection_run :: "connection \<Rightarrow> connection_call list \<Rightarrow> connection" where
  "connection_run c calls = fold connection_step calls c"

text \<open>Exceptions have a text.\<close>

definition ready_texts :: "ready_env \<Rightarrow> bool" where
  "ready_texts env \<longleftrightarrow>
     (\<forall>e. re_template env = Inl e \<or> re_setConfig env = Some e \<or> re_sync env = Some e \<longrightarrow> what e \<noteq> [])"

fun call_texts :: "connection_call \<Rightarrow> bool" where
  "call_texts (Process env active clients caller message type) \<longleftrightarrow>
     (\<forall>e. ce_analyze env message type = Inl e \<longrightarrow> what e \<noteq> []) \<and> (\<forall>re. active = Some re \<longrightarrow> ready_texts re)"
| "call_texts call \<longleftrightarrow> True"

section \<open>The protocol that the client sees\<close>

text \<open>
  The states that the events of a connection lead to, as the description of the D-Bus interface has them:
  a message is accepted, then answered; the answer can be final; after that the connection can be closed
  normally; an abort ends it in any other state.
\<close>

fun protocol_step :: "ConnectionState \<Rightarrow> connection_event \<Rightarrow> ConnectionState option" where
  "protocol_step s (SessionCreated _ _ _ _) = (if s = SETUP then Some PROCESSING else None)"
| "protocol_step s (MessageSignal _ _) = (if s = WAITING then Some PROCESSING else None)"
| "protocol_step s (Reply _ _ _ final _) =
     (if s = PROCESSING then Some (if final then FINAL else WAITING) else None)"
| "protocol_step s AbortSignal = (if s = FAILED \<or> s = DONE then None else Some FAILED)"
| "protocol_step s (StatusSignal error) = Some (if s = FINAL \<and> error = [] then DONE else s)"
| "protocol_step s _ = Some s"

fun protocol :: "ConnectionState \<Rightarrow> connection_event list \<Rightarrow> ConnectionState option" where
  "protocol s [] = Some s"
| "protocol s (e # es) = Option.bind (protocol_step s e) (\<lambda>s. protocol s es)"

lemma protocol_append: "protocol s (es @ es') = Option.bind (protocol s es) (\<lambda>s. protocol s es')"
  by (induction es arbitrary: s) (auto split: Option.bind_split)

definition connection_ok :: "connection \<Rightarrow> bool" where
  "connection_ok c \<longleftrightarrow>
     protocol SETUP (cn_events c) = Some (cn_state c) \<and>
     (cn_abortSent c \<longleftrightarrow> cn_state c = FAILED) \<and>
     (cn_timeout c \<noteq> None \<longrightarrow> cn_state c = WAITING \<or> cn_state c = FAILED) \<and>
     (cn_state c = DONE \<or> cn_state c = FAILED \<longrightarrow> cn_owners c = [] \<and> (cn_alive c \<longrightarrow> cn_delayed c)) \<and>
     length (cn_owners c) \<le> 1 \<and>
     (cn_state c = SETUP \<longrightarrow> cn_session c = None)"

text \<open>The session is told that all is well only at a normal end.\<close>

definition stub_ok :: "connection \<Rightarrow> bool" where
  "stub_ok c \<longleftrightarrow> (StubConnectionError [] \<in> set (cn_events c) \<longrightarrow> cn_state c = DONE)"

lemma send_event_sel [simp]:
  "cn_events (send_event e c) = cn_events c @ [e]" "cn_state (send_event e c) = cn_state c"
  "cn_abortSent (send_event e c) = cn_abortSent c" "cn_timeout (send_event e c) = cn_timeout c"
  "cn_owners (send_event e c) = cn_owners c" "cn_delayed (send_event e c) = cn_delayed c"
  "cn_alive (send_event e c) = cn_alive c" "cn_session (send_event e c) = cn_session c"
  "cn_failure (send_event e c) = cn_failure c" "cn_SANContent (send_event e c) = cn_SANContent c"
  by (simp_all add: send_event_def)

lemma tell_session_sel [simp]:
  "cn_events (tell_session e c) = cn_events c @ (if cn_session c = None then [] else [e])"
  "cn_state (tell_session e c) = cn_state c"
  "cn_abortSent (tell_session e c) = cn_abortSent c" "cn_timeout (tell_session e c) = cn_timeout c"
  "cn_owners (tell_session e c) = cn_owners c" "cn_delayed (tell_session e c) = cn_delayed c"
  "cn_alive (tell_session e c) = cn_alive c" "cn_session (tell_session e c) = cn_session c"
  "cn_failure (tell_session e c) = cn_failure c"
  by (simp_all add: tell_session_def)

lemma abort_sel [simp]:
  "cn_events (Connection_abort c) = cn_events c @ (if cn_abortSent c then [] else [AbortSignal])"
  "cn_abortSent (Connection_abort c)"
  "cn_timeout (Connection_abort c) = cn_timeout c" "cn_alive (Connection_abort c) = cn_alive c"
  "cn_session (Connection_abort c) = cn_session c" "cn_failure (Connection_abort c) = cn_failure c"
  "cn_owners (Connection_abort c) = cn_owners c" "cn_delayed (Connection_abort c) = cn_delayed c"
  by (simp_all add: Connection_abort_def)

text \<open>What \<open>failed\<close> and the destructor leave behind.\<close>

definition failed_events :: "string \<Rightarrow> connection \<Rightarrow> connection_event list" where
  "failed_events reason c =
     (if cn_failure c = [] \<and> cn_session c \<noteq> None then [StubConnectionError reason] else []) @
     (if cn_abortSent c then [] else [AbortSignal]) @ [StatusSignal reason]"

lemma failed_sel [simp]:
  "cn_events (failed reason c) = cn_events c @ failed_events reason c"
  "cn_state (failed reason c) = FAILED" "cn_abortSent (failed reason c)"
  "cn_owners (failed reason c) = []" "cn_delayed (failed reason c)"
  "cn_alive (failed reason c) = cn_alive c" "cn_session (failed reason c) = cn_session c"
  by (simp_all add: failed_def Let_def failed_events_def)

lemma failed_ok:
  assumes "protocol SETUP (cn_events c) = Some (cn_state c)" "cn_abortSent c \<longleftrightarrow> cn_state c = FAILED" "cn_state c \<noteq> DONE"
  shows "connection_ok (failed reason c)"
  using assms by (auto simp: connection_ok_def failed_events_def protocol_append)

definition destruct_events :: "connection \<Rightarrow> connection_event list" where
  "destruct_events c =
     (if cn_state c \<noteq> DONE \<and> \<not> cn_abortSent c then [AbortSignal] else []) @ [StatusSignal (cn_failure c)]"

lemma destruct_sel [simp]:
  "cn_events (Connection_destruct c) = cn_events c @ destruct_events c"
  "cn_state (Connection_destruct c) = (if cn_state c = DONE then DONE else FAILED)"
  "cn_abortSent (Connection_destruct c) = (if cn_state c = DONE then cn_abortSent c else True)"
  "cn_timeout (Connection_destruct c) = None" "cn_owners (Connection_destruct c) = cn_owners c"
  "\<not> cn_alive (Connection_destruct c)" "cn_session (Connection_destruct c) = None"
  by (simp_all add: Connection_destruct_def Let_def destruct_events_def)

lemma release_ok:
  assumes "connection_ok (c\<lparr>cn_delayed := True\<rparr>)"
    and "cn_state c = DONE \<or> cn_state c = FAILED \<longrightarrow> cn_owners c = []"
  shows "connection_ok (release c)"
proof (cases "cn_alive c \<and> cn_owners c = [] \<and> \<not> cn_delayed c")
  case True
  then show ?thesis
    using assms by (auto simp: release_def connection_ok_def destruct_events_def protocol_append)
next
  case False
  then show ?thesis using assms by (auto simp: release_def connection_ok_def)
qed

text \<open>Steps that only tell the session something, and change nothing that the protocol is about.\<close>

fun internal :: "connection_event \<Rightarrow> bool" where
  "internal (SetConfig _) \<longleftrightarrow> True"
| "internal RemoteInitiated \<longleftrightarrow> True"
| "internal (SyncStarted _ _) \<longleftrightarrow> True"
| "internal (KillSessions _) \<longleftrightarrow> True"
| "internal _ \<longleftrightarrow> False"

lemma protocol_internal: "list_all internal es \<Longrightarrow> protocol s es = Some s"
proof (induction es)
  case (Cons e es)
  then show ?case by (cases e) auto
qed simp

definition keeps :: "connection \<Rightarrow> connection \<Rightarrow> bool" where
  "keeps c c' \<longleftrightarrow>
     cn_state c' = cn_state c \<and> cn_abortSent c' = cn_abortSent c \<and> cn_timeout c' = cn_timeout c \<and>
     cn_owners c' = cn_owners c \<and> cn_delayed c' = cn_delayed c \<and> cn_alive c' = cn_alive c \<and>
     cn_session c' = cn_session c \<and> cn_failure c' = cn_failure c \<and>
     (\<exists>es. cn_events c' = cn_events c @ es \<and> list_all internal es)"

lemma keeps_refl [simp]: "keeps c c"
  by (simp add: keeps_def)

lemma keeps_trans: "keeps a b \<Longrightarrow> keeps b c \<Longrightarrow> keeps a c"
  by (force simp: keeps_def)

lemma keeps_send [simp]: "keeps a c \<Longrightarrow> internal e \<Longrightarrow> keeps a (send_event e c)"
  by (auto simp: keeps_def)

lemma keeps_update [simp]:
  "keeps a c \<Longrightarrow> keeps a (c\<lparr>cn_peer := peer\<rparr>)" "keeps a c \<Longrightarrow> keeps a (c\<lparr>cn_peerBtAddr := addr\<rparr>)"
  "keeps a c \<Longrightarrow> keeps a (c\<lparr>cn_syncMode := mode\<rparr>)" "keeps a c \<Longrightarrow> keeps a (c\<lparr>cn_SANContent := content\<rparr>)"
  "keeps a c \<Longrightarrow> keeps a (c\<lparr>cn_sourceModes := modes\<rparr>)" "keeps a c \<Longrightarrow> keeps a (c\<lparr>cn_timeoutSeconds := s\<rparr>)"
  by (simp_all add: keeps_def)

lemma keeps_ok: "keeps c c' \<Longrightarrow> connection_ok c \<Longrightarrow> connection_ok c'"
  by (auto simp: keeps_def connection_ok_def protocol_append protocol_internal)

lemma internal_no_stub: "list_all internal es \<Longrightarrow> StubConnectionError t \<notin> set es"
  by (induction es) auto

lemma keeps_stub: "keeps c c' \<Longrightarrow> stub_ok c \<Longrightarrow> stub_ok c'"
  by (auto simp: keeps_def stub_ok_def internal_no_stub)

lemma ready_config_keeps: "keeps c (snd (ready_config env name c))"
  by (auto simp: ready_config_def Let_def split: sum.split)

lemma ready_keeps: "keeps c (snd (ready env c))"
proof (cases "cn_session c")
  case (Some name)
  obtain e c' where r: "ready_config env name c = (e, c')" by force
  have k: "keeps c c'" using ready_config_keeps [of c env name] by (simp add: r)
  show ?thesis
    using k by (cases e) (auto simp: ready_def r Some Let_def split: option.split)
qed (simp add: ready_def)

lemma enqueue_keeps: "keeps c (snd (enqueue_session active c))"
  by (cases active) (simp_all add: ready_keeps)

lemma process_san_keeps: "keeps c (fst (process_san env message c))"
  by (auto simp: process_san_def Let_def split: option.split)

lemma process_syncml_keeps: "keeps c (fst (process_syncml env message type c))"
  by (auto simp: process_syncml_def Let_def split: sum.split)

text \<open>
  The first message: either the session is created, and besides that there are only internal events, or there is
  an error before.
\<close>

definition session_started :: "(string \<times> string) option \<Rightarrow> bool \<Rightarrow> connection \<Rightarrow> connection \<Rightarrow> bool" where
  "session_started initial alerted c c' \<longleftrightarrow>
     (\<exists>dev config es es'.
        cn_state c' = PROCESSING \<and> cn_abortSent c' = cn_abortSent c \<and> cn_timeout c' = cn_timeout c \<and>
        cn_owners c' = cn_owners c \<and> cn_delayed c' = cn_delayed c \<and> cn_alive c' = cn_alive c \<and>
        cn_session c' = Some config \<and> cn_failure c' = cn_failure c \<and>
        cn_events c' = cn_events c @ es @ [SessionCreated dev config initial alerted, StubConnectionError ''closed prematurely''] @ es' \<and>
        list_all internal (es @ es'))"

lemma start_session_started:
  assumes "keeps c0 c"
  shows "session_started initial alerted c0 (snd (start_session (enqueue_session active) dev config initial alerted c))"
proof -
  let ?c1 = "tell_session (StubConnectionError ''closed prematurely'')
    (send_event (SessionCreated dev config initial alerted) (c\<lparr>cn_state := PROCESSING, cn_session := Some config\<rparr>))"
  let ?c2 = "if dev \<noteq> [] then send_event (KillSessions dev) ?c1 else ?c1"
  have k: "keeps ?c1 (snd (enqueue_session active ?c2))"
    by (rule keeps_trans [OF _ enqueue_keeps]) simp
  then obtain es' where "cn_events (snd (enqueue_session active ?c2)) = cn_events ?c1 @ es'" "list_all internal es'"
    by (auto simp: keeps_def)
  moreover obtain es where "cn_events c = cn_events c0 @ es" "list_all internal es"
    using assms by (auto simp: keeps_def)
  ultimately show ?thesis
    using k assms unfolding session_started_def start_session_def Let_def keeps_def
    by (intro exI [of _ dev] exI [of _ config] exI [of _ es] exI [of _ es']) simp
qed

lemma process_setup_cases:
  assumes "process_setup env (enqueue_session active) message type c = (err, c')"
  shows "(\<exists>initial alerted. session_started initial alerted c c' \<and> (alerted \<longrightarrow> initial = None)) \<or>
         (err \<noteq> None \<and> keeps c c')"
proof -
  consider (http) "type = ''HTTP Config''" | (san) "type \<noteq> ''HTTP Config''" "type = m_contentTypeSAN"
    | (syncml) "type \<noteq> ''HTTP Config''" "type \<noteq> m_contentTypeSAN" "IsSyncML (takeWhile (\<lambda>ch. ch \<noteq> CHR '';'') type)"
    | (other) "type \<noteq> ''HTTP Config''" "type \<noteq> m_contentTypeSAN" "\<not> IsSyncML (takeWhile (\<lambda>ch. ch \<noteq> CHR '';'') type)"
    by blast
  then show ?thesis
  proof cases
    case http
    then show ?thesis
      using assms start_session_started [of c c None False active "[]" message] by (auto simp: process_setup_def)
  next
    case san
    then show ?thesis
      using assms start_session_started [OF process_san_keeps [of c env message], where initial = None and alerted = True and dev = "[]"
          and active = active and config = "snd (process_san env message c)"]
      by (auto simp: process_setup_def split_def Let_def)
  next
    case syncml
    obtain c1 found where r: "process_syncml env message type c = (c1, found)" by force
    have k: "keeps c c1" using process_syncml_keeps [of c env message type] by (simp add: r)
    show ?thesis
    proof (cases found)
      case (Inl e)
      then show ?thesis using assms syncml r k by (auto simp: process_setup_def)
    next
      case (Inr p)
      then have "(err, c') = start_session (enqueue_session active) (fst p) (snd p) (Some (message, type)) False c1"
        using assms syncml r by (simp add: process_setup_def split_def)
      then show ?thesis
        using start_session_started [OF k, of "Some (message, type)" False active "fst p" "snd p"] by (metis snd_conv)
    qed
  next
    case other
    then show ?thesis using assms by (auto simp: process_setup_def)
  qed
qed

lemma session_started_ok:
  "session_started initial alerted c c' \<Longrightarrow> connection_ok c \<Longrightarrow> cn_state c = SETUP \<Longrightarrow> connection_ok c'"
  by (auto simp: session_started_def connection_ok_def protocol_append protocol_internal)

lemma session_started_stub: "session_started initial alerted c c' \<Longrightarrow> stub_ok c \<Longrightarrow> cn_state c = SETUP \<Longrightarrow> stub_ok c'"
  by (auto simp: session_started_def stub_ok_def internal_no_stub)

lemma process_state_ok:
  assumes "connection_ok c"
  shows "connection_ok (snd (process_state env (enqueue_session active) message type c))"
proof (cases "cn_state c")
  case SETUP
  obtain err c' where r: "process_setup env (enqueue_session active) message type c = (err, c')" by force
  show ?thesis
    using process_setup_cases [OF r] assms SETUP
    by (auto simp: process_state_def r intro: session_started_ok keeps_ok)
next
  case WAITING
  then show ?thesis
    using assms by (auto simp: process_state_def connection_ok_def protocol_append)
qed (use assms in \<open>auto simp: process_state_def\<close>)

lemma connection_ok_parts:
  assumes "connection_ok c"
  shows "protocol SETUP (cn_events c) = Some (cn_state c)" "cn_abortSent c \<longleftrightarrow> cn_state c = FAILED"
    "caller \<in> set (cn_owners c) \<Longrightarrow> cn_state c \<noteq> DONE \<and> cn_state c \<noteq> FAILED"
    "cn_timeout c \<noteq> None \<Longrightarrow> cn_state c \<noteq> DONE"
  using assms by (auto simp: connection_ok_def)

lemma process_state_done: "connection_ok c \<Longrightarrow> cn_state c \<noteq> DONE \<Longrightarrow>
   cn_state (snd (process_state env (enqueue_session active) message type c)) \<noteq> DONE"
proof (cases "cn_state c")
  case SETUP
  obtain err c' where r: "process_setup env (enqueue_session active) message type c = (err, c')" by force
  show ?thesis
    using process_setup_cases [OF r] SETUP by (auto simp: process_state_def r session_started_def keeps_def)
qed (auto simp: process_state_def)

lemma process_ok:
  assumes "connection_ok c"
  shows "connection_ok (snd (process env (enqueue_session active) clients caller message type c))"
proof (cases "caller \<in> set clients \<and> caller \<in> set (cn_owners c)")
  case True
  obtain err c' where r: "process_state env (enqueue_session active) message type c = (err, c')" by force
  have "connection_ok c'" "cn_state c' \<noteq> DONE"
    using process_state_ok [OF assms, of env active message type] connection_ok_parts(3) [OF assms, of caller]
      process_state_done [OF assms, of env active message type] True by (simp_all add: r)
  then show ?thesis
    using True connection_ok_parts(1,2) by (cases err) (auto simp: process_def r intro!: failed_ok)
next
  case False
  then show ?thesis using assms by (auto simp: process_def)
qed

lemma close_ok:
  assumes "connection_ok c"
  shows "connection_ok (snd (Connection_close clients caller normal error c))"
proof (cases "caller \<in> set clients \<and> caller \<in> set (cn_owners c)")
  case True
  let ?err = "if error = [] then ''connection closed unexpectedly'' else error"
  let ?c = "c\<lparr>cn_delayed := True, cn_owners := remove1 caller (cn_owners c)\<rparr>"
  have state: "cn_state c \<noteq> DONE" "cn_state c \<noteq> FAILED" and owners: "remove1 caller (cn_owners c) = []"
    using True connection_ok_parts(3) [OF assms, of caller] assms
    by (auto simp: connection_ok_def length_remove1 simp flip: length_0_conv)
  show ?thesis
  proof (cases "\<not> normal \<or> cn_state c \<noteq> FINAL")
    case False
    then show ?thesis
      using True assms owners by (auto simp: Connection_close_def Let_def connection_ok_def protocol_append)
  next
    case abnormal: True
    have "?err \<noteq> []" by simp
    then have "connection_ok (failed ?err (tell_session (StubConnectionError ?err) (send_event (StatusSignal ?err) ?c)))"
      using state connection_ok_parts(1,2) [OF assms] by (intro failed_ok) (auto simp: protocol_append)
    then show ?thesis
      using True abnormal by (simp add: Connection_close_def Let_def)
  qed
qed (use assms in \<open>auto simp: Connection_close_def connection_ok_def\<close>)

lemma timeoutCb_ok: "connection_ok c \<Longrightarrow> cn_timeout c \<noteq> None \<Longrightarrow> connection_ok (timeoutCb c)"
  using connection_ok_parts [of c] by (auto simp: timeoutCb_def intro!: failed_ok)

lemma fewer_owners_ok:
  assumes "connection_ok c"
  shows "connection_ok (release (c\<lparr>cn_owners := filter P (cn_owners c)\<rparr>))"
proof (rule release_ok)
  have "length (filter P (cn_owners c)) \<le> 1"
    using assms le_trans [OF length_filter_le] by (auto simp: connection_ok_def)
  then show "connection_ok (c\<lparr>cn_owners := filter P (cn_owners c), cn_delayed := True\<rparr>)"
    using assms by (simp add: connection_ok_def)
qed (use assms in \<open>auto simp: connection_ok_def\<close>)

lemma connection_do_ok:
  assumes "connection_ok c" "cn_alive c"
  shows "connection_ok (snd (connection_do call c))"
proof (cases call)
  case (Client_Gone client)
  then show ?thesis
    using fewer_owners_ok [OF assms(1)] by (simp add: Connection_clientGone_def)
next
  case Idle
  then show ?thesis
    using assms release_ok [of "c\<lparr>cn_delayed := False\<rparr>"] by (simp add: delayDeletionCb_def connection_ok_def)
next
  case (Ready env)
  then show ?thesis using assms keeps_ok [OF ready_keeps] by (simp add: by_session_def)
next
  case (Send buffer type url)
  then show ?thesis
    using assms by (auto simp: by_session_def Connection_send_def activateTimeout_def connection_ok_def protocol_append)
next
  case Send_Final
  then show ?thesis
    using assms by (auto simp: by_session_def sendFinalMsg_def connection_ok_def protocol_append)
next
  case Shut_Down
  then show ?thesis
    using assms fewer_owners_ok [OF assms(1), of "\<lambda>_. False"] by (simp add: by_session_def Connection_shutdown_def)
qed (use assms in \<open>auto simp: process_ok close_ok timeoutCb_ok\<close>)

text \<open>The texts of errors, and what the session is told.\<close>

lemma ready_error: "ready_texts env \<Longrightarrow> cn_session c \<noteq> None \<Longrightarrow> fst (ready env c) = Some e \<Longrightarrow> what e \<noteq> []"
  by (auto simp: ready_texts_def ready_def ready_config_def andThen_def Let_def split: option.splits sum.splits if_splits)

lemma start_session_error:
  assumes "\<forall>re. active = Some re \<longrightarrow> ready_texts re"
    and "fst (start_session (enqueue_session active) dev config initial alerted c) = Some e"
  shows "what e \<noteq> []"
proof (cases active)
  case (Some re)
  then show ?thesis
    using assms ready_error [of re "snd (start_session return dev config initial alerted c)" e] by (auto simp: start_session_def Let_def)
qed (use assms in \<open>simp add: start_session_def Let_def\<close>)

lemma process_setup_error:
  assumes "call_texts (Process env active clients caller message type)"
    and r: "process_setup env (enqueue_session active) message type c = (Some e, c')"
  shows "what e \<noteq> []"
proof -
  have start: "what e \<noteq> []"
    if "start_session (enqueue_session active) dev config initial alerted c0 = (Some e, c')" for dev config initial alerted c0
    using start_session_error [of active dev config initial alerted c0 e] that assms(1) by simp
  have "what e \<noteq> []" if "snd (process_syncml env message type c) = Inl e"
    using assms(1) that by (auto simp: process_syncml_def Let_def split: sum.splits if_splits option.splits)
  moreover obtain c1 found where "process_syncml env message type c = (c1, found)" by force
  moreover obtain c2 config where "process_san env message c = (c2, config)" by force
  ultimately show ?thesis
    using r by (auto simp: process_setup_def split: if_splits sum.splits dest: start)
qed

lemma failed_stub: "stub_ok c \<Longrightarrow> cn_state c \<noteq> DONE \<Longrightarrow> reason \<noteq> [] \<Longrightarrow> stub_ok (failed reason c)"
  by (auto simp: stub_ok_def failed_events_def)

lemma process_state_stub:
  assumes "connection_ok c" "stub_ok c"
  shows "stub_ok (snd (process_state env (enqueue_session active) message type c))"
proof (cases "cn_state c")
  case SETUP
  obtain err c' where r: "process_setup env (enqueue_session active) message type c = (err, c')" by force
  show ?thesis
    using process_setup_cases [OF r] assms SETUP
    by (auto simp: process_state_def r intro: session_started_stub keeps_stub)
qed (use assms in \<open>auto simp: process_state_def stub_ok_def\<close>)

lemma process_stub:
  assumes "connection_ok c" "stub_ok c" "call_texts (Process env active clients caller message type)"
  shows "stub_ok (snd (process env (enqueue_session active) clients caller message type c))"
proof (cases "caller \<in> set clients \<and> caller \<in> set (cn_owners c)")
  case True
  obtain err c' where r: "process_state env (enqueue_session active) message type c = (err, c')" by force
  have state: "cn_state c \<noteq> DONE" "cn_state c \<noteq> FAILED"
    using True connection_ok_parts(3) [OF assms(1), of caller] by simp_all
  have c': "stub_ok c'" "cn_state c' \<noteq> DONE"
    using process_state_stub [OF assms(1,2), of env active message type]
      process_state_done [OF assms(1) state(1), of env active message type] by (simp_all add: r)
  have "what e \<noteq> []" if "err = Some e" for e
  proof (cases "cn_state c")
    case SETUP
    then show ?thesis using process_setup_error [OF assms(3)] r that by (simp add: process_state_def)
  qed (use r that state in \<open>auto simp: process_state_def\<close>)
  then show ?thesis
    using True c' by (cases err) (auto simp: process_def r intro!: failed_stub)
next
  case False
  then show ?thesis using assms by (auto simp: process_def)
qed

lemma release_stub: "stub_ok c \<Longrightarrow> stub_ok (release c)"
  by (auto simp: release_def stub_ok_def destruct_events_def)

lemma connection_do_stub:
  assumes "connection_ok c" "stub_ok c" "call_texts call"
  shows "stub_ok (snd (connection_do call c))"
proof (cases call)
  case (Process env active clients caller message type)
  then show ?thesis using process_stub assms by simp
next
  case (Close clients caller normal error)
  then show ?thesis
    using assms connection_ok_parts(3) [OF assms(1), of caller]
    by (auto simp: Connection_close_def Let_def stub_ok_def failed_events_def)
next
  case (Ready env)
  then show ?thesis using assms keeps_stub [OF ready_keeps] by (simp add: by_session_def)
next
  case Timed_Out
  then show ?thesis
    using assms connection_ok_parts(4) [OF assms(1)] failed_stub [of "c\<lparr>cn_timeout := None\<rparr>"]
    by (auto simp: timeoutCb_def stub_ok_def)
next
  case (Client_Gone client)
  then show ?thesis
    using release_stub [of "c\<lparr>cn_owners := filter (\<lambda>owner. owner \<noteq> client) (cn_owners c)\<rparr>"] assms
    by (simp add: Connection_clientGone_def stub_ok_def)
next
  case Idle
  then show ?thesis
    using release_stub [of "c\<lparr>cn_delayed := False\<rparr>"] assms by (simp add: delayDeletionCb_def stub_ok_def)
next
  case Shut_Down
  then show ?thesis
    using release_stub [of "c\<lparr>cn_owners := []\<rparr>"] assms by (simp add: by_session_def Connection_shutdown_def stub_ok_def)
qed (use assms in \<open>auto simp: by_session_def Connection_send_def sendFinalMsg_def activateTimeout_def stub_ok_def\<close>)

lemma connection_start_ok:
  assumes "Server_connect shutdown new_session caller peer auth session = Inr c"
  shows "connection_ok c" "stub_ok c"
  using assms by (auto simp: Server_connect_def Connection_new_def connection_ok_def stub_ok_def split: if_splits)

lemma connection_run_ok: "connection_ok c \<Longrightarrow> connection_ok (connection_run c calls)"
  unfolding connection_run_def
  by (induction calls arbitrary: c) (auto simp: connection_step_def connection_do_ok)

lemma connection_run_stub:
  "connection_ok c \<Longrightarrow> stub_ok c \<Longrightarrow> list_all call_texts calls \<Longrightarrow> stub_ok (connection_run c calls)"
  unfolding connection_run_def
  by (induction calls arbitrary: c) (auto simp: connection_step_def connection_do_ok connection_do_stub)

text \<open>What an accepted history of events has to look like.\<close>

fun accepted :: "connection_event \<Rightarrow> bool" where
  "accepted (SessionCreated _ _ _ _) \<longleftrightarrow> True"
| "accepted (MessageSignal _ _) \<longleftrightarrow> True"
| "accepted _ \<longleftrightarrow> False"

fun replied :: "connection_event \<Rightarrow> bool" where
  "replied (Reply _ _ _ _ _) \<longleftrightarrow> True"
| "replied _ \<longleftrightarrow> False"

fun final_reply :: "connection_event \<Rightarrow> bool" where
  "final_reply (Reply _ _ _ final _) \<longleftrightarrow> final"
| "final_reply _ \<longleftrightarrow> False"

definition over :: "ConnectionState \<Rightarrow> bool" where
  "over s \<longleftrightarrow> s = FINAL \<or> s = DONE \<or> s = FAILED"

lemma protocol_over:
  "protocol s es = Some s' \<Longrightarrow> over s \<Longrightarrow> over s' \<and> list_all (\<lambda>e. \<not> accepted e \<and> \<not> replied e) es"
proof (induction es arbitrary: s)
  case (Cons e es)
  then show ?case
    by (cases e) (auto simp: over_def split: if_splits)
qed simp

lemma protocol_ended:
  "protocol s es = Some s' \<Longrightarrow> s = FAILED \<or> s = DONE \<Longrightarrow> s' = s \<and> AbortSignal \<notin> set es"
proof (induction es)
  case (Cons e es)
  then show ?case by (cases e) (auto split: if_splits)
qed simp

text \<open>The number of messages that are accepted but not answered.\<close>

definition owed :: "ConnectionState \<Rightarrow> nat" where
  "owed s = (if s = PROCESSING then 1 else 0)"

lemma filter_none: "list_all (\<lambda>e. \<not> P e \<and> \<not> Q e) es \<Longrightarrow> filter P es = [] \<and> filter Q es = []"
  by (induction es) auto

lemma protocol_alternates:
  "protocol s es = Some s' \<Longrightarrow>
     length (filter replied es) \<le> length (filter accepted es) + owed s \<and>
     length (filter accepted es) + owed s \<le> length (filter replied es) + 1"
proof (induction es arbitrary: s)
  case (Cons e es)
  show ?case
  proof (cases "e = AbortSignal")
    case True
    then have "filter accepted es = [] \<and> filter replied es = []"
      using Cons.prems protocol_over [of FAILED es s'] filter_none [of accepted replied es]
      by (auto simp: over_def split: if_splits)
    then show ?thesis using True by (simp add: owed_def)
  next
    case False
    then obtain s1 where "protocol_step s e = Some s1" "protocol s1 es = Some s'"
      using Cons.prems by (auto split: Option.bind_splits)
    then show ?thesis
      using Cons.IH [of s1] False by (cases e) (auto simp: owed_def split: if_splits)
  qed
qed (simp add: owed_def)

lemma protocol_prefix:
  assumes "protocol SETUP (xs @ ys) = Some s"
  obtains s1 where "protocol SETUP xs = Some s1" "protocol s1 ys = Some s"
  using assms by (auto simp: protocol_append split: Option.bind_splits)

lemma protocol_final_seen:
  "protocol s es = Some s' \<Longrightarrow> s' = FINAL \<or> s' = DONE \<Longrightarrow> s \<noteq> FINAL \<Longrightarrow> s \<noteq> DONE \<Longrightarrow> list_ex final_reply es"
proof (induction es arbitrary: s)
  case (Cons e es)
  then obtain s1 where "protocol_step s e = Some s1" "protocol s1 es = Some s'"
    by (auto split: Option.bind_splits)
  then show ?case using Cons by (cases e) (auto split: if_splits)
qed auto

lemma protocol_done_no_abort: "protocol s es = Some DONE \<Longrightarrow> AbortSignal \<notin> set es"
proof (induction es arbitrary: s)
  case (Cons e es)
  then obtain s1 where s1: "protocol_step s e = Some s1" "protocol s1 es = Some DONE"
    by (auto split: Option.bind_splits)
  then have "s1 \<noteq> FAILED" using protocol_ended [of FAILED es DONE] by auto
  then show ?case using Cons.IH [OF s1(2)] s1(1) by (auto split: if_splits)
qed simp

lemma protocol_abort_once: "protocol s es = Some s' \<Longrightarrow> length (filter (\<lambda>e. e = AbortSignal) es) \<le> 1"
proof (induction es arbitrary: s)
  case (Cons e es)
  then obtain s1 where s1: "protocol_step s e = Some s1" "protocol s1 es = Some s'"
    by (auto split: Option.bind_splits)
  show ?case
  proof (cases "e = AbortSignal")
    case True
    then have "AbortSignal \<notin> set es" using s1 protocol_ended [of FAILED es s'] by (auto split: if_splits)
    then show ?thesis using True by (auto simp: filter_empty_conv)
  qed (use Cons.IH [OF s1(2)] in simp)
qed simp

lemma protocol_over_after:
  assumes "protocol SETUP (xs @ e # ys) = Some s" "e = AbortSignal \<or> final_reply e"
  shows "list_all (\<lambda>e. \<not> accepted e \<and> \<not> replied e) ys"
proof -
  obtain s1 where s1: "protocol s1 (e # ys) = Some s" using protocol_prefix [OF assms(1), of thesis] by blast
  then obtain s2 where "protocol_step s1 e = Some s2" "protocol s2 ys = Some s"
    by (auto split: Option.bind_splits)
  then show ?thesis
    using assms(2) protocol_over [of s2 ys s] by (cases e) (auto simp: over_def split: if_splits)
qed



section \<open>Details of the first and of later messages\<close>

text \<open>
  The configuration for a SyncML message is the first one in the list that has the device ID of the message; a
  session is started for it, or the connection fails.
\<close>

lemma process_syncml_config:
  assumes "ce_analyze env message type = Inr dev"
  shows "snd (process_syncml env message type c) = Inr (dev', config) \<longleftrightarrow>
    dev' = dev \<and> dev \<noteq> [] \<and> config \<noteq> [] \<and>
    (let names = map fst (ce_configs env) in
     \<exists>i < length names. config = names ! i \<and> ce_remoteDevID env config = dev \<and>
       (\<forall>j < i. ce_remoteDevID env (names ! j) \<noteq> dev))"
proof -
  have "snd (process_syncml env message type c) = Inr (dev', config) \<longleftrightarrow>
    dev' = dev \<and> dev \<noteq> [] \<and> config \<noteq> [] \<and>
    find (\<lambda>config. ce_remoteDevID env config = dev) (map fst (ce_configs env)) = Some config"
    using assms by (auto simp: process_syncml_def Let_def split: option.splits)
  then show ?thesis by (auto simp: find_Some_iff Let_def)
qed

text \<open>
  The search by Bluetooth address looks at no more than the first configuration when the search by URL
  has found one: a configuration with the address of the peer is not used.
\<close>

lemma match_bt_found: "config \<noteq> [] \<Longrightarrow> server \<noteq> [] \<Longrightarrow>
   match_bt env addr config (server # servers) = (if list_ex (is_bt_url addr) (ce_syncURL env server) then server else config)"
  by simp

lemma bluetooth_address_ignored:
  defines "env \<equiv> \<lparr>ce_configs = [(''pc'', []), (''phone'', [])],
      ce_syncURL = (\<lambda>config. if config = ''pc'' then [''PC Suite''] else [''PC Suite'', ''obex-bt://00:11'']),
      ce_remoteDevID = (\<lambda>_. []), ce_currentTime = [], ce_san = (\<lambda>_. None), ce_analyze = (\<lambda>_ _. Inr [])\<rparr>"
  shows "san_config env \<lparr>san_serverID = ''PC Suite'', san_nSync = 0, san_nthSync = (\<lambda>_. None)\<rparr> (Some ''00:11'') = ''pc''"
  unfolding env_def by code_simp

text \<open>An empty message is accepted like any other while the connection waits for one.\<close>

lemma empty_message_accepted:
  assumes "cn_state c = WAITING" "caller \<in> set clients" "caller \<in> set (cn_owners c)"
  shows "fst (process env enqueue clients caller [] type c) = None \<and>
    cn_state (snd (process env enqueue clients caller [] type c)) = PROCESSING"
  using assms by (simp add: process_def process_state_def)

text \<open>
  A SyncML message adds an empty \<open>config\<close> to the properties of a peer that has none, and the
  configuration that a peer has chosen is not reported.
\<close>

lemma peer_gets_config:
  "map_of (cn_peer c) ''config'' = None \<Longrightarrow>
     map_of (cn_peer (fst (process_syncml env message type c))) ''config'' = Some []"
  by (simp add: process_syncml_def Let_def map_of_kput)

end
