(* ===== verification/Dbus_Relay.thy ===== *)
theory Dbus_Relay
  imports Dbus_Connection "HOL-Library.Sublist"
begin

text \<open>
  The messages of a connection between the D-Bus server and the helper process that runs a sync: the transport
  agent in the helper (src/src/dbus/server/dbus-transport-agent.cpp, dbus-sync.cpp), the relay in the session
  (session.cpp), and their composition with \<open>Connection\<close> over two D-Bus channels that keep the order of
  what is sent.
\<close>

section \<open>The transport agent\<close>

record transport_agent =
  ta_url :: string
  ta_type :: string
  ta_incomingMsg :: string
  ta_incomingMsgType :: string
  ta_error :: string
  ta_state :: ConnectionState

definition DBusTransportAgent :: transport_agent where
  "DBusTransportAgent =
     \<lparr>ta_url = [], ta_type = [], ta_incomingMsg = [], ta_incomingMsgType = [], ta_error = [], ta_state = SETUP\<rparr>"

definition serverAlerted :: "transport_agent \<Rightarrow> transport_agent step" where
  "serverAlerted a =
     (if ta_state a = SETUP then return (a\<lparr>ta_state := PROCESSING\<rparr>)
      else throw (Throw ''setting 'server alerted' only allowed during setup'') a)"

definition Agent_storeMessage :: "string \<Rightarrow> string \<Rightarrow> transport_agent \<Rightarrow> transport_agent step" where
  "Agent_storeMessage buffer type a =
     (if ta_state a = SETUP \<or> ta_state a = WAITING
      then return (a\<lparr>ta_incomingMsg := buffer, ta_incomingMsgType := type, ta_state := PROCESSING\<rparr>)
      else if ta_state a = PROCESSING \<and> ta_incomingMsgType a = type \<and> ta_incomingMsg a = buffer then return a
      else throw (Throw ''unexpected message'') a)"

definition storeState :: "string \<Rightarrow> transport_agent \<Rightarrow> transport_agent" where
  "storeState error a =
     (if error \<noteq> [] then a\<lparr>ta_state := FAILED, ta_error := (if ta_error a = [] then error else ta_error a)\<rparr>
      else if ta_state a = FINAL then a\<lparr>ta_state := DONE\<rparr>
      else a\<lparr>ta_state := FAILED\<rparr>)"

text \<open>Signals of the helper, \<open>emitMessage\<close> and \<open>emitShutdown\<close>, are returned with the new agent.\<close>

datatype helper_signal = Message string string string | Shutdown_Signal

definition Agent_send :: "string \<Rightarrow> transport_agent \<Rightarrow> transport_agent step \<times> helper_signal list" where
  "Agent_send data a =
     (if ta_state a \<noteq> PROCESSING then (throw (Throw ''cannot send to our D-Bus peer'') a, [])
      else (return (a\<lparr>ta_state := WAITING, ta_incomingMsg := []\<rparr>), [Message data (ta_type a) (ta_url a)]))"

definition Agent_shutdown :: "transport_agent \<Rightarrow> transport_agent \<times> helper_signal list" where
  "Agent_shutdown a =
     (if ta_state a = PROCESSING then (a\<lparr>ta_state := FINAL\<rparr>, [Shutdown_Signal]) else (a, []))"

text \<open>
  \<open>wait\<close>: \<open>doWait\<close> is what one iteration of the main loop does with the agent, nothing when a suspend or abort
  was requested.
\<close>

datatype transport_status = ACTIVE | GOT_REPLY | CLOSED | INACTIVE

definition wait :: "(transport_agent \<Rightarrow> transport_agent) \<Rightarrow> bool \<Rightarrow> transport_agent \<Rightarrow> transport_agent \<times> (se_error + transport_status)" where
  "wait doWait noReply a =
     (case ta_state a of
        PROCESSING \<Rightarrow> (a, Inr GOT_REPLY)
      | FINAL \<Rightarrow>
          let a = doWait a
          in (a, if ta_state a = FINAL then Inr ACTIVE
                 else if ta_error a = [] then Inr INACTIVE
                 else Inl (Throw (ta_error a)))
      | WAITING \<Rightarrow> if noReply then (a, Inr INACTIVE) else (doWait a, Inr ACTIVE)
      | DONE \<Rightarrow>
          (a, if \<not> noReply then Inl (Throw ''internal error: transport has shut down, can no longer receive reply'')
              else Inr CLOSED)
      | _ \<Rightarrow> (a, Inl (Throw ''send() on connection which is not ready'')))"

definition getReply :: "transport_agent \<Rightarrow> string \<times> string" where
  "getReply a = (ta_incomingMsg a, ta_incomingMsgType a)"

text \<open>
  \<open>DBusSync::createTransportAgent\<close>: a session that was alerted or acts as server uses the connection; the others use
  a transport of their own.
\<close>

definition createTransportAgent :: "(string \<times> string) option \<Rightarrow> bool \<Rightarrow> transport_agent option" where
  "createTransportAgent initial alerted =
     (if alerted then Some (snd (serverAlerted DBusTransportAgent))
      else map_option (\<lambda>(message, type). snd (Agent_storeMessage message type DBusTransportAgent)) initial)"

section \<open>The relay\<close>

text \<open>
  Calls of the helper by the session, \<open>m_storeMessage\<close> and \<open>m_connectionState\<close>. \<open>rl_up\<close> and \<open>rl_down\<close> are
  what is on its way. \<open>rl_synced\<close> says that \<open>Session::sync2\<close> has run, which subscribes to the signals of the
  connection if it still exists. \<open>rl_got\<close> and \<open>rl_sent\<close> record what the engine gets and sends.
\<close>

datatype helper_call = Store_Message string string | Connection_State string

datatype helper = Starting | Running transport_agent | Ended

record relay =
  rl_conn :: connection
  rl_synced :: bool
  rl_subscribed :: bool
  rl_helper :: helper
  rl_up :: "helper_signal list"
  rl_down :: "helper_call list"
  rl_got :: "(string \<times> string) list"
  rl_sent :: "(string \<times> string \<times> string_map) list"

definition relay_start :: "connection \<Rightarrow> relay" where
  "relay_start c =
     \<lparr>rl_conn = c, rl_synced = False, rl_subscribed = False, rl_helper = Starting, rl_up = [], rl_down = [],
      rl_got = [], rl_sent = []\<rparr>"

text \<open>\<open>Session::storeMessage\<close> and \<open>Session::connectionState\<close> as slots of the signals of the connection.\<close>

fun relayed :: "connection_event \<Rightarrow> helper_call list" where
  "relayed (MessageSignal message type) = [Store_Message message type]"
| "relayed (StatusSignal error) = [Connection_State error]"
| "relayed _ = []"

definition relayed_calls :: "connection_event list \<Rightarrow> helper_call list" where
  "relayed_calls es = concat (map relayed es)"

lemma relayed_calls_simps [simp]:
  "relayed_calls [] = []" "relayed_calls (e # es) = relayed e @ relayed_calls es"
  "relayed_calls (es @ es') = relayed_calls es @ relayed_calls es'"
  by (simp_all add: relayed_calls_def)

definition connection_changed :: "connection \<Rightarrow> relay \<Rightarrow> relay" where
  "connection_changed c r =
     (let new = drop (length (cn_events (rl_conn r))) (cn_events c)
      in r\<lparr>rl_conn := c, rl_down := rl_down r @ (if rl_subscribed r then relayed_calls new else [])\<rparr>)"

definition connectionState :: "string \<Rightarrow> relay \<Rightarrow> relay" where
  "connectionState error r = r\<lparr>rl_down := rl_down r @ [Connection_State error]\<rparr>"

definition sendViaConnection :: "string \<Rightarrow> string \<Rightarrow> string \<Rightarrow> relay \<Rightarrow> relay" where
  "sendViaConnection buffer type url r =
     (if \<not> cn_alive (rl_conn r) then connectionState ''D-Bus peer has disconnected'' r
      else case Connection_send buffer type url (rl_conn r) of
             (None, c) \<Rightarrow> connection_changed c r
           | (Some e, c) \<Rightarrow> connectionState (what e) (connection_changed c r))"

definition shutdownConnection :: "relay \<Rightarrow> relay" where
  "shutdownConnection r =
     (if \<not> cn_alive (rl_conn r) then connectionState ''D-Bus peer has disconnected'' r
      else connection_changed (sendFinalMsg (rl_conn r)) r)"

text \<open>The parameters that the helper gets are those of the session that the connection has created.\<close>

fun session_params :: "connection_event list \<Rightarrow> ((string \<times> string) option \<times> bool) option" where
  "session_params [] = None"
| "session_params (SessionCreated _ _ initial alerted # es) = Some (initial, alerted)"
| "session_params (_ # es) = session_params es"

definition sync2 :: "relay \<Rightarrow> relay" where
  "sync2 r =
     (if rl_synced r \<or> session_params (cn_events (rl_conn r)) = None then r
      else r\<lparr>rl_synced := True, rl_subscribed := cn_alive (rl_conn r)\<rparr>)"

definition start_agent :: "relay \<Rightarrow> relay" where
  "start_agent r =
     (if rl_synced r \<and> rl_helper r = Starting then
        case session_params (cn_events (rl_conn r)) of
          Some (initial, alerted) \<Rightarrow>
            (case createTransportAgent initial alerted of
               Some a \<Rightarrow> r\<lparr>rl_helper := Running a,
                           rl_got := (if alerted then [] else case initial of Some m \<Rightarrow> [m] | None \<Rightarrow> [])\<rparr>
             | None \<Rightarrow> r)
        | None \<Rightarrow> r
      else r)"

text \<open>The engine sets the URL and the type before it sends.\<close>

definition engine_send :: "string \<Rightarrow> string \<Rightarrow> string \<Rightarrow> relay \<Rightarrow> relay" where
  "engine_send url type data r =
     (case rl_helper r of
        Running a \<Rightarrow>
          (case Agent_send data (a\<lparr>ta_url := url, ta_type := type\<rparr>) of
             ((err, a), signals) \<Rightarrow>
               r\<lparr>rl_helper := Running a, rl_up := rl_up r @ signals,
                 rl_sent := rl_sent r @ (if err = None then [(data, type, [(''URL'', url)])] else [])\<rparr>)
      | _ \<Rightarrow> r)"

definition engine_shutdown :: "relay \<Rightarrow> relay" where
  "engine_shutdown r =
     (case rl_helper r of
        Running a \<Rightarrow>
          (case Agent_shutdown a of (a, signals) \<Rightarrow> r\<lparr>rl_helper := Running a, rl_up := rl_up r @ signals\<rparr>)
      | _ \<Rightarrow> r)"

definition receive_signal :: "relay \<Rightarrow> relay" where
  "receive_signal r =
     (case rl_up r of
        [] \<Rightarrow> r
      | Message buffer type url # up \<Rightarrow> sendViaConnection buffer type url (r\<lparr>rl_up := up\<rparr>)
      | Shutdown_Signal # up \<Rightarrow> shutdownConnection (r\<lparr>rl_up := up\<rparr>))"

text \<open>A call before the agent exists or after it is gone has no effect; an error is ignored by the session.\<close>

definition receive_call :: "relay \<Rightarrow> relay" where
  "receive_call r =
     (case rl_down r of
        [] \<Rightarrow> r
      | call # down \<Rightarrow>
          let r = r\<lparr>rl_down := down\<rparr>
          in case rl_helper r of
               Running a \<Rightarrow>
                 (case call of
                    Store_Message message type \<Rightarrow>
                      (case Agent_storeMessage message type a of
                         (None, a') \<Rightarrow> r\<lparr>rl_helper := Running a', rl_got := rl_got r @ (if ta_state a = PROCESSING then [] else [(message, type)])\<rparr>
                       | (Some e, a') \<Rightarrow> r\<lparr>rl_helper := Running a'\<rparr>)
                  | Connection_State error \<Rightarrow> r\<lparr>rl_helper := Running (storeState error a)\<rparr>)
             | _ \<Rightarrow> r)"

datatype relay_event =
  Connection_Call connection_call
| Sync_Started
| Agent_Started
| Engine_Send string string string
| Engine_Shutdown
| Engine_Gone
| Up
| Down

text \<open>Only the helper makes the connection send.\<close>

fun external_call :: "connection_call \<Rightarrow> bool" where
  "external_call (Send _ _ _) \<longleftrightarrow> False"
| "external_call Send_Final \<longleftrightarrow> False"
| "external_call _ \<longleftrightarrow> True"

primrec relay_do :: "relay_event \<Rightarrow> relay \<Rightarrow> relay" where
  "relay_do (Connection_Call call) r =
     (if external_call call then connection_changed (connection_step call (rl_conn r)) r else r)"
| "relay_do Sync_Started r = sync2 r"
| "relay_do Agent_Started r = start_agent r"
| "relay_do (Engine_Send url type data) r = engine_send url type data r"
| "relay_do Engine_Shutdown r = engine_shutdown r"
| "relay_do Engine_Gone r = r\<lparr>rl_helper := (if rl_helper r = Starting then Starting else Ended)\<rparr>"
| "relay_do Up r = receive_signal r"
| "relay_do Down r = receive_call r"

definition relay_run :: "connection \<Rightarrow> relay_event list \<Rightarrow> relay" where
  "relay_run c events = fold relay_do events (relay_start c)"

section \<open>What a call does to the connection\<close>

definition live :: "connection \<Rightarrow> bool" where
  "live c \<longleftrightarrow> cn_alive c \<and> cn_state c \<noteq> FAILED \<and> cn_state c \<noteq> DONE"

fun traffic :: "connection_event \<Rightarrow> bool" where
  "traffic (MessageSignal _ _) \<longleftrightarrow> True"
| "traffic (Reply _ _ _ _ _) \<longleftrightarrow> True"
| "traffic _ \<longleftrightarrow> False"

definition params_ok :: "connection_event list \<Rightarrow> bool" where
  "params_ok es \<longleftrightarrow> (\<forall>initial. session_params es = Some (initial, True) \<longrightarrow> initial = None)"

definition quiet_step :: "connection \<Rightarrow> connection \<Rightarrow> bool" where
  "quiet_step c c' \<longleftrightarrow> cn_state c' = cn_state c \<and> cn_alive c' = cn_alive c \<and>
     (\<exists>es. cn_events c' = cn_events c @ es \<and> list_all internal es)"

definition start_step :: "connection \<Rightarrow> connection \<Rightarrow> bool" where
  "start_step c c' \<longleftrightarrow> cn_state c = SETUP \<and>
     (\<exists>initial alerted. session_started initial alerted c c' \<and> (alerted \<longrightarrow> initial = None))"

definition message_step :: "connection \<Rightarrow> connection \<Rightarrow> bool" where
  "message_step c c' \<longleftrightarrow> cn_state c = WAITING \<and> cn_state c' = PROCESSING \<and> cn_alive c' = cn_alive c \<and>
     (\<exists>message type. cn_events c' = cn_events c @ [MessageSignal message type])"

definition ended_step :: "connection \<Rightarrow> connection \<Rightarrow> bool" where
  "ended_step c c' \<longleftrightarrow> \<not> live c' \<and>
     (\<exists>es error. cn_events c' = cn_events c @ es \<and> StatusSignal error \<in> set es \<and> list_all (\<lambda>e. \<not> traffic e) es \<and>
        params_ok es)"

definition connection_effect :: "connection \<Rightarrow> connection \<Rightarrow> bool" where
  "connection_effect c c' \<longleftrightarrow> quiet_step c c' \<or> start_step c c' \<or> message_step c c' \<or> ended_step c c'"

lemmas step_defs = connection_effect_def quiet_step_def start_step_def message_step_def ended_step_def

lemma session_params_append:
  "session_params (es @ es') = (case session_params es of Some p \<Rightarrow> Some p | None \<Rightarrow> session_params es')"
  by (induction es rule: session_params.induct) auto

lemma session_params_internal: "list_all internal es \<Longrightarrow> session_params es = None"
proof (induction es)
  case (Cons e es)
  then show ?case by (cases e) auto
qed simp

lemma internal_no_traffic: "list_all internal es \<Longrightarrow> list_all (\<lambda>e. \<not> traffic e) es"
proof (induction es)
  case (Cons e es)
  then show ?case by (cases e) auto
qed simp

lemma relayed_internal: "list_all internal es \<Longrightarrow> relayed_calls es = []"
proof (induction es)
  case (Cons e es)
  then show ?case by (cases e) auto
qed simp

lemma keeps_quiet: "keeps c c' \<Longrightarrow> quiet_step c c'"
  by (auto simp: keeps_def quiet_step_def)

lemma params_ok_Nil [simp]: "params_ok []"
  by (simp add: params_ok_def)

lemma failed_ended:
  assumes "cn_events c' = cn_events c @ es" "list_all (\<lambda>e. \<not> traffic e) es" "params_ok es"
  shows "ended_step c (failed reason c')"
  using assms
  by (auto simp: ended_step_def live_def failed_events_def params_ok_def session_params_append intro!: exI [of _ reason]
      split: option.split)

lemma started_events:
  assumes "session_started initial alerted c c'"
  obtains es where "cn_events c' = cn_events c @ es" "list_all (\<lambda>e. \<not> traffic e) es" "session_params es = Some (initial, alerted)"
    "relayed_calls es = []"
proof -
  obtain dev config es es' where *: "cn_events c' = cn_events c @ es @
      [SessionCreated dev config initial alerted, StubConnectionError ''closed prematurely''] @ es'" "list_all internal (es @ es')"
    using assms by (auto simp: session_started_def)
  show ?thesis
    using * internal_no_traffic [of es] internal_no_traffic [of es'] relayed_internal [of es] relayed_internal [of es']
    by (intro that [OF *(1)]) (simp_all add: session_params_append session_params_internal)
qed

lemma process_cases:
  assumes ok: "connection_ok c"
  shows "connection_effect c (snd (process env (enqueue_session active) clients caller message type c))"
proof (cases "caller \<in> set clients \<and> caller \<in> set (cn_owners c)")
  case True
  obtain err c' where r: "process_state env (enqueue_session active) message type c = (err, c')" by force
  show ?thesis
  proof (cases "cn_state c")
    case SETUP
    then have r': "process_setup env (enqueue_session active) message type c = (err, c')"
      using r by (simp add: process_state_def)
    consider (start) initial alerted where "session_started initial alerted c c'" "(alerted \<longrightarrow> initial = None)"
      | (keep) e where "err = Some e" "keeps c c'"
      using process_setup_cases [OF r'] by blast
    then show ?thesis
    proof cases
      case start
      obtain es where "cn_events c' = cn_events c @ es" "list_all (\<lambda>e. \<not> traffic e) es" "params_ok es"
        using started_events [OF start(1), of thesis] start(2) by (auto simp: params_ok_def)
      then show ?thesis
        using True start SETUP failed_ended [of c' c es] by (cases err) (auto simp: process_def r connection_effect_def start_step_def)
    next
      case keep
      then obtain es where "cn_events c' = cn_events c @ es" "list_all (\<lambda>e. \<not> traffic e) es" "params_ok es"
        using internal_no_traffic session_params_internal by (auto simp: keeps_def params_ok_def)
      then show ?thesis
        using True keep failed_ended [of c' c es] by (auto simp: process_def r connection_effect_def)
    qed
  next
    case WAITING
    then show ?thesis using True by (simp add: process_def process_state_def message_step_def connection_effect_def)
  qed (use True failed_ended [of c c "[]"] params_ok_Nil in \<open>auto simp: process_def process_state_def connection_effect_def\<close>)
next
  case False
  then show ?thesis by (auto simp: process_def quiet_step_def connection_effect_def)
qed

lemma release_cases: "quiet_step c (release c) \<or> ended_step c (release c)"
  by (auto simp: release_def quiet_step_def ended_step_def live_def destruct_events_def params_ok_def)

lemma external_step_cases:
  assumes "connection_ok c" "cn_alive c" "external_call call"
  shows "connection_effect c (connection_step call c)"
proof (cases call)
  case (Process env active clients caller message type)
  then show ?thesis using process_cases [OF assms(1)] assms(2) by (simp add: connection_step_def)
next
  case (Close clients caller normal error)
  let ?err = "if error = [] then ''connection closed unexpectedly'' else error"
  let ?c = "c\<lparr>cn_delayed := True, cn_owners := remove1 caller (cn_owners c)\<rparr>"
  have "ended_step c (failed ?err (tell_session (StubConnectionError ?err) (send_event (StatusSignal ?err) ?c)))"
    by (rule failed_ended [of _ _ "StatusSignal ?err # (if cn_session c = None then [] else [StubConnectionError ?err])"]) (auto simp: params_ok_def)
  then show ?thesis
    using Close assms(2) by (auto simp: connection_step_def Connection_close_def Let_def connection_effect_def quiet_step_def ended_step_def live_def params_ok_def)
next
  case (Client_Gone client)
  then show ?thesis
    using assms(2) release_cases [of "c\<lparr>cn_owners := filter (\<lambda>owner. owner \<noteq> client) (cn_owners c)\<rparr>"]
    by (auto simp: connection_step_def Connection_clientGone_def step_defs)
next
  case Idle
  then show ?thesis
    using assms(2) release_cases [of "c\<lparr>cn_delayed := False\<rparr>"]
    by (auto simp: connection_step_def delayDeletionCb_def step_defs)
next
  case Shut_Down
  then show ?thesis
    using assms(2) release_cases [of "c\<lparr>cn_owners := []\<rparr>"]
    by (auto simp: connection_step_def by_session_def Connection_shutdown_def step_defs)
next
  case Timed_Out
  then show ?thesis
    using assms(2) failed_ended [of "c\<lparr>cn_timeout := None\<rparr>" c "[]"]
    by (auto simp: connection_step_def timeoutCb_def connection_effect_def quiet_step_def)
next
  case (Ready env)
  then show ?thesis
    using assms(2) keeps_quiet [OF ready_keeps] by (auto simp: connection_step_def by_session_def connection_effect_def quiet_step_def)
qed (use assms in auto)

section \<open>The two sides in step\<close>

fun accepted_message :: "connection_event \<Rightarrow> (string \<times> string) list" where
  "accepted_message (SessionCreated _ _ (Some m) _) = [m]"
| "accepted_message (MessageSignal message type) = [(message, type)]"
| "accepted_message _ = []"

definition accepted_messages :: "connection_event list \<Rightarrow> (string \<times> string) list" where
  "accepted_messages es = concat (map accepted_message es)"

fun reply_message :: "connection_event \<Rightarrow> (string \<times> string \<times> string_map) list" where
  "reply_message (Reply message type meta final _) = (if final then [] else [(message, type, meta)])"
| "reply_message _ = []"

definition reply_messages :: "connection_event list \<Rightarrow> (string \<times> string \<times> string_map) list" where
  "reply_messages es = concat (map reply_message es)"

fun stored :: "helper_call list \<Rightarrow> (string \<times> string) list" where
  "stored [] = []"
| "stored (Store_Message message type # down) = (message, type) # stored down"
| "stored (_ # down) = stored down"

fun emitted :: "helper_signal list \<Rightarrow> (string \<times> string \<times> string_map) list" where
  "emitted [] = []"
| "emitted (Message message type url # up) = (message, type, [(''URL'', url)]) # emitted up"
| "emitted (_ # up) = emitted up"

lemma stored_append [simp]: "stored (xs @ ys) = stored xs @ stored ys"
  by (induction xs rule: stored.induct) auto

lemma emitted_append [simp]: "emitted (xs @ ys) = emitted xs @ emitted ys"
  by (induction xs rule: emitted.induct) auto

lemma messages_append [simp]:
  "accepted_messages (es @ es') = accepted_messages es @ accepted_messages es'"
  "reply_messages (es @ es') = reply_messages es @ reply_messages es'"
  "accepted_messages [] = []" "reply_messages [] = []"
  "accepted_messages (e # es) = accepted_message e @ accepted_messages es"
  "reply_messages (e # es) = reply_message e @ reply_messages es"
  by (simp_all add: accepted_messages_def reply_messages_def)

definition in_step :: "ConnectionState \<Rightarrow> ConnectionState \<Rightarrow> helper_signal list \<Rightarrow> helper_call list \<Rightarrow> bool" where
  "in_step s t up down \<longleftrightarrow>
     (s = PROCESSING \<and> t = PROCESSING \<and> up = [] \<and> down = []) \<or>
     (s = PROCESSING \<and> t = WAITING \<and> (\<exists>m y u. up = [Message m y u]) \<and> down = []) \<or>
     (s = PROCESSING \<and> t = WAITING \<and> up = [] \<and> (\<exists>m y. down = [Store_Message m y])) \<or>
     (s = WAITING \<and> t = WAITING \<and> up = [] \<and> down = []) \<or>
     (s = PROCESSING \<and> t = FINAL \<and> up = [Shutdown_Signal] \<and> down = []) \<or>
     (s = FINAL \<and> t = FINAL \<and> up = [] \<and> down = [])"

definition all_states :: "helper_call list \<Rightarrow> bool" where
  "all_states down \<longleftrightarrow> stored down = []"

definition told :: "helper_call list \<Rightarrow> bool" where
  "told down \<longleftrightarrow> (\<exists>error. Connection_State error \<in> set down)"

definition out_step :: "bool \<Rightarrow> ConnectionState \<Rightarrow> helper_signal list \<Rightarrow> helper_call list \<Rightarrow> bool" where
  "out_step alive t up down \<longleftrightarrow>
     (all_states down \<or> t = WAITING \<and> (\<exists>m y cs. down = Store_Message m y # cs \<and> all_states cs)) \<and>
     (t = WAITING \<longrightarrow> (\<exists>m y u. Message m y u \<in> set up) \<or> told down) \<and>
     (t = FINAL \<longrightarrow> Shutdown_Signal \<in> set up \<or> told down \<or> alive)"

definition agent_ok :: "relay \<Rightarrow> transport_agent \<Rightarrow> bool" where
  "agent_ok r a \<longleftrightarrow>
     accepted_messages (cn_events (rl_conn r)) = rl_got r @ stored (rl_down r) \<and>
     (\<exists>rest. rl_sent r = reply_messages (cn_events (rl_conn r)) @ rest \<and> (live (rl_conn r) \<longrightarrow> rest = emitted (rl_up r))) \<and>
     (if live (rl_conn r) then in_step (cn_state (rl_conn r)) (ta_state a) (rl_up r) (rl_down r)
      else out_step (cn_alive (rl_conn r)) (ta_state a) (rl_up r) (rl_down r)) \<and>
     ta_state a \<noteq> SETUP"

definition starting_ok :: "relay \<Rightarrow> bool" where
  "starting_ok r \<longleftrightarrow>
     rl_up r = [] \<and> rl_got r = [] \<and> rl_sent r = [] \<and> all_states (rl_down r) \<and>
     list_all (\<lambda>e. \<not> traffic e) (cn_events (rl_conn r)) \<and>
     (live (rl_conn r) \<longrightarrow> rl_down r = [] \<and> (cn_state (rl_conn r) = SETUP \<or> cn_state (rl_conn r) = PROCESSING))"

definition relay_ok :: "relay \<Rightarrow> bool" where
  "relay_ok r \<longleftrightarrow>
     connection_ok (rl_conn r) \<and>
     (rl_synced r \<longrightarrow> session_params (cn_events (rl_conn r)) \<noteq> None) \<and>
     (rl_synced r \<and> cn_alive (rl_conn r) \<longrightarrow> rl_subscribed r) \<and> (rl_subscribed r \<longrightarrow> rl_synced r) \<and>
     params_ok (cn_events (rl_conn r)) \<and>
     (case rl_helper r of Starting \<Rightarrow> starting_ok r | Running a \<Rightarrow> rl_synced r \<and> agent_ok r a | Ended \<Rightarrow> True)"

lemma protocol_later: "protocol s es = Some s' \<Longrightarrow> s \<noteq> SETUP \<Longrightarrow> s' \<noteq> SETUP \<and> session_params es = None"
proof (induction es arbitrary: s)
  case (Cons e es)
  then obtain s1 where "protocol_step s e = Some s1" "protocol s1 es = Some s'"
    by (auto split: Option.bind_splits)
  then show ?case using Cons by (cases e) (auto split: if_splits)
qed simp

lemma protocol_params: "protocol SETUP es = Some s' \<Longrightarrow> session_params es \<noteq> None \<Longrightarrow> s' \<noteq> SETUP"
proof (induction es)
  case (Cons e es)
  then obtain s1 where s1: "protocol_step SETUP e = Some s1" "protocol s1 es = Some s'"
    by (auto split: Option.bind_splits)
  show ?case
  proof (cases "s1 = SETUP")
    case True
    then show ?thesis using Cons s1 by (cases e) auto
  next
    case False
    then show ?thesis using protocol_later [OF s1(2)] by simp
  qed
qed simp

lemma no_traffic_messages:
  assumes "list_all (\<lambda>e. \<not> traffic e) es"
  shows "reply_messages es = []" "session_params es = None \<Longrightarrow> accepted_messages es = []"
proof -
  show "reply_messages es = []" using assms
  proof (induction es)
    case (Cons e es)
    then show ?case by (cases e) auto
  qed simp
  show "accepted_messages es = []" if "session_params es = None" using assms that
  proof (induction es)
    case (Cons e es)
    then show ?case by (cases e) auto
  qed simp
qed

lemma first_message:
  "protocol SETUP es = Some s' \<Longrightarrow> list_all (\<lambda>e. \<not> traffic e) es \<Longrightarrow>
     accepted_messages es = (case session_params es of Some (Some m, _) \<Rightarrow> [m] | _ \<Rightarrow> [])"
proof (induction es)
  case (Cons e es)
  then obtain s1 where s1: "protocol_step SETUP e = Some s1" "protocol s1 es = Some s'"
    by (auto split: Option.bind_splits)
  show ?case
  proof (cases "s1 = SETUP")
    case True
    then show ?thesis using Cons s1 by (cases e) auto
  next
    case False
    then have "accepted_messages es = []" "session_params es = None"
      using protocol_later [OF s1(2)] Cons.prems no_traffic_messages(2) [of es] by auto
    then show ?thesis using s1 False by (cases e) (auto split: option.split)
  qed
qed simp


lemma relayed_no_traffic: "list_all (\<lambda>e. \<not> traffic e) es \<Longrightarrow> all_states (relayed_calls es)"
proof (induction es)
  case (Cons e es)
  then show ?case by (cases e) (auto simp: all_states_def)
qed (simp add: all_states_def)

lemma relayed_status: "StatusSignal error \<in> set es \<Longrightarrow> told (relayed_calls es)"
  by (force simp: told_def relayed_calls_def)

text \<open>What the events of a step do to the relay.\<close>

lemma connection_changed_sel:
  assumes "cn_events c' = cn_events (rl_conn r) @ es"
  shows "connection_changed c' r =
    r\<lparr>rl_conn := c', rl_down := rl_down r @ (if rl_subscribed r then relayed_calls es else [])\<rparr>"
  using assms by (simp add: connection_changed_def)

lemma effect_events:
  assumes "connection_effect c c'"
  obtains es where "cn_events c' = cn_events c @ es"
proof -
  have "\<exists>es. cn_events c' = cn_events c @ es"
    using assms unfolding step_defs by (auto elim!: started_events)
  then show ?thesis using that by blast
qed

text \<open>The part of the invariant that does not depend on the helper.\<close>

definition frame_ok :: "relay \<Rightarrow> bool" where
  "frame_ok r \<longleftrightarrow>
     connection_ok (rl_conn r) \<and>
     (rl_synced r \<longrightarrow> session_params (cn_events (rl_conn r)) \<noteq> None) \<and>
     (rl_synced r \<and> cn_alive (rl_conn r) \<longrightarrow> rl_subscribed r) \<and> (rl_subscribed r \<longrightarrow> rl_synced r) \<and>
     params_ok (cn_events (rl_conn r))"

lemma relay_ok_iff:
  "relay_ok r \<longleftrightarrow> frame_ok r \<and>
     (case rl_helper r of Starting \<Rightarrow> starting_ok r | Running a \<Rightarrow> rl_synced r \<and> agent_ok r a | Ended \<Rightarrow> True)"
  by (auto simp: relay_ok_def frame_ok_def)

lemma synced_started: "frame_ok r \<Longrightarrow> rl_synced r \<Longrightarrow> cn_state (rl_conn r) \<noteq> SETUP"
  using protocol_params connection_ok_parts(1) by (fastforce simp: frame_ok_def)

lemma effect_protocol:
  assumes "connection_ok c" "connection_ok c'" "cn_events c' = cn_events c @ es"
  shows "protocol (cn_state c) es = Some (cn_state c')"
  using connection_ok_parts(1) [OF assms(1)] connection_ok_parts(1) [OF assms(2)] assms(3) by (simp add: protocol_append)

lemma effect_frame:
  assumes "frame_ok r" "connection_ok c'" "connection_effect (rl_conn r) c'" "cn_alive (rl_conn r)"
  shows "frame_ok (connection_changed c' r)"
proof -
  obtain es where es: "cn_events c' = cn_events (rl_conn r) @ es"
    using effect_events [OF assms(3), of thesis] by blast
  have "params_ok es"
    using assms(3) es started_events [of _ _ "rl_conn r" c'] session_params_internal unfolding step_defs
    by (auto simp: params_ok_def elim!: started_events)
  then show ?thesis
    using assms(1,2,4) by (auto simp: frame_ok_def connection_changed_sel [OF es] es params_ok_def session_params_append
        split: option.splits)
qed

text \<open>A connection that is dead stays dead, and nothing is accepted or sent any more.\<close>

lemma dead_effect:
  assumes "connection_ok c" "connection_ok c'" "connection_effect c c'" "cn_alive c" "\<not> live c"
    and es: "cn_events c' = cn_events c @ es"
  shows "\<not> live c'" "list_all (\<lambda>e. \<not> traffic e) es" "cn_alive c' \<or> (\<exists>error. StatusSignal error \<in> set es)"
proof -
  have s: "cn_state c = FAILED \<or> cn_state c = DONE" using assms(4,5) by (simp add: live_def)
  have "quiet_step c c' \<or> ended_step c c'"
    using assms(3) s by (auto simp: connection_effect_def start_step_def message_step_def)
  then show "\<not> live c'" "list_all (\<lambda>e. \<not> traffic e) es" "cn_alive c' \<or> (\<exists>error. StatusSignal error \<in> set es)"
    using s es assms(4) internal_no_traffic by (auto simp: quiet_step_def ended_step_def live_def)
qed

lemma effect_starting:
  assumes "frame_ok r" "starting_ok r" "connection_ok c'" "connection_effect (rl_conn r) c'" "cn_alive (rl_conn r)"
  shows "starting_ok (connection_changed c' r)"
proof -
  let ?c = "rl_conn r"
  obtain es where es: "cn_events c' = cn_events ?c @ es"
    using effect_events [OF assms(4), of thesis] by blast
  note sel = connection_changed_sel [OF es]
  consider (quiet) "quiet_step ?c c'" | (start) "start_step ?c c'" | (message) "message_step ?c c'" | (ended) "ended_step ?c c'"
    using assms(4) by (auto simp: connection_effect_def)
  then show ?thesis
  proof cases
    case quiet
    then have "list_all internal es" using es by (auto simp: quiet_step_def)
    then show ?thesis
      using assms(2) quiet es internal_no_traffic [of es] relayed_internal [of es]
      by (simp add: sel starting_ok_def quiet_step_def live_def)
  next
    case start
    then obtain initial alerted where st: "session_started initial alerted ?c c'" "cn_state ?c = SETUP"
      by (auto simp: start_step_def)
    then have "list_all (\<lambda>e. \<not> traffic e) es \<and> relayed_calls es = []"
      using es by (auto elim!: started_events)
    then show ?thesis
      using assms(2,5) st es by (auto simp: sel starting_ok_def session_started_def live_def)
  next
    case message
    then show ?thesis using assms(2,5) by (auto simp: starting_ok_def message_step_def live_def)
  next
    case ended
    then have nt: "list_all (\<lambda>e. \<not> traffic e) es" "\<not> live c'" using es by (auto simp: ended_step_def)
    then show ?thesis
      using assms(2) es relayed_no_traffic [OF nt(1)] by (auto simp: sel starting_ok_def all_states_def)
  qed
qed

lemma in_step_ended:
  "in_step s t up down \<Longrightarrow> all_states cs \<Longrightarrow> told cs \<Longrightarrow> out_step alive t up (down @ cs)"
  by (auto simp: in_step_def out_step_def told_def all_states_def)

lemma out_step_more: "out_step alive t up down \<Longrightarrow> all_states cs \<Longrightarrow> (alive \<longrightarrow> alive' \<or> told cs) \<Longrightarrow> out_step alive' t up (down @ cs)"
  by (auto simp: out_step_def told_def all_states_def)

lemma effect_agent:
  assumes "frame_ok r" "rl_synced r" "agent_ok r a" "connection_ok c'" "connection_effect (rl_conn r) c'" "cn_alive (rl_conn r)"
  shows "agent_ok (connection_changed c' r) a"
proof -
  let ?c = "rl_conn r"
  obtain es where es: "cn_events c' = cn_events ?c @ es"
    using effect_events [OF assms(5), of thesis] by blast
  have sub: "rl_subscribed r" using assms(1,2,6) by (simp add: frame_ok_def)
  note sel = connection_changed_sel [OF es]
  have ok: "connection_ok ?c" using assms(1) by (simp add: frame_ok_def)
  have s: "cn_state ?c \<noteq> SETUP" by (rule synced_started [OF assms(1,2)])
  have np: "session_params es = None"
    using protocol_later [OF effect_protocol [OF ok assms(4) es] s] by simp
  note parts = assms(3) [unfolded agent_ok_def]
  show ?thesis
  proof (cases "live ?c")
    case False
    note dead = dead_effect [OF ok assms(4,5,6) False es]
    have "out_step (cn_alive c') (ta_state a) (rl_up r) (rl_down r @ relayed_calls es)"
      using parts False dead relayed_no_traffic [OF dead(2)] relayed_status [of _ es]
      by (intro out_step_more [of "cn_alive ?c"]) auto
    then show ?thesis
      using parts dead(1) False no_traffic_messages [OF dead(2)] np relayed_no_traffic [OF dead(2)]
      by (simp add: agent_ok_def sel es sub all_states_def)
  next
    case True
    consider (quiet) "quiet_step ?c c'" | (message) "message_step ?c c'" | (ended) "ended_step ?c c'"
      using assms(5) s by (auto simp: connection_effect_def start_step_def)
    then show ?thesis
    proof cases
      case quiet
      then have i: "list_all internal es" using es by (auto simp: quiet_step_def)
      show ?thesis
        using parts quiet True np no_traffic_messages [OF internal_no_traffic [OF i]] relayed_internal [OF i]
        by (simp add: agent_ok_def sel es quiet_step_def live_def)
    next
      case message
      then obtain m y where m: "es = [MessageSignal m y]" "cn_state ?c = WAITING" "cn_state c' = PROCESSING" "cn_alive c'"
        using es assms(6) by (auto simp: message_step_def)
      then show ?thesis
        using parts True by (auto simp: agent_ok_def sel es sub live_def in_step_def)
    next
      case ended
      then obtain error where nt: "list_all (\<lambda>e. \<not> traffic e) es" "\<not> live c'" "StatusSignal error \<in> set es"
        using es by (auto simp: ended_step_def)
      note cs = relayed_no_traffic [OF nt(1)] relayed_status [OF nt(3)]
      have "out_step (cn_alive c') (ta_state a) (rl_up r) (rl_down r @ relayed_calls es)"
        using parts True cs by (intro in_step_ended) auto
      then show ?thesis
        using parts nt True np no_traffic_messages [OF nt(1)] cs(1)
        by (auto simp: agent_ok_def sel es sub all_states_def)
    qed
  qed
qed

lemma connection_changed_ok:
  assumes "relay_ok r" "connection_ok c'" "connection_effect (rl_conn r) c'" "cn_alive (rl_conn r)"
  shows "relay_ok (connection_changed c' r)"
proof -
  have "rl_helper (connection_changed c' r) = rl_helper r" "rl_synced (connection_changed c' r) = rl_synced r"
    by (simp_all add: connection_changed_def Let_def)
  then show ?thesis
    using assms effect_frame [OF _ assms(2,3,4)] effect_starting [OF _ _ assms(2,3,4)] effect_agent [OF _ _ _ assms(2,3,4)]
    by (auto simp: relay_ok_iff split: helper.split)
qed

lemma connection_call_ok:
  assumes "relay_ok r" "external_call call"
  shows "relay_ok (connection_changed (connection_step call (rl_conn r)) r)"
proof (cases "cn_alive (rl_conn r)")
  case True
  have ok: "connection_ok (rl_conn r)" using assms(1) by (simp add: relay_ok_def)
  then have "connection_ok (connection_step call (rl_conn r))"
    using True connection_do_ok by (simp add: connection_step_def)
  then show ?thesis
    using connection_changed_ok [OF assms(1) _ external_step_cases [OF ok True assms(2)] True] by blast
next
  case False
  then show ?thesis using assms(1) by (simp add: connection_step_def connection_changed_def)
qed

text \<open>The signals of the helper.\<close>

lemma Connection_send_ok: "connection_ok c \<Longrightarrow> connection_ok (snd (Connection_send buffer type url c))"
  by (auto simp: Connection_send_def activateTimeout_def connection_ok_def protocol_append)

lemma sendFinalMsg_ok: "connection_ok c \<Longrightarrow> connection_ok (sendFinalMsg c)"
  by (auto simp: sendFinalMsg_def connection_ok_def protocol_append)

lemma told_state [simp]: "told (down @ [Connection_State error])"
  by (auto simp: told_def)

lemma out_step_told: "out_step alive t up down \<Longrightarrow> out_step alive' t up' (down @ [Connection_State error])"
  by (auto simp: out_step_def all_states_def)

lemma told_dead:
  assumes "relay_ok r" "\<not> live (rl_conn r)"
  shows "relay_ok (connectionState error (r\<lparr>rl_up := tl (rl_up r)\<rparr>))"
proof (cases "rl_helper r")
  case (Running a)
  then show ?thesis
    using assms by (auto simp: relay_ok_iff frame_ok_def agent_ok_def connectionState_def intro: out_step_told)
qed (use assms in \<open>auto simp: relay_ok_iff frame_ok_def starting_ok_def connectionState_def all_states_def\<close>)

lemma no_events: "cn_events c' = cn_events (rl_conn r) \<Longrightarrow> connection_changed c' r = r\<lparr>rl_conn := c'\<rparr>"
  by (simp add: connection_changed_def)

lemma frame_send:
  assumes "frame_ok r" "connection_ok c'" "cn_events c' = cn_events (rl_conn r) @ es" "session_params es = None"
    and "cn_alive c' = cn_alive (rl_conn r)"
  shows "frame_ok ((connection_changed c' r)\<lparr>rl_up := up\<rparr>)"
  using assms by (auto simp: frame_ok_def connection_changed_def params_ok_def session_params_append split: option.splits)

lemma connection_changed_up: "connection_changed c' (r\<lparr>rl_up := up\<rparr>) = (connection_changed c' r)\<lparr>rl_up := up\<rparr>"
  by (simp add: connection_changed_def Let_def)

lemma sendViaConnection_ok:
  assumes "relay_ok r" "rl_up r = Message buffer type url # up"
  shows "relay_ok (sendViaConnection buffer type url (r\<lparr>rl_up := up\<rparr>))"
proof (cases "live (rl_conn r)")
  case False
  have "(r\<lparr>rl_conn := rl_conn r, rl_up := up\<rparr>) = r\<lparr>rl_up := tl (rl_up r)\<rparr>" using assms(2) by simp
  then show ?thesis
    using told_dead [OF assms(1) False] False assms(2)
    by (auto simp: sendViaConnection_def Connection_send_def live_def no_events connection_changed_up)
next
  case True
  let ?c = "rl_conn r"
  let ?r = "(connection_changed (snd (Connection_send buffer type url ?c)) r)\<lparr>rl_up := up\<rparr>"
  have ok: "connection_ok ?c" "frame_ok r" using assms(1) by (simp_all add: relay_ok_iff frame_ok_def)
  show ?thesis
  proof (cases "cn_state ?c = PROCESSING")
    case proc: True
    let ?c' = "snd (Connection_send buffer type url ?c)"
    have send: "fst (Connection_send buffer type url ?c) = None" "cn_state ?c' = WAITING" "cn_alive ?c' = cn_alive ?c"
      "cn_events ?c' = cn_events ?c @ [Reply buffer type [(''URL'', url)] False (cn_sessionID ?c)]"
      using proc by (simp_all add: Connection_send_def activateTimeout_def)
    have "frame_ok ?r"
      by (rule frame_send [OF ok(2) Connection_send_ok [OF ok(1)] send(4)]) (simp_all add: send)
    moreover have "agent_ok ?r a" if "rl_helper r = Running a" for a
      using assms that True send by (auto simp: relay_ok_iff agent_ok_def connection_changed_def live_def in_step_def)
    moreover have "rl_helper r \<noteq> Starting" using assms by (auto simp: relay_ok_iff starting_ok_def)
    ultimately have "relay_ok ?r"
      using assms(1) by (auto simp: relay_ok_iff connection_changed_def Let_def split: helper.splits)
    then show ?thesis
      using True send(1) by (auto simp: sendViaConnection_def live_def connection_changed_up split: option.split prod.split)
  next
    case False
    then have ended: "rl_helper r = Ended"
      using assms True by (cases "rl_helper r") (auto simp: relay_ok_iff starting_ok_def agent_ok_def in_step_def)
    then show ?thesis
      using assms True False
      by (auto simp: sendViaConnection_def Connection_send_def live_def no_events connectionState_def relay_ok_iff frame_ok_def)
  qed
qed

lemma shutdownConnection_ok:
  assumes "relay_ok r" "rl_up r = Shutdown_Signal # up"
  shows "relay_ok (shutdownConnection (r\<lparr>rl_up := up\<rparr>))"
proof (cases "cn_alive (rl_conn r)")
  case False
  then show ?thesis
    using told_dead [OF assms(1)] assms(2) by (simp add: shutdownConnection_def live_def)
next
  case True
  let ?c = "rl_conn r" and ?c' = "sendFinalMsg (rl_conn r)"
  let ?r = "(connection_changed ?c' r)\<lparr>rl_up := up\<rparr>"
  have ok: "connection_ok ?c" "frame_ok r" using assms(1) by (simp_all add: relay_ok_iff frame_ok_def)
  obtain es where es: "cn_events ?c' = cn_events ?c @ es" "session_params es = None" "relayed_calls es = []"
    "accepted_messages es = []" "reply_messages es = []"
    by (cases "cn_state ?c = PROCESSING") (auto simp: sendFinalMsg_def)
  have "cn_alive ?c' = cn_alive ?c" by (simp add: sendFinalMsg_def)
  then have "frame_ok ?r" by (rule frame_send [OF ok(2) sendFinalMsg_ok [OF ok(1)] es(1,2)])
  moreover have "agent_ok ?r a" if run: "rl_helper r = Running a" for a
  proof (cases "live ?c")
    case live: True
    then have "cn_state ?c' = FINAL" "live ?c'"
      using assms run True by (auto simp: relay_ok_iff agent_ok_def in_step_def sendFinalMsg_def live_def)
    then show ?thesis
      using assms run live es by (auto simp: relay_ok_iff agent_ok_def connection_changed_sel in_step_def)
  next
    case False
    then have "?c' = ?c" using True by (auto simp: sendFinalMsg_def live_def)
    then show ?thesis
      using assms run False True by (auto simp: relay_ok_iff agent_ok_def no_events out_step_def)
  qed
  moreover have "rl_helper r \<noteq> Starting" using assms by (auto simp: relay_ok_iff starting_ok_def)
  ultimately have "relay_ok ?r"
    using assms(1) by (auto simp: relay_ok_iff connection_changed_def Let_def split: helper.splits)
  then show ?thesis
    using True by (simp add: shutdownConnection_def connection_changed_up)
qed

text \<open>The calls of the helper.\<close>

lemma all_states_tl: "all_states (call # down) \<Longrightarrow> all_states down"
  by (cases call) (simp_all add: all_states_def)

lemma receive_call_ok:
  assumes "relay_ok r"
  shows "relay_ok (receive_call r)"
proof (cases "rl_down r")
  case (Cons call down)
  show ?thesis
  proof (cases "rl_helper r")
    case (Running a)
    then have ok: "agent_ok r a" "frame_ok r" "rl_synced r" using assms by (simp_all add: relay_ok_iff)
    show ?thesis
    proof (cases call)
      case (Store_Message m y)
      then have t: "ta_state a = WAITING"
        using ok(1) Cons by (auto simp: agent_ok_def in_step_def out_step_def all_states_def split: if_splits)
      then have "agent_ok (receive_call r) (snd (Agent_storeMessage m y a))" "rl_helper (receive_call r) = Running (snd (Agent_storeMessage m y a))"
        using ok(1) Cons Running Store_Message
        by (auto simp: receive_call_def agent_ok_def Agent_storeMessage_def in_step_def out_step_def all_states_def told_def split: if_splits)
      moreover have "frame_ok (receive_call r)" "rl_synced (receive_call r)"
        using ok(2,3) t Cons Running Store_Message by (simp_all add: receive_call_def frame_ok_def Agent_storeMessage_def)
      ultimately show ?thesis by (simp add: relay_ok_iff)
    next
      case (Connection_State error)
      then have dead: "\<not> live (rl_conn r)"
        using ok(1) Cons by (auto simp: agent_ok_def in_step_def split: if_splits)
      then show ?thesis
        using ok Cons Running Connection_State
        by (auto simp: receive_call_def relay_ok_iff frame_ok_def agent_ok_def storeState_def out_step_def all_states_def)
    qed
  qed (use assms Cons in \<open>auto simp: receive_call_def Let_def relay_ok_iff frame_ok_def starting_ok_def dest: all_states_tl\<close>)
qed (use assms in \<open>simp add: receive_call_def\<close>)

lemma sync2_ok: "relay_ok r \<Longrightarrow> relay_ok (sync2 r)"
  by (auto simp: sync2_def relay_ok_iff frame_ok_def starting_ok_def agent_ok_def split: helper.splits)

lemma created_state: "createTransportAgent initial alerted = Some a \<Longrightarrow> ta_state a = PROCESSING"
  by (auto simp: createTransportAgent_def serverAlerted_def DBusTransportAgent_def Agent_storeMessage_def split: if_splits)

lemma start_agent_ok:
  assumes "relay_ok r"
  shows "relay_ok (start_agent r)"
proof (cases "rl_synced r \<and> rl_helper r = Starting")
  case True
  then have frame: "frame_ok r" and st: "starting_ok r" using assms by (simp_all add: relay_ok_iff)
  obtain initial alerted where params: "session_params (cn_events (rl_conn r)) = Some (initial, alerted)"
    using frame True by (auto simp: frame_ok_def)
  have p: "protocol SETUP (cn_events (rl_conn r)) = Some (cn_state (rl_conn r))"
    using frame connection_ok_parts(1) by (simp add: frame_ok_def)
  have initial: "alerted \<longrightarrow> initial = None" using frame params by (auto simp: frame_ok_def params_ok_def)
  have acc: "accepted_messages (cn_events (rl_conn r)) = (case initial of Some m \<Rightarrow> [m] | None \<Rightarrow> [])"
    using first_message [OF p] st params by (auto simp: starting_ok_def split: option.split)
  have "live (rl_conn r) \<longrightarrow> cn_state (rl_conn r) = PROCESSING"
    using st synced_started [OF frame] True by (auto simp: starting_ok_def)
  then have "agent_ok (start_agent r) a"
    if "createTransportAgent initial alerted = Some a" for a
    using that True params acc initial st no_traffic_messages(1) [of "cn_events (rl_conn r)"] created_state [OF that]
    by (cases "live (rl_conn r)") (auto simp: start_agent_def agent_ok_def starting_ok_def in_step_def out_step_def all_states_def)
  then show ?thesis
    using assms frame True params
    by (auto simp: start_agent_def relay_ok_iff frame_ok_def split: option.split)
qed (use assms in \<open>auto simp: start_agent_def\<close>)

lemma processing_signals:
  "in_step s PROCESSING up down \<Longrightarrow> in_step s WAITING (up @ [Message m y u]) down"
  "in_step s PROCESSING up down \<Longrightarrow> in_step s FINAL (up @ [Shutdown_Signal]) down"
  "out_step alive PROCESSING up down \<Longrightarrow> out_step alive WAITING (up @ [Message m y u]) down"
  "out_step alive PROCESSING up down \<Longrightarrow> out_step alive FINAL (up @ [Shutdown_Signal]) down"
  by (auto simp: in_step_def out_step_def)

lemma agent_ok_cong:
  "rl_conn r' = rl_conn r \<Longrightarrow> rl_got r' = rl_got r \<Longrightarrow> rl_down r' = rl_down r \<Longrightarrow> rl_up r' = rl_up r \<Longrightarrow>
   rl_sent r' = rl_sent r \<Longrightarrow> ta_state a' = ta_state a \<Longrightarrow> agent_ok r a \<Longrightarrow> agent_ok r' a'"
  by (simp add: agent_ok_def)

lemma engine_send_ok:
  assumes "relay_ok r"
  shows "relay_ok (engine_send url type data r)"
proof (cases "rl_helper r")
  case (Running a)
  then have ok: "agent_ok r a" "frame_ok r" "rl_synced r" using assms by (simp_all add: relay_ok_iff)
  have frame: "frame_ok (engine_send url type data r)" "rl_synced (engine_send url type data r)"
    using ok(2,3) Running by (simp_all add: engine_send_def frame_ok_def Agent_send_def)
  show ?thesis
  proof (cases "ta_state a = PROCESSING")
    case True
    then have "agent_ok (engine_send url type data r) (a\<lparr>ta_url := url, ta_type := type, ta_state := WAITING, ta_incomingMsg := []\<rparr>)"
      using ok(1) Running
      by (cases "live (rl_conn r)") (auto simp: engine_send_def Agent_send_def agent_ok_def intro: processing_signals)
    then show ?thesis
      using frame Running True by (simp add: relay_ok_iff engine_send_def Agent_send_def)
  next
    case False
    then show ?thesis
      using frame Running agent_ok_cong [OF _ _ _ _ _ _ ok(1)] by (simp add: relay_ok_iff engine_send_def Agent_send_def)
  qed
qed (use assms in \<open>simp_all add: engine_send_def\<close>)

lemma engine_shutdown_ok:
  assumes "relay_ok r"
  shows "relay_ok (engine_shutdown r)"
proof (cases "rl_helper r")
  case (Running a)
  then have ok: "agent_ok r a" "frame_ok r" "rl_synced r" using assms by (simp_all add: relay_ok_iff)
  have frame: "frame_ok (engine_shutdown r)" "rl_synced (engine_shutdown r)"
    using ok(2,3) Running by (simp_all add: engine_shutdown_def frame_ok_def Agent_shutdown_def)
  show ?thesis
  proof (cases "ta_state a = PROCESSING")
    case True
    then have "agent_ok (engine_shutdown r) (a\<lparr>ta_state := FINAL\<rparr>)"
      using ok(1) Running
      by (cases "live (rl_conn r)") (auto simp: engine_shutdown_def Agent_shutdown_def agent_ok_def intro: processing_signals)
    then show ?thesis
      using frame Running True by (simp add: relay_ok_iff engine_shutdown_def Agent_shutdown_def)
  next
    case False
    then show ?thesis
      using frame Running agent_ok_cong [OF _ _ _ _ _ _ ok(1)] by (simp add: relay_ok_iff engine_shutdown_def Agent_shutdown_def)
  qed
qed (use assms in \<open>simp_all add: engine_shutdown_def\<close>)

lemma relay_do_ok: "relay_ok r \<Longrightarrow> relay_ok (relay_do e r)"
proof (induction e)
  case Up
  then show ?case
    using sendViaConnection_ok [of r] shutdownConnection_ok [of r]
    by (auto simp: receive_signal_def split: list.split helper_signal.split)
next
  case Engine_Gone
  then show ?case by (auto simp: relay_ok_iff frame_ok_def starting_ok_def)
qed (auto simp: connection_call_ok sync2_ok start_agent_ok engine_send_ok engine_shutdown_ok receive_call_ok)

lemma relay_run_ok:
  assumes "Server_connect shutdown new_session caller peer auth session = Inr c"
  shows "relay_ok (relay_run c events)"
proof -
  have "cn_events c = []" "cn_state c = SETUP"
    using assms by (auto simp: Server_connect_def Connection_new_def split: if_splits)
  then have "relay_ok (relay_start c)"
    using connection_start_ok(1) [OF assms]
    by (simp add: relay_start_def relay_ok_iff frame_ok_def starting_ok_def all_states_def params_ok_def)
  moreover have "relay_ok r \<Longrightarrow> relay_ok (fold relay_do events r)" for r
    by (induction events arbitrary: r) (auto simp: relay_do_ok)
  ultimately show ?thesis by (simp add: relay_run_def)
qed

lemma relay_running:
  assumes "Server_connect shutdown new_session caller peer auth session = Inr c" "r = relay_run c events" "rl_helper r = Running a"
  shows "frame_ok r" "agent_ok r a"
  using relay_run_ok [OF assms(1), of events] assms(2,3) by (simp_all add: relay_ok_iff)

text \<open>
  C19: Messages between a peer and the sync engine. In every history of calls by clients, timers, sends and
  shutdowns by the engine, and deliveries in the two directions, the messages that the connection has
  accepted are those that the engine has got, in this order, followed by those on their way, and the
  replies that were sent to the peer are the first of those that the engine has sent: all of them
  except for those on their way, as long as the connection has not ended.
\<close>

theorem relay_delivers:
  assumes "Server_connect shutdown new_session caller peer auth session = Inr c" "r = relay_run c events"
    and "rl_helper r = Running a"
  shows "accepted_messages (cn_events (rl_conn r)) = rl_got r @ stored (rl_down r) \<and>
    prefix (reply_messages (cn_events (rl_conn r))) (rl_sent r) \<and>
    (live (rl_conn r) \<longrightarrow> rl_sent r = reply_messages (cn_events (rl_conn r)) @ emitted (rl_up r))"
  using relay_running(2) [OF assms] by (auto simp: agent_ok_def)

theorem relay_delivers_witness:
  "accepted_messages
     [SessionCreated ''dev'' ''phone'' (Some (''hello'', ''application/vnd.syncml+xml'')) False, StubConnectionError ''closed prematurely'',
      KillSessions ''dev'', SyncStarted [] [], Reply ''hi'' ''text'' [(''URL'', [])] False ''7'',
      MessageSignal ''more'' ''application/vnd.syncml+xml''] =
   [(''hello'', ''application/vnd.syncml+xml''), (''more'', ''application/vnd.syncml+xml'')]"
proof -
  let ?env = "\<lparr>ce_configs = [(''phone'', [])], ce_syncURL = (\<lambda>_. []), ce_remoteDevID = (\<lambda>_. ''dev''), ce_currentTime = [],
      ce_san = (\<lambda>_. None), ce_analyze = (\<lambda>_ _. Inr ''dev'')\<rparr>"
  let ?re = "\<lparr>re_exists = (\<lambda>_. True), re_template = Inr [], re_setConfig = None, re_retryDuration = (\<lambda>_. 300), re_sources = (\<lambda>_. []),
      re_sync = None\<rparr>"
  let ?process = "\<lambda>m. Connection_Call (Process ?env (Some ?re) ['':1.5''] '':1.5'' m ''application/vnd.syncml+xml'')"
  let ?start = "(Connection_new ''7'' [] False)\<lparr>cn_owners := ['':1.5'']\<rparr>"
  have start: "Server_connect False ''7'' '':1.5'' [] False [] = Inr ?start"
    by (simp add: Server_connect_def)
  let ?r = "relay_run ?start [?process ''hello'', Sync_Started, Agent_Started, Engine_Send [] ''text'' ''hi'', Up, ?process ''more'']"
  have "rl_helper ?r = Running \<lparr>ta_url = [], ta_type = ''text'', ta_incomingMsg = [],
      ta_incomingMsgType = ''application/vnd.syncml+xml'', ta_error = [], ta_state = WAITING\<rparr>"
    by code_simp
  note result = relay_delivers [OF start refl this]
  have events: "cn_events (rl_conn ?r) = [SessionCreated ''dev'' ''phone'' (Some (''hello'', ''application/vnd.syncml+xml'')) False,
      StubConnectionError ''closed prematurely'', KillSessions ''dev'', SyncStarted [] [], Reply ''hi'' ''text'' [(''URL'', [])] False ''7'',
      MessageSignal ''more'' ''application/vnd.syncml+xml'']"
    and got: "rl_got ?r @ stored (rl_down ?r) =
      [(''hello'', ''application/vnd.syncml+xml''), (''more'', ''application/vnd.syncml+xml'')]"
    by code_simp+
  show ?thesis using result unfolding events got by blast
qed

text \<open>
  C18: The connection and the helper never wait for each other. In every history, a message that is
  delivered to the helper is expected there, and a reply of the helper is refused only by a connection that has
  ended; when nothing is on its way and the engine waits for a message, the connection waits for the
  peer, and when it waits for the end, the connection does, or is about to be deleted, which
  tells the helper.
\<close>

theorem relay_never_stuck:
  assumes "Server_connect shutdown new_session caller peer auth session = Inr c" "r = relay_run c events"
    and "rl_helper r = Running a"
  shows "(\<forall>m y down. rl_down r = Store_Message m y # down \<longrightarrow> fst (Agent_storeMessage m y a) = None) \<and>
    (\<forall>m y u up. rl_up r = Message m y u # up \<longrightarrow> live (rl_conn r) \<longrightarrow> fst (Connection_send m y u (rl_conn r)) = None) \<and>
    (rl_up r = [] \<and> rl_down r = [] \<longrightarrow>
       (ta_state a = WAITING \<longrightarrow> cn_alive (rl_conn r) \<and> cn_state (rl_conn r) = WAITING) \<and>
       (ta_state a = FINAL \<longrightarrow> cn_alive (rl_conn r) \<and> rl_subscribed r \<and>
          (cn_state (rl_conn r) = FINAL \<or> (cn_delayed (rl_conn r) \<and> cn_owners (rl_conn r) = []))))"
proof -
  have ok: "frame_ok r" "agent_ok r a" "rl_synced r"
    using relay_running [OF assms] relay_run_ok [OF assms(1), of events] assms(2,3) by (simp_all add: relay_ok_iff)
  have "ta_state a = WAITING" if "rl_down r = Store_Message m y # down" for m y down
    using ok(2) that by (auto simp: agent_ok_def in_step_def out_step_def all_states_def split: if_splits)
  moreover have "cn_state (rl_conn r) = PROCESSING" if "rl_up r = Message m y u # up" "live (rl_conn r)" for m y u up
    using ok(2) that by (auto simp: agent_ok_def in_step_def)
  moreover have "cn_alive (rl_conn r) \<and> cn_state (rl_conn r) = WAITING"
    if "rl_up r = []" "rl_down r = []" "ta_state a = WAITING"
    using ok(2) that by (auto simp: agent_ok_def in_step_def out_step_def told_def live_def split: if_splits)
  moreover have alive: "cn_alive (rl_conn r) \<and> (live (rl_conn r) \<longrightarrow> cn_state (rl_conn r) = FINAL)"
    if "rl_up r = []" "rl_down r = []" "ta_state a = FINAL"
    using ok(2) that by (auto simp: agent_ok_def in_step_def out_step_def told_def live_def split: if_splits)
  moreover have "cn_delayed (rl_conn r) \<and> cn_owners (rl_conn r) = []" if "cn_alive (rl_conn r)" "\<not> live (rl_conn r)"
    using ok(1) that by (auto simp: frame_ok_def connection_ok_def live_def)
  moreover have "rl_subscribed r" if "cn_alive (rl_conn r)"
    using ok(1,3) that by (simp add: frame_ok_def)
  ultimately show ?thesis
    by (auto simp: Agent_storeMessage_def Connection_send_def)
qed

theorem relay_never_stuck_witness:
  "let env = \<lparr>ce_configs = [(''phone'', [])], ce_syncURL = (\<lambda>_. []), ce_remoteDevID = (\<lambda>_. ''dev''), ce_currentTime = [],
         ce_san = (\<lambda>_. None), ce_analyze = (\<lambda>_ _. Inr ''dev'')\<rparr>;
       start = (Connection_new ''7'' [] False)\<lparr>cn_owners := ['':1.5'']\<rparr>;
       first = Connection_Call (Process env None ['':1.5''] '':1.5'' ''hello'' ''application/vnd.syncml+xml'');
       r = relay_run start [first, Sync_Started, Agent_Started, Engine_Send [] ''text'' ''hi'', Up]
   in cn_alive (rl_conn r) \<and> cn_state (rl_conn r) = WAITING"
proof -
  let ?env = "\<lparr>ce_configs = [(''phone'', [])], ce_syncURL = (\<lambda>_. []), ce_remoteDevID = (\<lambda>_. ''dev''), ce_currentTime = [],
      ce_san = (\<lambda>_. None), ce_analyze = (\<lambda>_ _. Inr ''dev'')\<rparr>"
  let ?start = "(Connection_new ''7'' [] False)\<lparr>cn_owners := ['':1.5'']\<rparr>"
  let ?first = "Connection_Call (Process ?env None ['':1.5''] '':1.5'' ''hello'' ''application/vnd.syncml+xml'')"
  let ?r = "relay_run ?start [?first, Sync_Started, Agent_Started, Engine_Send [] ''text'' ''hi'', Up]"
  have start: "Server_connect False ''7'' '':1.5'' [] False [] = Inr ?start"
    by (simp add: Server_connect_def)
  have a: "rl_helper ?r = Running \<lparr>ta_url = [], ta_type = ''text'', ta_incomingMsg = [],
      ta_incomingMsgType = ''application/vnd.syncml+xml'', ta_error = [], ta_state = WAITING\<rparr>"
    and empty: "rl_up ?r = []" "rl_down ?r = []"
    by code_simp+
  show ?thesis
    unfolding Let_def using relay_never_stuck [OF start refl a] empty by simp
qed

text \<open>
  A normal end reaches the helper twice, from \<open>close\<close> and from the destructor. The first leads to the state
  \<open>DONE\<close>, the second from there to \<open>FAILED\<close>, without an error text.
\<close>

lemma normal_end_told_twice:
  assumes "cn_state c = FINAL" "cn_owners c = [caller]" "caller \<in> set clients" "cn_failure c = []" "cn_alive c"
    and closed: "closed = snd (Connection_close clients caller True error c)"
  shows "relayed_calls (drop (length (cn_events c)) (cn_events (delayDeletionCb closed))) = [Connection_State [], Connection_State []]"
    and "ta_state (storeState [] (storeState [] (a\<lparr>ta_state := FINAL\<rparr>))) = FAILED"
  using assms(1-5)
  by (simp_all add: closed Connection_close_def delayDeletionCb_def release_def destruct_events_def storeState_def Let_def)

end
