(* ===== verification/Contact_View.thy ===== *)
theory Contact_View
  imports Prelude "HOL-Library.Multiset"
begin

text \<open>
  What the views on contacts of the PIM manager share
  (src/src/dbus/server/pim/view.h, view.cpp, folks.h and folks.cpp): the change signals and what a
  recipient makes of them, the binary search for the place of a contact, the comparison of sort
  criteria, filters, and the lookup of contacts by their ID.

  A view is the list of the data of its contacts. Indices are natural numbers: the lists are
  shorter than the range of \<open>int\<close>.
\<close>

section \<open>Change signals\<close>

text \<open>
  The signals of \<open>IndividualView\<close>: \<open>m_addedSignal\<close>, \<open>m_removedSignal\<close>, \<open>m_modifiedSignal\<close> and
  \<open>m_quiescenceSignal\<close>.
\<close>

datatype 'd view_signal = Added nat 'd | Removed nat 'd | Modified nat 'd | Quiescent

text \<open>\<open>std::vector::insert\<close> and \<open>erase\<close> at an index.\<close>

definition ins :: "nat \<Rightarrow> 'a \<Rightarrow> 'a list \<Rightarrow> 'a list" where
  "ins i x xs = take i xs @ x # drop i xs"

definition del :: "nat \<Rightarrow> 'a list \<Rightarrow> 'a list" where
  "del i xs = take i xs @ drop (Suc i) xs"

text \<open>
  A recipient that keeps a copy of the view, as the documentation of the signals describes it;
  \<open>None\<close> when a signal does not fit to the copy.
\<close>

fun replay1 :: "'d view_signal \<Rightarrow> 'd list \<Rightarrow> 'd list option" where
  "replay1 (Added i d) xs = (if i \<le> length xs then Some (ins i d xs) else None)"
| "replay1 (Removed i d) xs = (if i < length xs then Some (del i xs) else None)"
| "replay1 (Modified i d) xs = (if i < length xs then Some (xs[i := d]) else None)"
| "replay1 Quiescent xs = Some xs"

fun replay :: "'d view_signal list \<Rightarrow> 'd list \<Rightarrow> 'd list option" where
  "replay [] xs = Some xs"
| "replay (s # ss) xs = (case replay1 s xs of None \<Rightarrow> None | Some ys \<Rightarrow> replay ss ys)"

lemma replay_append [simp]:
  "replay (ss @ ts) xs = (case replay ss xs of None \<Rightarrow> None | Some ys \<Rightarrow> replay ts ys)"
  by (induction ss arbitrary: xs) (auto split: option.splits)

lemma length_ins [simp]: "i \<le> length xs \<Longrightarrow> length (ins i x xs) = Suc (length xs)"
  by (simp add: ins_def)

lemma length_del [simp]: "i < length xs \<Longrightarrow> length (del i xs) = length xs - 1"
  by (simp add: del_def)

lemma ins_length_append [simp]: "ins (length a) x (a @ b) = a @ x # b"
  by (simp add: ins_def)

lemma ins_length [simp]: "ins (length a) x a = a @ [x]"
  by (simp add: ins_def)

lemma del_length_append [simp]: "del (length a) (a @ x # b) = a @ b"
  by (simp add: del_def)

lemma nth_ins:
  "i \<le> length xs \<Longrightarrow> j \<le> length xs \<Longrightarrow>
   ins i x xs ! j = (if j < i then xs ! j else if j = i then x else xs ! (j - 1))"
  by (cases "j - i") (auto simp: ins_def nth_append min_absorb2 intro!: arg_cong [of _ _ "nth xs"])

lemma nth_del:
  "i < length xs \<Longrightarrow> Suc j < length xs \<Longrightarrow> del i xs ! j = (if j < i then xs ! j else xs ! Suc j)"
  by (auto simp: del_def nth_append min_absorb2)

lemma set_ins: "i \<le> length xs \<Longrightarrow> set (ins i x xs) = insert x (set xs)"
  using append_take_drop_id [of i xs] by (metis Un_insert_right ins_def list.simps(15) set_append)

lemma mset_ins: "mset (ins i x xs) = add_mset x (mset xs)"
  by (simp add: ins_def) (metis append_take_drop_id mset_append)

lemma mset_del: "i < length xs \<Longrightarrow> add_mset (xs ! i) (mset (del i xs)) = mset xs"
  by (metis del_def id_take_nth_drop mset.simps(2) mset_append union_mset_add_mset_right)

lemma map_ins: "map f (ins i x xs) = ins i (f x) (map f xs)"
  by (simp add: ins_def take_map drop_map)

lemma map_del: "map f (del i xs) = del i (map f xs)"
  by (simp add: del_def take_map drop_map)

section \<open>Binary search\<close>

text \<open>
  \<open>std::lower_bound\<close>: \<open>first\<close> is the start and \<open>n\<close> the length of the range that is left.
\<close>

function lower_bound_loop :: "('a \<Rightarrow> 'b \<Rightarrow> bool) \<Rightarrow> 'a list \<Rightarrow> 'b \<Rightarrow> nat \<Rightarrow> nat \<Rightarrow> nat" where
  "lower_bound_loop lt xs v first n =
     (if n = 0 then first
      else (let half = n div 2
            in if lt (xs ! (first + half)) v
               then lower_bound_loop lt xs v (first + half + 1) (n - half - 1)
               else lower_bound_loop lt xs v first half))"
  by pat_completeness auto

termination
  by (relation "measure (\<lambda>(_, _, _, _, n). n)") auto

declare lower_bound_loop.simps [simp del]

definition lower_bound :: "('a \<Rightarrow> 'b \<Rightarrow> bool) \<Rightarrow> 'a list \<Rightarrow> 'b \<Rightarrow> nat" where
  "lower_bound lt xs v = lower_bound_loop lt xs v 0 (length xs)"

text \<open>The range is partitioned: what comes before an element that is less is less, too.\<close>

definition partitioned :: "('a \<Rightarrow> 'b \<Rightarrow> bool) \<Rightarrow> 'a list \<Rightarrow> 'b \<Rightarrow> bool" where
  "partitioned lt xs v \<longleftrightarrow> sorted_wrt (\<lambda>x y. lt y v \<longrightarrow> lt x v) xs"

lemma partitioned_nth:
  "partitioned lt xs v \<Longrightarrow> i \<le> j \<Longrightarrow> j < length xs \<Longrightarrow> lt (xs ! j) v \<Longrightarrow> lt (xs ! i) v"
  by (cases "i = j") (auto simp: partitioned_def sorted_wrt_iff_nth_less le_less)

lemma lower_bound_loop_spec:
  assumes "partitioned lt xs v" and "first + n \<le> length xs"
    and "\<forall>i < first. lt (xs ! i) v" and "\<forall>i. first + n \<le> i \<and> i < length xs \<longrightarrow> \<not> lt (xs ! i) v"
  shows "lower_bound_loop lt xs v first n \<le> length xs \<and>
         (\<forall>i < length xs. lt (xs ! i) v \<longleftrightarrow> i < lower_bound_loop lt xs v first n)"
  using assms
proof (induction lt xs v first n rule: lower_bound_loop.induct)
  case (1 lt xs v first n)
  show ?case
  proof (cases "n = 0")
    case True
    then have r: "lower_bound_loop lt xs v first n = first"
      by (simp add: lower_bound_loop.simps)
    show ?thesis
      unfolding r using 1(4-6) True by (metis add_0_right not_le)
  next
    case False
    define half where "half = n div 2"
    have half: "first + half < length xs" "half < n"
      using False 1(4) by (auto simp: half_def)
    show ?thesis
    proof (cases "lt (xs ! (first + half)) v")
      case True
      have "\<forall>i < first + half + 1. lt (xs ! i) v"
        using partitioned_nth [OF 1(3) _ half(1) True] by auto
      moreover have "lower_bound_loop lt xs v first n = lower_bound_loop lt xs v (first + half + 1) (n - half - 1)"
        using False True by (subst lower_bound_loop.simps) (simp add: half_def Let_def)
      ultimately show ?thesis
        using 1(1) [OF False half_def True] 1(3-6) half by simp
    next
      case no: False
      have after: "\<forall>i. first + half \<le> i \<and> i < length xs \<longrightarrow> \<not> lt (xs ! i) v"
        using partitioned_nth [OF 1(3)] no by blast
      have r: "lower_bound_loop lt xs v first n = lower_bound_loop lt xs v first half"
        using False no by (subst lower_bound_loop.simps) (simp add: half_def Let_def)
      show ?thesis
        unfolding r using half by (intro 1(2) [OF False half_def no 1(3) _ 1(5) after]) simp
    qed
  qed
qed

lemma lower_bound_spec:
  assumes "partitioned lt xs v"
  shows "lower_bound lt xs v \<le> length xs"
    and "i < length xs \<Longrightarrow> lt (xs ! i) v \<longleftrightarrow> i < lower_bound lt xs v"
proof -
  have "lower_bound lt xs v \<le> length xs \<and> (\<forall>i < length xs. lt (xs ! i) v \<longleftrightarrow> i < lower_bound lt xs v)"
    unfolding lower_bound_def by (rule lower_bound_loop_spec [OF assms]) auto
  then show "lower_bound lt xs v \<le> length xs"
    and "i < length xs \<Longrightarrow> lt (xs ! i) v \<longleftrightarrow> i < lower_bound lt xs v" by blast+
qed

text \<open>The binary search finds the end of the elements that are less, which a linear search finds as well.\<close>

lemma lower_bound_linear:
  assumes "partitioned lt xs v"
  shows "lower_bound lt xs v = length (takeWhile (\<lambda>x. lt x v) xs)"
proof -
  let ?k = "lower_bound lt xs v"
  have "takeWhile (\<lambda>x. lt x v) xs = take ?k xs"
    using lower_bound_spec [OF assms]
    by (intro takeWhile_eq_take_P_nth) auto
  then show ?thesis using lower_bound_spec(1) [OF assms] by simp
qed

context strict_weak_order
begin

lemma negative_trans: "\<not> before b a \<Longrightarrow> before b c \<Longrightarrow> before a c"
  using incomparable_trans transitive by blast

abbreviation ascending :: "'a list \<Rightarrow> bool" where
  "ascending \<equiv> sorted_wrt (\<lambda>a b. \<not> before b a)"

lemma ascending_partitioned: "ascending xs \<Longrightarrow> partitioned before xs v"
  unfolding partitioned_def by (erule sorted_wrt_mono_rel [rotated]) (blast intro: negative_trans)

text \<open>Inserting at the place that the binary search finds keeps the order.\<close>

lemma ascending_ins_lower_bound:
  assumes "ascending xs"
  shows "ascending (ins (lower_bound before xs v) v xs)"
proof -
  let ?k = "lower_bound before xs v"
  note k = lower_bound_spec [OF ascending_partitioned [OF assms]]
  have "\<not> before v x" if x: "x \<in> set (take ?k xs)" for x
  proof -
    obtain i where "i < ?k" "i < length xs" "x = xs ! i"
      using x by (auto simp: in_set_conv_nth)
    then show ?thesis using k(2) [of i] asymmetric by blast
  qed
  moreover have "\<not> before y v" if y: "y \<in> set (drop ?k xs)" for y
  proof -
    obtain i where "?k + i < length xs" "y = xs ! (?k + i)"
      using y k(1) by (auto simp: in_set_conv_nth) (metis add.commute less_diff_conv)
    then show ?thesis using k(2) [of "?k + i"] by simp
  qed
  moreover have "ascending (take ?k xs @ drop ?k xs)" using assms by simp
  ultimately show ?thesis
    unfolding ins_def sorted_wrt_append by auto
qed

lemma ascending_del: "ascending xs \<Longrightarrow> ascending (del i xs)"
proof -
  assume "ascending xs"
  then have "ascending (take i xs @ drop i xs)" by simp
  then show ?thesis
    unfolding del_def sorted_wrt_append
    by (cases "drop i xs") (auto simp: drop_Suc drop_tl)
qed

text \<open>An element may be replaced if its neighbours allow it.\<close>

lemma ascending_update:
  assumes asc: "ascending xs" and i: "i < length xs"
    and left: "0 < i \<Longrightarrow> \<not> before v (xs ! (i - 1))" and right: "Suc i < length xs \<Longrightarrow> \<not> before (xs ! Suc i) v"
  shows "ascending (xs[i := v])"
  unfolding sorted_wrt_iff_nth_less
proof (intro allI impI)
  fix a b assume ab: "a < b" "b < length (xs[i := v])"
  have le: "\<not> before (xs ! d) (xs ! c)" if "c \<le> d" "d < length xs" for c d
    using sorted_wrt_nth_less [OF asc, of c d] that irreflexive by (cases "c = d") auto
  consider "a = i" | "b = i" | "a \<noteq> i" "b \<noteq> i" by blast
  then show "\<not> before (xs[i := v] ! b) (xs[i := v] ! a)"
  proof cases
    case 1
    with ab have "\<not> before (xs ! Suc i) v" "\<not> before (xs ! b) (xs ! Suc i)"
      using right le [of "Suc i" b] by auto
    then have "\<not> before (xs ! b) v" using negative_trans by blast
    then show ?thesis using 1 ab i by simp
  next
    case 2
    with ab have "\<not> before v (xs ! (i - 1))" "\<not> before (xs ! (i - 1)) (xs ! a)"
      using left le [of a "i - 1"] i by auto
    then have "\<not> before v (xs ! a)" using negative_trans by blast
    then show ?thesis using 2 ab i by simp
  next
    case 3
    then show ?thesis using ab le [of a b] by auto
  qed
qed

end

section \<open>Individuals and their sort criteria\<close>

text \<open>
  Individuals of libfolks are numbers; \<open>'q\<close> are the properties that libfolks has for an individual
  at the moment of a call and \<open>'p\<close> the values that the locale plugin computes from them. The
  objects that compute criteria and values are arguments; \<open>None\<close> is a null pointer.
\<close>

record 'p individual_data =
  m_individual :: nat
  m_criteria :: "string list"
  m_precomputed :: 'p

record 'q individual_compare =
  ic_createCriteria :: "'q \<Rightarrow> string list"
  ic_compare :: "string list \<Rightarrow> string list \<Rightarrow> bool"

definition IndividualData_init ::
  "'q individual_compare option \<Rightarrow> ('q \<Rightarrow> 'p \<Rightarrow> bool \<times> 'p) option \<Rightarrow> (nat \<Rightarrow> 'q) \<Rightarrow> nat \<Rightarrow>
   'p individual_data \<Rightarrow> bool \<times> 'p individual_data" where
  "IndividualData_init compare precompute props individual data =
     (let data = data\<lparr>m_individual := individual\<rparr>;
          data = (case compare of
              None \<Rightarrow> data
            | Some c \<Rightarrow> data\<lparr>m_criteria := ic_createCriteria c (props individual)\<rparr>)
      in case precompute of
           None \<Rightarrow> (False, data)
         | Some f \<Rightarrow> (let (modified, v) = f (props individual) (m_precomputed data)
                     in (modified, data\<lparr>m_precomputed := v\<rparr>)))"

lemma IndividualData_init_individual [simp]:
  "m_individual (snd (IndividualData_init compare precompute props individual data)) = individual"
  by (simp add: IndividualData_init_def Let_def split: option.splits prod.splits)

fun IndividualCompare_compare :: "string list \<Rightarrow> string list \<Rightarrow> bool" where
  "IndividualCompare_compare a [] = False"
| "IndividualCompare_compare [] (y # b) = True"
| "IndividualCompare_compare (x # a) (y # b) =
     (if x < y then True else if y < x then False else IndividualCompare_compare a b)"

text \<open>\<open>CompareFormattedName\<close>; the first argument reads family and given name of the structured name, if there is one.\<close>

definition CompareFormattedName ::
  "('q \<Rightarrow> (string option \<times> string option) option) \<Rightarrow> bool \<Rightarrow> bool \<Rightarrow> 'q individual_compare" where
  "CompareFormattedName structured_name reversed firstLast =
     \<lparr>ic_createCriteria = (\<lambda>q. case structured_name q of
          None \<Rightarrow> []
        | Some (family, given) \<Rightarrow>
            (let family = (case family of None \<Rightarrow> [] | Some s \<Rightarrow> s);
                 given = (case given of None \<Rightarrow> [] | Some s \<Rightarrow> s)
             in if firstLast then [given, family] else [family, given])),
      ic_compare = (\<lambda>a b. if reversed then IndividualCompare_compare b a else IndividualCompare_compare a b)\<rparr>"

abbreviation defaultCompare :: "('q \<Rightarrow> (string option \<times> string option) option) \<Rightarrow> 'q individual_compare" where
  "defaultCompare structured_name \<equiv> CompareFormattedName structured_name False False"

text \<open>The comparison is the lexicographic order of the criteria, and so a strict weak ordering.\<close>

lemma IndividualCompare_compare_less: "IndividualCompare_compare a b \<longleftrightarrow> a < b"
  by (induction a b rule: IndividualCompare_compare.induct) auto

interpretation by_criteria: strict_weak_order IndividualCompare_compare
  by (rule strict_weak_order_key) (rule IndividualCompare_compare_less)

interpretation by_name: strict_weak_order "ic_compare (CompareFormattedName structured_name reversed firstLast)"
  by unfold_locales (auto simp: CompareFormattedName_def IndividualCompare_compare_less split: if_splits)

section \<open>Filters\<close>

text \<open>
  \<open>IndividualFilter\<close>: whether a contact matches is decided by the plugin. \<open>isIncluded\<close> converts the
  maximum to \<open>size_t\<close>.
\<close>

record 'd individual_filter =
  if_matches :: "'d \<Rightarrow> bool"
  if_maxResults :: int

definition isIncluded :: "'d individual_filter \<Rightarrow> nat \<Rightarrow> bool" where
  "isIncluded f index \<longleftrightarrow> if_maxResults f = - 1 \<or> int index < if_maxResults f mod 2 ^ 64"

definition MatchAll :: "'d individual_filter" where
  "MatchAll = \<lparr>if_matches = (\<lambda>_. True), if_maxResults = - 1\<rparr>"

section \<open>Looking up contacts\<close>

text \<open>
  \<open>findContact\<close> on the IDs of the contacts of a view: the index, or -1, and the contact.
\<close>

definition findContact :: "string list \<Rightarrow> string \<Rightarrow> nat \<Rightarrow> int \<times> string option" where
  "findContact contacts cid hint =
     (case List.find (\<lambda>i. cid = contacts ! i) [hint..<length contacts] of
        Some i \<Rightarrow> (int i, Some (contacts ! i))
      | None \<Rightarrow> (case List.find (\<lambda>i. cid = contacts ! i) [0..<hint] of
            Some i \<Rightarrow> (int i, Some (contacts ! i))
          | None \<Rightarrow> (- 1, None)))"

fun read_loop :: "string list \<Rightarrow> string list \<Rightarrow> nat \<Rightarrow> (int \<times> string option) list" where
  "read_loop contacts [] hint = []"
| "read_loop contacts (cid # ids) hint =
     (let found = findContact contacts cid hint
      in found # read_loop contacts ids (if 0 \<le> fst found then nat (fst found) else hint))"

definition View_readContacts :: "string list \<Rightarrow> string list \<Rightarrow> (int \<times> string option) list" where
  "View_readContacts contacts ids = read_loop contacts ids 0"

lemma find_Some_upt: "List.find P [a..<b] = Some i \<Longrightarrow> a \<le> i \<and> i < b \<and> P i"
  by (auto simp: find_Some_iff)

lemma findContact_result:
  assumes "hint \<le> length contacts"
  shows "(case findContact contacts cid hint of
            (i, None) \<Rightarrow> i = - 1 \<and> cid \<notin> set contacts
          | (i, Some c) \<Rightarrow> 0 \<le> i \<and> i < int (length contacts) \<and> contacts ! nat i = cid \<and> c = cid)"
proof (cases "List.find (\<lambda>i. cid = contacts ! i) [hint..<length contacts]")
  case (Some i)
  then show ?thesis by (auto simp: findContact_def dest: find_Some_upt)
next
  case late: None
  show ?thesis
  proof (cases "List.find (\<lambda>i. cid = contacts ! i) [0..<hint]")
    case (Some i)
    then show ?thesis using late assms by (auto simp: findContact_def dest: find_Some_upt)
  next
    case None
    have "contacts ! i \<noteq> cid" if "i < length contacts" for i
      using late None that by (cases "i < hint") (auto simp: find_None_iff)
    then show ?thesis using late None by (auto simp: findContact_def in_set_conv_nth)
  qed
qed

text \<open>Reading contacts gives for every ID, in the order of the request, the index of a contact with that ID, or -1 if there is none.\<close>

lemma read_loop_result:
  "hint \<le> length contacts \<Longrightarrow>
   list_all2 (\<lambda>cid (i, c).
     if cid \<in> set contacts then 0 \<le> i \<and> i < int (length contacts) \<and> contacts ! nat i = cid \<and> c = Some cid
     else i = - 1 \<and> c = None) ids (read_loop contacts ids hint)"
proof (induction ids arbitrary: hint)
  case (Cons cid ids)
  show ?case
  proof (cases "findContact contacts cid hint")
    case (Pair i c)
    have "(if 0 \<le> i then nat i else hint) \<le> length contacts"
      using findContact_result [OF Cons.prems, of cid] Cons.prems Pair by (auto split: option.splits)
    then show ?thesis
      using findContact_result [OF Cons.prems, of cid] Cons.IH Pair
      by (cases c) (auto simp: Let_def)
  qed
qed simp

end
