(* ===== verification/Full_View.thy ===== *)
theory Full_View
  imports Contact_View
begin

text \<open>
  \<open>FullView\<close> (src/src/dbus/server/pim/full-view.h and full-view.cpp): the sorted list of all
  individuals that libfolks knows. Every operation returns the signals that it sends. What libfolks
  has for an individual at the time of a call is an argument.
\<close>

section \<open>The view\<close>

text \<open>
  \<open>fu_monitored\<close> are the individuals whose changes the view is told; \<open>fu_delayFolks\<close> is the value of the
  environment variable SYNCEVOLUTION_PIM_DELAY_FOLKS.
\<close>

record ('q, 'p) full_view =
  fu_entries :: "'p individual_data list"
  fu_compare :: "'q individual_compare"
  fu_locale :: "('q \<Rightarrow> 'p \<Rightarrow> bool \<times> 'p) option"
  fu_localeChanged :: bool
  fu_isQuiescent :: bool
  fu_waitForIdle :: bool
  fu_pendingModifications :: "nat list"
  fu_quiescenceDelay :: "int option"
  fu_monitored :: "nat list"
  fu_delayFolks :: int

type_synonym ('q, 'p) full_result = "('q, 'p) full_view \<times> 'p individual_data view_signal list"

text \<open>
  What the view does not compute itself: the default comparison, the precomputed values of a new
  \<open>IndividualData\<close>, and sorting, which leaves the order of equivalent elements open.
\<close>

record ('q, 'p) view_env =
  ve_defaultCompare :: "'q individual_compare"
  ve_precomputed :: 'p
  ve_sort :: "('p individual_data \<Rightarrow> 'p individual_data \<Rightarrow> bool) \<Rightarrow> 'p individual_data list \<Rightarrow> 'p individual_data list"

definition FullView ::
  "('q, 'p) view_env \<Rightarrow> ('q \<Rightarrow> 'p \<Rightarrow> bool \<times> 'p) option \<Rightarrow> int \<Rightarrow> ('q, 'p) full_view" where
  "FullView env locale' delay =
     \<lparr>fu_entries = [], fu_compare = ve_defaultCompare env, fu_locale = locale', fu_localeChanged = False,
      fu_isQuiescent = False, fu_waitForIdle = False, fu_pendingModifications = [], fu_quiescenceDelay = None,
      fu_monitored = [], fu_delayFolks = delay\<rparr>"

definition new_data :: "('q, 'p) view_env \<Rightarrow> 'p individual_data" where
  "new_data env = \<lparr>m_individual = 0, m_criteria = [], m_precomputed = ve_precomputed env\<rparr>"

definition fresh_data ::
  "('q, 'p) view_env \<Rightarrow> (nat \<Rightarrow> 'q) \<Rightarrow> ('q, 'p) full_view \<Rightarrow> nat \<Rightarrow> 'p individual_data" where
  "fresh_data env props v individual =
     snd (IndividualData_init (Some (fu_compare v)) (fu_locale v) props individual (new_data env))"

definition IndividualDataCompare :: "'q individual_compare \<Rightarrow> 'p individual_data \<Rightarrow> 'p individual_data \<Rightarrow> bool" where
  "IndividualDataCompare c a b \<longleftrightarrow> ic_compare c (m_criteria a) (m_criteria b)"

text \<open>
  The individuals of the map are initialized one after the other in the same \<open>IndividualData\<close>, whose
  copies are sorted.
\<close>

fun load_loop ::
  "('q, 'p) view_env \<Rightarrow> (nat \<Rightarrow> 'q) \<Rightarrow> ('q, 'p) full_view \<Rightarrow> 'p individual_data \<Rightarrow> nat list \<Rightarrow> 'p individual_data list" where
  "load_loop env props v data [] = []"
| "load_loop env props v data (individual # rest) =
     (let data = snd (IndividualData_init (Some (fu_compare v)) (fu_locale v) props individual data)
      in data # load_loop env props v data rest)"

definition Full_doStart ::
  "('q, 'p) view_env \<Rightarrow> (nat \<Rightarrow> 'q) \<Rightarrow> nat list \<Rightarrow> bool \<Rightarrow> ('q, 'p) full_view \<Rightarrow> ('q, 'p) full_result" where
  "Full_doStart env props individuals quiescent v =
     (let sorted' = ve_sort env (IndividualDataCompare (fu_compare v)) (load_loop env props v (new_data env) individuals);
          entries = sorted' @ fu_entries v
      in (v\<lparr>fu_entries := entries, fu_isQuiescent := quiescent\<rparr>,
          map (\<lambda>index. Added index (entries ! index)) [0..<length entries]))"

definition setLocale :: "('q \<Rightarrow> 'p \<Rightarrow> bool \<times> 'p) option \<Rightarrow> ('q, 'p) full_view \<Rightarrow> ('q, 'p) full_view" where
  "setLocale locale' v = v\<lparr>fu_locale := locale', fu_localeChanged := True\<rparr>"

definition waitForIdle :: "('q, 'p) full_view \<Rightarrow> ('q, 'p) full_view" where
  "waitForIdle v = v\<lparr>fu_waitForIdle := True\<rparr>"

definition doAddIndividual :: "'p individual_data \<Rightarrow> ('q, 'p) full_view \<Rightarrow> ('q, 'p) full_result" where
  "doAddIndividual data v =
     (let index = lower_bound (IndividualDataCompare (fu_compare v)) (fu_entries v) data
      in (waitForIdle (v\<lparr>fu_entries := ins index data (fu_entries v),
                         fu_monitored := List.insert (m_individual data) (fu_monitored v)\<rparr>),
          [Added index data]))"

definition Full_addIndividual ::
  "('q, 'p) view_env \<Rightarrow> (nat \<Rightarrow> 'q) \<Rightarrow> nat \<Rightarrow> ('q, 'p) full_view \<Rightarrow> ('q, 'p) full_result" where
  "Full_addIndividual env props individual v = doAddIndividual (fresh_data env props v individual) v"

definition find_individual :: "nat \<Rightarrow> 'p individual_data list \<Rightarrow> nat option" where
  "find_individual individual entries =
     List.find (\<lambda>i. m_individual (entries ! i) = individual) [0..<length entries]"

definition Full_modifyIndividual ::
  "('q, 'p) view_env \<Rightarrow> (nat \<Rightarrow> 'q) \<Rightarrow> nat \<Rightarrow> ('q, 'p) full_view \<Rightarrow> ('q, 'p) full_result" where
  "Full_modifyIndividual env props individual v =
     (case find_individual individual (fu_entries v) of
        None \<Rightarrow> (v, [])
      | Some index \<Rightarrow>
          (let entries = fu_entries v; compare = ic_compare (fu_compare v);
               data = fresh_data env props v individual
           in if m_criteria data \<noteq> m_criteria (entries ! index) \<and>
                 ((0 < index \<and> \<not> compare (m_criteria (entries ! (index - 1))) (m_criteria data)) \<or>
                  (index + 1 < length entries \<and> \<not> compare (m_criteria data) (m_criteria (entries ! (index + 1)))))
              then (let (v, sent) = doAddIndividual data (v\<lparr>fu_entries := del index entries\<rparr>)
                    in (v, Removed index (entries ! index) # sent))
              else (waitForIdle (v\<lparr>fu_entries := entries[index := data]\<rparr>), [Modified index data])))"

definition Full_removeIndividual :: "nat \<Rightarrow> ('q, 'p) full_view \<Rightarrow> ('q, 'p) full_result" where
  "Full_removeIndividual individual v =
     (case find_individual individual (fu_entries v) of
        None \<Rightarrow> (v, [])
      | Some index \<Rightarrow>
          (waitForIdle (v\<lparr>fu_entries := del index (fu_entries v)\<rparr>), [Removed index (fu_entries v ! index)]))"

text \<open>A loop over individuals that collects the signals.\<close>

fun each :: "('i \<Rightarrow> ('q, 'p) full_view \<Rightarrow> ('q, 'p) full_result) \<Rightarrow> 'i list \<Rightarrow> ('q, 'p) full_view \<Rightarrow> ('q, 'p) full_result" where
  "each f [] v = (v, [])"
| "each f (i # is) v = (let (v, sent) = f i v; (v, rest) = each f is v in (v, sent @ rest))"

definition individualsChanged ::
  "('q, 'p) view_env \<Rightarrow> (nat \<Rightarrow> 'q) \<Rightarrow> nat list \<Rightarrow> nat list \<Rightarrow> ('q, 'p) full_view \<Rightarrow> ('q, 'p) full_result" where
  "individualsChanged env props added removed v =
     (let (v, sent) = each Full_removeIndividual removed v;
          (v, rest) = each (Full_addIndividual env props) added v
      in (v, sent @ rest))"

definition individualModified :: "nat \<Rightarrow> ('q, 'p) full_view \<Rightarrow> ('q, 'p) full_view" where
  "individualModified individual v =
     waitForIdle (v\<lparr>fu_pendingModifications := sorted_list_of_set (insert individual (set (fu_pendingModifications v)))\<rparr>)"

definition quiescenceChanged :: "bool \<Rightarrow> ('q, 'p) full_view \<Rightarrow> ('q, 'p) full_result" where
  "quiescenceChanged quiescent v =
     (if quiescent
      then (if fu_delayFolks v > 0
            then (v\<lparr>fu_quiescenceDelay := Some (fu_delayFolks v), fu_delayFolks := 0\<rparr>, [])
            else (v\<lparr>fu_isQuiescent := True\<rparr>, [Quiescent]))
      else (v, []))"

text \<open>\<open>onIdle\<close> as the callback of the timer, which is inactive afterwards.\<close>

definition onIdle :: "('q, 'p) view_env \<Rightarrow> (nat \<Rightarrow> 'q) \<Rightarrow> ('q, 'p) full_view \<Rightarrow> ('q, 'p) full_result" where
  "onIdle env props v =
     (let (v, sent) = each (Full_modifyIndividual env props) (fu_pendingModifications v) v;
          v = v\<lparr>fu_pendingModifications := [], fu_waitForIdle := False\<rparr>
      in (v, sent @ (if fu_isQuiescent v then [Quiescent] else [])))"

text \<open>
  \<open>setCompare\<close>: the data of all individuals is computed again, with the flags that \<open>init\<close> returns, and
  sorted; an index whose individual changed is announced as modified.
\<close>

definition setCompare ::
  "('q, 'p) view_env \<Rightarrow> (nat \<Rightarrow> 'q) \<Rightarrow> 'q individual_compare option \<Rightarrow> ('q, 'p) full_view \<Rightarrow> ('q, 'p) full_result" where
  "setCompare env props compare v =
     (let c = (case compare of None \<Rightarrow> ve_defaultCompare env | Some c \<Rightarrow> c);
          old = fu_entries v;
          locale' = (if fu_localeChanged v then fu_locale v else None);
          updated = map (\<lambda>data. IndividualData_init (Some c) locale' props (m_individual data) data) old;
          modified = map fst updated;
          entries = ve_sort env (IndividualDataCompare c) (map snd updated);
          sent = concat (map (\<lambda>index.
            if m_individual (old ! index) \<noteq> m_individual (entries ! index) \<or> (locale' \<noteq> None \<and> modified ! index)
            then [Modified index (entries ! index)] else []) [0..<length entries])
      in (v\<lparr>fu_compare := c, fu_localeChanged := False, fu_entries := entries\<rparr>,
          sent @ (if fu_isQuiescent v then [Quiescent] else [])))"

section \<open>Order and signals\<close>

text \<open>What a recipient sees of a contact: the individual and the values for searching.\<close>

definition visible :: "'p individual_data \<Rightarrow> nat \<times> 'p" where
  "visible d = (m_individual d, m_precomputed d)"

abbreviation shown :: "'p individual_data view_signal list \<Rightarrow> (nat \<times> 'p) view_signal list" where
  "shown sent \<equiv> map (map_view_signal visible) sent"

lemma replay1_map: "replay1 s xs = Some ys \<Longrightarrow> replay1 (map_view_signal f s) (map f xs) = Some (map f ys)"
  by (cases s) (auto simp: map_ins map_del map_update split: if_splits)

lemma replay_map: "replay ss xs = Some ys \<Longrightarrow> replay (map (map_view_signal f) ss) (map f xs) = Some (map f ys)"
proof (induction ss arbitrary: xs)
  case (Cons s ss)
  then obtain zs where zs: "replay1 s xs = Some zs" "replay ss zs = Some ys" by (auto split: option.splits)
  then show ?case using Cons.IH [OF zs(2)] by (simp add: replay1_map [OF zs(1)])
qed simp

text \<open>The entries are sorted by the comparison of the view.\<close>

definition ordered :: "('q, 'p) full_view \<Rightarrow> bool" where
  "ordered v \<longleftrightarrow> strict_weak_order (ic_compare (fu_compare v)) \<and>
     sorted_wrt (\<lambda>a b. \<not> IndividualDataCompare (fu_compare v) b a) (fu_entries v)"

lemma data_order: "strict_weak_order (ic_compare c) \<Longrightarrow> strict_weak_order (IndividualDataCompare c)"
  unfolding strict_weak_order_def IndividualDataCompare_def by blast

text \<open>An operation keeps the order, its signals change a copy of the list in the same way, and it has the given effect on the individuals.\<close>

definition fu_correct ::
  "('q, 'p) full_view \<Rightarrow> (nat multiset \<Rightarrow> nat multiset) \<Rightarrow> ('q, 'p) full_result \<Rightarrow> bool" where
  "fu_correct v change r \<longleftrightarrow>
     ordered (fst r) \<and> replay (snd r) (fu_entries v) = Some (fu_entries (fst r)) \<and>
     mset (map m_individual (fu_entries (fst r))) = change (mset (map m_individual (fu_entries v))) \<and>
     fu_locale (fst r) = fu_locale v"

lemma fu_correct_seq:
  assumes "fu_correct v f r" "fu_correct (fst r) g r'"
  shows "fu_correct v (g \<circ> f) (fst r', snd r @ snd r')"
  using assms by (simp add: fu_correct_def)

lemma each_correct:
  assumes "\<And>i v. ordered v \<Longrightarrow> fu_correct v (g i) (f i v)" "ordered v"
  shows "fu_correct v (fold g is) (each f is v)"
  using assms(2)
proof (induction "is" arbitrary: v)
  case Nil
  then show ?case by (simp add: fu_correct_def)
next
  case (Cons i "is")
  have "fu_correct v (g i) (f i v)" using assms(1) [OF Cons.prems] .
  moreover from this have "fu_correct (fst (f i v)) (fold g is) (each f is (fst (f i v)))"
    by (intro Cons.IH) (simp add: fu_correct_def)
  ultimately show ?case
    using fu_correct_seq [of v "g i" "f i v" "fold g is" "each f is (fst (f i v))"] by (simp add: split_def Let_def comp_def)
qed

lemma doAdd_correct:
  assumes "ordered v"
  shows "fu_correct v (add_mset (m_individual data)) (doAddIndividual data v)"
proof -
  have order: "strict_weak_order (IndividualDataCompare (fu_compare v))"
    using assms by (auto simp: ordered_def intro: data_order)
  have sorted': "sorted_wrt (\<lambda>a b. \<not> IndividualDataCompare (fu_compare v) b a) (fu_entries v)"
    using assms by (simp add: ordered_def)
  have "lower_bound (IndividualDataCompare (fu_compare v)) (fu_entries v) data \<le> length (fu_entries v)"
    by (rule lower_bound_spec(1) [OF strict_weak_order.ascending_partitioned [OF order sorted']])
  then show ?thesis
    using assms strict_weak_order.ascending_ins_lower_bound [OF order sorted', of data]
    by (simp add: fu_correct_def doAddIndividual_def Let_def waitForIdle_def ordered_def map_ins mset_ins)
qed

lemma find_individual_Some:
  "find_individual individual entries = Some i \<Longrightarrow> i < length entries \<and> m_individual (entries ! i) = individual"
  by (auto simp: find_individual_def dest: find_Some_upt)

lemma find_individual_None:
  "find_individual individual entries = None \<Longrightarrow> individual \<notin> m_individual ` set entries"
  by (auto simp: find_individual_def find_None_iff in_set_conv_nth)

lemma fresh_data_individual [simp]: "m_individual (fresh_data env props v i) = i"
  by (simp add: fresh_data_def)

lemma mset_map_del:
  assumes "i < length xs"
  shows "image_mset f (mset (del i xs)) = image_mset f (mset xs) - {#f (xs ! i)#}"
  by (metis add_mset_remove_trivial assms image_mset_add_mset mset_del)

lemma Full_remove_correct:
  assumes "ordered v"
  shows "fu_correct v (\<lambda>m. m - {#individual#}) (Full_removeIndividual individual v)"
proof (cases "find_individual individual (fu_entries v)")
  case None
  then show ?thesis
    using assms find_individual_None [OF None]
    by (simp add: Full_removeIndividual_def fu_correct_def diff_single_trivial)
next
  case (Some index)
  have order: "strict_weak_order (IndividualDataCompare (fu_compare v))"
    using assms by (auto simp: ordered_def intro: data_order)
  show ?thesis
    using assms find_individual_Some [OF Some] Some strict_weak_order.ascending_del [OF order, of "fu_entries v" index]
    by (simp add: Full_removeIndividual_def fu_correct_def waitForIdle_def ordered_def mset_map_del)
qed

lemma Full_modify_correct:
  assumes "ordered v"
  shows "fu_correct v (\<lambda>m. m) (Full_modifyIndividual env props individual v)"
proof (cases "find_individual individual (fu_entries v)")
  case None
  then show ?thesis using assms by (simp add: Full_modifyIndividual_def fu_correct_def)
next
  case (Some index)
  let ?c = "ic_compare (fu_compare v)" and ?less = "IndividualDataCompare (fu_compare v)" and ?xs = "fu_entries v"
  define data where "data = fresh_data env props v individual"
  have weak: "strict_weak_order ?c" and order: "strict_weak_order ?less" and
    asc: "sorted_wrt (\<lambda>a b. \<not> ?less b a) ?xs"
    using assms by (auto simp: ordered_def intro: data_order)
  have i: "index < length ?xs" "m_individual (?xs ! index) = individual"
    using find_individual_Some [OF Some] by auto
  let ?moved = "m_criteria data \<noteq> m_criteria (?xs ! index) \<and>
    ((0 < index \<and> \<not> ?c (m_criteria (?xs ! (index - 1))) (m_criteria data)) \<or>
     (index + 1 < length ?xs \<and> \<not> ?c (m_criteria data) (m_criteria (?xs ! (index + 1)))))"
  show ?thesis
  proof (cases ?moved)
    case True
    define w where "w = v\<lparr>fu_entries := del index ?xs\<rparr>"
    have w: "fu_correct v (\<lambda>m. m - {#individual#}) (w, [Removed index (?xs ! index)])"
      using assms i strict_weak_order.ascending_del [OF order asc, of index]
      by (simp add: w_def fu_correct_def ordered_def mset_map_del)
    have "fu_correct w (add_mset individual) (doAddIndividual data w)"
      using doAdd_correct [of w data] w by (simp add: fu_correct_def data_def)
    moreover have "individual \<in># mset (map m_individual ?xs)"
      using i nth_mem [OF i(1)] by auto
    ultimately have "fu_correct v (\<lambda>m. m) (fst (doAddIndividual data w), Removed index (?xs ! index) # snd (doAddIndividual data w))"
      using fu_correct_seq [OF w, of "add_mset individual" "doAddIndividual data w"]
      by (simp add: fu_correct_def)
    then show ?thesis
      using True Some
      by (simp add: Full_modifyIndividual_def Let_def split_def data_def [symmetric] w_def [symmetric])
  next
    case False
    have left: "\<not> ?less data (?xs ! (index - 1))" if "0 < index"
    proof (cases "m_criteria data = m_criteria (?xs ! index)")
      case True
      then show ?thesis
        using sorted_wrt_nth_less [OF asc, of "index - 1" index] i that by (simp add: IndividualDataCompare_def)
    next
      case no: False
      then show ?thesis
        using False that strict_weak_order.asymmetric [OF weak] by (auto simp: IndividualDataCompare_def)
    qed
    have right: "\<not> ?less (?xs ! Suc index) data" if "Suc index < length ?xs"
    proof (cases "m_criteria data = m_criteria (?xs ! index)")
      case True
      then show ?thesis
        using sorted_wrt_nth_less [OF asc, of index "Suc index"] i that by (simp add: IndividualDataCompare_def)
    next
      case no: False
      then show ?thesis
        using False that strict_weak_order.asymmetric [OF weak] by (auto simp: IndividualDataCompare_def)
    qed
    have "mset (map m_individual (?xs[index := data])) = mset (map m_individual ?xs)"
      using i list_update_id [of "map m_individual ?xs" index] by (simp add: map_update data_def)
    then show ?thesis
      using False Some i assms strict_weak_order.ascending_update [OF order asc i(1) left right]
      by (auto simp: Full_modifyIndividual_def Let_def fu_correct_def waitForIdle_def ordered_def data_def)
  qed
qed

lemma Full_add_correct:
  assumes "ordered v"
  shows "fu_correct v (add_mset individual) (Full_addIndividual env props individual v)"
  using doAdd_correct [OF assms, of "fresh_data env props v individual"] by (simp add: Full_addIndividual_def)

lemma fold_remove: "fold (\<lambda>i m. m - {#i#}) is m = m - mset is"
  by (induction "is" arbitrary: m) simp_all

lemma fold_add: "fold add_mset is m = m + mset is"
  by (induction "is" arbitrary: m) simp_all

lemma individualsChanged_correct:
  assumes "ordered v"
  shows "fu_correct v (\<lambda>m. m - mset removed + mset added) (individualsChanged env props added removed v)"
proof -
  let ?r = "each Full_removeIndividual removed v"
  have r: "fu_correct v (fold (\<lambda>i m. m - {#i#}) removed) ?r"
    by (rule each_correct [OF Full_remove_correct assms])
  then have o: "ordered (fst ?r)" by (simp add: fu_correct_def)
  have "fu_correct (fst ?r) (fold add_mset added) (each (Full_addIndividual env props) added (fst ?r))"
    by (rule each_correct [OF Full_add_correct o])
  from fu_correct_seq [OF r this] show ?thesis
    by (simp add: individualsChanged_def split_def Let_def comp_def fold_remove fold_add)
qed

lemma fold_id: "fold (\<lambda>_ m. m) is m = m"
  by (induction "is") simp_all

lemma onIdle_correct:
  assumes "ordered v"
  shows "fu_correct v (\<lambda>m. m) (onIdle env props v)"
proof -
  have "fu_correct v (fold (\<lambda>_ m. m) (fu_pendingModifications v))
      (each (Full_modifyIndividual env props) (fu_pendingModifications v) v)"
    by (rule each_correct [OF Full_modify_correct assms])
  then show ?thesis
    by (simp add: onIdle_def split_def Let_def fu_correct_def fold_id ordered_def)
qed

section \<open>Changing the sort order\<close>

lemma replay_modified:
  assumes "length ys = length xs" "n \<le> length xs"
  shows "replay (concat (map (\<lambda>i. if C i then [Modified i (ys ! i)] else []) [0..<n])) xs =
    Some (map (\<lambda>i. if i < n \<and> C i then ys ! i else xs ! i) [0..<length xs])"
  using assms(2)
proof (induction n)
  case 0
  then show ?case by (simp add: map_nth)
next
  case (Suc n)
  let ?zs = "map (\<lambda>i. if i < n \<and> C i then ys ! i else xs ! i) [0..<length xs]"
  have "?zs[n := ys ! n] = map (\<lambda>i. if i < Suc n \<and> C i then ys ! i else xs ! i) [0..<length xs]" if "C n"
    using that Suc.prems by (intro nth_equalityI) (auto simp: nth_list_update less_Suc_eq)
  moreover have "?zs = map (\<lambda>i. if i < Suc n \<and> C i then ys ! i else xs ! i) [0..<length xs]" if "\<not> C n"
    using that by (auto simp: less_Suc_eq)
  ultimately show ?case using Suc by simp
qed

text \<open>The contracts of the code that the view calls: sorting sorts, and the plugin reports when it changes values.\<close>

definition sorts :: "('q, 'p) view_env \<Rightarrow> bool" where
  "sorts env \<longleftrightarrow>
     (\<forall>lt xs. mset (ve_sort env lt xs) = mset xs \<and>
        (strict_weak_order lt \<longrightarrow> sorted_wrt (\<lambda>a b. \<not> lt b a) (ve_sort env lt xs)))"

definition reports_changes :: "('q \<Rightarrow> 'p \<Rightarrow> bool \<times> 'p) option \<Rightarrow> bool" where
  "reports_changes l \<longleftrightarrow> (\<forall>f q p p'. l = Some f \<longrightarrow> f q p = (False, p') \<longrightarrow> p' = p)"

lemma init_unchanged:
  assumes "reports_changes l" "\<not> fst (IndividualData_init c l props (m_individual d) d) \<or> l = None"
  shows "visible (snd (IndividualData_init c l props (m_individual d) d)) = visible d"
  using assms
  by (auto simp: IndividualData_init_def reports_changes_def visible_def Let_def split: option.splits prod.splits)

lemma setCompare_correct:
  assumes env: "sorts env" and rep: "reports_changes (fu_locale v)"
    and order: "strict_weak_order (ic_compare (case compare of None \<Rightarrow> ve_defaultCompare env | Some c \<Rightarrow> c))"
    and dist: "distinct (map m_individual (fu_entries v))"
  shows "ordered (fst (setCompare env props compare v))"
    and "replay (shown (snd (setCompare env props compare v))) (map visible (fu_entries v)) =
         Some (map visible (fu_entries (fst (setCompare env props compare v))))"
    and "mset (map m_individual (fu_entries (fst (setCompare env props compare v)))) = mset (map m_individual (fu_entries v))"
proof -
  define c where "c = (case compare of None \<Rightarrow> ve_defaultCompare env | Some c \<Rightarrow> c)"
  define l where "l = (if fu_localeChanged v then fu_locale v else None)"
  define old where "old = fu_entries v"
  define updated where "updated = map (\<lambda>d. IndividualData_init (Some c) l props (m_individual d) d) old"
  define new where "new = ve_sort env (IndividualDataCompare c) (map snd updated)"
  define C where "C i \<longleftrightarrow> m_individual (old ! i) \<noteq> m_individual (new ! i) \<or> (l \<noteq> None \<and> map fst updated ! i)" for i
  have r: "setCompare env props compare v =
      (v\<lparr>fu_compare := c, fu_localeChanged := False, fu_entries := new\<rparr>,
       concat (map (\<lambda>i. if C i then [Modified i (new ! i)] else []) [0..<length new]) @
       (if fu_isQuiescent v then [Quiescent] else []))"
    by (simp only: setCompare_def Let_def c_def l_def old_def updated_def new_def C_def)
  have mset_new: "mset new = mset (map snd updated)" using env by (simp add: sorts_def new_def)
  then have len: "length new = length old" by (metis length_map size_mset updated_def)
  have inds: "map m_individual (map snd updated) = map m_individual old" by (simp add: updated_def)
  have weak: "strict_weak_order (ic_compare c)" using order by (simp add: c_def)
  have "sorted_wrt (\<lambda>a b. \<not> IndividualDataCompare c b a) new"
    using env data_order [OF weak] unfolding sorts_def new_def by blast
  then show "ordered (fst (setCompare env props compare v))"
    using weak by (simp add: r ordered_def)
  show "mset (map m_individual (fu_entries (fst (setCompare env props compare v)))) = mset (map m_individual (fu_entries v))"
    using mset_new inds by (simp add: r old_def [symmetric] del: map_map) (metis mset_map)
  have rep': "reports_changes l" using rep by (auto simp: l_def reports_changes_def)
  have same: "visible (old ! i) = visible (new ! i)" if i: "i < length old" "\<not> C i" for i
  proof -
    have "new ! i \<in> set (map snd updated)"
      using i(1) len mset_new by (metis nth_mem set_mset_mset)
    then obtain j where j: "j < length old" "new ! i = snd (updated ! j)"
      by (auto simp: in_set_conv_nth updated_def)
    then have "m_individual (new ! i) = m_individual (old ! j)" by (simp add: updated_def)
    then have "j = i"
      using i j(1) dist by (auto simp: C_def old_def distinct_conv_nth)
    then show ?thesis
      using i j init_unchanged [OF rep', of "Some c" props "old ! i"] by (auto simp: C_def updated_def)
  qed
  have "replay (concat (map (\<lambda>i. if C i then [Modified i (new ! i)] else []) [0..<length new])) old =
      Some (map (\<lambda>i. if i < length new \<and> C i then new ! i else old ! i) [0..<length old])"
    using replay_modified [of new old "length new" C] len by simp
  from replay_map [OF this, of visible]
  have "replay (shown (concat (map (\<lambda>i. if C i then [Modified i (new ! i)] else []) [0..<length new]))) (map visible old) =
      Some (map visible (map (\<lambda>i. if i < length new \<and> C i then new ! i else old ! i) [0..<length old]))" .
  moreover have "map visible (map (\<lambda>i. if i < length new \<and> C i then new ! i else old ! i) [0..<length old]) = map visible new"
    using same len by (intro nth_equalityI) auto
  ultimately show "replay (shown (snd (setCompare env props compare v))) (map visible (fu_entries v)) =
         Some (map visible (fu_entries (fst (setCompare env props compare v))))"
    by (simp add: r old_def [symmetric])
qed

section \<open>Histories of the view\<close>

datatype ('q, 'p) fu_event =
    IndividualsChanged "nat \<Rightarrow> 'q" "nat list" "nat list"
  | IndividualModified nat
  | Idle "nat \<Rightarrow> 'q"
  | QuiescenceChanged bool
  | SetLocale "('q \<Rightarrow> 'p \<Rightarrow> bool \<times> 'p) option"
  | SetCompare "nat \<Rightarrow> 'q" "'q individual_compare option"

fun fu_step :: "('q, 'p) view_env \<Rightarrow> ('q, 'p) fu_event \<Rightarrow> ('q, 'p) full_view \<Rightarrow> ('q, 'p) full_result" where
  "fu_step env (IndividualsChanged props added removed) v = individualsChanged env props added removed v"
| "fu_step env (IndividualModified individual) v = (individualModified individual v, [])"
| "fu_step env (Idle props) v = onIdle env props v"
| "fu_step env (QuiescenceChanged quiescent) v = quiescenceChanged quiescent v"
| "fu_step env (SetLocale l) v = (setLocale l v, [])"
| "fu_step env (SetCompare props compare) v = setCompare env props compare v"

text \<open>What libfolks has announced.\<close>

fun announced :: "('q, 'p) fu_event \<Rightarrow> nat multiset \<Rightarrow> nat multiset" where
  "announced (IndividualsChanged props added removed) m = m - mset removed + mset added"
| "announced e m = m"

text \<open>
  What the view can rely on: individuals are announced once, changes come for individuals that are
  monitored, the timer must be active, comparisons are strict weak orderings, and the plugin reports
  changes.
\<close>

fun fu_allowed :: "('q, 'p) view_env \<Rightarrow> ('q, 'p) full_view \<Rightarrow> nat multiset \<Rightarrow> ('q, 'p) fu_event \<Rightarrow> bool" where
  "fu_allowed env v m (IndividualsChanged props added removed) = (\<forall>x. count (m - mset removed + mset added) x \<le> 1)"
| "fu_allowed env v m (IndividualModified individual) = (individual \<in> set (fu_monitored v))"
| "fu_allowed env v m (Idle props) = fu_waitForIdle v"
| "fu_allowed env v m (QuiescenceChanged quiescent) = True"
| "fu_allowed env v m (SetLocale l) = reports_changes l"
| "fu_allowed env v m (SetCompare props compare) =
     strict_weak_order (ic_compare (case compare of None \<Rightarrow> ve_defaultCompare env | Some c \<Rightarrow> c))"

inductive fu_history ::
  "('q, 'p) view_env \<Rightarrow> ('q, 'p) full_view \<Rightarrow> nat multiset \<Rightarrow> 'p individual_data view_signal list \<Rightarrow> bool"
  for env where
  start: "reports_changes l \<Longrightarrow>
     strict_weak_order (ic_compare (case compare of None \<Rightarrow> ve_defaultCompare env | Some c \<Rightarrow> c)) \<Longrightarrow>
     distinct individuals \<Longrightarrow>
     Full_doStart env props individuals quiescent (fst (setCompare env props compare (FullView env l delay))) = (v, sent) \<Longrightarrow>
     fu_history env v (mset individuals) sent"
| step: "fu_history env v m sent \<Longrightarrow> fu_allowed env v m e \<Longrightarrow> fu_step env e v = (v', new) \<Longrightarrow>
     fu_history env v' (announced e m) (sent @ new)"

lemma fu_history_next:
  "fu_history env v m sent \<Longrightarrow> fu_allowed env v m e \<Longrightarrow>
   fu_history env (fst (fu_step env e v)) (announced e m) (sent @ snd (fu_step env e v))"
  by (erule fu_history.step) simp_all

lemma load_loop_individuals: "map m_individual (load_loop env props v data individuals) = individuals"
  by (induction individuals arbitrary: data) (simp_all add: Let_def)

lemma replay_added: "replay (map (\<lambda>i. Added i (xs ! i)) [0..<length xs]) [] = Some xs"
proof -
  have "replay (map (\<lambda>i. Added i (xs ! i)) [0..<n]) [] = Some (take n xs)" if "n \<le> length xs" for n
    using that by (induction n) (auto simp: take_Suc_conv_app_nth ins_def)
  from this [of "length xs"] show ?thesis by simp
qed

lemma distinct_count: "distinct xs \<longleftrightarrow> (\<forall>x. count (mset xs) x \<le> 1)"
  by (simp add: distinct_count_atmost_1 count_mset) (metis count_list_0_iff le_SucE le_zero_eq One_nat_def order_refl zero_le)

lemma fu_step_locale:
  "fu_allowed env v m e \<Longrightarrow> ordered v \<Longrightarrow> reports_changes (fu_locale v) \<Longrightarrow> reports_changes (fu_locale (fst (fu_step env e v)))"
  using individualsChanged_correct [of v] onIdle_correct [of v]
  by (cases e) (auto simp: fu_correct_def individualModified_def waitForIdle_def quiescenceChanged_def setLocale_def
      setCompare_def Let_def)

lemma fu_step_correct:
  assumes "sorts env" "ordered v" "reports_changes (fu_locale v)" "distinct (map m_individual (fu_entries v))"
    and "fu_allowed env v (mset (map m_individual (fu_entries v))) e"
  shows "ordered (fst (fu_step env e v)) \<and>
    replay (shown (snd (fu_step env e v))) (map visible (fu_entries v)) = Some (map visible (fu_entries (fst (fu_step env e v)))) \<and>
    mset (map m_individual (fu_entries (fst (fu_step env e v)))) = announced e (mset (map m_individual (fu_entries v)))"
proof (cases e)
  case (IndividualsChanged props added removed)
  then show ?thesis
    using individualsChanged_correct [OF assms(2), of removed added env props]
    by (auto simp: fu_correct_def dest: replay_map [where f = visible])
next
  case (Idle props)
  then show ?thesis
    using onIdle_correct [OF assms(2), of env props] by (auto simp: fu_correct_def dest: replay_map [where f = visible])
next
  case (SetCompare props compare)
  then show ?thesis
    using setCompare_correct [OF assms(1,3) _ assms(4), of compare props] assms(5) by simp
qed (use assms in \<open>auto simp: individualModified_def waitForIdle_def quiescenceChanged_def setLocale_def ordered_def\<close>)

lemma full_view_invariant:
  assumes "fu_history env v announced' sent" and "sorts env"
  shows "ordered v \<and> mset (map m_individual (fu_entries v)) = announced' \<and>
         distinct (map m_individual (fu_entries v)) \<and> reports_changes (fu_locale v) \<and>
         replay (shown sent) [] = Some (map visible (fu_entries v))"
  using assms(1)
proof (induction rule: fu_history.induct)
  case (start l compare individuals props quiescent delay v sent)
  let ?w = "fst (setCompare env props compare (FullView env l delay))"
  let ?c = "case compare of None \<Rightarrow> ve_defaultCompare env | Some c \<Rightarrow> c"
  have "mset (ve_sort env (IndividualDataCompare ?c) []) = {#}" using assms(2) by (simp add: sorts_def)
  then have w: "fu_entries ?w = []" "fu_compare ?w = ?c" "fu_locale ?w = l"
    by (simp_all add: setCompare_def FullView_def Let_def)
  let ?xs = "load_loop env props ?w (new_data env) individuals"
  have v: "fu_entries v = ve_sort env (IndividualDataCompare ?c) ?xs" "fu_compare v = ?c" "fu_locale v = l"
    "sent = map (\<lambda>i. Added i (fu_entries v ! i)) [0..<length (fu_entries v)]"
    using start(4) by (auto simp: Full_doStart_def Let_def w)
  have "sorted_wrt (\<lambda>a b. \<not> IndividualDataCompare ?c b a) (fu_entries v)" "mset (fu_entries v) = mset ?xs"
    using assms(2) data_order [OF start(2)] unfolding sorts_def v(1) by blast+
  moreover from this(2) have "mset (map m_individual (fu_entries v)) = mset individuals"
    using load_loop_individuals [of env props ?w "new_data env" individuals] by (metis mset_map)
  ultimately show ?case
    using start(1-3) replay_map [OF replay_added [of "fu_entries v"], of visible] v
    by (simp add: ordered_def distinct_count)
next
  case (step v m sent e v' new)
  then have m: "mset (map m_individual (fu_entries v)) = m" by simp
  have r: "ordered v' \<and> replay (shown new) (map visible (fu_entries v)) = Some (map visible (fu_entries v')) \<and>
      mset (map m_individual (fu_entries v')) = announced e m"
    using fu_step_correct [OF assms(2), of v e] step m by simp
  moreover have "reports_changes (fu_locale v')"
    using fu_step_locale [of env v m e] step by simp
  moreover have "distinct (map m_individual (fu_entries v'))"
  proof (cases e)
    case (IndividualsChanged props added removed)
    then show ?thesis using step(2) r unfolding distinct_count by simp
  qed (use r m step in \<open>auto simp: distinct_count\<close>)
  ultimately show ?case using step by simp
qed

lemma full_view_mirrors:
  "fu_history env v m sent \<Longrightarrow> sorts env \<Longrightarrow> replay (shown sent) [] = Some (map visible (fu_entries v))"
  using full_view_invariant by blast

text \<open>
  C22: The full view of the address book. In every history of announcements by libfolks, modifications,
  idle times, changes of the locale and of the sort order, the contacts are exactly the individuals
  that libfolks has announced, each once, sorted by the current order, and a recipient that applies the
  signals to an empty list has the contacts of the view in this order with their current values.
\<close>

theorem full_view_history:
  assumes "fu_history env v announced' sent" and "sorts env"
  shows "ordered v \<and> mset (map m_individual (fu_entries v)) = announced' \<and>
         distinct (map m_individual (fu_entries v)) \<and>
         replay (shown sent) [] = Some (map visible (fu_entries v))"
  using full_view_invariant [OF assms] by blast

text \<open>A sort that satisfies the contract.\<close>

definition insertion_sort :: "('a \<Rightarrow> 'a \<Rightarrow> bool) \<Rightarrow> 'a list \<Rightarrow> 'a list" where
  "insertion_sort lt xs = foldr (\<lambda>x ys. ins (lower_bound lt ys x) x ys) xs []"

lemma insertion_sort_mset: "mset (insertion_sort lt xs) = mset xs"
  by (induction xs) (simp_all add: insertion_sort_def mset_ins)

lemma insertion_sort_sorted: "strict_weak_order lt \<Longrightarrow> sorted_wrt (\<lambda>a b. \<not> lt b a) (insertion_sort lt xs)"
  by (induction xs) (simp_all add: insertion_sort_def strict_weak_order.ascending_ins_lower_bound)

lemma insertion_sort_sorts: "ve_sort env = insertion_sort \<Longrightarrow> sorts env"
  by (simp add: sorts_def insertion_sort_mset insertion_sort_sorted)

theorem full_view_history_witness:
  "replay [Added 0 (1, ()), Added 0 (2 :: nat, ()), Quiescent] [] = Some [(2, ()), (1, ())]"
proof -
  let ?compare = "CompareFormattedName (\<lambda>q. Some (Some q, None)) False False"
  let ?env = "\<lparr>ve_defaultCompare = ?compare, ve_precomputed = (), ve_sort = insertion_sort\<rparr> :: (string, unit) view_env"
  let ?props = "\<lambda>i :: nat. if i = 1 then ''b'' else ''a''"
  let ?v0 = "fst (setCompare ?env ?props None (FullView ?env None 0))"
  let ?v1 = "fst (Full_doStart ?env ?props [] True ?v0)"
  let ?e = "IndividualsChanged ?props [1, 2] [] :: (string, unit) fu_event" and ?i = "Idle ?props :: (string, unit) fu_event"
  let ?r = "fu_step ?env ?e ?v1"
  let ?s = "fu_step ?env ?i (fst ?r)"
  have sent: "snd (Full_doStart ?env ?props [] True ?v0) = []" "map m_individual (fu_entries (fst ?s)) = [2, 1]"
    "shown (snd ?r) = [Added 0 (1, ()), Added 0 (2, ())]" "shown (snd ?s) = [Quiescent]" "fu_waitForIdle (fst ?r)"
    by code_simp+
  have "fu_history ?env ?v1 (mset []) []"
    by (rule fu_history.start [where l = None and compare = None and props = ?props and quiescent = True and delay = 0])
      (use sent(1) in \<open>simp_all add: reports_changes_def by_name.strict_weak_order_axioms prod_eq_iff\<close>)
  moreover have "fu_allowed ?env ?v1 (mset []) ?e"
    by (simp add: add_mset_commute)
  ultimately have "fu_history ?env (fst ?r) (announced ?e (mset [])) ([] @ snd ?r)"
    by (rule fu_history_next)
  then have "fu_history ?env (fst ?s) (announced ?i (announced ?e (mset [])))
      (([] @ snd ?r) @ snd ?s)"
    by (rule fu_history_next) (use sent(5) in simp)
  from full_view_history [OF this insertion_sort_sorts]
  have "replay (shown (snd ?r) @ shown (snd ?s)) [] = Some (map visible (fu_entries (fst ?s)))" by simp
  moreover have "map visible (fu_entries (fst ?s)) = map (\<lambda>i. (i, ())) (map m_individual (fu_entries (fst ?s)))"
    by (simp add: visible_def)
  ultimately show ?thesis unfolding sent by simp
qed

text \<open>
  The individuals that libfolks already has when the view starts are not monitored: the view is only told
  about changes of those that are added later.
\<close>

lemma loaded_individuals_not_monitored:
  "fu_monitored (fst (Full_doStart env props individuals quiescent (FullView env l delay))) = []"
  by (simp add: Full_doStart_def FullView_def Let_def)

end
