(* ===== verification/Merge_View.thy ===== *)
theory Merge_View
  imports Full_View
begin

text \<open>
  \<open>MergeView\<close> (src/src/dbus/server/pim/merge-view.h and merge-view.cpp): shows the results of direct
  searches in address books until the main view is quiescent, then the main view. The content of the
  main view is an argument; whether the searches are quiescent, and the UIDs of the personas of an
  individual, come from other objects.
\<close>

section \<open>The view\<close>

record ('q, 'p) merge_view =
  mv_compare :: "'q individual_compare"
  mv_locale :: "('q \<Rightarrow> 'p \<Rightarrow> bool \<times> 'p) option"
  mv_viewReady :: bool
  mv_entries :: "'p individual_data list"
  mv_searches :: "nat list"

type_synonym ('q, 'p) merge_result = "('q, 'p) merge_view \<times> 'p individual_data view_signal list"

definition MergeView ::
  "nat list \<Rightarrow> ('q \<Rightarrow> 'p \<Rightarrow> bool \<times> 'p) option \<Rightarrow> 'q individual_compare \<Rightarrow> ('q, 'p) merge_view" where
  "MergeView searches locale' compare =
     \<lparr>mv_compare = compare, mv_locale = locale', mv_viewReady = False, mv_entries = [], mv_searches = searches\<rparr>"

text \<open>\<open>size\<close> and \<open>getContact\<close>.\<close>

definition Merge_content :: "'p individual_data list \<Rightarrow> ('q, 'p) merge_view \<Rightarrow> 'p individual_data list" where
  "Merge_content view mv = (if mv_viewReady mv then view else mv_entries mv)"

definition Merge_getContact :: "'p individual_data list \<Rightarrow> ('q, 'p) merge_view \<Rightarrow> int \<Rightarrow> 'p individual_data option" where
  "Merge_getContact view mv index =
     (let xs = Merge_content view mv
      in if 0 \<le> index \<and> nat index < length xs then Some (xs ! nat index) else None)"

definition addEDSIndividual ::
  "('q, 'p) view_env \<Rightarrow> (nat \<Rightarrow> 'q) \<Rightarrow> nat \<Rightarrow> ('q, 'p) merge_view \<Rightarrow> ('q, 'p) merge_result" where
  "addEDSIndividual env props individual mv =
     (let data = snd (IndividualData_init (Some (mv_compare mv)) (mv_locale mv) props individual (new_data env));
          index = lower_bound (IndividualDataCompare (mv_compare mv)) (mv_entries mv) data
      in (mv\<lparr>mv_entries := ins index data (mv_entries mv)\<rparr>, [Added index data]))"

definition edsDone :: "(nat \<Rightarrow> bool) \<Rightarrow> ('q, 'p) merge_view \<Rightarrow> ('q, 'p) merge_result" where
  "edsDone search_quiescent mv =
     (if \<exists>search \<in> set (mv_searches mv). \<not> search_quiescent search then (mv, [])
      else (mv, if \<not> mv_viewReady mv then [Quiescent] else []))"

text \<open>
  \<open>SamePersonas\<close>, with the UIDs of the personas of an individual: the loop that compares the UIDs only
  leaves itself at a difference, and \<open>return true\<close> follows in any case.
\<close>

definition SamePersonas :: "(nat \<Rightarrow> string list) \<Rightarrow> nat \<Rightarrow> nat \<Rightarrow> bool" where
  "SamePersonas uids a b \<longleftrightarrow> card (set (uids a)) = card (set (uids b))"

definition viewReady ::
  "(nat \<Rightarrow> string list) \<Rightarrow> 'p individual_data list \<Rightarrow> ('q, 'p) merge_view \<Rightarrow> ('q, 'p) merge_result" where
  "viewReady uids view mv =
     (if mv_viewReady mv then (mv, [])
      else (let entries = mv_entries mv;
                common = min (length view) (length entries);
                modified = concat (map (\<lambda>index.
                  if \<not> SamePersonas uids (m_individual (entries ! index)) (m_individual (view ! index))
                  then [Modified index (view ! index)] else []) [0..<common]);
                added = map (\<lambda>index. Added index (view ! index)) [common..<length view];
                removeAt = max common (length view);
                removed = map (\<lambda>index. Removed removeAt (entries ! index)) [removeAt..<length entries]
            in (mv\<lparr>mv_viewReady := True, mv_searches := [], mv_entries := []\<rparr>,
                modified @ added @ removed @ [Quiescent])))"

text \<open>\<open>doStart\<close>, when the main view runs: the view switches at once if the main view is quiescent.\<close>

definition Merge_doStart ::
  "(nat \<Rightarrow> string list) \<Rightarrow> 'p individual_data list \<Rightarrow> bool \<Rightarrow> ('q, 'p) merge_view \<Rightarrow> ('q, 'p) merge_result" where
  "Merge_doStart uids view quiescent mv = (if quiescent then viewReady uids view mv else (mv, []))"

section \<open>Before and after the switch\<close>

text \<open>Adding keeps the order, and a copy of the list follows the signals.\<close>

lemma addEDS_correct:
  assumes "strict_weak_order (ic_compare (mv_compare mv))"
    "sorted_wrt (\<lambda>a b. \<not> IndividualDataCompare (mv_compare mv) b a) (mv_entries mv)"
    "addEDSIndividual env props individual mv = (mv', sent)"
  shows "sorted_wrt (\<lambda>a b. \<not> IndividualDataCompare (mv_compare mv') b a) (mv_entries mv')"
    and "replay sent (mv_entries mv) = Some (mv_entries mv')" and "mv_compare mv' = mv_compare mv"
    and "mset (map m_individual (mv_entries mv')) = add_mset individual (mset (map m_individual (mv_entries mv)))"
proof -
  have order: "strict_weak_order (IndividualDataCompare (mv_compare mv))"
    using assms(1) by (rule data_order)
  define data where "data = snd (IndividualData_init (Some (mv_compare mv)) (mv_locale mv) props individual (new_data env))"
  have "lower_bound (IndividualDataCompare (mv_compare mv)) (mv_entries mv) data \<le> length (mv_entries mv)"
    by (rule lower_bound_spec(1) [OF strict_weak_order.ascending_partitioned [OF order assms(2)]])
  moreover have "m_individual data = individual" by (simp add: data_def)
  ultimately show "sorted_wrt (\<lambda>a b. \<not> IndividualDataCompare (mv_compare mv') b a) (mv_entries mv')"
    and "replay sent (mv_entries mv) = Some (mv_entries mv')" and "mv_compare mv' = mv_compare mv"
    and "mset (map m_individual (mv_entries mv')) = add_mset individual (mset (map m_individual (mv_entries mv)))"
    using assms(3) strict_weak_order.ascending_ins_lower_bound [OF order assms(2), of data]
    by (auto simp: addEDSIndividual_def Let_def data_def [symmetric] mset_ins)
qed

lemma replay_appended: "replay (map (\<lambda>i. Added i (ys ! i)) [length xs..<length xs + n]) xs = Some (xs @ map (nth ys) [length xs..<length xs + n])"
  by (induction n) (auto simp: ins_def)

lemma replay_removed: "n \<le> length xs \<Longrightarrow> length ds = length xs - n \<Longrightarrow> replay (map (Removed n) ds) xs = Some (take n xs)"
proof (induction ds arbitrary: xs)
  case (Cons d ds)
  then have "n < length xs" by simp
  moreover have "replay (map (Removed n) ds) (del n xs) = Some (take n (del n xs))"
    using Cons.prems by (intro Cons.IH) simp_all
  ultimately show ?case by (simp add: del_def)
qed simp

text \<open>
  After the switch a recipient has the contacts of the main view, except for those places where the old
  and the new contact have equally many personas: there it still has the old one.
\<close>

lemma viewReady_replay:
  assumes "\<not> mv_viewReady mv" "viewReady uids view mv = (mv', sent)"
  shows "replay sent (mv_entries mv) =
    Some (map (\<lambda>i. if i < length (mv_entries mv) \<and> SamePersonas uids (m_individual (mv_entries mv ! i)) (m_individual (view ! i))
                   then mv_entries mv ! i else view ! i) [0..<length view])"
proof -
  let ?xs = "mv_entries mv" and ?n = "length view"
  let ?C = "\<lambda>i. \<not> SamePersonas uids (m_individual (?xs ! i)) (m_individual (view ! i))"
  let ?k = "min ?n (length ?xs)"
  let ?new = "\<lambda>i. if i < length ?xs \<and> \<not> ?C i then ?xs ! i else view ! i"
  let ?zs = "map (\<lambda>i. if i < ?k \<and> ?C i then view ! i else ?xs ! i) [0..<length ?xs]"
  define ws where "ws = take (length ?xs) view @ drop ?n ?xs"
  have ws: "length ws = length ?xs" "\<And>i. i < ?k \<Longrightarrow> ws ! i = view ! i"
    by (auto simp: ws_def nth_append)
  have "concat (map (\<lambda>i. if ?C i then [Modified i (view ! i)] else []) [0..<?k]) =
      concat (map (\<lambda>i. if ?C i then [Modified i (ws ! i)] else []) [0..<?k])"
    using ws(2) by (intro arg_cong [of _ _ concat] map_cong) auto
  then have mod: "replay (concat (map (\<lambda>i. if ?C i then [Modified i (view ! i)] else []) [0..<?k])) ?xs = Some ?zs"
    using replay_modified [OF ws(1), of ?k ?C] ws(2) by (auto cong: if_cong)
  show ?thesis
  proof (cases "?n \<le> length ?xs")
    case True
    have "replay (map (\<lambda>i. Removed ?n (?xs ! i)) [?n..<length ?xs]) ?zs = Some (take ?n ?zs)"
      using replay_removed [of ?n ?zs "map (nth ?xs) [?n..<length ?xs]"] True by (simp add: comp_def)
    moreover have "take ?n ?zs = map ?new [0..<?n]"
      using True by (intro nth_equalityI) auto
    ultimately show ?thesis
      using assms mod True by (auto simp: viewReady_def Let_def min_absorb1 max_absorb2)
  next
    case False
    have "replay (map (\<lambda>i. Added i (view ! i)) [length ?xs..<?n]) ?zs = Some (?zs @ map (nth view) [length ?xs..<?n])"
      using replay_appended [of view ?zs "?n - length ?xs"] False by simp
    moreover have "?zs @ map (nth view) [length ?xs..<?n] = map ?new [0..<?n]"
      using False by (intro nth_equalityI) (auto simp: nth_append)
    ultimately show ?thesis
      using assms mod False by (auto simp: viewReady_def Let_def min_absorb2 max_absorb1)
  qed
qed

text \<open>
  Switching from the results of direct searches to the main view. If contacts at the same place that have
  equally many personas are the same, a recipient that has followed the direct searches has exactly the
  contacts of the main view after the switch.
\<close>

lemma merge_view_switch:
  assumes "\<not> mv_viewReady mv" and "viewReady uids view mv = (mv', sent)"
    and "\<forall>i < min (length (mv_entries mv)) (length view).
       SamePersonas uids (m_individual (mv_entries mv ! i)) (m_individual (view ! i)) \<longrightarrow> mv_entries mv ! i = view ! i"
  shows "replay sent (Merge_content view mv) = Some (Merge_content view mv')"
proof -
  have "map (\<lambda>i. if i < length (mv_entries mv) \<and> SamePersonas uids (m_individual (mv_entries mv ! i)) (m_individual (view ! i))
                 then mv_entries mv ! i else view ! i) [0..<length view] = view"
    using assms(3) by (intro nth_equalityI) auto
  moreover have "mv_viewReady mv'" using assms(1,2) by (auto simp: viewReady_def Let_def)
  ultimately show ?thesis
    using viewReady_replay [OF assms(1,2)] assms(1) by (simp add: Merge_content_def)
qed

text \<open>Different contacts with one persona each count as the same, so that the recipient keeps the wrong one.\<close>

lemma replaced_contact_not_announced:
  fixes new old :: "'p individual_data"
  assumes "\<not> mv_viewReady mv" "mv_entries mv = [old]" "m_individual old = 1" "m_individual new = 2"
  shows "snd (viewReady (\<lambda>i. if i = 1 then [''a''] else [''b'']) [new] mv) = [Quiescent]"
  using assms by (simp add: viewReady_def SamePersonas_def)

end
