(* ===== verification/Filtered_View.thy ===== *)
theory Filtered_View
  imports Contact_View LCS "HOL-Library.Sublist"
begin

text \<open>
  \<open>FilteredView\<close> (src/src/dbus/server/pim/filtered-view.h and filtered-view.cpp): the contacts of a
  parent view that match a filter, up to a maximum number, as a list of indices into the parent.
  Signals of the parent are slots that run while the parent already has its new content; every
  operation gets that content and returns the signals that it sends itself.
\<close>

section \<open>The view\<close>

record 'd filtered_view =
  fv_filter :: "'d individual_filter"
  fv_local2parent :: "nat list"
  fv_fillViewOnIdle :: bool

type_synonym 'd filtered_result = "'d filtered_view \<times> 'd view_signal list"

definition FilteredView :: "'d individual_filter \<Rightarrow> 'd filtered_view" where
  "FilteredView f = \<lparr>fv_filter = f, fv_local2parent = [], fv_fillViewOnIdle = False\<rparr>"

definition isFull :: "nat list \<Rightarrow> 'd individual_filter \<Rightarrow> bool" where
  "isFull local2parent f \<longleftrightarrow> \<not> isIncluded f (length local2parent)"

definition fillView :: "'d filtered_view \<Rightarrow> 'd filtered_view" where
  "fillView v = v\<lparr>fv_fillViewOnIdle := True\<rparr>"

definition insertion_point :: "nat list \<Rightarrow> nat \<Rightarrow> nat" where
  "insertion_point l parentIndex =
     (if l \<noteq> [] \<and> last l < parentIndex then length l else lower_bound (<) l parentIndex)"

definition Filtered_addIndividual ::
  "'d list \<Rightarrow> nat \<Rightarrow> 'd \<Rightarrow> 'd filtered_view \<Rightarrow> 'd filtered_result" where
  "Filtered_addIndividual parent parentIndex data v =
     (let it = insertion_point (fv_local2parent v) parentIndex;
          l = take it (fv_local2parent v) @ map Suc (drop it (fv_local2parent v))
      in if if_matches (fv_filter v) data \<and> isIncluded (fv_filter v) it
         then (let newEndIndex = length l;
                   (l, removed) =
                     (if newEndIndex > it \<and> \<not> isIncluded (fv_filter v) newEndIndex
                      then (butlast l, [Removed (newEndIndex - 1) (parent ! last l)])
                      else (l, []))
               in (v\<lparr>fv_local2parent := ins it parentIndex l\<rparr>, removed @ [Added it data]))
         else (v\<lparr>fv_local2parent := l\<rparr>, []))"

definition Filtered_removeIndividual :: "nat \<Rightarrow> 'd \<Rightarrow> 'd filtered_view \<Rightarrow> 'd filtered_result" where
  "Filtered_removeIndividual parentIndex data v =
     (let l = fv_local2parent v;
          it = lower_bound (<) l parentIndex;
          found = (it < length l \<and> l ! it = parentIndex);
          l = take it l @ map (\<lambda>i. i - 1) (drop it l)
      in if found then (fillView (v\<lparr>fv_local2parent := del it l\<rparr>), [Removed it data])
         else (v\<lparr>fv_local2parent := l\<rparr>, []))"

definition Filtered_modifyIndividual :: "nat \<Rightarrow> 'd \<Rightarrow> 'd filtered_view \<Rightarrow> 'd filtered_result" where
  "Filtered_modifyIndividual parentIndex data v =
     (let l = fv_local2parent v;
          it = lower_bound (<) l parentIndex;
          matches = if_matches (fv_filter v) data
      in if it < length l \<and> l ! it = parentIndex
         then (if matches then (v, [Modified it data])
               else (fillView (v\<lparr>fv_local2parent := del it l\<rparr>), [Removed it data]))
         else if matches \<and> isIncluded (fv_filter v) it
         then (v\<lparr>fv_local2parent := ins it parentIndex l\<rparr>, [Added it data])
         else (v, []))"

text \<open>The loop of \<open>fillViewCb\<close>; the one of \<open>doStart\<close> is the same from index 0.\<close>

function fill_loop :: "'d list \<Rightarrow> nat \<Rightarrow> 'd filtered_view \<Rightarrow> 'd filtered_result" where
  "fill_loop parent candidate v =
     (if \<not> isFull (fv_local2parent v) (fv_filter v) \<and> candidate < length parent
      then (let (v, sent) = Filtered_addIndividual parent candidate (parent ! candidate) v;
                (v, more) = fill_loop parent (Suc candidate) v
            in (v, sent @ more))
      else (v, []))"
  by pat_completeness auto

termination
  by (relation "measure (\<lambda>(parent, candidate, _). length parent - candidate)") auto

declare fill_loop.simps [simp del]

definition fillViewCb :: "'d list \<Rightarrow> 'd filtered_view \<Rightarrow> 'd filtered_result" where
  "fillViewCb parent v =
     fill_loop parent (if fv_local2parent v = [] then 0 else last (fv_local2parent v) + 1) v"

definition Filtered_doStart :: "'d list \<Rightarrow> 'd filtered_view \<Rightarrow> 'd filtered_result" where
  "Filtered_doStart parent v = fill_loop parent 0 v"

definition parentQuiescent :: "'d list \<Rightarrow> 'd filtered_view \<Rightarrow> 'd filtered_result" where
  "parentQuiescent parent v =
     (let (v, sent) =
        (if fv_fillViewOnIdle v
         then (let (v, sent) = fillViewCb parent v in (v\<lparr>fv_fillViewOnIdle := False\<rparr>, sent))
         else (v, []))
      in (v, sent @ [Quiescent]))"

text \<open>The timer that \<open>fillView\<close> starts.\<close>

definition fill_timer :: "'d list \<Rightarrow> 'd filtered_view \<Rightarrow> 'd filtered_result" where
  "fill_timer parent v = (let (v, sent) = fillViewCb parent v in (v\<lparr>fv_fillViewOnIdle := False\<rparr>, sent))"

fun parent_signal :: "'d list \<Rightarrow> 'd view_signal \<Rightarrow> 'd filtered_view \<Rightarrow> 'd filtered_result" where
  "parent_signal parent (Added i data) v = Filtered_addIndividual parent i data v"
| "parent_signal parent (Removed i data) v = Filtered_removeIndividual i data v"
| "parent_signal parent (Modified i data) v = Filtered_modifyIndividual i data v"
| "parent_signal parent Quiescent v = parentQuiescent parent v"

section \<open>Replacing the filter\<close>

text \<open>A more specific filter: the entries that no longer match are removed.\<close>

fun refine_loop :: "('d \<Rightarrow> bool) \<Rightarrow> 'd list \<Rightarrow> nat \<Rightarrow> nat list \<Rightarrow> nat list \<times> 'd view_signal list" where
  "refine_loop matches parent index [] = ([], [])"
| "refine_loop matches parent index (p # l) =
     (if matches (parent ! p)
      then (let (l, sent) = refine_loop matches parent (Suc index) l in (p # l, sent))
      else (let (l, sent) = refine_loop matches parent index l in (l, Removed index (parent ! p) # sent)))"

function rebuild_loop :: "'d individual_filter \<Rightarrow> 'd list \<Rightarrow> nat \<Rightarrow> nat list \<Rightarrow> nat list" where
  "rebuild_loop f parent candidate local2parent =
     (if \<not> isFull local2parent f \<and> candidate < length parent
      then rebuild_loop f parent (Suc candidate)
             (if if_matches f (parent ! candidate) then local2parent @ [candidate] else local2parent)
      else local2parent)"
  by pat_completeness auto

termination
  by (relation "measure (\<lambda>(_, parent, candidate, _). length parent - candidate)") auto

declare rebuild_loop.simps [simp del]

text \<open>
  The loops that announce additions and removals in front of a common entry. An access to a vector
  behind its end has no defined result: \<open>None\<close>. Indices have type \<open>size_t\<close>; a negative difference
  is such an index.
\<close>

definition added_loop :: "'d list \<Rightarrow> nat list \<Rightarrow> nat \<Rightarrow> int \<Rightarrow> nat \<Rightarrow> 'd view_signal list option" where
  "added_loop parent new newIndex start change =
     (if 0 \<le> start \<and> newIndex + change \<le> length new
      then Some (map (\<lambda>i. Added (nat start + i) (parent ! (new ! (newIndex + i)))) [0..<change])
      else None)"

definition removed_loop :: "'d list \<Rightarrow> nat list \<Rightarrow> int \<Rightarrow> nat \<Rightarrow> 'd view_signal list option" where
  "removed_loop parent old index change =
     (if 0 \<le> index \<and> nat index + change \<le> length old
      then Some (map (\<lambda>i. Removed (nat index) (parent ! (old ! (nat index + i)))) [0..<change])
      else None)"

text \<open>
  The loop over the common entries, with the signals sent, \<open>shift\<close>, \<open>oldIndex\<close> and \<open>newIndex\<close>. The
  assignment at the end of the branch goes to \<open>new_delta\<close>, which is not used after it: \<open>delta\<close>
  stays what it is.
\<close>

fun morph_loop ::
  "'d list \<Rightarrow> nat list \<Rightarrow> nat list \<Rightarrow> int \<Rightarrow> nat Entry list \<Rightarrow> 'd view_signal list \<times> int \<times> nat \<times> nat \<Rightarrow>
   ('d view_signal list \<times> int \<times> nat \<times> nat) option" where
  "morph_loop parent old new delta [] r = Some r"
| "morph_loop parent old new delta (entry # common) (sent, shift, oldIndex, newIndex) =
     (let new_delta = int (index_b entry) - int (index_a entry);
          changed =
            (if delta < new_delta
             then (let change = nat (new_delta - delta)
                   in map_option (\<lambda>more. (sent @ more, shift - int change))
                        (added_loop parent new newIndex (int oldIndex - shift) change))
             else if delta > new_delta
             then (let change = nat (delta - new_delta); shift = shift + int change
                   in map_option (\<lambda>more. (sent @ more, shift))
                        (removed_loop parent old (int oldIndex - shift) change))
             else Some (sent, shift))
      in case changed of
           None \<Rightarrow> None
         | Some (sent, shift) \<Rightarrow>
             morph_loop parent old new delta common (sent, shift, index_a entry + 1, index_b entry + 1))"

definition morph_signals :: "'d list \<Rightarrow> nat list \<Rightarrow> nat list \<Rightarrow> 'd view_signal list option" where
  "morph_signals parent old new =
     (case lcs accessor_sequence_cost id old new of
        None \<Rightarrow> None
      | Some common \<Rightarrow>
          (case morph_loop parent old new 0 common ([], 0, 0, 0) of
             None \<Rightarrow> None
           | Some (sent, shift, oldIndex, newIndex) \<Rightarrow>
               if oldIndex < length old \<and> int oldIndex < shift then None
               else Some (sent @
                 map (\<lambda>index. Removed (nat (int oldIndex - shift)) (parent ! (old ! index))) [oldIndex..<length old] @
                 map (\<lambda>index. Added index (parent ! (new ! index))) [newIndex..<length new])))"

text \<open>
  \<open>replaceFilter\<close>. The first argument says whether the parent is quiescent. Only refining stores the
  new filter in the view.
\<close>

definition replaceFilter ::
  "bool \<Rightarrow> 'd list \<Rightarrow> 'd individual_filter \<Rightarrow> bool \<Rightarrow> 'd filtered_view \<Rightarrow>
   (se_error option \<times> 'd filtered_result) option" where
  "replaceFilter quiescent parent f refine v =
     (if if_maxResults f \<noteq> - 1 \<and> if_maxResults f \<noteq> if_maxResults (fv_filter v)
      then Some (Some (Throw ''refining the search must not change the maximum number of results''), v, [])
      else (let f = f\<lparr>if_maxResults := if_maxResults (fv_filter v)\<rparr>;
                changed =
                  (if refine
                   then (let (l, sent) = refine_loop (if_matches f) parent 0 (fv_local2parent v);
                             v' = v\<lparr>fv_local2parent := l, fv_filter := f\<rparr>
                         in Some (if sent \<noteq> [] then fillView v' else v', sent))
                   else (let new = rebuild_loop f parent 0 []
                         in map_option (\<lambda>sent. (v\<lparr>fv_local2parent := new\<rparr>, sent))
                              (morph_signals parent (fv_local2parent v) new)))
            in map_option (\<lambda>(v, sent).
                 (None,
                  if quiescent then (let (v, more) = parentQuiescent parent v in (v, sent @ more))
                  else (v, sent))) changed))"

section \<open>Lists of indices\<close>

abbreviation (input) increasing :: "nat list \<Rightarrow> bool" where
  "increasing \<equiv> sorted_wrt (<)"

lemma increasing_partitioned: "increasing l \<Longrightarrow> partitioned (<) l i"
  unfolding partitioned_def by (erule sorted_wrt_mono_rel [rotated]) simp

text \<open>Looking at the last entry first gives the same as the binary search.\<close>

lemma insertion_point_lower_bound:
  assumes "increasing l"
  shows "insertion_point l p = lower_bound (<) l p"
proof (cases "l \<noteq> [] \<and> last l < p")
  case True
  then have "l ! (length l - 1) < p" using last_conv_nth [of l] by simp
  then have "length l - 1 < lower_bound (<) l p"
    using lower_bound_spec(2) [OF increasing_partitioned [OF assms], of "length l - 1" p] True by simp
  moreover have "lower_bound (<) l p \<le> length l"
    by (rule lower_bound_spec(1) [OF increasing_partitioned [OF assms]])
  ultimately have "lower_bound (<) l p = length l" by linarith
  then show ?thesis using True by (simp add: insertion_point_def)
qed (auto simp: insertion_point_def)

lemma insertion_point_spec:
  assumes "increasing l"
  shows "insertion_point l p \<le> length l" and "j < length l \<Longrightarrow> l ! j < p \<longleftrightarrow> j < insertion_point l p"
  unfolding insertion_point_lower_bound [OF assms]
  by (rule lower_bound_spec [OF increasing_partitioned [OF assms]], assumption?)+

lemma increasing_split:
  assumes "increasing l"
  shows "\<forall>i \<in> set (take (insertion_point l p) l). i < p"
    and "\<forall>i \<in> set (drop (insertion_point l p) l). p \<le> i"
proof -
  let ?k = "insertion_point l p"
  show "\<forall>i \<in> set (take ?k l). i < p"
    using insertion_point_spec(2) [OF assms, of _ p] by (auto simp: in_set_conv_nth)
  show "\<forall>i \<in> set (drop ?k l). p \<le> i"
  proof
    fix i assume "i \<in> set (drop ?k l)"
    then obtain j where "j < length l - ?k" "i = l ! (?k + j)"
      using insertion_point_spec(1) [OF assms, of p] by (auto simp: in_set_conv_nth)
    then show "p \<le> i"
      using insertion_point_spec(2) [OF assms, of "?k + j" p] by (simp add: less_diff_conv add.commute)
  qed
qed

text \<open>
  The list as the indices in front of a place of the parent and those from there on.
\<close>

lemma split_at_index:
  assumes "increasing l"
  obtains front rear where "l = front @ rear" "increasing front" "increasing rear"
    "\<forall>i \<in> set front. i < p" "\<forall>i \<in> set rear. p \<le> i"
    "insertion_point l p = length front" "lower_bound (<) l p = length front"
proof
  let ?k = "insertion_point l p"
  show "l = take ?k l @ drop ?k l" by simp
  show "increasing (take ?k l)" "increasing (drop ?k l)"
    using assms by (simp_all add: sorted_wrt_take sorted_wrt_drop)
  show "?k = length (take ?k l)" "lower_bound (<) l p = length (take ?k l)"
    using insertion_point_spec(1) [OF assms, of p] insertion_point_lower_bound [OF assms, of p] by simp_all
qed (use increasing_split [OF assms, of p] in blast)+

lemma found_iff:
  assumes "l = front @ rear" "increasing rear" "\<forall>i \<in> set front. i < p" "\<forall>i \<in> set rear. p \<le> i"
  shows "length front < length l \<and> l ! length front = p \<longleftrightarrow> p \<in> set l"
proof (cases rear)
  case Nil
  then show ?thesis using assms by auto
next
  case (Cons b bs)
  then show ?thesis using assms by (fastforce simp: nth_append)
qed

section \<open>The content of the view\<close>

definition content :: "'d list \<Rightarrow> 'd filtered_view \<Rightarrow> 'd list" where
  "content parent v = map (nth parent) (fv_local2parent v)"

text \<open>The entries are in the order of the parent, exist there, and match the filter.\<close>

definition fv_ok :: "'d list \<Rightarrow> 'd filtered_view \<Rightarrow> bool" where
  "fv_ok parent v \<longleftrightarrow> increasing (fv_local2parent v) \<and>
     (\<forall>i \<in> set (fv_local2parent v). i < length parent \<and> if_matches (fv_filter v) (parent ! i))"

text \<open>What a step does: it keeps the invariant, and its signals change a copy of the content as the content changes.\<close>

definition fv_mirrors :: "'d list \<Rightarrow> 'd filtered_view \<Rightarrow> 'd list \<Rightarrow> 'd filtered_result \<Rightarrow> bool" where
  "fv_mirrors parent v parent' r \<longleftrightarrow>
     fv_ok parent' (fst r) \<and> replay (snd r) (content parent v) = Some (content parent' (fst r))"

lemma map_nth_ins_front: "p \<le> length P \<Longrightarrow> \<forall>i \<in> set l. i < p \<Longrightarrow> map (nth (ins p d P)) l = map (nth P) l"
  by (auto simp: nth_ins)

lemma map_nth_ins_back:
  "p \<le> length P \<Longrightarrow> \<forall>i \<in> set l. p \<le> i \<and> i < length P \<Longrightarrow> map (nth (ins p d P)) (map Suc l) = map (nth P) l"
  by (auto simp: nth_ins)

lemma map_nth_del_front: "p < length P \<Longrightarrow> \<forall>i \<in> set l. i < p \<Longrightarrow> map (nth (del p P)) l = map (nth P) l"
  by (auto simp: nth_del)

lemma map_nth_del_back:
  "p < length P \<Longrightarrow> \<forall>i \<in> set l. p < i \<and> i < length P \<Longrightarrow> map (nth (del p P)) (map (\<lambda>i. i - 1) l) = map (nth P) l"
  by (force simp: nth_del)

section \<open>The slots\<close>

lemma Filtered_add_cases:
  assumes "fv_local2parent v = front @ rear" "insertion_point (fv_local2parent v) p = length front"
  shows "Filtered_addIndividual parent p d v =
    (if if_matches (fv_filter v) d \<and> isIncluded (fv_filter v) (length front)
     then (if rear \<noteq> [] \<and> \<not> isIncluded (fv_filter v) (length (fv_local2parent v))
           then (v\<lparr>fv_local2parent := front @ p # map Suc (butlast rear)\<rparr>,
                 [Removed (length front + (length rear - 1)) (parent ! Suc (last rear)), Added (length front) d])
           else (v\<lparr>fv_local2parent := front @ p # map Suc rear\<rparr>, [Added (length front) d]))
     else (v\<lparr>fv_local2parent := front @ map Suc rear\<rparr>, []))"
  unfolding Filtered_addIndividual_def assms(2)
  by (cases rear rule: rev_cases)
    (simp_all add: assms(1) butlast_append last_map map_butlast [symmetric] Let_def)

lemma Filtered_add_frame:
  "fv_filter (fst (Filtered_addIndividual parent p d v)) = fv_filter v"
  "fv_fillViewOnIdle (fst (Filtered_addIndividual parent p d v)) = fv_fillViewOnIdle v"
  by (simp_all add: Filtered_addIndividual_def Let_def split: prod.splits)

text \<open>The lists that adding leads to.\<close>

lemma grown:
  assumes "fv_ok parent v" "p \<le> length parent" "increasing front" "increasing rear"
    "\<forall>i \<in> set front. i < p" "\<forall>i \<in> set rear. p \<le> i" "set (front @ rear) \<subseteq> set (fv_local2parent v)"
  shows "map (nth (ins p d parent)) front = map (nth parent) front"
    and "map (nth (ins p d parent) \<circ> Suc) rear = map (nth parent) rear"
    and "fv_ok (ins p d parent) (v\<lparr>fv_local2parent := front @ map Suc rear\<rparr>)"
    and "if_matches (fv_filter v) d \<Longrightarrow> fv_ok (ins p d parent) (v\<lparr>fv_local2parent := front @ p # map Suc rear\<rparr>)"
proof -
  have range: "\<forall>i \<in> set front \<union> set rear. i < length parent \<and> if_matches (fv_filter v) (parent ! i)"
    using assms(1,7) by (auto simp: fv_ok_def)
  have nth: "ins p d parent ! p = d" "\<forall>i \<in> set front. ins p d parent ! i = parent ! i"
      "\<forall>i \<in> set rear. ins p d parent ! Suc i = parent ! i"
    using assms(2,5,6) range by (auto simp: nth_ins Suc_le_eq)
  then show "map (nth (ins p d parent)) front = map (nth parent) front"
    and "map (nth (ins p d parent) \<circ> Suc) rear = map (nth parent) rear" by auto
  have inc: "increasing (map Suc rear)" using assms(4) by (simp add: sorted_wrt_map)
  have less: "\<forall>i \<in> set front. \<forall>j \<in> set rear. i < Suc j"
    using assms(5,6) by fastforce
  have "\<forall>i \<in> set front. i < Suc (length parent)"
    using range by (auto intro: less_SucI)
  note less = less this
  show "fv_ok (ins p d parent) (v\<lparr>fv_local2parent := front @ map Suc rear\<rparr>)"
    using inc less assms(2,3) nth range by (auto simp: fv_ok_def sorted_wrt_append)
  show "fv_ok (ins p d parent) (v\<lparr>fv_local2parent := front @ p # map Suc rear\<rparr>)" if "if_matches (fv_filter v) d"
    using that inc less assms(2,3,5,6) nth range by (auto simp: fv_ok_def sorted_wrt_append)
qed

lemma Filtered_add_ok:
  assumes "fv_ok parent v" "p \<le> length parent"
  shows "fv_mirrors parent v (ins p d parent) (Filtered_addIndividual (ins p d parent) p d v)"
proof -
  let ?l = "fv_local2parent v"
  obtain front rear where fr: "?l = front @ rear" "increasing front" "increasing rear"
      "\<forall>i \<in> set front. i < p" "\<forall>i \<in> set rear. p \<le> i" "insertion_point ?l p = length front"
    using split_at_index [of ?l p thesis] assms(1) unfolding fv_ok_def by blast
  have all: "set (front @ rear) \<subseteq> set ?l" by (simp add: fr(1))
  note g = grown [OF assms fr(2-5) all, of d]
  have but: "increasing (butlast rear)" "\<forall>i \<in> set (butlast rear). p \<le> i" "set (front @ butlast rear) \<subseteq> set ?l"
    using fr in_set_butlastD by (fastforce simp: butlast_conv_take sorted_wrt_take)+
  note gb = grown [OF assms fr(2) but(1) fr(4) but(2,3), of d]
  show ?thesis
  proof (cases rear rule: rev_cases)
    case Nil
    then show ?thesis
      using g ins_length [of "map (nth parent) front" d]
      by (simp add: Filtered_add_cases [OF fr(1,6)] fv_mirrors_def content_def fr(1) nth_ins assms(2))
  next
    case (snoc rs r)
    have del: "del (length front + length rs) (map (nth parent) front @ map (nth parent) rs @ [parent ! r]) =
        map (nth parent) front @ map (nth parent) rs"
      using del_length_append [of "map (nth parent) front @ map (nth parent) rs" _ "[]"] by simp
    show ?thesis
      using g gb
      by (simp add: Filtered_add_cases [OF fr(1,6)] fv_mirrors_def content_def fr(1) snoc del nth_ins assms(2))
        (simp add: ins_def)
  qed
qed

text \<open>Parts of the list in front of and behind an entry that is there.\<close>

lemma split_at_entry:
  assumes "fv_ok parent v" "p \<in> set (fv_local2parent v)"
  obtains front rear where "fv_local2parent v = front @ p # rear" "increasing front" "increasing rear"
    "\<forall>i \<in> set front. i < p" "\<forall>i \<in> set rear. p < i" "lower_bound (<) (fv_local2parent v) p = length front"
proof -
  let ?l = "fv_local2parent v"
  obtain front rest where fr: "?l = front @ rest" "increasing front" "increasing rest"
      "\<forall>i \<in> set front. i < p" "\<forall>i \<in> set rest. p \<le> i" "lower_bound (<) ?l p = length front"
    using split_at_index [of ?l p thesis] assms(1) unfolding fv_ok_def by blast
  have "p \<in> set rest" using assms(2) fr(1,4) by auto
  then obtain b rear where rest: "rest = b # rear" by (cases rest) auto
  then have "b = p" using fr(3,5) \<open>p \<in> set rest\<close> by fastforce
  then show thesis using that [of front rear] fr rest by auto
qed

lemma split_at_gap:
  assumes "fv_ok parent v" "p \<notin> set (fv_local2parent v)"
  obtains front rear where "fv_local2parent v = front @ rear" "increasing front" "increasing rear"
    "\<forall>i \<in> set front. i < p" "\<forall>i \<in> set rear. p < i" "lower_bound (<) (fv_local2parent v) p = length front"
proof -
  let ?l = "fv_local2parent v"
  obtain front rear where fr: "?l = front @ rear" "increasing front" "increasing rear"
      "\<forall>i \<in> set front. i < p" "\<forall>i \<in> set rear. p \<le> i" "lower_bound (<) ?l p = length front"
    using split_at_index [of ?l p thesis] assms(1) unfolding fv_ok_def by blast
  then show thesis using that [of front rear] assms(2) by (auto simp: le_less)
qed

lemma Filtered_remove_entry:
  assumes "fv_local2parent v = front @ p # rear" "lower_bound (<) (fv_local2parent v) p = length front"
  shows "Filtered_removeIndividual p d v =
     (fillView (v\<lparr>fv_local2parent := front @ map (\<lambda>i. i - 1) rear\<rparr>), [Removed (length front) d])"
  unfolding Filtered_removeIndividual_def Let_def assms(2) by (simp add: assms(1))

lemma Filtered_remove_gap:
  assumes "fv_local2parent v = front @ rear" "\<forall>i \<in> set rear. p < i"
    "lower_bound (<) (fv_local2parent v) p = length front"
  shows "Filtered_removeIndividual p d v = (v\<lparr>fv_local2parent := front @ map (\<lambda>i. i - 1) rear\<rparr>, [])"
  unfolding Filtered_removeIndividual_def Let_def assms(3)
  using assms(2) by (cases rear) (simp_all add: assms(1) nth_append)

lemma increasing_pred: "increasing rear \<Longrightarrow> \<forall>i \<in> set rear. (p::nat) < i \<Longrightarrow> increasing (map (\<lambda>i. i - 1) rear)"
  by (induction rear) (auto simp: diff_less_mono Suc_le_eq)

lemma Filtered_remove_ok:
  assumes "fv_ok parent v" "p < length parent"
  shows "fv_mirrors parent v (del p parent) (Filtered_removeIndividual p d v)"
proof -
  have shrunk: "fv_ok (del p parent) (v\<lparr>fv_local2parent := front @ map (\<lambda>i. i - 1) rear, fv_fillViewOnIdle := b\<rparr>) \<and>
      map (nth (del p parent)) (front @ map (\<lambda>i. i - 1) rear) = map (nth parent) (front @ rear)"
    if "increasing front" "increasing rear" "\<forall>i \<in> set front. i < p" "\<forall>i \<in> set rear. p < i"
      "set (front @ rear) \<subseteq> set (fv_local2parent v)" for front rear b
  proof -
    have range: "\<forall>i \<in> set front \<union> set rear. i < length parent \<and> if_matches (fv_filter v) (parent ! i)"
      using assms(1) that(5) by (auto simp: fv_ok_def)
    have "del p parent ! i = parent ! i" if "i \<in> set front" for i
      using assms(2) \<open>\<forall>i \<in> set front. i < p\<close> that by (auto simp: nth_del)
    moreover have "del p parent ! (i - 1) = parent ! i" if "i \<in> set rear" for i
      using nth_del [OF assms(2), of "i - 1"] range \<open>\<forall>i \<in> set rear. p < i\<close> that by fastforce
    ultimately have nth: "\<forall>i \<in> set front. del p parent ! i = parent ! i" "\<forall>i \<in> set rear. del p parent ! (i - 1) = parent ! i"
      by blast+
    have "\<forall>i \<in> set front. i < length parent - 1" "\<forall>i \<in> set rear. i - 1 < length parent - 1"
      using assms(2) that(3,4) range by (auto dest!: bspec)
    moreover have "\<forall>i \<in> set front. \<forall>j \<in> set rear. i < j - 1"
      using that(3,4) by fastforce
    ultimately have "fv_ok (del p parent) (v\<lparr>fv_local2parent := front @ map (\<lambda>i. i - 1) rear, fv_fillViewOnIdle := b\<rparr>)"
      using that(1) range nth assms(2) increasing_pred [OF that(2,4)]
      by (simp add: fv_ok_def sorted_wrt_append ball_Un)
    then show ?thesis using nth by simp
  qed
  show ?thesis
  proof (cases "p \<in> set (fv_local2parent v)")
    case True
    obtain front rear where fr: "fv_local2parent v = front @ p # rear" "increasing front" "increasing rear"
      "\<forall>i \<in> set front. i < p" "\<forall>i \<in> set rear. p < i" "lower_bound (<) (fv_local2parent v) p = length front"
      using split_at_entry [OF assms(1) True, of thesis] by blast
    have "set (front @ rear) \<subseteq> set (fv_local2parent v)" by (auto simp: fr(1))
    then show ?thesis
      using shrunk [OF fr(2-5), of True] del_length_append [of "map (nth parent) front"]
      by (auto simp: Filtered_remove_entry [OF fr(1,6)] fv_mirrors_def fillView_def content_def fr(1))
  next
    case False
    obtain front rear where fr: "fv_local2parent v = front @ rear" "increasing front" "increasing rear"
      "\<forall>i \<in> set front. i < p" "\<forall>i \<in> set rear. p < i" "lower_bound (<) (fv_local2parent v) p = length front"
      using split_at_gap [OF assms(1) False, of thesis] by blast
    show ?thesis
      using shrunk [OF fr(2-5), of "fv_fillViewOnIdle v"]
      by (simp add: Filtered_remove_gap [OF fr(1,5,6)] fv_mirrors_def content_def fr(1))
  qed
qed

lemma Filtered_modify_entry:
  assumes "fv_local2parent v = front @ p # rear" "lower_bound (<) (fv_local2parent v) p = length front"
  shows "Filtered_modifyIndividual p d v =
     (if if_matches (fv_filter v) d then (v, [Modified (length front) d])
      else (fillView (v\<lparr>fv_local2parent := front @ rear\<rparr>), [Removed (length front) d]))"
  unfolding Filtered_modifyIndividual_def Let_def assms(2) by (simp add: assms(1))

lemma Filtered_modify_gap:
  assumes "fv_local2parent v = front @ rear" "\<forall>i \<in> set rear. p < i"
    "lower_bound (<) (fv_local2parent v) p = length front"
  shows "Filtered_modifyIndividual p d v =
     (if if_matches (fv_filter v) d \<and> isIncluded (fv_filter v) (length front)
      then (v\<lparr>fv_local2parent := front @ p # rear\<rparr>, [Added (length front) d])
      else (v, []))"
  unfolding Filtered_modifyIndividual_def Let_def assms(3)
  using assms(2) by (cases rear) (auto simp: assms(1) nth_append)

lemma map_nth_update_other: "p \<notin> set l \<Longrightarrow> map (nth (P[p := d])) l = map (nth P) l"
  by (induction l) auto

lemma fv_ok_update:
  assumes "fv_ok parent v" "increasing l" "set l \<subseteq> insert p (set (fv_local2parent v))" "p < length parent"
    "p \<in> set l \<Longrightarrow> if_matches (fv_filter v) d"
  shows "fv_ok (parent[p := d]) (v\<lparr>fv_local2parent := l, fv_fillViewOnIdle := b\<rparr>)"
  using assms unfolding fv_ok_def by (auto simp: nth_list_update subset_iff)

lemma Filtered_modify_ok:
  assumes "fv_ok parent v" "p < length parent"
  shows "fv_mirrors parent v (parent[p := d]) (Filtered_modifyIndividual p d v)"
proof (cases "p \<in> set (fv_local2parent v)")
  case True
  obtain front rear where fr: "fv_local2parent v = front @ p # rear" "increasing front" "increasing rear"
    "\<forall>i \<in> set front. i < p" "\<forall>i \<in> set rear. p < i" "lower_bound (<) (fv_local2parent v) p = length front"
    using split_at_entry [OF assms(1) True, of thesis] by blast
  have other: "map (nth (parent[p := d])) front = map (nth parent) front"
      "map (nth (parent[p := d])) rear = map (nth parent) rear"
    using fr(4,5) by (auto intro!: map_nth_update_other)
  have inc: "increasing (fv_local2parent v)" "increasing (front @ rear)"
    using fr(2-5) by (fastforce simp: fr(1) sorted_wrt_append)+
  have "fv_ok (parent[p := d]) v" if "if_matches (fv_filter v) d"
    using fv_ok_update [OF assms(1) inc(1) _ assms(2), of d "fv_fillViewOnIdle v"] that by auto
  moreover have "fv_ok (parent[p := d]) (fillView (v\<lparr>fv_local2parent := front @ rear\<rparr>))"
    using fv_ok_update [OF assms(1) inc(2) _ assms(2), of d True] fr(4,5)
    by (auto simp: fillView_def fr(1))
  ultimately show ?thesis
    using other del_length_append [of "map (nth parent) front"]
      list_update_length [of "map (nth parent) front" "parent ! p" "map (nth parent) rear" d] assms(2)
    by (simp add: Filtered_modify_entry [OF fr(1,6)] fv_mirrors_def content_def fr(1) fillView_def)
next
  case False
  obtain front rear where fr: "fv_local2parent v = front @ rear" "increasing front" "increasing rear"
    "\<forall>i \<in> set front. i < p" "\<forall>i \<in> set rear. p < i" "lower_bound (<) (fv_local2parent v) p = length front"
    using split_at_gap [OF assms(1) False, of thesis] by blast
  have other: "map (nth (parent[p := d])) front = map (nth parent) front"
      "map (nth (parent[p := d])) rear = map (nth parent) rear"
    using fr(4,5) by (auto intro!: map_nth_update_other)
  have inc: "increasing (fv_local2parent v)" "increasing (front @ p # rear)"
    using fr(2-5) by (fastforce simp: fr(1) sorted_wrt_append)+
  have "fv_ok (parent[p := d]) v"
    using fv_ok_update [OF assms(1) inc(1) _ assms(2), of d "fv_fillViewOnIdle v"] False by auto
  moreover have "fv_ok (parent[p := d]) (v\<lparr>fv_local2parent := front @ p # rear\<rparr>)" if "if_matches (fv_filter v) d"
    using fv_ok_update [OF assms(1) inc(2) _ assms(2), of d "fv_fillViewOnIdle v"] that by (auto simp: fr(1))
  ultimately show ?thesis
    using other ins_length_append [of "map (nth parent) front"] assms(2)
    by (simp add: Filtered_modify_gap [OF fr(1,5,6)] fv_mirrors_def content_def fr(1))
qed

section \<open>Filling and refining\<close>

lemma Filtered_add_end:
  assumes "fv_ok parent v" "\<forall>i \<in> set (fv_local2parent v). i < c"
  shows "Filtered_addIndividual P c d v =
    (if if_matches (fv_filter v) d \<and> isIncluded (fv_filter v) (length (fv_local2parent v))
     then (v\<lparr>fv_local2parent := fv_local2parent v @ [c]\<rparr>, [Added (length (fv_local2parent v)) d])
     else (v, []))"
proof -
  let ?l = "fv_local2parent v"
  have inc: "increasing ?l" using assms(1) by (simp add: fv_ok_def)
  have "insertion_point ?l c = length ?l"
    using insertion_point_spec(1) [OF inc, of c] assms(2) by (cases "?l = []") (simp_all add: insertion_point_def)
  then show ?thesis by (simp add: Filtered_add_cases [of v ?l "[]" c])
qed

text \<open>The indices of the contacts that match. A view is settled when it shows all of them or is full.\<close>

definition matching :: "('d \<Rightarrow> bool) \<Rightarrow> 'd list \<Rightarrow> nat list" where
  "matching m parent = filter (\<lambda>i. m (parent ! i)) [0..<length parent]"

abbreviation wanted :: "'d list \<Rightarrow> 'd filtered_view \<Rightarrow> nat list" where
  "wanted parent v \<equiv> matching (if_matches (fv_filter v)) parent"

definition settled :: "'d list \<Rightarrow> 'd filtered_view \<Rightarrow> bool" where
  "settled parent v \<longleftrightarrow> isFull (fv_local2parent v) (fv_filter v) \<or> fv_local2parent v = wanted parent v"

lemma matching_increasing: "increasing (matching m parent)"
  by (simp add: matching_def sorted_wrt_filter)

lemma matching_content: "map (nth parent) (matching m parent) = filter m parent"
proof -
  have "filter m (map (nth parent) [0..<length parent]) = map (nth parent) (matching m parent)"
    by (simp only: filter_map matching_def comp_def)
  then show ?thesis by (simp add: map_nth)
qed

text \<open>The entries of an increasing list up to one of its prefixes.\<close>

lemma prefix_filter_less:
  assumes "increasing (l @ z)" "l \<noteq> []"
  shows "filter (\<lambda>i. i < Suc (last l)) (l @ z) = l"
proof -
  obtain xs x where l: "l = xs @ [x]" using assms(2) by (cases l rule: rev_cases) auto
  have "\<forall>i \<in> set xs. i < x" "\<forall>i \<in> set z. x < i" using assms(1) by (auto simp: l sorted_wrt_append)
  then have "filter (\<lambda>i. i < Suc x) xs = xs" "filter (\<lambda>i. i < Suc x) z = []"
    by (fastforce simp: filter_id_conv filter_empty_conv)+
  then show ?thesis by (simp add: l)
qed

lemma filter_below:
  "c \<le> n \<Longrightarrow> filter (\<lambda>i. i < c) (filter P [0..<n]) = filter P [0..<c]"
proof -
  assume "c \<le> n"
  then have "filter (\<lambda>i. i < c) [0..<n] = [0..<c]"
    using upt_add_eq_append [of 0 c "n - c"] by (simp add: filter_id_conv filter_empty_conv)
  then have "filter P [0..<c] = filter P (filter (\<lambda>i. i < c) [0..<n])" by simp
  then show ?thesis by (simp add: conj_commute)
qed

lemma fill_loop_ok:
  "fv_ok parent v \<Longrightarrow> \<forall>i \<in> set (fv_local2parent v). i < c \<Longrightarrow>
   fv_mirrors parent v parent (fill_loop parent c v) \<and>
   fv_filter (fst (fill_loop parent c v)) = fv_filter v \<and>
   fv_fillViewOnIdle (fst (fill_loop parent c v)) = fv_fillViewOnIdle v \<and>
   (c \<le> length parent \<longrightarrow> fv_local2parent v = filter (\<lambda>i. if_matches (fv_filter v) (parent ! i)) [0..<c] \<longrightarrow>
      prefix (fv_local2parent (fst (fill_loop parent c v))) (wanted parent v) \<and>
      settled parent (fst (fill_loop parent c v)))"
proof (induction parent c v rule: fill_loop.induct)
  case (1 parent c v)
  let ?l = "fv_local2parent v" and ?m = "\<lambda>i. if_matches (fv_filter v) (parent ! i)"
  show ?case
  proof (cases "\<not> isFull ?l (fv_filter v) \<and> c < length parent")
    case False
    have "fill_loop parent c v = (v, [])" using False by (subst fill_loop.simps) (simp only: if_False)
    moreover have "prefix ?l (wanted parent v) \<and> settled parent v" if c: "c \<le> length parent" "?l = filter ?m [0..<c]"
    proof -
      have "[0..<length parent] = [0..<c] @ [c..<length parent]"
        using c(1) upt_add_eq_append [of 0 c "length parent - c"] by simp
      then have "wanted parent v = ?l @ filter ?m [c..<length parent]"
        by (simp add: matching_def c(2))
      then show ?thesis using False c by (auto simp: settled_def)
    qed
    ultimately show ?thesis using 1(2) by (simp add: fv_mirrors_def)
  next
    case True
    define w where "w = (if ?m c then v\<lparr>fv_local2parent := ?l @ [c]\<rparr> else v)"
    define s where "s = (if ?m c then [Added (length ?l) (parent ! c)] else [])"
    have add: "Filtered_addIndividual parent c (parent ! c) v = (w, s)"
      using True by (simp add: Filtered_add_end [OF 1(2,3)] isFull_def w_def s_def)
    have loop: "fill_loop parent c v = (fst (fill_loop parent (Suc c) w), s @ snd (fill_loop parent (Suc c) w))"
      using True by (subst fill_loop.simps) (simp add: add split_def Let_def)
    have w: "fv_ok parent w" "\<forall>i \<in> set (fv_local2parent w). i < Suc c"
      using 1(2,3) True by (auto simp: w_def fv_ok_def sorted_wrt_append)
    have frame: "fv_filter w = fv_filter v" "fv_fillViewOnIdle w = fv_fillViewOnIdle v"
      by (simp_all add: w_def)
    have "fv_local2parent w = filter ?m [0..<Suc c]" if "?l = filter ?m [0..<c]"
      using that by (simp add: w_def)
    moreover have "replay s (content parent v) = Some (content parent w)"
      using ins_length [of "content parent v" "parent ! c"] by (simp add: s_def w_def content_def)
    ultimately show ?thesis
      using 1(1) [OF True add [symmetric] refl w] True by (simp add: loop frame fv_mirrors_def)
  qed
qed

lemma refine_loop_filter: "fst (refine_loop m parent index l) = filter (\<lambda>p. m (parent ! p)) l"
  by (induction l arbitrary: index) (simp_all add: split_def Let_def)

lemma refine_loop_silent: "snd (refine_loop m parent index l) = [] \<Longrightarrow> \<forall>p \<in> set l. m (parent ! p)"
  by (induction l arbitrary: index) (simp_all add: split_def Let_def split: if_splits)

lemma refine_loop_replay:
  "length xs = index \<Longrightarrow>
   replay (snd (refine_loop m parent index l)) (xs @ map (nth parent) l) =
   Some (xs @ map (nth parent) (filter (\<lambda>p. m (parent ! p)) l))"
proof (induction l arbitrary: index xs)
  case (Cons p l)
  then show ?case
    using Cons.IH [of "xs @ [parent ! p]" "Suc index"] by (auto simp: split_def Let_def del_def)
qed simp

lemma refine_ok:
  assumes "fv_ok parent v"
  shows "fv_ok parent (v\<lparr>fv_local2parent := fst (refine_loop (if_matches f) parent 0 (fv_local2parent v)),
            fv_filter := f, fv_fillViewOnIdle := b\<rparr>)"
    and "replay (snd (refine_loop (if_matches f) parent 0 (fv_local2parent v))) (content parent v) =
         Some (map (nth parent) (fst (refine_loop (if_matches f) parent 0 (fv_local2parent v))))"
  using assms refine_loop_replay [of "[]" 0 "if_matches f" parent "fv_local2parent v"]
  by (auto simp: fv_ok_def refine_loop_filter content_def intro: sorted_wrt_filter)

lemma fillViewCb_ok:
  assumes "fv_ok parent v"
  shows "fv_mirrors parent v parent (fillViewCb parent v)"
    and "fv_filter (fst (fillViewCb parent v)) = fv_filter v"
    and "prefix (fv_local2parent v) (wanted parent v) \<Longrightarrow>
         prefix (fv_local2parent (fst (fillViewCb parent v))) (wanted parent v) \<and> settled parent (fst (fillViewCb parent v))"
proof -
  let ?l = "fv_local2parent v" and ?c = "if fv_local2parent v = [] then 0 else last (fv_local2parent v) + 1"
  have below: "\<forall>i \<in> set ?l. i < ?c"
  proof
    fix i assume i: "i \<in> set ?l"
    then obtain xs x where "?l = xs @ [x]" by (cases ?l rule: rev_cases) auto
    then show "i < ?c" using i assms by (auto simp: fv_ok_def sorted_wrt_append)
  qed
  have c: "?c \<le> length parent"
    using assms last_in_set [of ?l] by (auto simp: fv_ok_def Suc_le_eq)
  have "?l = filter (\<lambda>i. if_matches (fv_filter v) (parent ! i)) [0..<?c]" if pre: "prefix ?l (wanted parent v)"
  proof (cases "?l = []")
    case False
    obtain z where z: "wanted parent v = ?l @ z" using pre by (auto simp: prefix_def)
    have "filter (\<lambda>i. i < Suc (last ?l)) (wanted parent v) = ?l"
      using prefix_filter_less [of ?l z] matching_increasing False by (metis z)
    then show ?thesis using filter_below [of ?c "length parent"] False c unfolding matching_def by simp
  qed simp
  then show "fv_mirrors parent v parent (fillViewCb parent v)"
    and "fv_filter (fst (fillViewCb parent v)) = fv_filter v"
    and "prefix (fv_local2parent v) (wanted parent v) \<Longrightarrow>
         prefix (fv_local2parent (fst (fillViewCb parent v))) (wanted parent v) \<and> settled parent (fst (fillViewCb parent v))"
    using fill_loop_ok [OF assms below] c unfolding fillViewCb_def by blast+
qed

section \<open>Histories of a view\<close>

text \<open>
  What happens to a view once it is started: a signal of the parent, which must fit to the content of
  the parent; the timer for filling the view; a more specific filter.
\<close>

datatype 'd fv_event = Parent "'d view_signal" | FillTimer | Refine bool "'d individual_filter"

fun fv_step :: "'d fv_event \<Rightarrow> 'd list \<Rightarrow> 'd filtered_view \<Rightarrow> ('d list \<times> 'd filtered_result) option" where
  "fv_step (Parent s) parent v =
     (case replay1 s parent of None \<Rightarrow> None | Some parent' \<Rightarrow> Some (parent', parent_signal parent' s v))"
| "fv_step FillTimer parent v = (if fv_fillViewOnIdle v then Some (parent, fill_timer parent v) else None)"
| "fv_step (Refine quiescent f) parent v =
     (case replaceFilter quiescent parent f True v of Some (None, r) \<Rightarrow> Some (parent, r) | _ \<Rightarrow> None)"

text \<open>The histories in which every step satisfies a condition, with the content of the parent, the view and all signals it sent.\<close>

inductive fv_history ::
  "('d list \<Rightarrow> 'd filtered_view \<Rightarrow> 'd fv_event \<Rightarrow> bool) \<Rightarrow> 'd individual_filter \<Rightarrow>
   'd list \<Rightarrow> 'd filtered_view \<Rightarrow> 'd view_signal list \<Rightarrow> bool"
  for C f where
  start: "Filtered_doStart parent (FilteredView f) = (v, sent) \<Longrightarrow> fv_history C f parent v sent"
| step: "fv_history C f parent v sent \<Longrightarrow> C parent v e \<Longrightarrow> fv_step e parent v = Some (parent', v', new) \<Longrightarrow>
         fv_history C f parent' v' (sent @ new)"

lemma Quiescent_mirrors:
  assumes "fv_ok parent v"
  shows "fv_mirrors parent v parent (parentQuiescent parent v)"
  using fillViewCb_ok(1) [OF assms] assms
  by (auto simp: parentQuiescent_def fv_mirrors_def fv_ok_def content_def split: prod.splits)

lemma fv_step_mirrors:
  assumes "fv_ok parent v" "fv_step e parent v = Some (parent', r)"
  shows "fv_mirrors parent v parent' r"
proof (cases e)
  case (Parent s)
  show ?thesis
  proof (cases s)
    case (Added i d)
    then show ?thesis using assms Filtered_add_ok [OF assms(1), of i d] by (auto simp: Parent split: if_splits)
  next
    case (Removed i d)
    then show ?thesis using assms Filtered_remove_ok [OF assms(1), of i d] by (auto simp: Parent split: if_splits)
  next
    case (Modified i d)
    then show ?thesis using assms Filtered_modify_ok [OF assms(1), of i d] by (auto simp: Parent split: if_splits)
  next
    case Quiescent
    then show ?thesis using assms Quiescent_mirrors [OF assms(1)] by (auto simp: Parent)
  qed
next
  case FillTimer
  then show ?thesis
    using assms fillViewCb_ok(1) [OF assms(1)]
    by (auto simp: fill_timer_def fv_mirrors_def fv_ok_def content_def split: if_splits prod.splits)
next
  case (Refine quiescent f)
  let ?f = "f\<lparr>if_maxResults := if_maxResults (fv_filter v)\<rparr>"
  let ?r = "refine_loop (if_matches ?f) parent 0 (fv_local2parent v)"
  define w where "w = v\<lparr>fv_local2parent := fst ?r, fv_filter := ?f, fv_fillViewOnIdle := (fv_fillViewOnIdle v \<or> snd ?r \<noteq> [])\<rparr>"
  have w: "fv_ok parent w" "replay (snd ?r) (content parent v) = Some (content parent w)"
    using refine_ok [OF assms(1), where f = ?f] by (simp_all add: w_def content_def)
  have r: "r = (if quiescent then (fst (parentQuiescent parent w), snd ?r @ snd (parentQuiescent parent w)) else (w, snd ?r))"
    "parent' = parent"
    using assms(2)
    by (auto simp: Refine replaceFilter_def Let_def split_def w_def fillView_def split: if_splits)
  show ?thesis
    using Quiescent_mirrors [OF w(1)] w by (simp add: r fv_mirrors_def)
qed

lemma fv_start_ok:
  "fv_mirrors parent (FilteredView f) parent (Filtered_doStart parent (FilteredView f))"
  "fv_filter (fst (Filtered_doStart parent (FilteredView f))) = f"
  "prefix (fv_local2parent (fst (Filtered_doStart parent (FilteredView f)))) (matching (if_matches f) parent)"
  "settled parent (fst (Filtered_doStart parent (FilteredView f)))"
  using fill_loop_ok [of parent "FilteredView f" 0]
  by (auto simp: Filtered_doStart_def FilteredView_def fv_ok_def)

lemma fv_history_mirrors:
  "fv_history C f parent v sent \<Longrightarrow> fv_ok parent v \<and> replay sent [] = Some (content parent v)"
proof (induction rule: fv_history.induct)
  case (start parent v sent)
  then show ?case
    using fv_start_ok(1) [of parent f] by (simp add: fv_mirrors_def) (simp add: content_def FilteredView_def)
next
  case (step parent v sent e parent' v' new)
  then show ?case
    using fv_step_mirrors [of parent v e parent' "(v', new)"] by (simp add: fv_mirrors_def)
qed

subsection \<open>Which contacts a view shows\<close>

text \<open>
  The conditions on histories. Refining must be what its name says. In a view with a maximum, a
  contact may only be added behind the last entry when no filling is pending, and a modification may
  not bring a contact into a full view: the code does not handle these cases.
\<close>

fun narrowing :: "'d list \<Rightarrow> 'd filtered_view \<Rightarrow> 'd fv_event \<Rightarrow> bool" where
  "narrowing parent v (Refine quiescent f) = (\<forall>d. if_matches f d \<longrightarrow> if_matches (fv_filter v) d)"
| "narrowing parent v e = True"

fun orderly :: "'d list \<Rightarrow> 'd filtered_view \<Rightarrow> 'd fv_event \<Rightarrow> bool" where
  "orderly parent v (Parent (Added p d)) =
     (if_matches (fv_filter v) d \<and> fv_fillViewOnIdle v \<and> \<not> isFull (fv_local2parent v) (fv_filter v) \<longrightarrow>
        (\<exists>j \<in> set (fv_local2parent v). p \<le> j))"
| "orderly parent v (Parent (Modified p d)) =
     (if_matches (fv_filter v) d \<and> p \<notin> set (fv_local2parent v) \<longrightarrow>
        (if isFull (fv_local2parent v) (fv_filter v) then \<forall>j \<in> set (fv_local2parent v). j < p
         else fv_fillViewOnIdle v \<longrightarrow> (\<exists>j \<in> set (fv_local2parent v). p < j)))"
| "orderly parent v e = narrowing parent v e"

definition within :: "'d filtered_view \<Rightarrow> bool" where
  "within v \<longleftrightarrow> (\<forall>k < length (fv_local2parent v). isIncluded (fv_filter v) k)"

lemma isIncluded_mono: "isIncluded f k \<Longrightarrow> j \<le> k \<Longrightarrow> isIncluded f j"
  by (auto simp: isIncluded_def)

definition fv_shows :: "'d list \<Rightarrow> 'd filtered_view \<Rightarrow> bool" where
  "fv_shows parent v \<longleftrightarrow>
     prefix (fv_local2parent v) (wanted parent v) \<and> within v \<and> (fv_fillViewOnIdle v \<or> settled parent v)"

text \<open>How the indices of the matching contacts change with the parent.\<close>

lemma filter_above: "c \<le> n \<Longrightarrow> filter (\<lambda>i. c \<le> i) (filter P [0..<n]) = filter P [c..<n]"
proof -
  assume "c \<le> n"
  then have "filter (\<lambda>i. c \<le> i) [0..<n] = [c..<n]"
    using upt_add_eq_append [of 0 c "n - c"] by (simp add: filter_id_conv filter_empty_conv)
  then have "filter P [c..<n] = filter P (filter (\<lambda>i. c \<le> i) [0..<n])" by simp
  then show ?thesis by (simp add: conj_commute)
qed

lemma upt_split3: "p < n \<Longrightarrow> [0..<n] = [0..<p] @ p # [Suc p..<n]"
  using upt_add_eq_append [of 0 p "n - p"] upt_conv_Cons [of p n] by simp

lemma matching_ins:
  assumes "p \<le> length parent"
  shows "matching m (ins p d parent) =
    filter (\<lambda>i. i < p) (matching m parent) @ (if m d then [p] else []) @
    map Suc (filter (\<lambda>i. p \<le> i) (matching m parent))"
proof -
  have "filter (\<lambda>i. m (ins p d parent ! i)) [0..<p] = filter (\<lambda>i. m (parent ! i)) [0..<p]"
    using assms by (intro filter_cong) (auto simp: nth_ins)
  moreover have "filter (\<lambda>i. m (ins p d parent ! i)) [Suc p..<Suc (length parent)] =
      map Suc (filter (\<lambda>i. m (parent ! i)) [p..<length parent])"
    unfolding map_Suc_upt [symmetric] filter_map comp_def
    using assms by (intro arg_cong [of _ _ "map Suc"] filter_cong) (auto simp: nth_ins Suc_le_eq)
  ultimately show ?thesis
    using assms upt_split3 [of p "Suc (length parent)"]
    by (simp add: matching_def filter_below filter_above nth_ins del: upt_Suc filter_filter)
qed

lemma matching_del:
  assumes "p < length parent"
  shows "matching m (del p parent) =
    filter (\<lambda>i. i < p) (matching m parent) @ map (\<lambda>i. i - 1) (filter (\<lambda>i. p < i) (matching m parent))"
proof -
  have front: "filter (\<lambda>i. m (del p parent ! i)) [0..<p] = filter (\<lambda>i. m (parent ! i)) [0..<p]"
    using assms by (intro filter_cong) (auto simp: nth_del)
  have "[p..<length parent - 1] = map (\<lambda>i. i - 1) [Suc p..<length parent]"
    using assms by (intro nth_equalityI) auto
  moreover have "del p parent ! (i - 1) = parent ! i" if "i \<in> set [Suc p..<length parent]" for i
    using nth_del [OF assms, of "i - 1"] that by auto
  then have "filter (\<lambda>i. m (del p parent ! (i - 1))) [Suc p..<length parent] =
      filter (\<lambda>i. m (parent ! i)) [Suc p..<length parent]"
    by (intro filter_cong) simp_all
  ultimately have "filter (\<lambda>i. m (del p parent ! i)) [p..<length parent - 1] =
      map (\<lambda>i. i - 1) (filter (\<lambda>i. m (parent ! i)) [Suc p..<length parent])"
    by (simp add: filter_map comp_def)
  moreover note front
  moreover have "[0..<length parent - 1] = [0..<p] @ [p..<length parent - 1]"
    using assms upt_add_eq_append [of 0 p "length parent - 1 - p"] by simp
  ultimately show ?thesis
    using assms filter_above [of "Suc p" "length parent"]
    by (simp add: matching_def filter_below Suc_le_eq del: upt_Suc filter_filter)
qed

lemma matching_update:
  assumes "p < length parent"
  shows "matching m (parent[p := d]) =
    filter (\<lambda>i. i < p) (matching m parent) @ (if m d then [p] else []) @ filter (\<lambda>i. p < i) (matching m parent)"
proof -
  have "filter (\<lambda>i. m (parent[p := d] ! i)) [0..<p] = filter (\<lambda>i. m (parent ! i)) [0..<p]"
    "filter (\<lambda>i. m (parent[p := d] ! i)) [Suc p..<length parent] = filter (\<lambda>i. m (parent ! i)) [Suc p..<length parent]"
    by (auto intro: filter_cong)
  then show ?thesis
    using assms upt_split3 [of p "length parent"] filter_above [of "Suc p" "length parent"]
    by (simp add: matching_def filter_below Suc_le_eq del: upt_Suc filter_filter)
qed

text \<open>The parts of the list and of all matching indices in front of and from a place on.\<close>

lemma split_filter:
  assumes "l = front @ rear" "\<forall>i \<in> set front. i < (p::nat)" "\<forall>i \<in> set rear. p \<le> i"
  shows "filter (\<lambda>i. i < p) l = front" and "filter (\<lambda>i. p \<le> i) l = rear"
  using assms by (auto simp: filter_id_conv filter_empty_conv not_less not_le)

text \<open>What is missing behind a prefix that reaches beyond a place lies behind that place, too.\<close>

lemma prefix_beyond:
  assumes "increasing (l @ z)" "r \<in> set l" "p \<le> r"
  shows "filter (\<lambda>i. i < p) z = []"
  using assms by (fastforce simp: sorted_wrt_append filter_empty_conv)

lemma fv_showsE:
  assumes "fv_shows parent v"
  obtains z where "wanted parent v = fv_local2parent v @ z" "increasing (fv_local2parent v @ z)"
    "\<forall>k < length (fv_local2parent v). isIncluded (fv_filter v) k"
    "fv_fillViewOnIdle v \<or> isFull (fv_local2parent v) (fv_filter v) \<or> z = []"
proof -
  obtain z where z: "wanted parent v = fv_local2parent v @ z"
    using assms by (auto simp: fv_shows_def prefix_def)
  have "settled parent v \<longleftrightarrow> isFull (fv_local2parent v) (fv_filter v) \<or> z = []"
    by (simp add: settled_def z)
  then show thesis
    using that [OF z] assms matching_increasing [of "if_matches (fv_filter v)" parent]
    by (simp add: fv_shows_def within_def z)
qed

lemma fv_showsI:
  assumes "wanted parent v = fv_local2parent v @ z" "\<forall>k < length (fv_local2parent v). isIncluded (fv_filter v) k"
    "fv_fillViewOnIdle v \<or> isFull (fv_local2parent v) (fv_filter v) \<or> z = []"
  shows "fv_shows parent v"
proof -
  have "prefix (fv_local2parent v) (wanted parent v)" by (simp add: assms(1))
  moreover have "settled parent v \<longleftrightarrow> isFull (fv_local2parent v) (fv_filter v) \<or> z = []"
    by (simp add: settled_def assms(1))
  ultimately show ?thesis using assms(2,3) by (simp add: fv_shows_def within_def)
qed

lemma Filtered_add_shows:
  assumes ok: "fv_ok parent v" and p: "p \<le> length parent" and sh: "fv_shows parent v"
    and orderly: "orderly parent v (Parent (Added p d))"
  shows "fv_shows (ins p d parent) (fst (Filtered_addIndividual (ins p d parent) p d v))"
proof -
  let ?l = "fv_local2parent v" and ?f = "fv_filter v"
  obtain front rear where fr: "?l = front @ rear" "increasing front" "increasing rear"
      "\<forall>i \<in> set front. i < p" "\<forall>i \<in> set rear. p \<le> i" "insertion_point ?l p = length front"
    using split_at_index [of ?l p thesis] ok unfolding fv_ok_def by blast
  obtain z where z: "wanted parent v = ?l @ z" "increasing (?l @ z)" "\<forall>k < length ?l. isIncluded ?f k"
      "fv_fillViewOnIdle v \<or> isFull ?l ?f \<or> z = []"
    using fv_showsE [OF sh, of thesis] by blast
  let ?zf = "filter (\<lambda>i. i < p) z" and ?zr = "filter (\<lambda>i. p \<le> i) z"
  have all: "matching (if_matches ?f) (ins p d parent) =
      front @ ?zf @ (if if_matches ?f d then [p] else []) @ map Suc (rear @ ?zr)"
    using split_filter [OF fr(1,4,5)] by (simp add: matching_ins [OF p] z(1))
  have zf: "?zf = []" if "rear \<noteq> []"
    using prefix_beyond [OF z(2), of "hd rear" p] fr(1,5) that by simp
  consider (skip) "\<not> if_matches ?f d \<or> \<not> isIncluded ?f (length front)"
    | (swap) "if_matches ?f d" "isIncluded ?f (length front)" "rear \<noteq> []" "\<not> isIncluded ?f (length ?l)"
    | (grow) "if_matches ?f d" "isIncluded ?f (length front)" "rear = [] \<or> isIncluded ?f (length ?l)"
    by blast
  then show ?thesis
  proof cases
    case skip
    have r: "fst (Filtered_addIndividual (ins p d parent) p d v) = v\<lparr>fv_local2parent := front @ map Suc rear\<rparr>"
      using skip by (auto simp: Filtered_add_cases [OF fr(1,6)])
    have no: "rear = [] \<or> \<not> if_matches ?f d" using skip z(3) by (cases rear) (auto simp: fr(1))
    have full: "isFull ?l ?f" if "if_matches ?f d"
      using skip that no by (auto simp: isFull_def fr(1))
    show ?thesis
    proof (cases "rear = []")
      case True
      show ?thesis unfolding r
        by (rule fv_showsI [where z = "?zf @ (if if_matches ?f d then [p] else []) @ map Suc ?zr"])
          (use z(3,4) full True in \<open>auto simp: all fr(1) isFull_def\<close>)
    next
      case False
      show ?thesis unfolding r
        by (rule fv_showsI [where z = "map Suc ?zr"])
          (use z(3,4) no False zf in \<open>auto simp: all fr(1) isFull_def\<close>)
    qed
  next
    case swap
    obtain rs r where rear: "rear = rs @ [r]" using swap(3) by (cases rear rule: rev_cases) auto
    have r: "fst (Filtered_addIndividual (ins p d parent) p d v) = v\<lparr>fv_local2parent := front @ p # map Suc rs\<rparr>"
      using swap by (simp add: Filtered_add_cases [OF fr(1,6)] rear)
    show ?thesis unfolding r
      by (rule fv_showsI [where z = "Suc r # map Suc ?zr"])
        (use z(3) swap zf in \<open>auto simp: all fr(1) rear isFull_def\<close>)
  next
    case grow
    have r: "fst (Filtered_addIndividual (ins p d parent) p d v) = v\<lparr>fv_local2parent := front @ p # map Suc rear\<rparr>"
      using grow by (auto simp: Filtered_add_cases [OF fr(1,6)])
    have inc: "isIncluded ?f (length ?l)" using grow by (auto simp: fr(1))
    have "z = []" if "rear = []"
      using orderly grow inc z(4) fr(4) that by (fastforce simp: isFull_def fr(1))
    then have "?zf = []" using zf by (cases "rear = []") auto
    then show ?thesis unfolding r
      by (intro fv_showsI [where z = "map Suc ?zr"])
        (use z(3,4) inc grow in \<open>auto simp: all fr(1) isFull_def less_Suc_eq\<close>)
  qed
qed

lemma Filtered_remove_shows:
  assumes ok: "fv_ok parent v" and p: "p < length parent" and sh: "fv_shows parent v"
  shows "fv_shows (del p parent) (fst (Filtered_removeIndividual p d v))"
proof -
  let ?l = "fv_local2parent v" and ?f = "fv_filter v"
  obtain z where z: "wanted parent v = ?l @ z" "increasing (?l @ z)" "\<forall>k < length ?l. isIncluded ?f k"
      "fv_fillViewOnIdle v \<or> isFull ?l ?f \<or> z = []"
    using fv_showsE [OF sh, of thesis] by blast
  let ?zf = "filter (\<lambda>i. i < p) z" and ?zr = "map (\<lambda>i. i - 1) (filter (\<lambda>i. p < i) z)"
  have all: "matching (if_matches ?f) (del p parent) = front @ ?zf @ map (\<lambda>i. i - 1) rear @ ?zr"
    if "?l = front @ mid @ rear" "\<forall>i \<in> set front. i < p" "\<forall>i \<in> set rear. p < i" "mid = [] \<or> mid = [p]" for front mid rear
  proof -
    have "filter (\<lambda>i. i < p) ?l = front" "filter (\<lambda>i. p < i) ?l = rear"
      using that by (auto simp: filter_id_conv filter_empty_conv not_less)
    then show ?thesis by (simp add: matching_del [OF p] z(1))
  qed
  have zf: "?zf = []" if "r \<in> set ?l" "p < r" for r
    using prefix_beyond [OF z(2), of r p] that by simp
  show ?thesis
  proof (cases "p \<in> set ?l")
    case True
    obtain front rear where fr: "?l = front @ p # rear" "increasing front" "increasing rear"
      "\<forall>i \<in> set front. i < p" "\<forall>i \<in> set rear. p < i" "lower_bound (<) ?l p = length front"
      using split_at_entry [OF ok True, of thesis] by blast
    have "?zf = []" using prefix_beyond [OF z(2) True] by simp
    then show ?thesis
      unfolding Filtered_remove_entry [OF fr(1,6)]
      by (intro fv_showsI [where z = ?zr])
        (use z(3) fr in \<open>auto simp: fillView_def all [of front "[p]" rear]\<close>)
  next
    case False
    obtain front rear where fr: "?l = front @ rear" "increasing front" "increasing rear"
      "\<forall>i \<in> set front. i < p" "\<forall>i \<in> set rear. p < i" "lower_bound (<) ?l p = length front"
      using split_at_gap [OF ok False, of thesis] by blast
    show ?thesis
    proof (cases rear)
      case Nil
      then show ?thesis
        unfolding Filtered_remove_gap [OF fr(1,5,6)]
        by (intro fv_showsI [where z = "?zf @ ?zr"])
          (use z(3,4) fr in \<open>auto simp: all [of front "[]" "[]"] isFull_def\<close>)
    next
      case (Cons r rs)
      then have "?zf = []" using zf [of r] fr(1,5) by simp
      then show ?thesis
        unfolding Filtered_remove_gap [OF fr(1,5,6)]
        by (intro fv_showsI [where z = ?zr])
          (use z(3,4) fr in \<open>auto simp: all [of front "[]" rear] isFull_def\<close>)
    qed
  qed
qed

lemma Filtered_modify_shows:
  assumes ok: "fv_ok parent v" and p: "p < length parent" and sh: "fv_shows parent v"
    and orderly: "orderly parent v (Parent (Modified p d))"
  shows "fv_shows (parent[p := d]) (fst (Filtered_modifyIndividual p d v))"
proof -
  let ?l = "fv_local2parent v" and ?f = "fv_filter v"
  obtain z where z: "wanted parent v = ?l @ z" "increasing (?l @ z)" "\<forall>k < length ?l. isIncluded ?f k"
      "fv_fillViewOnIdle v \<or> isFull ?l ?f \<or> z = []"
    using fv_showsE [OF sh, of thesis] by blast
  let ?zf = "filter (\<lambda>i. i < p) z" and ?zr = "filter (\<lambda>i. p < i) z" and ?new = "if if_matches ?f d then [p] else []"
  have all: "matching (if_matches ?f) (parent[p := d]) = front @ ?zf @ ?new @ rear @ ?zr"
    if "?l = front @ mid @ rear" "\<forall>i \<in> set front. i < p" "\<forall>i \<in> set rear. p < i" "mid = [] \<or> mid = [p]"
      "?zf = [] \<or> rear = []" for front mid rear
  proof -
    have "filter (\<lambda>i. i < p) ?l = front" "filter (\<lambda>i. p < i) ?l = rear"
      using that by (auto simp: filter_id_conv filter_empty_conv not_less)
    then show ?thesis by (simp add: matching_update [OF p] z(1))
  qed
  show ?thesis
  proof (cases "p \<in> set ?l")
    case True
    obtain front rear where fr: "?l = front @ p # rear" "increasing front" "increasing rear"
      "\<forall>i \<in> set front. i < p" "\<forall>i \<in> set rear. p < i" "lower_bound (<) ?l p = length front"
      using split_at_entry [OF ok True, of thesis] by blast
    have zf: "?zf = []" using prefix_beyond [OF z(2) True] by simp
    show ?thesis
    proof (cases "if_matches ?f d")
      case True
      then show ?thesis
        unfolding Filtered_modify_entry [OF fr(1,6)]
        by (intro fv_showsI [where z = ?zr])
          (use z(3,4) fr zf in \<open>auto simp: all [of front "[p]" rear]\<close>)
    next
      case False
      then show ?thesis
        unfolding Filtered_modify_entry [OF fr(1,6)]
        by (intro fv_showsI [where z = ?zr])
          (use z(3) fr zf in \<open>auto simp: fillView_def all [of front "[p]" rear]\<close>)
    qed
  next
    case False
    obtain front rear where fr: "?l = front @ rear" "increasing front" "increasing rear"
      "\<forall>i \<in> set front. i < p" "\<forall>i \<in> set rear. p < i" "lower_bound (<) ?l p = length front"
      using split_at_gap [OF ok False, of thesis] by blast
    have zf: "?zf = []" if "rear \<noteq> []"
      using prefix_beyond [OF z(2), of "hd rear" p] fr(1,5) that by (simp add: less_imp_le)
    have parts: "?zf = [] \<or> rear = []" using zf by blast
    show ?thesis
    proof (cases "if_matches ?f d \<and> isIncluded ?f (length front)")
      case True
      then have open': "\<not> isFull ?l ?f"
        using orderly False fr(1,5) by (cases rear) (auto simp: isFull_def split: if_splits)
      then have "z = []" if "rear = []"
        using orderly False True z(4) fr(4) that by (fastforce simp: fr(1))
      then have "?zf = []" using zf by (cases "rear = []") auto
      then show ?thesis
        unfolding Filtered_modify_gap [OF fr(1,5,6)]
        by (intro fv_showsI [where z = ?zr])
          (use z(3,4) fr True open' in \<open>auto simp: all [of front "[]" rear] isFull_def less_Suc_eq\<close>)
    next
      case no: False
      have "rear = []" if "if_matches ?f d" using no that z(3) by (cases rear) (auto simp: fr(1))
      moreover have "isFull ?l ?f" if "if_matches ?f d"
        using no that z(3) by (cases rear) (auto simp: fr(1) isFull_def)
      moreover have r: "fst (Filtered_modifyIndividual p d v) = v"
        using no by (auto simp: Filtered_modify_gap [OF fr(1,5,6)])
      ultimately show ?thesis
        unfolding r
        by (intro fv_showsI [where z = "?zf @ ?new @ ?zr"])
          (use z(3,4) fr parts in \<open>auto simp: all [of front "[]" rear]\<close>)
    qed
  qed
qed

text \<open>Filling keeps within the maximum, because it ends at the first full view.\<close>

lemma fill_loop_within:
  "fv_ok parent v \<Longrightarrow> \<forall>i \<in> set (fv_local2parent v). i < c \<Longrightarrow> within v \<Longrightarrow> within (fst (fill_loop parent c v))"
proof (induction parent c v rule: fill_loop.induct)
  case (1 parent c v)
  let ?l = "fv_local2parent v" and ?m = "\<lambda>i. if_matches (fv_filter v) (parent ! i)"
  show ?case
  proof (cases "\<not> isFull ?l (fv_filter v) \<and> c < length parent")
    case False
    have "fill_loop parent c v = (v, [])" using False by (subst fill_loop.simps) (simp only: if_False)
    then show ?thesis using 1(4) by simp
  next
    case True
    define w where "w = (if ?m c then v\<lparr>fv_local2parent := ?l @ [c]\<rparr> else v)"
    have add: "Filtered_addIndividual parent c (parent ! c) v =
        (w, if ?m c then [Added (length ?l) (parent ! c)] else [])" (is "_ = (w, ?s)")
      using True by (simp add: Filtered_add_end [OF 1(2,3)] isFull_def w_def)
    have loop: "fst (fill_loop parent c v) = fst (fill_loop parent (Suc c) w)"
      using True by (subst fill_loop.simps) (simp add: add split_def Let_def)
    have "fv_ok parent w" "\<forall>i \<in> set (fv_local2parent w). i < Suc c" "within w"
      using 1(2-4) True by (auto simp: w_def fv_ok_def sorted_wrt_append within_def isFull_def less_Suc_eq)
    then show ?thesis using 1(1) [OF True add [symmetric] refl] by (simp add: loop)
  qed
qed

lemma fillViewCb_shows:
  assumes "fv_ok parent v" "fv_shows parent v"
  shows "fv_shows parent ((fst (fillViewCb parent v))\<lparr>fv_fillViewOnIdle := False\<rparr>)"
proof -
  let ?w = "fst (fillViewCb parent v)"
  have "\<forall>i \<in> set (fv_local2parent v). i < (if fv_local2parent v = [] then 0 else last (fv_local2parent v) + 1)"
  proof
    fix i assume i: "i \<in> set (fv_local2parent v)"
    then obtain xs x where "fv_local2parent v = xs @ [x]" by (cases "fv_local2parent v" rule: rev_cases) auto
    then show "i < (if fv_local2parent v = [] then 0 else last (fv_local2parent v) + 1)"
      using i assms(1) by (auto simp: fv_ok_def sorted_wrt_append)
  qed
  then have "within ?w"
    using fill_loop_within [OF assms(1)] assms(2) by (simp add: fillViewCb_def fv_shows_def)
  then show ?thesis
    using fillViewCb_ok [OF assms(1)] assms(2) by (auto simp: fv_shows_def within_def settled_def)
qed

lemma parentQuiescent_shows:
  assumes "fv_ok parent v" "fv_shows parent v"
  shows "fv_shows parent (fst (parentQuiescent parent v))"
  using fillViewCb_shows [OF assms] assms(2) by (auto simp: parentQuiescent_def split: prod.splits)

text \<open>Refining, up to the filling that may follow it.\<close>

lemma replaceFilter_refine:
  assumes "fv_ok parent v" "fv_step (Refine quiescent f) parent v = Some (parent', r)"
  obtains w where "fv_ok parent w" "fv_filter w = f\<lparr>if_maxResults := if_maxResults (fv_filter v)\<rparr>"
    "fv_local2parent w = filter (\<lambda>p. if_matches f (parent ! p)) (fv_local2parent v)"
    "fv_fillViewOnIdle w \<longleftrightarrow> fv_fillViewOnIdle v \<or> fv_local2parent w \<noteq> fv_local2parent v"
    "fst r = (if quiescent then fst (parentQuiescent parent w) else w)" "parent' = parent"
proof -
  let ?f = "f\<lparr>if_maxResults := if_maxResults (fv_filter v)\<rparr>"
  let ?r = "refine_loop (if_matches ?f) parent 0 (fv_local2parent v)"
  define w where "w = v\<lparr>fv_local2parent := fst ?r, fv_filter := ?f, fv_fillViewOnIdle := (fv_fillViewOnIdle v \<or> snd ?r \<noteq> [])\<rparr>"
  have kept: "snd ?r = [] \<longleftrightarrow> fst ?r = fv_local2parent v"
  proof
    assume "snd ?r = []"
    then show "fst ?r = fv_local2parent v"
      using refine_loop_silent [of "if_matches ?f" parent 0] by (simp add: refine_loop_filter filter_id_conv)
  next
    assume same: "fst ?r = fv_local2parent v"
    have "\<forall>p \<in> set l. m (parent ! p) \<Longrightarrow> snd (refine_loop m parent index l) = []" for m and index l
      by (induction l arbitrary: index) (auto simp: split_def Let_def)
    then show "snd ?r = []" using same by (simp add: refine_loop_filter filter_id_conv)
  qed
  show thesis
  proof (rule that [of w])
    show "fv_ok parent w" using refine_ok(1) [OF assms(1), where f = ?f] by (simp add: w_def)
    show "fst r = (if quiescent then fst (parentQuiescent parent w) else w)" "parent' = parent"
      using assms(2) by (auto simp: replaceFilter_def Let_def split_def w_def fillView_def split: if_splits)
    show "fv_fillViewOnIdle w \<longleftrightarrow> fv_fillViewOnIdle v \<or> fv_local2parent w \<noteq> fv_local2parent v"
      using kept by (simp add: w_def)
  qed (simp_all add: w_def refine_loop_filter)
qed

lemma matching_narrow:
  assumes "\<forall>d. m' d \<longrightarrow> m d"
  shows "matching m' parent = filter (\<lambda>p. m' (parent ! p)) (matching m parent)"
proof -
  have "(\<lambda>i. m' (parent ! i)) = (\<lambda>i. m (parent ! i) \<and> m' (parent ! i))" using assms by blast
  then show ?thesis by (simp add: matching_def)
qed

lemma fv_step_shows:
  assumes "fv_ok parent v" "fv_step e parent v = Some (parent', r)" "fv_shows parent v" "orderly parent v e"
  shows "fv_shows parent' (fst r)"
proof (cases e)
  case (Parent s)
  show ?thesis
  proof (cases s)
    case (Added i d)
    then show ?thesis
      using assms Filtered_add_shows [OF assms(1) _ assms(3), of i d] by (auto simp: Parent split: if_splits)
  next
    case (Removed i d)
    then show ?thesis
      using assms Filtered_remove_shows [OF assms(1) _ assms(3), of i d] by (auto simp: Parent split: if_splits)
  next
    case (Modified i d)
    then show ?thesis
      using assms Filtered_modify_shows [OF assms(1) _ assms(3), of i d]
      by (auto simp: Parent split: if_splits)
  next
    case Quiescent
    then show ?thesis using assms parentQuiescent_shows [OF assms(1,3)] by (auto simp: Parent)
  qed
next
  case FillTimer
  then show ?thesis
    using assms fillViewCb_shows [OF assms(1,3)] by (auto simp: fill_timer_def split: if_splits prod.splits)
next
  case (Refine quiescent f)
  have step: "fv_step (Refine quiescent f) parent v = Some (parent', r)" using assms(2) by (simp add: Refine)
  obtain w where w: "fv_ok parent w" "fv_filter w = f\<lparr>if_maxResults := if_maxResults (fv_filter v)\<rparr>"
    "fv_local2parent w = filter (\<lambda>p. if_matches f (parent ! p)) (fv_local2parent v)"
    "fv_fillViewOnIdle w \<longleftrightarrow> fv_fillViewOnIdle v \<or> fv_local2parent w \<noteq> fv_local2parent v"
    "fst r = (if quiescent then fst (parentQuiescent parent w) else w)" "parent' = parent"
    using replaceFilter_refine [OF assms(1) step, of thesis] by blast
  obtain z where z: "wanted parent v = fv_local2parent v @ z" "increasing (fv_local2parent v @ z)"
    "\<forall>k < length (fv_local2parent v). isIncluded (fv_filter v) k"
    "fv_fillViewOnIdle v \<or> isFull (fv_local2parent v) (fv_filter v) \<or> z = []"
    using fv_showsE [OF assms(3), of thesis] by blast
  have inc: "isIncluded (f\<lparr>if_maxResults := if_maxResults (fv_filter v)\<rparr>) k \<longleftrightarrow> isIncluded (fv_filter v) k" for k
    by (simp add: isIncluded_def)
  have "length (fv_local2parent w) \<le> length (fv_local2parent v)" by (simp add: w(3))
  then have "fv_shows parent w"
    using assms(4) z(3,4) w(4)
    by (intro fv_showsI [where z = "filter (\<lambda>p. if_matches f (parent ! p)) z"])
      (auto simp: Refine w(2) w(3) [symmetric] matching_narrow [of "if_matches f" "if_matches (fv_filter v)"] z(1)
        isFull_def inc)
  then show ?thesis using parentQuiescent_shows [OF w(1)] w by simp
qed

lemma fv_history_shows:
  "fv_history orderly f parent v sent \<Longrightarrow> fv_shows parent v"
proof (induction rule: fv_history.induct)
  case (start parent v sent)
  have "within (FilteredView f)" "fv_ok parent (FilteredView f)"
    by (simp_all add: within_def FilteredView_def fv_ok_def)
  then have "within v"
    using start fill_loop_within [of parent "FilteredView f" 0]
    by (simp add: Filtered_doStart_def FilteredView_def)
  then show ?case
    using fv_start_ok(2-4) [of parent f] start by (simp add: fv_shows_def)
next
  case (step parent v sent e parent' v' new)
  then show ?case
    using fv_step_shows [of parent v e parent' "(v', new)"] fv_history_mirrors [OF step.hyps(1)] by simp
qed

text \<open>Without a maximum a view always shows all matching contacts.\<close>

definition exact :: "'d list \<Rightarrow> 'd filtered_view \<Rightarrow> bool" where
  "exact parent v \<longleftrightarrow> if_maxResults (fv_filter v) = - 1 \<and> fv_local2parent v = wanted parent v"

lemma included: "if_maxResults f = - 1 \<Longrightarrow> isIncluded f k"
  by (simp add: isIncluded_def)

lemma exact_add:
  assumes "fv_ok parent v" "exact parent v" "p \<le> length parent"
  shows "exact (ins p d parent) (fst (Filtered_addIndividual (ins p d parent) p d v))"
proof -
  obtain front rear where fr: "fv_local2parent v = front @ rear" "increasing front" "increasing rear"
      "\<forall>i \<in> set front. i < p" "\<forall>i \<in> set rear. p \<le> i" "insertion_point (fv_local2parent v) p = length front"
    using split_at_index [of "fv_local2parent v" p thesis] assms(1) unfolding fv_ok_def by blast
  show ?thesis
    using assms(2) split_filter [OF fr(1,4,5)]
    by (auto simp: exact_def Filtered_add_cases [OF fr(1,6)] matching_ins [OF assms(3)] included)
qed

lemma exact_remove:
  assumes "fv_ok parent v" "exact parent v" "p < length parent"
  shows "exact (del p parent) (fst (Filtered_removeIndividual p d v))"
proof (cases "p \<in> set (fv_local2parent v)")
  case True
  obtain front rear where fr: "fv_local2parent v = front @ p # rear" "increasing front" "increasing rear"
    "\<forall>i \<in> set front. i < p" "\<forall>i \<in> set rear. p < i" "lower_bound (<) (fv_local2parent v) p = length front"
    using split_at_entry [OF assms(1) True, of thesis] by blast
  have "wanted parent v = front @ p # rear" "if_maxResults (fv_filter v) = - 1"
    using assms(2) fr(1) by (simp_all add: exact_def)
  moreover have "filter (\<lambda>i. i < p) (front @ p # rear) = front" "filter (\<lambda>i. p < i) (front @ p # rear) = rear"
    using fr(4,5) by (auto simp: filter_id_conv filter_empty_conv not_less)
  ultimately show ?thesis
    by (simp add: exact_def fr(1) Filtered_remove_entry [OF fr(1,6)] fillView_def matching_del [OF assms(3)])
next
  case False
  obtain front rear where fr: "fv_local2parent v = front @ rear" "increasing front" "increasing rear"
    "\<forall>i \<in> set front. i < p" "\<forall>i \<in> set rear. p < i" "lower_bound (<) (fv_local2parent v) p = length front"
    using split_at_gap [OF assms(1) False, of thesis] by blast
  have "wanted parent v = front @ rear" "if_maxResults (fv_filter v) = - 1"
    using assms(2) fr(1) by (simp_all add: exact_def)
  moreover have "filter (\<lambda>i. i < p) (front @ rear) = front" "filter (\<lambda>i. p < i) (front @ rear) = rear"
    using fr(4,5) by (auto simp: filter_id_conv filter_empty_conv not_less)
  ultimately show ?thesis
    by (simp add: exact_def fr(1) Filtered_remove_gap [OF fr(1,5,6)] matching_del [OF assms(3)])
qed

lemma exact_modify:
  assumes "fv_ok parent v" "exact parent v" "p < length parent"
  shows "exact (parent[p := d]) (fst (Filtered_modifyIndividual p d v))"
proof (cases "p \<in> set (fv_local2parent v)")
  case True
  obtain front rear where fr: "fv_local2parent v = front @ p # rear" "increasing front" "increasing rear"
    "\<forall>i \<in> set front. i < p" "\<forall>i \<in> set rear. p < i" "lower_bound (<) (fv_local2parent v) p = length front"
    using split_at_entry [OF assms(1) True, of thesis] by blast
  have "wanted parent v = front @ p # rear" "if_maxResults (fv_filter v) = - 1"
    using assms(2) fr(1) by (simp_all add: exact_def)
  moreover have "filter (\<lambda>i. i < p) (front @ p # rear) = front" "filter (\<lambda>i. p < i) (front @ p # rear) = rear"
    using fr(4,5) by (auto simp: filter_id_conv filter_empty_conv not_less)
  ultimately show ?thesis
    by (simp add: exact_def fr(1) Filtered_modify_entry [OF fr(1,6)] fillView_def matching_update [OF assms(3)])
next
  case False
  obtain front rear where fr: "fv_local2parent v = front @ rear" "increasing front" "increasing rear"
    "\<forall>i \<in> set front. i < p" "\<forall>i \<in> set rear. p < i" "lower_bound (<) (fv_local2parent v) p = length front"
    using split_at_gap [OF assms(1) False, of thesis] by blast
  have "wanted parent v = front @ rear" "if_maxResults (fv_filter v) = - 1"
    using assms(2) fr(1) by (simp_all add: exact_def)
  moreover have "filter (\<lambda>i. i < p) (front @ rear) = front" "filter (\<lambda>i. p < i) (front @ rear) = rear"
    using fr(4,5) by (auto simp: filter_id_conv filter_empty_conv not_less)
  ultimately show ?thesis
    by (simp add: exact_def fr(1) Filtered_modify_gap [OF fr(1,5,6)] matching_update [OF assms(3)] included)
qed

lemma exact_fill:
  assumes "fv_ok parent v" "exact parent v"
  shows "exact parent (fst (fillViewCb parent v))"
  using fillViewCb_ok(2,3) [OF assms(1)] assms(2) by (simp add: exact_def settled_def isFull_def included)

lemma exact_quiescent:
  assumes "fv_ok parent v" "exact parent v"
  shows "exact parent (fst (parentQuiescent parent v))"
  using exact_fill [OF assms] assms(2) by (auto simp: parentQuiescent_def exact_def split: prod.splits)

lemma exact_step:
  assumes "fv_ok parent v" "fv_step e parent v = Some (parent', r)" "exact parent v" "narrowing parent v e"
  shows "exact parent' (fst r)"
proof (cases e)
  case (Parent s)
  show ?thesis
  proof (cases s)
    case (Added i d)
    then show ?thesis using assms exact_add [OF assms(1,3), of i d] by (auto simp: Parent split: if_splits)
  next
    case (Removed i d)
    then show ?thesis using assms exact_remove [OF assms(1,3), of i d] by (auto simp: Parent split: if_splits)
  next
    case (Modified i d)
    then show ?thesis using assms exact_modify [OF assms(1,3), of i d] by (auto simp: Parent split: if_splits)
  next
    case Quiescent
    then show ?thesis using assms exact_quiescent [OF assms(1,3)] by (auto simp: Parent)
  qed
next
  case FillTimer
  then show ?thesis
    using assms exact_fill [OF assms(1,3)] by (auto simp: fill_timer_def exact_def split: if_splits prod.splits)
next
  case (Refine quiescent f)
  have step: "fv_step (Refine quiescent f) parent v = Some (parent', r)" using assms(2) by (simp add: Refine)
  obtain w where w: "fv_ok parent w" "fv_filter w = f\<lparr>if_maxResults := if_maxResults (fv_filter v)\<rparr>"
    "fv_local2parent w = filter (\<lambda>p. if_matches f (parent ! p)) (fv_local2parent v)"
    "fv_fillViewOnIdle w \<longleftrightarrow> fv_fillViewOnIdle v \<or> fv_local2parent w \<noteq> fv_local2parent v"
    "fst r = (if quiescent then fst (parentQuiescent parent w) else w)" "parent' = parent"
    using replaceFilter_refine [OF assms(1) step, of thesis] by blast
  have "exact parent w"
    using assms(3,4) by (simp add: exact_def w(2,3) Refine matching_narrow [of "if_matches f" "if_matches (fv_filter v)"])
  then show ?thesis using exact_quiescent [OF w(1)] w by simp
qed

lemma fv_history_exact:
  assumes "fv_history narrowing f parent v sent" "if_maxResults f = - 1"
  shows "exact parent v"
  using assms
proof (induction rule: fv_history.induct)
  case (start parent v sent)
  then show ?case
    using fv_start_ok(2,4) [of parent f] by (simp add: exact_def settled_def isFull_def included)
next
  case (step parent v sent e parent' v' new)
  then show ?case
    using exact_step [of parent v e parent' "(v', new)"] fv_history_mirrors [OF step.hyps(1)] by simp
qed

lemma fill_loop_filter: "fv_filter (fst (fill_loop parent c v)) = fv_filter v"
proof (induction parent c v rule: fill_loop.induct)
  case (1 parent c v)
  show ?case
  proof (cases "\<not> isFull (fv_local2parent v) (fv_filter v) \<and> c < length parent")
    case True
    then show ?thesis
      using 1 [OF True refl prod.collapse] Filtered_add_frame(1) [of parent c "parent ! c" v]
      by (subst fill_loop.simps) (simp add: split_def Let_def)
  next
    case False
    then show ?thesis by (subst fill_loop.simps) (simp only: if_False fst_conv)
  qed
qed

lemma parentQuiescent_filter: "fv_filter (fst (parentQuiescent parent v)) = fv_filter v"
  by (simp add: parentQuiescent_def fillViewCb_def fill_loop_filter Let_def split_def)

lemma fv_step_max:
  assumes "fv_step e parent v = Some (parent', r)"
  shows "if_maxResults (fv_filter (fst r)) = if_maxResults (fv_filter v)"
proof (cases e)
  case (Parent s)
  then show ?thesis
    using assms
    by (cases s) (auto simp: Filtered_add_frame Filtered_removeIndividual_def Filtered_modifyIndividual_def
        Let_def fillView_def parentQuiescent_filter split: if_splits)
next
  case FillTimer
  then show ?thesis
    using assms by (auto simp: fill_timer_def fillViewCb_def fill_loop_filter Let_def split_def split: if_splits)
next
  case (Refine quiescent f)
  then show ?thesis
    using assms
    by (auto simp: replaceFilter_def Let_def split_def fillView_def parentQuiescent_filter split: if_splits)
qed

lemma fv_history_max: "fv_history C f parent v sent \<Longrightarrow> if_maxResults (fv_filter v) = if_maxResults f"
proof (induction rule: fv_history.induct)
  case (start parent v sent)
  then show ?case using fv_start_ok(2) [of parent f] by simp
next
  case (step parent v sent e parent' v' new)
  then show ?case using fv_step_max [of e parent v parent' "(v', new)"] by simp
qed

lemmas fv_eval =
  Filtered_doStart_def FilteredView_def fill_loop.simps Filtered_addIndividual_def Filtered_removeIndividual_def
  Filtered_modifyIndividual_def insertion_point_def lower_bound_def lower_bound_loop.simps isFull_def isIncluded_def
  ins_def del_def fillView_def parentQuiescent_def fillViewCb_def



text \<open>
  C24: A search view with a limit. As long as no contact is added behind the end of a view that waits to be
  filled up, and no modification brings a contact into a full view, the view shows the first of the
  matching contacts, no more than the limit, and exactly as many as there are up to the limit once no
  filling is pending.
\<close>

theorem filtered_view_limited:
  assumes "fv_history orderly f parent v sent" and "0 \<le> if_maxResults f" and "if_maxResults f < 2 ^ 31"
  shows "let found = filter (if_matches (fv_filter v)) parent; n = length (fv_local2parent v) in
           replay sent [] = Some (take n found) \<and> int n \<le> if_maxResults f \<and>
           (fv_fillViewOnIdle v \<or> replay sent [] = Some (take (nat (if_maxResults f)) found))"
proof -
  let ?l = "fv_local2parent v" and ?found = "filter (if_matches (fv_filter v)) parent"
  have inc: "isIncluded (fv_filter v) k \<longleftrightarrow> int k < if_maxResults f" for k
    using assms(2,3) fv_history_max [OF assms(1)] by (simp add: isIncluded_def)
  obtain z where z: "wanted parent v = ?l @ z" "\<forall>k < length ?l. isIncluded (fv_filter v) k"
      "fv_fillViewOnIdle v \<or> isFull ?l (fv_filter v) \<or> z = []"
    using fv_showsE [OF fv_history_shows [OF assms(1)], of thesis] by blast
  have found: "?found = map (nth parent) (?l @ z)"
    using matching_content [of parent "if_matches (fv_filter v)"] by (simp add: z(1))
  have le: "int (length ?l) \<le> if_maxResults f"
    using z(2) inc assms(2) by (cases "length ?l") auto
  moreover have "replay sent [] = Some (take (length ?l) ?found)"
    using fv_history_mirrors [OF assms(1)] by (simp add: found content_def)
  moreover have "take (length ?l) ?found = take (nat (if_maxResults f)) ?found" if "\<not> fv_fillViewOnIdle v"
    using z(3) that le inc [of "length ?l"] by (auto simp: isFull_def found)
  ultimately show ?thesis by (simp add: Let_def) metis
qed

theorem filtered_view_limited_witness:
  "replay [Added 0 12, Added 1 14, Removed 0 12, Added 1 (16::nat), Quiescent] [] =
     Some (take 2 (filter even [14, 16, 18]))"
proof -
  let ?f = "\<lparr>if_matches = even, if_maxResults = 2\<rparr> :: nat individual_filter"
  have a: "Filtered_doStart [12, 14, 16, 18] (FilteredView ?f) =
      (\<lparr>fv_filter = ?f, fv_local2parent = [0, 1], fv_fillViewOnIdle = False\<rparr>, [Added 0 12, Added 1 14])"
    by (simp add: fv_eval)
  have b: "fv_step (Parent (Removed 0 12)) [12, 14, 16, 18]
        \<lparr>fv_filter = ?f, fv_local2parent = [0, 1], fv_fillViewOnIdle = False\<rparr> =
      Some ([14, 16, 18], \<lparr>fv_filter = ?f, fv_local2parent = [0], fv_fillViewOnIdle = True\<rparr>, [Removed 0 12])"
    by (simp add: fv_eval)
  have c: "fv_step (Parent Quiescent) [14, 16, 18] \<lparr>fv_filter = ?f, fv_local2parent = [0], fv_fillViewOnIdle = True\<rparr> =
      Some ([14, 16, 18], \<lparr>fv_filter = ?f, fv_local2parent = [0, 1], fv_fillViewOnIdle = False\<rparr>, [Added 1 16, Quiescent])"
    by (simp add: fv_eval)
  have "fv_history orderly ?f [14, 16, 18] \<lparr>fv_filter = ?f, fv_local2parent = [0, 1], fv_fillViewOnIdle = False\<rparr>
      (([Added 0 12, Added 1 14] @ [Removed 0 12]) @ [Added 1 16, Quiescent])"
    by (rule fv_history.step [OF fv_history.step [OF fv_history.start [OF a] _ b] _ c]) simp_all
  from filtered_view_limited [OF this] show ?thesis by (simp add: Let_def)
qed

section \<open>Where the code does not keep its promise\<close>

lemmas morph_eval =
  replaceFilter_def rebuild_loop.simps morph_signals_def lcs_def lcs_trace.simps lcs_table_def lcs_cell_def
  accessor_sequence_cost_def add_cost_def List.product.simps upt_rec added_loop_def removed_loop_def

text \<open>
  Replacing the search by a less specific one: the indices of the longest common subsequence count from
  1, not from 0, so that the new entry behind the only common one is not announced, and the view keeps
  its old filter for later changes.
\<close>

lemma replaced_search_silent:
  assumes "f = \<lparr>if_matches = (\<lambda>d. d = 0), if_maxResults = - 1\<rparr>" "g = \<lparr>if_matches = (\<lambda>_. True), if_maxResults = - 1\<rparr>"
  shows "replaceFilter False [0, 1 :: nat] g False \<lparr>fv_filter = f, fv_local2parent = [0], fv_fillViewOnIdle = False\<rparr> =
    Some (None, \<lparr>fv_filter = f, fv_local2parent = [0, 1], fv_fillViewOnIdle = False\<rparr>, [])"
  by (simp add: assms morph_eval fv_eval)

text \<open>Removing the entry in front of a common one reads outside of the list of indices.\<close>

lemma replaced_search_undefined:
  assumes "f = \<lparr>if_matches = (\<lambda>_. True), if_maxResults = - 1\<rparr>" "g = \<lparr>if_matches = (\<lambda>d. d = 1), if_maxResults = - 1\<rparr>"
  shows "replaceFilter False [0, 1 :: nat] g False \<lparr>fv_filter = f, fv_local2parent = [0, 1], fv_fillViewOnIdle = False\<rparr> = None"
  by (simp add: assms morph_eval fv_eval)

text \<open>
  A contact moves from the first to the last place, which the parent announces as removed and added: the
  view takes the contact at its new place although there are matching contacts in front of it, and is
  then full, so that filling it up does not bring them in.
\<close>

lemma moved_contact_skips:
  assumes "f = \<lparr>if_matches = (\<lambda>_. True), if_maxResults = 2\<rparr>"
  shows "fv_history (\<lambda>_ _ _. True) f [2, 3, 4, 5 :: nat] \<lparr>fv_filter = f, fv_local2parent = [0, 3], fv_fillViewOnIdle = False\<rparr>
    [Added 0 1, Added 1 2, Removed 0 1, Added 1 5, Quiescent]"
proof -
  have a: "Filtered_doStart [1, 2, 3, 4] (FilteredView f) =
      (\<lparr>fv_filter = f, fv_local2parent = [0, 1], fv_fillViewOnIdle = False\<rparr>, [Added 0 1, Added 1 2])"
    by (simp add: assms fv_eval)
  have b: "fv_step (Parent (Removed 0 1)) [1, 2, 3, 4] \<lparr>fv_filter = f, fv_local2parent = [0, 1], fv_fillViewOnIdle = False\<rparr> =
      Some ([2, 3, 4], \<lparr>fv_filter = f, fv_local2parent = [0], fv_fillViewOnIdle = True\<rparr>, [Removed 0 1])"
    by (simp add: assms fv_eval)
  have c: "fv_step (Parent (Added 3 5)) [2, 3, 4] \<lparr>fv_filter = f, fv_local2parent = [0], fv_fillViewOnIdle = True\<rparr> =
      Some ([2, 3, 4, 5], \<lparr>fv_filter = f, fv_local2parent = [0, 3], fv_fillViewOnIdle = True\<rparr>, [Added 1 5])"
    by (simp add: assms fv_eval)
  have d: "fv_step (Parent Quiescent) [2, 3, 4, 5] \<lparr>fv_filter = f, fv_local2parent = [0, 3], fv_fillViewOnIdle = True\<rparr> =
      Some ([2, 3, 4, 5], \<lparr>fv_filter = f, fv_local2parent = [0, 3], fv_fillViewOnIdle = False\<rparr>, [Quiescent])"
    by (simp add: assms fv_eval)
  show ?thesis
    using fv_history.step [OF fv_history.step [OF fv_history.step [OF fv_history.start [OF a] _ b] _ c] _ d]
    by simp
qed

text \<open>A contact that starts to match is inserted into a full view, which then has more entries than its limit.\<close>

lemma modified_contact_exceeds:
  assumes "f = \<lparr>if_matches = (\<lambda>d. 0 < d), if_maxResults = 1\<rparr>"
  shows "Filtered_modifyIndividual 0 (3 :: nat) \<lparr>fv_filter = f, fv_local2parent = [1], fv_fillViewOnIdle = False\<rparr> =
    (\<lparr>fv_filter = f, fv_local2parent = [0, 1], fv_fillViewOnIdle = False\<rparr>, [Added 0 3])"
  by (simp add: assms fv_eval)

end
