(* ===== verification/View_Resource.thy ===== *)
theory View_Resource
  imports Contact_View
begin

text \<open>
  \<open>ViewResource\<close> (src/src/dbus/server/pim/manager.cpp): connects a view to the agent of a D-Bus client.
  Change signals of the view are merged as long as nothing is sent; what is sent are calls of the
  agent with the start and the IDs of a range of contacts.
\<close>

section \<open>The resource\<close>

datatype view_call = ContactsModified | ContactsAdded | ContactsRemoved

datatype agent_message = Call view_call nat "string list" | AgentQuiescent

record change =
  ch_start :: nat
  ch_ids :: "string list"
  ch_call :: "view_call option"

record view_resource =
  vr_pendingChange :: change
  vr_lastChange :: change

type_synonym resource_result = "view_resource \<times> agent_message list"

definition ViewResource :: view_resource where
  "ViewResource =
     (let none = \<lparr>ch_start = 0, ch_ids = [], ch_call = None\<rparr>
      in \<lparr>vr_pendingChange = none, vr_lastChange = none\<rparr>)"

definition flushChanges :: "view_resource \<Rightarrow> resource_result" where
  "flushChanges r =
     (let pending = vr_pendingChange r
      in if ch_ids pending \<noteq> []
         then (r\<lparr>vr_lastChange := pending, vr_pendingChange := pending\<lparr>ch_ids := []\<rparr>\<rparr>,
               case ch_call pending of None \<Rightarrow> [] | Some call \<Rightarrow> [Call call (ch_start pending) (ch_ids pending)])
         else (r, []))"

text \<open>The attempt to extend the pending change by one of the same kind.\<close>

definition extend_change :: "view_call \<Rightarrow> nat \<Rightarrow> string \<Rightarrow> change \<Rightarrow> change option" where
  "extend_change call start cid p =
     (let pendingCount = length (ch_ids p)
      in case call of
           ContactsModified \<Rightarrow>
             if start + 1 = ch_start p
             then Some (p\<lparr>ch_ids := cid # ch_ids p, ch_start := ch_start p - 1\<rparr>)
             else if start = ch_start p + pendingCount
             then Some (p\<lparr>ch_ids := ch_ids p @ [cid]\<rparr>)
             else if start \<ge> ch_start p \<and> start < ch_start p + pendingCount
             then Some (p\<lparr>ch_ids := (ch_ids p)[start - ch_start p := cid]\<rparr>)
             else None
         | ContactsAdded \<Rightarrow>
             if start \<ge> ch_start p
             then (let end' = ch_start p + pendingCount
                   in if start = end' then Some (p\<lparr>ch_ids := ch_ids p @ [cid]\<rparr>)
                      else if start < end' then Some (p\<lparr>ch_ids := ins (start - ch_start p) cid (ch_ids p)\<rparr>)
                      else None)
             else if start + 1 = ch_start p
             then Some (p\<lparr>ch_start := start, ch_ids := cid # ch_ids p\<rparr>)
             else None
         | ContactsRemoved \<Rightarrow>
             if start = ch_start p then Some (p\<lparr>ch_ids := ch_ids p @ [cid]\<rparr>)
             else if start + 1 = ch_start p then Some (p\<lparr>ch_start := start, ch_ids := cid # ch_ids p\<rparr>)
             else None)"

definition handleChange :: "view_call \<Rightarrow> nat \<Rightarrow> string \<Rightarrow> view_resource \<Rightarrow> resource_result" where
  "handleChange call start cid r =
     (let p = vr_pendingChange r; last' = vr_lastChange r;
          remember = (\<lambda>r. r\<lparr>vr_pendingChange := \<lparr>ch_start = start, ch_ids = [cid], ch_call = Some call\<rparr>\<rparr>)
      in if ch_ids p = []
         then (if ch_call last' = Some ContactsModified \<and> call = ContactsModified \<and>
                  start \<ge> ch_start last' \<and> start < ch_start last' + length (ch_ids last')
               then (r, [])
               else (remember r, []))
         else case (if ch_call p = Some call then extend_change call start cid p else None) of
           Some p \<Rightarrow> (r\<lparr>vr_pendingChange := p\<rparr>, [])
         | None \<Rightarrow>
             if ch_call p = Some ContactsRemoved \<and> call = ContactsAdded \<and> start = ch_start p \<and> ch_ids p = [cid]
             then (r\<lparr>vr_pendingChange := p\<lparr>ch_call := Some ContactsModified\<rparr>\<rparr>, [])
             else (let (r, sent) = flushChanges r in (remember r, sent)))"

definition quiescent :: "view_resource \<Rightarrow> resource_result" where
  "quiescent r = (let (r, sent) = flushChanges r in (r, sent @ [AgentQuiescent]))"

text \<open>The slots of the view, with the ID of the contact.\<close>

fun view_changed :: "string view_signal \<Rightarrow> view_resource \<Rightarrow> resource_result" where
  "view_changed (Added start cid) r = handleChange ContactsAdded start cid r"
| "view_changed (Removed start cid) r = handleChange ContactsRemoved start cid r"
| "view_changed (Modified start cid) r = handleChange ContactsModified start cid r"
| "view_changed Quiescent r = quiescent r"

text \<open>\<open>readContacts\<close> on the IDs of the contacts of the view.\<close>

definition Resource_readContacts ::
  "string list \<Rightarrow> string list \<Rightarrow> view_resource \<Rightarrow> (int \<times> string option) list \<times> resource_result" where
  "Resource_readContacts contacts ids r =
     (if ids = [] then ([], r, [])
      else (let (r, sent) = flushChanges r;
                found = View_readContacts contacts ids;
                last' = vr_lastChange r;
                modifiedCount = length (ch_ids last')
            in (found,
                if ch_call last' = Some ContactsModified \<and> modifiedCount \<noteq> 0 \<and>
                   (\<exists>entry \<in> set found. int (ch_start last') \<le> fst entry \<and> fst entry < int (ch_start last' + modifiedCount))
                then r\<lparr>vr_lastChange := last'\<lparr>ch_ids := []\<rparr>\<rparr>
                else r,
                sent)))"

section \<open>The agent\<close>

text \<open>
  A client that keeps the IDs of the contacts as the documentation of the interface describes it
  (src/src/dbus/server/pim/pim-manager-api.txt): \<open>None\<close> when a call does not fit.
\<close>

fun agent1 :: "agent_message \<Rightarrow> string list \<Rightarrow> string list option" where
  "agent1 (Call ContactsAdded start ids) xs =
     (if start \<le> length xs then Some (take start xs @ ids @ drop start xs) else None)"
| "agent1 (Call ContactsRemoved start ids) xs =
     (if start + length ids \<le> length xs then Some (take start xs @ drop (start + length ids) xs) else None)"
| "agent1 (Call ContactsModified start ids) xs =
     (if start + length ids \<le> length xs then Some (take start xs @ ids @ drop (start + length ids) xs) else None)"
| "agent1 AgentQuiescent xs = Some xs"

fun agent :: "agent_message list \<Rightarrow> string list \<Rightarrow> string list option" where
  "agent [] xs = Some xs"
| "agent (m # ms) xs = (case agent1 m xs of None \<Rightarrow> None | Some ys \<Rightarrow> agent ms ys)"

lemma agent_append [simp]:
  "agent (ms @ ns) xs = (case agent ms xs of None \<Rightarrow> None | Some ys \<Rightarrow> agent ns ys)"
  by (induction ms arbitrary: xs) (auto split: option.splits)

text \<open>The messages of the pending change.\<close>

definition pending_messages :: "view_resource \<Rightarrow> agent_message list" where
  "pending_messages r = snd (flushChanges r)"

text \<open>
  The signals that the resource handles right: a modification does not replace a contact by another one,
  which the view documents, and a contact is not added directly in front of contacts whose addition is
  pending.
\<close>

definition mergeable :: "string list \<Rightarrow> string view_signal \<Rightarrow> view_resource \<Rightarrow> bool" where
  "mergeable contacts s r \<longleftrightarrow>
     (case s of
        Added start cid \<Rightarrow>
          \<not> (ch_ids (vr_pendingChange r) \<noteq> [] \<and> ch_call (vr_pendingChange r) = Some ContactsAdded \<and>
             start + 1 = ch_start (vr_pendingChange r))
      | Modified start cid \<Rightarrow> contacts ! start = cid
      | _ \<Rightarrow> True)"

section \<open>Merging\<close>

fun signal_of :: "view_call \<Rightarrow> nat \<Rightarrow> string \<Rightarrow> string view_signal" where
  "signal_of ContactsAdded start cid = Added start cid"
| "signal_of ContactsRemoved start cid = Removed start cid"
| "signal_of ContactsModified start cid = Modified start cid"

lemma single_change: "agent1 (Call call start [cid]) xs = replay1 (signal_of call start cid) xs"
  by (cases call) (auto simp: ins_def del_def upd_conv_take_nth_drop Suc_le_eq)

lemma agent_Added:
  "agent1 (Call ContactsAdded start ids) xs = Some ys \<longleftrightarrow>
   (\<exists>a b. xs = a @ b \<and> length a = start \<and> ys = a @ ids @ b)"
  by (auto simp: min_absorb2) (metis append_take_drop_id length_take min_absorb2)

lemma split_range:
  assumes "start + n \<le> length xs"
  obtains a m b where "xs = a @ m @ b" "length a = start" "length m = n"
proof (rule that)
  show "xs = take start xs @ take n (drop start xs) @ drop n (drop start xs)"
    by (simp only: append_take_drop_id)
qed (use assms in simp_all)

lemma agent_Removed:
  "agent1 (Call ContactsRemoved start ids) xs = Some ys \<longleftrightarrow>
   (\<exists>a m b. xs = a @ m @ b \<and> length a = start \<and> length m = length ids \<and> ys = a @ b)"
proof
  assume call: "agent1 (Call ContactsRemoved start ids) xs = Some ys"
  then obtain a m b where "xs = a @ m @ b" "length a = start" "length m = length ids"
    using split_range [of start "length ids" xs thesis] by (auto split: if_splits)
  moreover from this have "ys = a @ b" using call by auto
  ultimately show "\<exists>a m b. xs = a @ m @ b \<and> length a = start \<and> length m = length ids \<and> ys = a @ b" by blast
qed auto

lemma agent_Modified:
  "agent1 (Call ContactsModified start ids) xs = Some ys \<longleftrightarrow>
   (\<exists>a m b. xs = a @ m @ b \<and> length a = start \<and> length m = length ids \<and> ys = a @ ids @ b)"
proof
  assume call: "agent1 (Call ContactsModified start ids) xs = Some ys"
  then obtain a m b where "xs = a @ m @ b" "length a = start" "length m = length ids"
    using split_range [of start "length ids" xs thesis] by (auto split: if_splits)
  moreover from this have "ys = a @ ids @ b" using call by auto
  ultimately show "\<exists>a m b. xs = a @ m @ b \<and> length a = start \<and> length m = length ids \<and> ys = a @ ids @ b" by blast
qed auto

text \<open>Extending a pending change has the effect of both changes, one after the other.\<close>

lemma extend_added:
  assumes "extend_change ContactsAdded start cid p = Some p'"
    "agent1 (Call ContactsAdded (ch_start p) (ch_ids p)) xs = Some ys" "start + 1 \<noteq> ch_start p"
  shows "agent1 (Call ContactsAdded (ch_start p') (ch_ids p')) xs = replay1 (Added start cid) ys"
proof -
  obtain a b where ab: "xs = a @ b" "length a = ch_start p" "ys = a @ ch_ids p @ b"
    using assms(2) unfolding agent_Added by blast
  have "ch_start p \<le> start" "start \<le> ch_start p + length (ch_ids p)"
    and p': "p' = p\<lparr>ch_ids := ins (start - ch_start p) cid (ch_ids p)\<rparr>"
    using assms(1,3) by (auto simp: extend_change_def Let_def split: if_splits)
  then show ?thesis using ab by (simp add: ins_def)
qed

lemma extend_removed:
  assumes "extend_change ContactsRemoved start cid p = Some p'"
    "agent1 (Call ContactsRemoved (ch_start p) (ch_ids p)) xs = Some ys" "start < length ys"
  shows "agent1 (Call ContactsRemoved (ch_start p') (ch_ids p')) xs = replay1 (Removed start cid) ys"
proof -
  obtain a m b where ab: "xs = a @ m @ b" "length a = ch_start p" "length m = length (ch_ids p)" "ys = a @ b"
    using assms(2) unfolding agent_Removed by blast
  show ?thesis
  proof (cases "start = ch_start p")
    case True
    then obtain x b' where "b = x # b'" using assms(3) ab by (cases b) auto
    then show ?thesis
      using assms(1) True ab by (auto simp: extend_change_def Let_def del_def)
  next
    case False
    then have s: "Suc start = ch_start p" and p': "p' = p\<lparr>ch_start := start, ch_ids := cid # ch_ids p\<rparr>"
      using assms(1) by (auto simp: extend_change_def Let_def split: if_splits)
    then obtain a' x where a: "a = a' @ [x]" using ab(2) by (cases a rule: rev_cases) auto
    then have "start = length a'" using s ab(2) by simp
    then show ?thesis using ab a del_length_append [of a' x b] by (simp add: p')
  qed
qed

lemma extend_modified:
  assumes "extend_change ContactsModified start cid p = Some p'"
    "agent1 (Call ContactsModified (ch_start p) (ch_ids p)) xs = Some ys" "start < length ys"
  shows "agent1 (Call ContactsModified (ch_start p') (ch_ids p')) xs = replay1 (Modified start cid) ys"
proof -
  obtain a m b where ab: "xs = a @ m @ b" "length a = ch_start p" "length m = length (ch_ids p)" "ys = a @ ch_ids p @ b"
    using assms(2) unfolding agent_Modified by blast
  consider (front) "Suc start = ch_start p" "p' = p\<lparr>ch_ids := cid # ch_ids p, ch_start := start\<rparr>"
    | (rear) "start = ch_start p + length (ch_ids p)" "p' = p\<lparr>ch_ids := ch_ids p @ [cid]\<rparr>"
    | (mid) "ch_start p \<le> start" "start < ch_start p + length (ch_ids p)"
        "p' = p\<lparr>ch_ids := (ch_ids p)[start - ch_start p := cid]\<rparr>"
    using assms(1) by (auto simp: extend_change_def Let_def split: if_splits)
  then show ?thesis
  proof cases
    case front
    then obtain a' x where a: "a = a' @ [x]" using ab(2) by (cases a rule: rev_cases) auto
    then have "start = length a'" using front(1) ab(2) by simp
    then show ?thesis using ab a by (simp add: front(2) list_update_append)
  next
    case rear
    then obtain x b' where "b = x # b'" using assms(3) ab by (cases b) auto
    then show ?thesis using rear ab by (auto simp: list_update_append)
  next
    case mid
    then show ?thesis using ab by (auto simp: list_update_append)
  qed
qed

text \<open>The agent has the content of the view once the pending change is sent.\<close>

definition tracks :: "view_resource \<Rightarrow> string list \<Rightarrow> string list \<Rightarrow> bool" where
  "tracks r known contacts \<longleftrightarrow>
     (ch_ids (vr_pendingChange r) \<noteq> [] \<longrightarrow> ch_call (vr_pendingChange r) \<noteq> None) \<and>
     agent (pending_messages r) known = Some contacts"

lemma pending_messages_call:
  "ch_ids (vr_pendingChange r) \<noteq> [] \<Longrightarrow> ch_call (vr_pendingChange r) = Some call \<Longrightarrow>
   pending_messages r = [Call call (ch_start (vr_pendingChange r)) (ch_ids (vr_pendingChange r))]"
  by (simp add: pending_messages_def flushChanges_def Let_def)

lemma flush_tracks:
  "tracks r known contacts \<Longrightarrow>
   agent (snd (flushChanges r)) known = Some contacts \<and> tracks (fst (flushChanges r)) contacts contacts"
  by (auto simp: tracks_def pending_messages_def flushChanges_def Let_def)

lemma remember_tracks:
  "replay1 (signal_of call start cid) contacts = Some contacts' \<Longrightarrow>
   tracks (r\<lparr>vr_pendingChange := \<lparr>ch_start = start, ch_ids = [cid], ch_call = Some call\<rparr>\<rparr>) contacts contacts'"
  by (simp add: tracks_def pending_messages_call single_change)

lemma extend_tracks:
  assumes "tracks r known contacts" "ch_ids (vr_pendingChange r) \<noteq> []" "ch_call (vr_pendingChange r) = Some call"
    "extend_change call start cid (vr_pendingChange r) = Some p'"
    "replay1 (signal_of call start cid) contacts = Some contacts'" "mergeable contacts (signal_of call start cid) r"
  shows "tracks (r\<lparr>vr_pendingChange := p'\<rparr>) known contacts'"
proof -
  have p': "ch_ids p' \<noteq> []" "ch_call p' = Some call"
    using assms(2-4) by (auto simp: extend_change_def Let_def ins_def split: view_call.splits if_splits)
  have known: "agent1 (Call call (ch_start (vr_pendingChange r)) (ch_ids (vr_pendingChange r))) known = Some contacts"
    using assms(1) pending_messages_call [OF assms(2,3)] by (auto simp: tracks_def split: option.splits)
  have "agent1 (Call call (ch_start p') (ch_ids p')) known = replay1 (signal_of call start cid) contacts"
  proof (cases call)
    case ContactsAdded
    then show ?thesis
      using extend_added [of start cid "vr_pendingChange r" p' known contacts] assms known by (simp add: mergeable_def)
  next
    case ContactsRemoved
    then show ?thesis
      using extend_removed [of start cid "vr_pendingChange r" p' known contacts] assms known by (simp split: if_splits)
  next
    case ContactsModified
    then show ?thesis
      using extend_modified [of start cid "vr_pendingChange r" p' known contacts] assms known by (simp split: if_splits)
  qed
  then show ?thesis using assms(5) p' by (simp add: tracks_def pending_messages_call)
qed

lemma readded_tracks:
  assumes "tracks r known contacts" "ch_call (vr_pendingChange r) = Some ContactsRemoved"
    "ch_ids (vr_pendingChange r) = [cid]" "replay1 (Added (ch_start (vr_pendingChange r)) cid) contacts = Some contacts'"
  shows "tracks (r\<lparr>vr_pendingChange := (vr_pendingChange r)\<lparr>ch_call := Some ContactsModified\<rparr>\<rparr>) known contacts'"
proof -
  let ?s = "ch_start (vr_pendingChange r)"
  have "agent1 (Call ContactsRemoved ?s [cid]) known = Some contacts"
    using assms(1) pending_messages_call [of r ContactsRemoved] assms(2,3)
    by (auto simp: tracks_def simp del: agent1.simps split: option.splits)
  then obtain a m b where "known = a @ m @ b" "length a = ?s" "length m = 1" "contacts = a @ b"
    unfolding agent_Removed by auto
  then have "agent1 (Call ContactsModified ?s [cid]) known = Some contacts'"
    unfolding agent_Modified using assms(4) ins_length_append [of a cid b] by auto
  then show ?thesis using assms(3) by (simp add: tracks_def pending_messages_call)
qed

lemma handleChange_tracks:
  assumes "tracks r known contacts" "replay1 (signal_of call start cid) contacts = Some contacts'"
    "mergeable contacts (signal_of call start cid) r"
  shows "\<exists>known'. agent (snd (handleChange call start cid r)) known = Some known' \<and>
           tracks (fst (handleChange call start cid r)) known' contacts'"
proof (cases "ch_ids (vr_pendingChange r) = []")
  case True
  then have "known = contacts"
    using assms(1) by (simp add: tracks_def pending_messages_def flushChanges_def Let_def)
  moreover have "tracks r contacts contacts'" if "call = ContactsModified"
    using assms True that by (auto simp: tracks_def mergeable_def pending_messages_def flushChanges_def Let_def split: if_splits)
  ultimately show ?thesis
    using True remember_tracks [OF assms(2), of r] by (auto simp: handleChange_def Let_def)
next
  case False
  let ?p = "vr_pendingChange r"
  let ?e = "if ch_call ?p = Some call then extend_change call start cid ?p else None"
  show ?thesis
  proof (cases ?e)
    case (Some p')
    then show ?thesis
      using False extend_tracks [OF assms(1) False _ _ assms(2,3), of p'] by (auto simp: handleChange_def Let_def split: if_splits)
  next
    case None
    show ?thesis
    proof (cases "ch_call ?p = Some ContactsRemoved \<and> call = ContactsAdded \<and> start = ch_start ?p \<and> ch_ids ?p = [cid]")
      case True
      then show ?thesis
        using readded_tracks [OF assms(1), of cid contacts'] assms(2) by (simp add: handleChange_def Let_def)
    next
      case no: False
      then have "handleChange call start cid r =
          ((fst (flushChanges r))\<lparr>vr_pendingChange := \<lparr>ch_start = start, ch_ids = [cid], ch_call = Some call\<rparr>\<rparr>,
           snd (flushChanges r))"
        using False None by (simp only: handleChange_def Let_def if_False option.case split_def)
      then show ?thesis
        using flush_tracks [OF assms(1)] remember_tracks [OF assms(2)] by simp
    qed
  qed
qed

section \<open>Histories of a resource\<close>

text \<open>
  The resource tells the agent about the contacts that the view already has; then come signals that fit
  to the content of the view, and requests of the client.
\<close>

definition init_messages :: "string list \<Rightarrow> agent_message list" where
  "init_messages contacts = (if contacts \<noteq> [] then [Call ContactsAdded 0 contacts] else [])"

inductive vr_history :: "string list \<Rightarrow> view_resource \<Rightarrow> agent_message list \<Rightarrow> bool" where
  start: "vr_history contacts ViewResource (init_messages contacts)"
| signal: "vr_history contacts r sent \<Longrightarrow> replay1 s contacts = Some contacts' \<Longrightarrow> mergeable contacts s r \<Longrightarrow>
     view_changed s r = (r', new) \<Longrightarrow> vr_history contacts' r' (sent @ new)"
| read: "vr_history contacts r sent \<Longrightarrow> Resource_readContacts contacts ids r = (found, r', new) \<Longrightarrow>
     vr_history contacts r' (sent @ new)"

lemma quiescent_tracks:
  "tracks r known contacts \<Longrightarrow>
   agent (snd (quiescent r)) known = Some contacts \<and> tracks (fst (quiescent r)) contacts contacts"
  using flush_tracks [of r known contacts] by (simp add: quiescent_def Let_def split_def)

lemma view_changed_tracks:
  assumes "tracks r known contacts" "replay1 s contacts = Some contacts'" "mergeable contacts s r"
  shows "\<exists>known'. agent (snd (view_changed s r)) known = Some known' \<and> tracks (fst (view_changed s r)) known' contacts'"
proof (cases s)
  case (Added start cid)
  then show ?thesis using handleChange_tracks [OF assms(1), of ContactsAdded start cid contacts'] assms(2,3) by simp
next
  case (Removed start cid)
  then show ?thesis using handleChange_tracks [OF assms(1), of ContactsRemoved start cid contacts'] assms(2,3) by simp
next
  case (Modified start cid)
  then show ?thesis using handleChange_tracks [OF assms(1), of ContactsModified start cid contacts'] assms(2,3) by simp
next
  case Quiescent
  then show ?thesis using quiescent_tracks [OF assms(1)] assms(2) by auto
qed

lemma read_tracks:
  assumes "tracks r known contacts" "ids \<noteq> []"
  shows "agent (snd (snd (Resource_readContacts contacts ids r))) known = Some contacts \<and>
         tracks (fst (snd (Resource_readContacts contacts ids r))) contacts contacts"
proof -
  have "tracks (w\<lparr>vr_lastChange := c\<rparr>) contacts contacts \<longleftrightarrow> tracks w contacts contacts" for w c
    by (simp add: tracks_def pending_messages_def flushChanges_def Let_def)
  then show ?thesis
    using flush_tracks [OF assms(1)] assms(2) by (simp add: Resource_readContacts_def Let_def split_def)
qed

lemma vr_history_tracks:
  "vr_history contacts r sent \<Longrightarrow> \<exists>known. agent sent [] = Some known \<and> tracks r known contacts"
proof (induction rule: vr_history.induct)
  case (start contacts)
  show ?case
    by (auto simp: init_messages_def ViewResource_def tracks_def pending_messages_def flushChanges_def Let_def)
next
  case (signal contacts r sent s contacts' r' new)
  then show ?case using view_changed_tracks [of r _ contacts s contacts'] by fastforce
next
  case (read contacts r sent ids found r' new)
  then show ?case
    using read_tracks [of r _ contacts ids] by (cases "ids = []") (fastforce simp: Resource_readContacts_def)+
qed



section \<open>Where merging loses changes\<close>

text \<open>
  Adding a contact directly in front of contacts whose addition is pending is merged with them, although
  the contact in between stays in between: the view is c, a, b, but the agent gets c, b, a.
\<close>

lemma added_in_front_misplaced:
  "let (r, sent1) = view_changed (Added 1 ''b'') ViewResource; (r, sent2) = view_changed (Added 0 ''c'') r
   in replay [Added 1 ''b'', Added 0 ''c''] [''a''] = Some [''c'', ''a'', ''b''] \<and>
      agent (sent1 @ sent2 @ snd (quiescent r)) [''a''] = Some [''c'', ''b'', ''a'']"
  by code_simp

text \<open>
  Two contacts change places and change back, as after two changes of the sort order: the second
  modification counts as redundant, and the agent keeps the wrong IDs.
\<close>

lemma second_swap_dropped:
  "let (r, sent1) = view_changed (Modified 0 ''b'') ViewResource; (r, sent2) = view_changed (Modified 1 ''a'') r;
       (r, sent3) = quiescent r;
       (r, sent4) = view_changed (Modified 0 ''a'') r; (r, sent5) = view_changed (Modified 1 ''b'') r
   in replay [Modified 0 ''b'', Modified 1 ''a'', Modified 0 ''a'', Modified 1 ''b''] [''a'', ''b''] = Some [''a'', ''b''] \<and>
      agent (sent1 @ sent2 @ sent3 @ sent4 @ sent5 @ snd (quiescent r)) [''a'', ''b''] = Some [''b'', ''a'']"
  by code_simp

end
