(* ===== verification/Contact_Search.thy ===== *)
theory Contact_Search
  imports Full_View Filtered_View View_Resource
begin

text \<open>
  A search of a D-Bus client (\<open>Manager::doSearch\<close> in src/src/dbus/server/pim/manager.cpp): the full view,
  a filtered view on it, and the resource that tells the client's agent about its changes. Signals are
  slots that run one after the other: every signal of the full view passes through the filtered view
  and the resource before the next one is sent.
\<close>

section \<open>The composition\<close>

text \<open>
  Signals of the parent arrive at the filtered view. The parent has the content that its signals so far
  lead to; when it is sorted again it already has its final content, but modifications do not look at
  the parent.
\<close>

fun feed :: "'d list \<Rightarrow> 'd view_signal list \<Rightarrow> 'd filtered_view \<Rightarrow> 'd filtered_result option" where
  "feed parent [] fv = Some (fv, [])"
| "feed parent (s # ss) fv =
     (case fv_step (Parent s) parent fv of
        None \<Rightarrow> None
      | Some (parent', fv', out) \<Rightarrow> map_option (\<lambda>(fv, rest). (fv, out @ rest)) (feed parent' ss fv'))"

text \<open>Signals of the filtered view arrive at the resource, which handles those that are mergeable right.\<close>

fun relay :: "string list \<Rightarrow> string view_signal list \<Rightarrow> view_resource \<Rightarrow> resource_result option" where
  "relay contacts [] r = Some (r, [])"
| "relay contacts (s # ss) r =
     (if mergeable contacts s r
      then (case replay1 s contacts of
              None \<Rightarrow> None
            | Some contacts' \<Rightarrow>
                (let (r, new) = view_changed s r
                 in map_option (\<lambda>(r, rest). (r, new @ rest)) (relay contacts' ss r)))
      else None)"

lemma feed_history:
  assumes "fv_history narrowing f parent fv sent" "feed parent ss fv = Some (fv', out)" "replay ss parent = Some parent'"
  shows "fv_history narrowing f parent' fv' (sent @ out)"
  using assms
proof (induction ss arbitrary: parent fv sent out)
  case (Cons s ss)
  obtain p1 fv1 out1 where step: "fv_step (Parent s) parent fv = Some (p1, fv1, out1)"
    using Cons.prems(2) by (auto split: option.splits)
  obtain rest where rest: "feed p1 ss fv1 = Some (fv', rest)" "out = out1 @ rest"
    using Cons.prems(2) step by auto
  have "replay ss p1 = Some parent'"
    using Cons.prems(3) step by (auto split: option.splits)
  moreover have "fv_history narrowing f p1 fv1 (sent @ out1)"
    by (rule fv_history.step [OF Cons.prems(1) _ step]) simp
  ultimately show ?case using Cons.IH [of p1 fv1 "sent @ out1" rest] rest by simp
qed simp

lemma relay_history:
  assumes "vr_history contacts r sent" "relay contacts ss r = Some (r', out)" "replay ss contacts = Some contacts'"
  shows "vr_history contacts' r' (sent @ out)"
  using assms
proof (induction ss arbitrary: contacts r sent out)
  case (Cons s ss)
  obtain c1 where c1: "mergeable contacts s r" "replay1 s contacts = Some c1"
    using Cons.prems(2) by (auto split: option.splits if_splits)
  obtain r1 new where step: "view_changed s r = (r1, new)" by (cases "view_changed s r")
  obtain rest where rest: "relay c1 ss r1 = Some (r', rest)" "out = new @ rest"
    using Cons.prems(2) c1 step by auto
  have "vr_history c1 r1 (sent @ new)" by (rule vr_history.signal [OF Cons.prems(1) c1(2,1) step])
  then show ?case using Cons.IH [of c1 r1 "sent @ new" rest] rest Cons.prems(3) c1(2) by simp
qed simp

section \<open>Histories of a search\<close>

text \<open>The ID that libfolks has for a contact, and the IDs that the filtered view shows.\<close>

abbreviation contact_id :: "(nat \<Rightarrow> string) \<Rightarrow> nat \<times> 'p \<Rightarrow> string" where
  "contact_id get_id \<equiv> get_id \<circ> fst"

definition shown_ids ::
  "(nat \<Rightarrow> string) \<Rightarrow> ('q, 'p) full_view \<Rightarrow> (nat \<times> 'p) filtered_view \<Rightarrow> string list" where
  "shown_ids get_id v fv = map (contact_id get_id) (content (map visible (fu_entries v)) fv)"

text \<open>
  The search starts on a full view that runs already. Then libfolks, the user and timers act on the full
  view, the filtered view is filled or refined, and the client reads contacts. \<open>msgs\<close> are all calls of
  the agent.
\<close>

inductive search_history ::
  "('q, 'p) view_env \<Rightarrow> (nat \<Rightarrow> string) \<Rightarrow> (nat \<times> 'p) individual_filter \<Rightarrow>
   ('q, 'p) full_view \<Rightarrow> nat multiset \<Rightarrow> (nat \<times> 'p) filtered_view \<Rightarrow> view_resource \<Rightarrow> agent_message list \<Rightarrow> bool"
  for env get_id f where
  start: "fu_history env v m sent \<Longrightarrow>
     Filtered_doStart (map visible (fu_entries v)) (FilteredView f) = (fv, out) \<Longrightarrow>
     relay [] (map (map_view_signal (contact_id get_id)) out @ (if fu_isQuiescent v then [Quiescent] else [])) ViewResource = Some (r, msgs) \<Longrightarrow>
     search_history env get_id f v m fv r msgs"
| full: "search_history env get_id f v m fv r msgs \<Longrightarrow> fu_allowed env v m e \<Longrightarrow> fu_step env e v = (v', new) \<Longrightarrow>
     feed (map visible (fu_entries v)) (shown new) fv = Some (fv', out) \<Longrightarrow>
     relay (shown_ids get_id v fv) (map (map_view_signal (contact_id get_id)) out) r = Some (r', calls) \<Longrightarrow>
     search_history env get_id f v' (announced e m) fv' r' (msgs @ calls)"
| filtered: "search_history env get_id f v m fv r msgs \<Longrightarrow> e = FillTimer \<or> e = Refine (fu_isQuiescent v) g \<Longrightarrow>
     narrowing (map visible (fu_entries v)) fv e \<Longrightarrow>
     fv_step e (map visible (fu_entries v)) fv = Some (parent, fv', out) \<Longrightarrow>
     relay (shown_ids get_id v fv) (map (map_view_signal (contact_id get_id)) out) r = Some (r', calls) \<Longrightarrow>
     search_history env get_id f v m fv' r' (msgs @ calls)"
| read: "search_history env get_id f v m fv r msgs \<Longrightarrow>
     Resource_readContacts (shown_ids get_id v fv) ids r = (found, r', calls) \<Longrightarrow>
     search_history env get_id f v m fv r' (msgs @ calls)"

text \<open>The parts of a search have histories of their own.\<close>

lemma relay_mirrors:
  assumes "fv_history C f parent fv sent" "fv_history C f parent' fv' (sent @ out)"
    "vr_history (map g (content parent fv)) r msgs" "relay (map g (content parent fv)) (map (map_view_signal g) out) r = Some (r', calls)"
  shows "vr_history (map g (content parent' fv')) r' (msgs @ calls)"
proof -
  have "replay out (content parent fv) = Some (content parent' fv')"
    using fv_history_mirrors [OF assms(1)] fv_history_mirrors [OF assms(2)] by simp
  from relay_history [OF assms(3,4) replay_map [OF this]] show ?thesis .
qed

lemma search_parts:
  assumes "search_history env get_id f v m fv r msgs" "sorts env"
  shows "(\<exists>sent. fu_history env v m sent) \<and>
    (\<exists>sent. fv_history narrowing f (map visible (fu_entries v)) fv sent) \<and>
    vr_history (shown_ids get_id v fv) r msgs"
  using assms(1)
proof (induction rule: search_history.induct)
  case (start v m sent fv out r msgs)
  have fv: "fv_history narrowing f (map visible (fu_entries v)) fv out" by (rule fv_history.start [OF start(2)])
  then have "replay (map (map_view_signal (contact_id get_id)) out @ (if fu_isQuiescent v then [Quiescent] else [])) [] =
      Some (shown_ids get_id v fv)"
    using replay_map [of out "[]" _ "contact_id get_id"] fv_history_mirrors [OF fv] by (simp add: shown_ids_def)
  from relay_history [OF _ start(3) this, of "[]"] vr_history.start [of "[]"]
  have "vr_history (shown_ids get_id v fv) r msgs" by (simp add: init_messages_def)
  then show ?case using start(1) fv by blast
next
  case (full v m fv r msgs e v' new fv' out r' calls)
  obtain sent sent' where h: "fu_history env v m sent" "fv_history narrowing f (map visible (fu_entries v)) fv sent'"
    "vr_history (shown_ids get_id v fv) r msgs"
    using full.IH by blast
  have fu: "fu_history env v' (announced e m) (sent @ new)" by (rule fu_history.step [OF h(1) full(2,3)])
  have "replay (shown new) (map visible (fu_entries v)) = Some (map visible (fu_entries v'))"
    using full_view_mirrors [OF h(1) assms(2)] full_view_mirrors [OF fu assms(2)] by simp
  then have fv: "fv_history narrowing f (map visible (fu_entries v')) fv' (sent' @ out)"
    by (rule feed_history [OF h(2) full(4)])
  have "vr_history (shown_ids get_id v' fv') r' (msgs @ calls)"
    using relay_mirrors [OF h(2) fv, of "contact_id get_id" r msgs r' calls] h(3) full(5) by (simp add: shown_ids_def)
  then show ?case using fu fv by blast
next
  case (filtered v m fv r msgs e g parent fv' out r' calls)
  obtain sent sent' where h: "fu_history env v m sent" "fv_history narrowing f (map visible (fu_entries v)) fv sent'"
    "vr_history (shown_ids get_id v fv) r msgs"
    using filtered.IH by blast
  have "parent = map visible (fu_entries v)"
    using filtered(2,4) by (auto split: if_splits option.splits)
  then have fv: "fv_history narrowing f (map visible (fu_entries v)) fv' (sent' @ out)"
    using fv_history.step [OF h(2) filtered(3,4)] by simp
  have "vr_history (shown_ids get_id v fv') r' (msgs @ calls)"
    using relay_mirrors [OF h(2) fv, of "contact_id get_id" r msgs r' calls] h(3) filtered(5) by (simp add: shown_ids_def)
  then show ?case using h(1) fv by blast
next
  case (read v m fv r msgs ids found r' calls)
  then show ?case using vr_history.read [OF _ read(2)] by blast
qed



end
