(* ===== verification/Spec2Isabelle.thy ===== *)
theory Spec2Isabelle
  imports Path_Util Timespec String_Escape LCS Util_Misc Config_Names Config_Props
    Ini_Config_Node Config_Node Kv_Node Sync_Changes Tracking_Source File_Source Map_Source Source_Admin Suspend_Flags Sync_Report Log_Dir
    Cmdline_Items Auto_Sync Dbus_Relay Merge_View Contact_Search
begin

text \<open>
  SyncEvolution synchronizes personal data (contacts, calendars) between local stores and peers.
  The library (src/src/syncevo) holds the configuration, the sync sources, the driver of a sync
  session and the command line; backends (src/src/backends) implement the sources for particular
  stores; the D-Bus server (src/src/dbus/server) runs sessions for its clients and starts syncs by
  itself. This library of theories models the parts that compute something of their own, as
  executable functions on explicit states, and proves what makes them correct.

  \<^bold>\<open>How the parts interact.\<close> The command line is parsed into properties, filters and an operation.
  A configuration is stored in nodes of key/value pairs, which are read and written through
  properties with types and checks. A sync session asks every source for its items and their
  revisions and compares them with those that the last session left in a tracking node; the engine
  (libsynthesis, not part of the sources) iterates over the changes and writes items through the
  source, which keeps the tracking node in step. The session writes its report and database dumps
  to a directory of its own, and old directories are expired. Signals and requests of the user
  suspend or abort a session. In the server the sessions of clients, connections and automatic
  syncs wait in a queue and run one after the other.

  \<^bold>\<open>Conventions.\<close> Strings are lists of 8-bit characters. \<open>std::map\<close> and \<open>std::set\<close> are ordered
  association lists with the comparison of the source (theory \<open>Prelude\<close>: \<open>kfind\<close>, \<open>kput\<close>,
  \<open>kerase\<close>). A class is a record, a method a function that returns the changed record; an exception
  is the left side of a sum together with the state at that moment (\<open>step\<close>). Integers are words or
  \<open>int\<close> with the conversions of the source written out where they can overflow. What belongs to
  other code (the file system below a directory listing, the clock, random numbers, the engine's
  status codes, the backend of a source) is an argument. Statements over histories use inductive
  step relations or folds over lists of events, with every event the code can see.

  \<^bold>\<open>Utilities.\<close> (src/src/syncevo/util.cpp, util.h, Timespec.h, lcs.h)
  \<^item> \<open>Prelude\<close>: character classes, ordered containers, the locale \<open>strict_weak_order\<close> for the
    comparison objects of the containers, the result type of operations.
  \<^item> \<open>Path_Util\<close>: \<open>normalizePath\<close>, \<open>splitPath\<close>, \<open>getBasename\<close>, \<open>getDirname\<close>.
  \<^item> \<open>Timespec\<close>: time stamps with nanoseconds; which sums are normalized.
  \<^item> \<open>String_Escape\<close>: all modes of \<open>StringEscape\<close>; unescaping inverts escaping.
  \<^item> \<open>LCS\<close>: the table and the walk back of \<open>lcs.h\<close>. The result is a longest common subsequence for
    every cost function. The walk back is a partial function, proved to end.
  \<^item> \<open>Util_Misc\<close>, \<open>Decimal\<close>: hash, environment, joined strings, flags, UUID; numbers as text.

  \<^bold>\<open>Configuration.\<close> (SyncConfig.cpp, ConfigFilter.cpp, IniConfigNode.cpp, ConfigNode.h and others)
  \<^item> \<open>Config_Names\<close>: configuration names, property specifiers, identities, durations. The normal
    form of a name is a fixed point.
  \<^item> \<open>Config_Props\<close>: property sets without case and the priorities by which filters are resolved.
  \<^item> \<open>Ini_Config_Node\<close>: the nodes on .ini files, which keep comments and order
    (\<open>IniFileConfigNode\<close>), and those in memory (\<open>IniHashConfigNode\<close>), with their storage. Reading
    after writing, and reopening after flushing.
  \<^item> \<open>Config_Node\<close>: the interface and the wrappers (filter, prefix, safe, volatile, null), as records
    of operations so that they stack like the classes. \<open>Kv_Node\<close>: the locale \<open>kv_node\<close> says that a
    node is a finite map under write, remove, read and list; it is interpreted for the hash node, for
    the safe node on it and for the stack of prefix, safe and hash node that tracking sources use.
    The sources below rely on the facts of that interpretation only.
  \<^item> \<open>Config_Property\<close>: the classes of properties, their checks and conversions, with the limits of
    the C types, and the lookup in the registry.

  \<^bold>\<open>Sources.\<close> (SyncSource.cpp, TrackingSyncSource.cpp, MapSyncSource.cpp, FileSyncSource.cpp)
  \<^item> \<open>Sync_Changes\<close>: the sets of changed items, the iteration by the engine and the comparison of
    revisions (\<open>detectChanges\<close>). The loop of the engine is written with fuel; \<open>iterate_complete\<close>
    states that the number of items plus one is enough and that the iteration ends.
  \<^item> \<open>Tracking_Source\<close>: sessions of a source whose backend lists revisions. The backend is a record
    of functions; the locale \<open>item_store\<close> states what a session needs of it, and its lemmas give the
    invariant of a session and of the time between sessions. Polling of an unfinished insertion has
    fuel: enough is proved to exist when every poll makes progress.
  \<^item> \<open>File_Source\<close>: the file backend, which interprets \<open>item_store\<close>; over all histories of sessions,
    failing operations and external changes the next session reports exactly the difference. The
    search for an unused name is bounded by the number of files plus one, which always suffices;
    \<open>max_entries\<close> is the size at which the directory counts as full.
  \<^item> \<open>Map_Source\<close>: several items per entry of the store below.
  \<^item> \<open>Source_Admin\<close>: the administrative strings and the map of local and remote IDs.

  \<^bold>\<open>Sessions.\<close> (SyncML.cpp, SyncContext.cpp, SuspendFlags.cpp)
  \<^item> \<open>Sync_Modes\<close>: modes, their names and simplification, content types, status texts.
  \<^item> \<open>Sync_Report\<close>: the statistics of a session, stored in a node or as text, and read back.
  \<^item> \<open>Log_Dir\<close>: the names of session directories and their expiry. A name can be made unique with the
    sequence letters that the code has, so that fewer than 29 sessions in a minute is a hypothesis.
  \<^item> \<open>Suspend_Flags\<close>: signals and requests as a state machine; \<open>pipe_capacity\<close> is the size of the
    pipe behind which a write retries forever (the value \<open>None\<close>).

  \<^bold>\<open>Command line.\<close> (Cmdline.cpp)
  \<^item> \<open>Cmdline\<close>: parsing of all options. Accepted command lines are consistent, and the arguments that
    parsing returns are parsed again with the same result.
  \<^item> \<open>Cmdline_Items\<close>: export and import of items with a delimiter, and their round trip.

  \<^bold>\<open>D-Bus server.\<close> (server.cpp, session.cpp, client.cpp, auto-sync-manager.cpp, connection.cpp,
  dbus-transport-agent.cpp)
  \<^item> \<open>Server_Queue\<close>: sessions, the work queue, operations, references by clients, shutdown. Objects
    are numbers, shared pointers are entries of a table of references. Over all histories of
    calls, replies of the helper process and timers: one session at most is active, a waiting
    session waits for another one that has a pending end, and the queue is first in, first out.
  \<^item> \<open>Auto_Sync\<close>: the tasks of the automatic sync, on the state of \<open>Server_Queue\<close>. When it may start a
    session, and that an enabled task always has a timer or signal pending that schedules again.
  \<^item> \<open>Dbus_Connection\<close>: the connection of a peer that sends SyncML messages or notifications through a
    D-Bus client: choice of the configuration, start of a session, replies, timeouts, the life of the
    object. Over all histories it follows the protocol that the D-Bus interface describes.
  \<^item> \<open>Dbus_Relay\<close>: the transport agent in the helper process and the relay between it and the connection
    over two ordered channels. Messages and replies arrive complete and in order, and the two sides
    never wait for each other.

  \<^bold>\<open>PIM manager.\<close> (src/src/dbus/server/pim: full-view.cpp, filtered-view.cpp, merge-view.cpp, manager.cpp)
  A client searches contacts through a stack of views: the view on all contacts sorts what libfolks
  reports, a search view selects and limits, and the view resource forwards the changes to the
  client as calls with ranges of contacts. The data of libfolks, the sort order and the filter are
  arguments; the sort order has to be a strict weak order.
  \<^item> \<open>Contact_View\<close>: the signals added, modified and removed, their replay by a receiver, the
    search for the insertion point, and the reading of contacts.
  \<^item> \<open>Full_View\<close>: over all histories of changes and changes of the sort order, the contacts are sorted,
    none is lost and the signals replayed by a receiver give the same list.
  \<^item> \<open>Filtered_View\<close>: without a limit the result is exactly the part of the parent's contacts that
    matches, in their order, after every change; with a limit it is the first matching contacts
    under conditions on the signals, and lemmas show what happens without them.
  \<^item> \<open>Merge_View\<close>: the view that shows direct searches in address books until the main view is
    quiescent, and then switches to it with signals that lead from one list to the other.
  \<^item> \<open>View_Resource\<close>: the merging of pending signals into calls of the client. A client that follows
    the calls holds the contacts of the view as soon as nothing is pending.
  \<^item> \<open>Contact_Search\<close>: the composition: what the client holds is the search result on the sorted
    contacts.

  \<^bold>\<open>Not modelled.\<close>
  \<^item> The driver of libsynthesis (most of SyncContext.cpp, SynthesisEngine.cpp, the Synthesis plugin):
    what it does is determined by the engine, which is not part of the sources.
  \<^item> Transports, logging, process and GLib support: input and output through third-party code.
  \<^item> \<open>SyncConfig\<close> as a class (layouts, migration, templates), configuration trees and the
    multiplexing node: they work on directories shared by several nodes.
  \<^item> The operations of the command line on stored configurations, and the printed form of a report.
  \<^item> The other D-Bus objects, the bindings to D-Bus (templates and C macros without state of their own),
    the backends for third-party stores, and the user interfaces.
\<close>

end
